(* ===== verification/Prelude.thy ===== *)
theory Prelude
  imports Complex_Main "HOL-Library.Word"
begin

text \<open>
  The prelude of the development: the machine-integer types of the C code, the result type of
  a C function (a value, an undefined operation, or no return at all), sequencing and loops over
  that type, the proof rules the component theories share, and generic lemmas on lists and words.
\<close>

unbundle bit_operations_syntax

section \<open>Machine integers\<close>

type_synonym u8 = "8 word"
type_synonym u16 = "16 word"
type_synonym u32 = "32 word"
type_synonym s16 = "16 word"
type_synonym s32 = "32 word"

text \<open>
  A signed C integer is the word of its width; \<open>sint\<close> reads it. Conversion between widths is
  \<open>ucast\<close> from an unsigned and \<open>scast\<close> from a signed operand, as the C conversions are on a
  two's complement machine.
\<close>

text \<open>C division truncates towards zero.\<close>

definition c_div :: "int \<Rightarrow> int \<Rightarrow> int" where
  "c_div a b = sgn a * sgn b * (\<bar>a\<bar> div \<bar>b\<bar>)"

text \<open>Big-endian assembly of two received octets, \<open>(hi << 8) | lo\<close> at 16 bits.\<close>

definition be16 :: "u8 \<Rightarrow> u8 \<Rightarrow> u16" where
  "be16 hi lo = push_bit 8 (ucast hi) OR ucast lo"

section \<open>The values of machine words\<close>

lemma unat_u8_lt [simp]: "unat (x :: u8) < 256"
  using unsigned_less [of x, where 'a = nat] by simp

lemma unat_u16_lt [simp]: "unat (x :: u16) < 65536"
  using unsigned_less [of x, where 'a = nat] by simp

lemma unat_u32_lt [simp]: "unat (x :: u32) < 4294967296"
  using unsigned_less [of x, where 'a = nat] by simp

lemma unat_of_nat32 [simp]: "n < 2 ^ 32 \<Longrightarrow> unat (of_nat n :: u32) = n"
  by (simp add: unat_of_nat take_bit_nat_eq_self)

lemma unat_ucast_u16 [simp]: "unat (ucast (x :: u16) :: u32) = unat x"
  using unat_u16_lt [of x] by (simp add: unsigned_ucast_eq take_bit_nat_eq_self del: unat_u16_lt)

lemma unat_ucast_u8 [simp]: "unat (ucast (b :: u8) :: u16) = unat b" "unat (ucast b :: u32) = unat b"
proof -
  have "unat b < 2 ^ 8" using unsigned_less [of b, where 'a = nat] by simp
  then have "unat b < 2 ^ 16" "unat b < 2 ^ 32" by (simp_all add: less_trans [of "unat b" 256])
  then show "unat (ucast b :: u16) = unat b" "unat (ucast b :: u32) = unat b"
    by (simp_all add: unsigned_ucast_eq take_bit_nat_eq_self)
qed

lemma unat_plus: "unat v + unat w < 2 ^ LENGTH('a) \<Longrightarrow> unat (v + w) = unat v + unat w" for v w :: "'a::len word"
  by (simp add: unat_word_ariths)

lemma unat_shift:
  "unat v * 2 ^ n < 2 ^ LENGTH('a) \<Longrightarrow> unat (push_bit n v) = unat v * 2 ^ n" for v :: "'a::len word"
  by (simp only: unsigned_push_bit_eq) (simp add: push_bit_eq_mult take_bit_nat_eq_self)

lemma unat_drop: "unat (drop_bit n u) = unat u div 2 ^ n" for u :: "'a::len word"
  using unat_drop_bit_eq [of n u] drop_bit_eq_div [of n "unat u"] by (simp only:)

lemma unat_mask: "unat (u AND mask n) = unat u mod 2 ^ n" for u :: "'a::len word"
  by (metis take_bit_eq_mask take_bit_eq_mod unsigned_take_bit_eq)

text \<open>Disjunction of words without a common bit is their sum.\<close>

lemma or_plus: "(\<And>n. bit v n \<Longrightarrow> \<not> bit w n) \<Longrightarrow> v OR w = v + w" for v w :: "'a::len word"
  by (rule disjunctive_add [symmetric]) blast

section \<open>Results of C functions\<close>

text \<open>
  What a C function can do besides returning: reach an operation the C standard leaves undefined
  (the model stops there with a fault that says which), or never return (\<open>None\<close>).
\<close>

datatype fault = NullDeref | OutOfBounds | DivByZero | BadConversion

type_synonym ('s, 'a) prog = "'s \<Rightarrow> (fault + 'a \<times> 's) option"

definition ret :: "'a \<Rightarrow> ('s, 'a) prog" where
  "ret a s = Some (Inr (a, s))"

definition fail :: "fault \<Rightarrow> ('s, 'a) prog" where
  "fail e s = Some (Inl e)"

definition bnd :: "('s, 'a) prog \<Rightarrow> ('a \<Rightarrow> ('s, 'b) prog) \<Rightarrow> ('s, 'b) prog" where
  "bnd m f s =
     (case m s of
        None \<Rightarrow> None
      | Some (Inl e) \<Rightarrow> Some (Inl e)
      | Some (Inr (a, s')) \<Rightarrow> f a s')"

primrec block :: "('s, unit) prog list \<Rightarrow> ('s, unit) prog" where
  "block [] = ret ()"
| "block (m # ms) = bnd m (\<lambda>_. block ms)"

text \<open>
  \<open>while (c) b\<close>, where evaluating \<open>c\<close> may itself have effects (polling a device register).
  A loop that never ends is \<open>None\<close>.
\<close>

partial_function (option) while_loop ::
  "('s, bool) prog \<Rightarrow> ('s, unit) prog \<Rightarrow> ('s, unit) prog" where
  "while_loop c b s =
     (case c s of
        None \<Rightarrow> None
      | Some (Inl e) \<Rightarrow> Some (Inl e)
      | Some (Inr (t, s1)) \<Rightarrow>
          (if t then
             (case b s1 of
                None \<Rightarrow> None
              | Some (Inl e) \<Rightarrow> Some (Inl e)
              | Some (Inr (_, s2)) \<Rightarrow> while_loop c b s2)
           else Some (Inr ((), s1))))"

lemma bnd_ret [simp]: "bnd (ret a) f = f a"
  by (rule ext) (simp add: bnd_def ret_def)

lemma bnd_fail [simp]: "bnd (fail e) f = fail e"
  by (rule ext) (simp add: bnd_def fail_def)

lemma bnd_ret_right [simp]: "bnd m ret = m"
  by (rule ext) (simp add: bnd_def ret_def split: option.splits sum.splits prod.splits)

lemma bnd_assoc: "bnd (bnd m f) g = bnd m (\<lambda>a. bnd (f a) g)"
  by (rule ext) (simp add: bnd_def split: option.splits sum.splits prod.splits)

lemma bnd_Some: "m s = Some (Inr (a, s')) \<Longrightarrow> bnd m f s = f a s'"
  by (simp add: bnd_def)

lemma bnd_Inl: "m s = Some (Inl e) \<Longrightarrow> bnd m f s = Some (Inl e)"
  by (simp add: bnd_def)

lemma bnd_None: "m s = None \<Longrightarrow> bnd m f s = None"
  by (simp add: bnd_def)

lemma bnd_eq_Some_Inr:
  "bnd m f s = Some (Inr r) \<longleftrightarrow> (\<exists>a s'. m s = Some (Inr (a, s')) \<and> f a s' = Some (Inr r))"
  by (auto simp: bnd_def split: option.splits sum.splits)

lemma block_append: "block (ms @ ns) = bnd (block ms) (\<lambda>_. block ns)"
  by (induction ms) (simp_all add: bnd_assoc)

text \<open>Sequencing is continuous, so that loops can be partial functions.\<close>

lemma mono_bnd [partial_function_mono]:
  fixes m :: "('b \<Rightarrow> 'c option) \<Rightarrow> ('s, 'a) prog" and k :: "('b \<Rightarrow> 'c option) \<Rightarrow> 'a \<Rightarrow> ('s, 'd) prog"
  assumes m: "\<And>s. mono_option (\<lambda>f. m f s)" and k: "\<And>a s. mono_option (\<lambda>f. k f a s)"
  shows "mono_option (\<lambda>f. bnd (m f) (k f) s)"
proof (rule monotoneI)
  fix f g :: "'b \<Rightarrow> 'c option" assume le: "fun_ord option_ord f g"
  have m': "option_ord (m f t) (m g t)" for t using m [of t] le by (auto dest: monotoneD)
  have k': "option_ord (k f a t) (k g a t)" for a t using k [of a t] le by (auto dest: monotoneD)
  show "option_ord (bnd (m f) (k f) s) (bnd (m g) (k g) s)"
  proof (cases "m f s = None")
    case True
    then show ?thesis by (simp add: bnd_def flat_ord_def)
  next
    case False
    then have "m f s = m g s" using m' [of s] by (auto simp: flat_ord_def)
    then show ?thesis using k' unfolding bnd_def
      by (cases "m g s" rule: option.exhaust) (auto simp: flat_ord_def split: sum.split)
  qed
qed

lemma mono_if_state [partial_function_mono]:
  "mono_option (\<lambda>f. F f s) \<Longrightarrow> mono_option (\<lambda>f. G f s) \<Longrightarrow> mono_option (\<lambda>f. (if c then F f else G f) s)"
  by (cases c) simp_all

lemma mono_let_state [partial_function_mono]:
  "mono_option (\<lambda>f. F f a s) \<Longrightarrow> mono_option (\<lambda>f. (let x = a in F f x) s)"
  by simp

lemma mono_prod_state [partial_function_mono]:
  "(\<And>a b. mono_option (\<lambda>f. F f a b s)) \<Longrightarrow> mono_option (\<lambda>f. (case z of (a, b) \<Rightarrow> F f a b) s)"
  by (cases z) simp

section \<open>Contracts that every run meets\<close>

text \<open>
  \<open>valid P m Q E\<close>: a run of \<open>m\<close> from a state with \<open>P\<close> that ends, ends either with a value and a
  state related by \<open>Q\<close> or with a fault in \<open>E\<close>. The rules decompose a program along its sequencing,
  so that an invariant of the firmware and the faults it can reach are proved operation by operation.
\<close>

named_theorems valid_intro

definition valid :: "('s \<Rightarrow> bool) \<Rightarrow> ('s, 'a) prog \<Rightarrow> ('a \<Rightarrow> 's \<Rightarrow> bool) \<Rightarrow> fault set \<Rightarrow> bool" where
  "valid P m Q E \<longleftrightarrow> (\<forall>s r. P s \<longrightarrow> m s = Some r \<longrightarrow> (case r of Inl e \<Rightarrow> e \<in> E | Inr (a, s') \<Rightarrow> Q a s'))"

lemma validI:
  assumes "\<And>s e. P s \<Longrightarrow> m s = Some (Inl e) \<Longrightarrow> e \<in> E"
    and "\<And>s a s'. P s \<Longrightarrow> m s = Some (Inr (a, s')) \<Longrightarrow> Q a s'"
  shows "valid P m Q E"
  using assms by (auto simp: valid_def split: sum.split)

lemma validD:
  assumes "valid P m Q E" and "P s"
  shows "m s = Some (Inr (a, s')) \<Longrightarrow> Q a s'" and "m s = Some (Inl e) \<Longrightarrow> e \<in> E"
  using assms by (fastforce simp: valid_def)+

lemma valid_ret: "(\<And>s. P s \<Longrightarrow> Q a s) \<Longrightarrow> valid P (ret a) Q E"
  by (auto simp: valid_def ret_def)

lemma valid_bnd: "valid P m R E \<Longrightarrow> (\<And>a. valid (R a) (f a) Q E) \<Longrightarrow> valid P (bnd m f) Q E"
  unfolding valid_def bnd_def by (fastforce split: option.splits sum.splits)

lemma valid_weaken:
  "valid P m Q E \<Longrightarrow> (\<And>s. P' s \<Longrightarrow> P s) \<Longrightarrow> (\<And>a s. Q a s \<Longrightarrow> Q' a s) \<Longrightarrow> E \<subseteq> E' \<Longrightarrow> valid P' m Q' E'"
  unfolding valid_def by (fastforce split: sum.splits)

lemma valid_if [valid_intro]:
  "(b \<Longrightarrow> valid P m Q E) \<Longrightarrow> (\<not> b \<Longrightarrow> valid P n Q E) \<Longrightarrow> valid P (if b then m else n) Q E"
  by simp

lemma valid_block_Nil: "valid P (block []) (\<lambda>_. P) E"
  by (simp add: valid_ret)

lemma valid_block_Cons:
  "valid P m (\<lambda>_. R) E \<Longrightarrow> valid R (block ms) (\<lambda>_. Q) E \<Longrightarrow> valid P (block (m # ms)) (\<lambda>_. Q) E"
  by (simp add: valid_bnd)

lemma valid_block [valid_intro]:
  "(\<And>m. m \<in> set ms \<Longrightarrow> valid P m (\<lambda>_. P) E) \<Longrightarrow> valid P (block ms) (\<lambda>_. P) E"
  by (induction ms) (auto intro: valid_ret valid_bnd)

lemma valid_while:
  assumes c: "valid I c (\<lambda>t. if t then J else Q) E" and b: "valid J b (\<lambda>_. I) E"
  shows "valid I (while_loop c b) (\<lambda>_. Q) E"
proof -
  let ?ok = "\<lambda>c b s (y :: fault + unit \<times> 'a). valid I c (\<lambda>t. if t then J else Q) E \<longrightarrow> valid J b (\<lambda>_. I) E
    \<longrightarrow> I s \<longrightarrow> (case y of Inl e \<Rightarrow> e \<in> E | Inr (_, s') \<Rightarrow> Q s')"
  have "?ok c b s y" if run: "while_loop c b s = Some y" for s y
  proof (rule while_loop.raw_induct [where P = ?ok, OF _ run])
    fix w c s and b :: "('a, unit) prog" and y :: "fault + unit \<times> 'a"
    assume IH: "\<And>c b s y. w c b s = Some y \<Longrightarrow> ?ok c b s y"
      and eq: "(case c s of None \<Rightarrow> None | Some (Inl e) \<Rightarrow> Some (Inl e)
        | Some (Inr (t, s1)) \<Rightarrow>
            (if t then (case b s1 of None \<Rightarrow> None | Some (Inl e) \<Rightarrow> Some (Inl e)
               | Some (Inr (_, s2)) \<Rightarrow> w c b s2)
             else Some (Inr ((), s1)))) = Some y"
    show "?ok c b s y"
    proof (intro impI)
      assume kc: "valid I c (\<lambda>t. if t then J else Q) E" and kb: "valid J b (\<lambda>_. I) E" and I: "I s"
      consider e where "c s = Some (Inl e)" "y = Inl e" | s1 where "c s = Some (Inr (False, s1))" "y = Inr ((), s1)"
        | s1 e where "c s = Some (Inr (True, s1))" "b s1 = Some (Inl e)" "y = Inl e"
        | s1 s2 where "c s = Some (Inr (True, s1))" "b s1 = Some (Inr ((), s2))" "w c b s2 = Some y"
        using eq by (auto split: option.splits sum.splits if_splits prod.splits)
      then show "case y of Inl e \<Rightarrow> e \<in> E | Inr (_, s') \<Rightarrow> Q s'"
      proof cases
        case 1
        then show ?thesis using validD(2) [OF kc I] by simp
      next
        case 2
        then show ?thesis using validD(1) [OF kc I] by fastforce
      next
        case 3
        then have "J s1" using validD(1) [OF kc I] by fastforce
        then show ?thesis using 3 validD(2) [OF kb] by simp
      next
        case 4
        then have "J s1" using validD(1) [OF kc I] by fastforce
        then have "I s2" using 4 validD(1) [OF kb] by simp
        then show ?thesis using IH [OF 4(3)] kc kb by blast
      qed
    qed
  qed
  then show ?thesis using assms by (auto simp: valid_def split: sum.split)
qed

section \<open>Octets in memory\<close>

definition octets_at :: "(u32 \<Rightarrow> u8) \<Rightarrow> u32 \<Rightarrow> nat \<Rightarrow> u8 list" where
  "octets_at mm p n = map (\<lambda>i. mm (p + of_nat i)) [0..<n]"

lemma octets_at_Suc: "octets_at mm p (Suc n) = mm p # octets_at mm (p + 1) n"
  by (simp add: octets_at_def upt_conv_Cons map_Suc_upt [symmetric] add.assoc del: upt_Suc)

lemma octets_at_split: "n \<le> m \<Longrightarrow> octets_at mm p m = octets_at mm p n @ octets_at mm (p + of_nat n) (m - n)"
proof (induction n arbitrary: m p)
  case (Suc n)
  then obtain k where m: "m = Suc k" "n \<le> k" by (cases m) auto
  then show ?case using Suc.IH [of k "p + 1"] by (simp add: octets_at_Suc add.assoc)
qed (simp add: octets_at_def)

lemma octets_at_empty [simp]: "octets_at mm p 0 = []"
  by (simp add: octets_at_def)

section \<open>Matrices as lists of rows\<close>

text \<open>\<open>mat h w f\<close> is the \<open>h\<close> by \<open>w\<close> matrix with entry \<open>f i j\<close> at row \<open>i\<close>, column \<open>j\<close>.\<close>

definition mat :: "nat \<Rightarrow> nat \<Rightarrow> (nat \<Rightarrow> nat \<Rightarrow> 'a) \<Rightarrow> 'a list list" where
  "mat h w f = map (\<lambda>i. map (f i) [0..<w]) [0..<h]"

lemma length_mat [simp]: "length (mat h w f) = h"
  by (simp add: mat_def)

lemma nth_mat [simp]: "i < h \<Longrightarrow> mat h w f ! i = map (f i) [0..<w]"
  by (simp add: mat_def)

lemma mat_cong: "(\<And>i j. i < h \<Longrightarrow> j < w \<Longrightarrow> f i j = g i j) \<Longrightarrow> mat h w f = mat h w g"
  by (simp add: mat_def)

lemma mat_update:
  assumes "i < h" "j < w"
  shows "(mat h w f)[i := (mat h w f ! i)[j := v]]
           = mat h w (\<lambda>a b. if a = i \<and> b = j then v else f a b)"
proof (rule nth_equalityI)
  show "length ((mat h w f)[i := (mat h w f ! i)[j := v]])
      = length (mat h w (\<lambda>a b. if a = i \<and> b = j then v else f a b))"
    by simp
next
  fix a assume a: "a < length ((mat h w f)[i := (mat h w f ! i)[j := v]])"
  show "(mat h w f)[i := (mat h w f ! i)[j := v]] ! a
      = mat h w (\<lambda>a b. if a = i \<and> b = j then v else f a b) ! a"
    using a assms by (cases "a = i") (auto intro!: nth_equalityI simp: nth_list_update)
qed

lemma mat_shape: "length M = h \<Longrightarrow> (\<And>r. r \<in> set M \<Longrightarrow> length r = w) \<Longrightarrow> M = mat h w (\<lambda>i j. M ! i ! j)"
  by (auto intro!: nth_equalityI)

end
