(* ===== verification/Bus.thy ===== *)
theory Bus
  imports Prelude
begin

text \<open>
  The memory-mapped bus between the processor and its devices. C \<open>volatile\<close> accesses are the
  observable behaviour of the firmware: every read and every write of a device register is an
  event, in program order, and the value a read returns is a function of the whole history of
  events before it. Any reactive device is such a function, so nothing is assumed of the hardware
  here; what a theorem needs of it is a hypothesis of that theorem (the locales of \<open>Host_Link\<close>,
  \<open>Driver\<close> and \<open>Cnn_Algorithm\<close>).
\<close>

datatype width = W8 | W16 | W32

text \<open>An access: its width, its address and the value transferred, zero-extended.\<close>

datatype event = Rd width u32 u32 | Wr width u32 u32

text \<open>
  The world outside the firmware: what the devices answer, and which requests the C library's
  \<open>malloc\<close> can meet (\<open>heap_fits live n\<close>: \<open>n\<close> more bytes when \<open>live\<close> bytes are allocated).
  Histories are kept newest event first.
\<close>

record world =
  bus_in :: "event list \<Rightarrow> u32 \<Rightarrow> u32"
  heap_fits :: "nat \<Rightarrow> nat \<Rightarrow> bool"

fun clip :: "width \<Rightarrow> u32 \<Rightarrow> u32" where
  "clip W8 v = take_bit 8 v"
| "clip W16 v = take_bit 16 v"
| "clip W32 v = v"

type_synonym ('g, 'a) fw = "('g \<times> event list, 'a) prog"

text \<open>Accesses to the program's own variables, plain and possibly undefined.\<close>

definition getg :: "('g \<Rightarrow> 'a) \<Rightarrow> ('g, 'a) fw" where
  "getg f s = Some (Inr (f (fst s), s))"

definition gete :: "('g \<Rightarrow> fault + 'a) \<Rightarrow> ('g, 'a) fw" where
  "gete f s = (case f (fst s) of Inl e \<Rightarrow> Some (Inl e) | Inr v \<Rightarrow> Some (Inr (v, s)))"

definition modg :: "('g \<Rightarrow> 'g) \<Rightarrow> ('g, unit) fw" where
  "modg f s = Some (Inr ((), (f (fst s), snd s)))"

definition mode :: "('g \<Rightarrow> fault + 'g) \<Rightarrow> ('g, unit) fw" where
  "mode f s = (case f (fst s) of Inl e \<Rightarrow> Some (Inl e) | Inr g \<Rightarrow> Some (Inr ((), (g, snd s))))"

text \<open>Accesses to device registers.\<close>

definition mmio_read :: "world \<Rightarrow> width \<Rightarrow> u32 \<Rightarrow> ('g, u32) fw" where
  "mmio_read wd w a s =
     (let v = clip w (bus_in wd (snd s) a) in Some (Inr (v, (fst s, Rd w a v # snd s))))"

definition mmio_write :: "width \<Rightarrow> u32 \<Rightarrow> u32 \<Rightarrow> ('g, unit) fw" where
  "mmio_write w a v s = Some (Inr ((), (fst s, Wr w a (clip w v) # snd s)))"

section \<open>Execution up to polling\<close>

text \<open>
  How often the firmware polls a busy device is of no interest, but what the polls have shown is:
  \<open>quiet\<close> turns a history into what the devices take part in. Reads of the UART status and polls of the
  ready flag that find it down are dropped; a poll that finds it up stays, as \<open>ready_seen\<close>. A write to the
  transmit register counts only when the last status read since the write before it showed the
  transmitter free (\<open>tx_clear\<close>); otherwise the octet may fall into a full transmitter and is dropped.
\<close>

definition uart_rx_a :: u32 where "uart_rx_a = 0x80000000"
definition uart_tx_a :: u32 where "uart_tx_a = 0x80000004"
definition uart_status_a :: u32 where "uart_status_a = 0x80000008"
definition command_a :: u32 where "command_a = 0x80000010"
definition feedback_a :: u32 where "feedback_a = 0x80000020"

lemmas iomodule_addresses =
  uart_rx_a_def uart_tx_a_def uart_status_a_def command_a_def feedback_a_def

fun tx_clear :: "event list \<Rightarrow> bool" where
  "tx_clear [] = False"
| "tx_clear (Wr w a v # h) = (a \<noteq> uart_tx_a \<and> tx_clear h)"
| "tx_clear (Rd w a v # h) = (if a = uart_status_a then v AND 8 = 0 else tx_clear h)"

text \<open>An octet is known to wait in the receiver: the last status read since it was last emptied showed it.\<close>

fun rx_valid :: "event list \<Rightarrow> bool" where
  "rx_valid [] = False"
| "rx_valid (Wr w a v # h) = rx_valid h"
| "rx_valid (Rd w a v # h) = (if a = uart_status_a then v AND 1 \<noteq> 0 else a \<noteq> uart_rx_a \<and> rx_valid h)"

definition ready_seen :: event where
  "ready_seen = Rd W32 feedback_a 1"

fun quiet :: "event list \<Rightarrow> event list" where
  "quiet [] = []"
| "quiet (Wr w a v # h) = (if a = uart_tx_a \<and> \<not> tx_clear h then quiet h else Wr w a v # quiet h)"
| "quiet (Rd w a v # h) =
     (if a = uart_status_a then quiet h
      else if a = feedback_a then if v AND 1 = 0 then quiet h else ready_seen # quiet h
      else Rd w a v # quiet h)"

text \<open>
  \<open>exec m g q a g' q'\<close>: from globals \<open>g\<close> and any history that is \<open>q\<close> up to polling, \<open>m\<close>
  returns \<open>a\<close> with globals \<open>g'\<close> and a history that is \<open>q'\<close> up to polling. It is total
  correctness: \<open>m\<close> neither faults nor runs for ever.
\<close>

definition exec ::
  "('g, 'a) fw \<Rightarrow> 'g \<Rightarrow> event list \<Rightarrow> 'a \<Rightarrow> 'g \<Rightarrow> event list \<Rightarrow> bool" where
  "exec m g q a g' q' \<longleftrightarrow>
     (\<forall>h. quiet h = q \<longrightarrow> (\<exists>h'. m (g, h) = Some (Inr (a, (g', h'))) \<and> quiet h' = q'))"

named_theorems exec_intro

lemma execI:
  "(\<And>h. quiet h = q \<Longrightarrow> \<exists>h'. m (g, h) = Some (Inr (a, (g', h'))) \<and> quiet h' = q')
   \<Longrightarrow> exec m g q a g' q'"
  by (simp add: exec_def)

lemma execD:
  assumes "exec m g q a g' q'" and "quiet h = q"
  obtains h' where "m (g, h) = Some (Inr (a, (g', h')))" and "quiet h' = q'"
  using assms by (auto simp: exec_def)

lemma exec_ret [exec_intro]: "exec (ret a) g q a g q"
  by (simp add: exec_def ret_def)

lemma exec_bnd [exec_intro]:
  "exec m g q a g' q' \<Longrightarrow> exec (f a) g' q' b g'' q'' \<Longrightarrow> exec (bnd m f) g q b g'' q''"
  unfolding exec_def by (metis bnd_Some)

lemma exec_block_Nil [exec_intro]: "exec (block []) g q () g q"
  by (simp add: exec_ret)

lemma exec_block_Cons [exec_intro]:
  "exec m g q () g' q' \<Longrightarrow> exec (block ms) g' q' () g'' q'' \<Longrightarrow> exec (block (m # ms)) g q () g'' q''"
  by (simp add: exec_bnd)

lemma exec_getg [exec_intro]: "exec (getg f) g q (f g) g q"
  by (simp add: exec_def getg_def)

lemma exec_gete [exec_intro]: "f g = Inr v \<Longrightarrow> exec (gete f) g q v g q"
  by (simp add: exec_def gete_def)

lemma exec_modg [exec_intro]: "exec (modg f) g q () (f g) q"
  by (simp add: exec_def modg_def)

lemma exec_mode [exec_intro]: "f g = Inr g' \<Longrightarrow> exec (mode f) g q () g' q"
  by (simp add: exec_def mode_def)

lemma exec_mmio_write: "a \<noteq> uart_tx_a \<Longrightarrow> exec (mmio_write w a v) g q () g (Wr w a (clip w v) # q)"
  by (simp add: exec_def mmio_write_def)

lemma exec_mmio_read:
  assumes "\<And>h. quiet h = q \<Longrightarrow> clip w (bus_in wd h a) = v" and "a \<noteq> uart_status_a" "a \<noteq> feedback_a"
  shows "exec (mmio_read wd w a) g q v g (Rd w a v # q)"
  using assms by (simp add: exec_def mmio_read_def Let_def)

lemma exec_conv:
  "exec m g q a g' q' \<Longrightarrow> a = b \<Longrightarrow> g' = g'' \<Longrightarrow> q' = q'' \<Longrightarrow> exec m g q b g'' q''"
  by simp

lemma exec_bnd_getg [simp]: "exec (bnd (getg f) k) g q a g' q' \<longleftrightarrow> exec (k (f g)) g q a g' q'"
  by (simp add: exec_def bnd_def getg_def)

lemma exec_modg_iff [simp]: "exec (modg f) g q () (f g) q"
  by (rule exec_modg)

lemma exec_modgI: "g' = f g \<Longrightarrow> exec (modg f) g q () g' q"
  by (simp add: exec_modg)

text \<open>A counted loop runs through a family of states \<open>G k\<close>, \<open>Q k\<close>.\<close>

lemma exec_while_getg:
  assumes "\<And>k. k < n \<Longrightarrow> c (G k) \<and> exec b (G k) (Q k) () (G (Suc k)) (Q (Suc k))"
    and "\<not> c (G n)"
  shows "exec (while_loop (getg c) b) (G 0) (Q 0) () (G n) (Q n)"
proof -
  have "exec (while_loop (getg c) b) (G (n - k)) (Q (n - k)) () (G n) (Q n)" if "k \<le> n" for k
    using that
  proof (induction k)
    case 0
    show ?case using assms(2) by (auto intro!: execI simp: while_loop.simps [of _ _ "(G n, _)"] getg_def)
  next
    case (Suc k)
    let ?i = "n - Suc k"
    have i: "?i < n" and Si: "Suc ?i = n - k" using Suc.prems by auto
    show ?case
    proof (rule execI)
      fix h assume h: "quiet h = Q ?i"
      have c: "c (G ?i)" and b: "exec b (G ?i) (Q ?i) () (G (Suc ?i)) (Q (Suc ?i))"
        using assms(1) [OF i] by auto
      obtain h1 where h1: "b (G ?i, h) = Some (Inr ((), (G (Suc ?i), h1)))" "quiet h1 = Q (Suc ?i)"
        using execD [OF b h] by blast
      have ih: "exec (while_loop (getg c) b) (G (Suc ?i)) (Q (Suc ?i)) () (G n) (Q n)"
        using Suc Si by simp
      obtain h2 where "while_loop (getg c) b (G (Suc ?i), h1) = Some (Inr ((), (G n, h2)))"
        "quiet h2 = Q n"
        using execD [OF ih h1(2)] by blast
      then show "\<exists>h'. while_loop (getg c) b (G ?i, h) = Some (Inr ((), G n, h')) \<and> quiet h' = Q n"
        using c h1(1) by (subst while_loop.simps) (simp add: getg_def)
    qed
  qed
  from this [of n] show ?thesis by simp
qed

section \<open>Busy waiting\<close>

text \<open>\<open>while (!stop(*a));\<close>\<close>

definition busy_wait :: "world \<Rightarrow> width \<Rightarrow> ('g \<Rightarrow> u32) \<Rightarrow> (u32 \<Rightarrow> bool) \<Rightarrow> ('g, unit) fw" where
  "busy_wait wd w a stop =
     while_loop (bnd (getg a) (\<lambda>p. bnd (mmio_read wd w p) (\<lambda>v. ret (\<not> stop v)))) (ret ())"

text \<open>The history after \<open>n\<close> polls of the register at \<open>a\<close>.\<close>

primrec polled :: "world \<Rightarrow> width \<Rightarrow> u32 \<Rightarrow> nat \<Rightarrow> event list \<Rightarrow> event list" where
  "polled wd w a 0 h = h"
| "polled wd w a (Suc n) h = polled wd w a n (Rd w a (clip w (bus_in wd h a)) # h)"

lemma quiet_polled_status: "quiet (polled wd w uart_status_a n h) = quiet h"
  by (induction n arbitrary: h) auto

lemma quiet_polled_busy:
  "(\<And>i. i < n \<Longrightarrow> clip w (bus_in wd (polled wd w feedback_a i h) feedback_a) AND 1 = 0)
   \<Longrightarrow> quiet (polled wd w feedback_a n h) = quiet h"
proof (induction n arbitrary: h)
  case (Suc n)
  let ?v = "clip w (bus_in wd h feedback_a)"
  have "quiet (polled wd w feedback_a n (Rd w feedback_a ?v # h)) = quiet (Rd w feedback_a ?v # h)"
    using Suc.prems by (intro Suc.IH) fastforce
  then show ?case using Suc.prems [of 0] by simp
qed simp

lemma polled_Suc:
  "polled wd w a (Suc n) h = (let h' = polled wd w a n h in Rd w a (clip w (bus_in wd h' a)) # h')"
  by (induction n arbitrary: h) (simp_all add: Let_def)

lemma busy_wait_unfold:
  "busy_wait wd w a stop (g, h) =
     (let v = clip w (bus_in wd h (a g)); h' = Rd w (a g) v # h in
      if stop v then Some (Inr ((), (g, h'))) else busy_wait wd w a stop (g, h'))"
  unfolding busy_wait_def
  by (subst while_loop.simps) (simp add: bnd_def getg_def mmio_read_def ret_def Let_def)

text \<open>The wait ends with the first poll that shows the awaited value.\<close>

lemma busy_wait_returns:
  assumes "stop (clip w (bus_in wd (polled wd w (a g) n h) (a g)))"
  shows "\<exists>m \<le> n. busy_wait wd w a stop (g, h) = Some (Inr ((), (g, polled wd w (a g) (Suc m) h)))
    \<and> stop (clip w (bus_in wd (polled wd w (a g) m h) (a g)))
    \<and> (\<forall>i < m. \<not> stop (clip w (bus_in wd (polled wd w (a g) i h) (a g))))"
  using assms
proof (induction n arbitrary: h)
  case 0
  then show ?case by (subst busy_wait_unfold) (simp add: Let_def)
next
  case (Suc n)
  let ?v = "clip w (bus_in wd h (a g))"
  show ?case
  proof (cases "stop ?v")
    case True
    then show ?thesis by (subst busy_wait_unfold) (auto simp: Let_def intro!: exI [of _ 0])
  next
    case False
    have "stop (clip w (bus_in wd (polled wd w (a g) n (Rd w (a g) ?v # h)) (a g)))"
      using Suc.prems by simp
    from Suc.IH [OF this] obtain m where "m \<le> n"
      "busy_wait wd w a stop (g, Rd w (a g) ?v # h)
         = Some (Inr ((), (g, polled wd w (a g) (Suc m) (Rd w (a g) ?v # h))))"
      "stop (clip w (bus_in wd (polled wd w (a g) m (Rd w (a g) ?v # h)) (a g)))"
      "\<forall>i < m. \<not> stop (clip w (bus_in wd (polled wd w (a g) i (Rd w (a g) ?v # h)) (a g)))"
      by auto
    with False show ?thesis
      by (intro exI [of _ "Suc m"])
        (simp add: busy_wait_unfold [of _ _ _ _ g h] Let_def, auto simp: less_Suc_eq_0_disj)
  qed
qed

text \<open>Waiting on the UART status leaves a history that is the same up to polling and that shows the awaited status.\<close>

lemma busy_wait_status:
  assumes "a g = uart_status_a"
    and "\<exists>n. stop (clip w (bus_in wd (polled wd w uart_status_a n h) uart_status_a))"
  obtains v h' where "busy_wait wd w a stop (g, h) = Some (Inr ((), (g, Rd w uart_status_a v # h')))"
    and "stop v" and "quiet h' = quiet h"
proof -
  obtain n where "stop (clip w (bus_in wd (polled wd w (a g) n h) (a g)))" using assms by auto
  from busy_wait_returns [where stop = stop and a = a and g = g, OF this] obtain m where m:
    "busy_wait wd w a stop (g, h) = Some (Inr ((), (g, polled wd w uart_status_a (Suc m) h)))"
    "stop (clip w (bus_in wd (polled wd w uart_status_a m h) uart_status_a))"
    by (auto simp: assms(1))
  show thesis
    using that [of _ "polled wd w uart_status_a m h", OF _ m(2)] m(1)
    by (simp add: polled_Suc Let_def quiet_polled_status del: polled.simps)
qed

text \<open>Waiting on the ready flag leaves the poll that found it up.\<close>

lemma exec_wait_flag:
  assumes "a g = feedback_a" and "\<And>v. stop v \<longleftrightarrow> v AND 1 \<noteq> 0"
    and "\<And>h. quiet h = q \<Longrightarrow> \<exists>n. clip w (bus_in wd (polled wd w feedback_a n h) feedback_a) AND 1 \<noteq> 0"
  shows "exec (busy_wait wd w a stop) g q () g (ready_seen # q)"
proof (rule execI)
  fix h assume h: "quiet h = q"
  obtain n where "stop (clip w (bus_in wd (polled wd w (a g) n h) (a g)))"
    using assms(3) [OF h] by (auto simp: assms(1,2))
  from busy_wait_returns [where stop = stop and a = a and g = g, OF this] obtain m where m:
    "busy_wait wd w a stop (g, h) = Some (Inr ((), (g, polled wd w feedback_a (Suc m) h)))"
    "clip w (bus_in wd (polled wd w feedback_a m h) feedback_a) AND 1 \<noteq> 0"
    "\<And>i. i < m \<Longrightarrow> clip w (bus_in wd (polled wd w feedback_a i h) feedback_a) AND 1 = 0"
    by (auto simp: assms(1,2))
  have "quiet (polled wd w feedback_a m h) = q" using quiet_polled_busy [of m w wd h] m(3) h by simp
  then have "quiet (polled wd w feedback_a (Suc m) h) = ready_seen # q"
    using m(2) by (simp add: polled_Suc Let_def iomodule_addresses del: polled.simps)
  with m(1) show "\<exists>h'. busy_wait wd w a stop (g, h) = Some (Inr ((), g, h')) \<and> quiet h' = ready_seen # q"
    by blast
qed

text \<open>A register that never shows the awaited value keeps the firmware waiting for ever.\<close>

lemma busy_wait_diverges:
  assumes "\<And>n. \<not> stop (clip w (bus_in wd (polled wd w (a g) n h) (a g)))"
  shows "busy_wait wd w a stop (g, h) = None"
proof (rule ccontr)
  let ?c = "bnd (getg a) (\<lambda>p. bnd (mmio_read wd w p) (\<lambda>v. ret (\<not> stop v)))
    :: ('a, bool) fw"
  let ?stuck = "\<lambda>c (b :: ('a, unit) fw) s (y :: fault + unit \<times> 'a \<times> event list).
    c = ?c \<longrightarrow> b = ret () \<longrightarrow> fst s = g
      \<longrightarrow> (\<forall>n. \<not> stop (clip w (bus_in wd (polled wd w (a g) n (snd s)) (a g)))) \<longrightarrow> False"
  assume "busy_wait wd w a stop (g, h) \<noteq> None"
  then obtain y where run: "while_loop ?c (ret ()) (g, h) = Some y"
    unfolding busy_wait_def by auto
  have "?stuck ?c (ret ()) (g, h) y"
  proof (rule while_loop.raw_induct [where P = ?stuck, OF _ run], intro impI)
    fix lp c b s and y :: "fault + unit \<times> 'a \<times> event list"
    assume IH: "\<And>c b s y. lp c b s = Some y \<Longrightarrow> ?stuck c b s y"
      and eq: "(case c s of None \<Rightarrow> None | Some (Inl e) \<Rightarrow> Some (Inl e)
        | Some (Inr (t, s1)) \<Rightarrow>
            (if t then (case b s1 of None \<Rightarrow> None | Some (Inl e) \<Rightarrow> Some (Inl e)
               | Some (Inr (_, s2)) \<Rightarrow> lp c b s2)
             else Some (Inr ((), s1)))) = Some y"
      and c: "c = ?c" and b: "b = ret ()" and g: "fst s = g"
      and stuck: "\<forall>n. \<not> stop (clip w (bus_in wd (polled wd w (a g) n (snd s)) (a g)))"
    let ?v = "clip w (bus_in wd (snd s) (a g))"
    have cs: "c s = Some (Inr (\<not> stop ?v, (g, Rd w (a g) ?v # snd s)))"
      unfolding c by (simp add: bnd_def getg_def mmio_read_def ret_def Let_def g)
    have "\<not> stop ?v" using stuck [rule_format, of 0] by simp
    with eq cs b have "lp c b (g, Rd w (a g) ?v # snd s) = Some y" by (simp add: ret_def)
    moreover have "\<not> stop (clip w (bus_in wd (polled wd w (a g) n (Rd w (a g) ?v # snd s)) (a g)))" for n
      using stuck [rule_format, of "Suc n"] by simp
    ultimately show False using IH c b by fastforce
  qed
  then show False using assms by simp
qed

section \<open>Contracts over the globals\<close>

text \<open>\<open>stable I m E\<close>: \<open>m\<close> keeps the property \<open>I\<close> of the globals, and its faults are in \<open>E\<close>.\<close>

abbreviation stable :: "('g \<Rightarrow> bool) \<Rightarrow> ('g, 'a) fw \<Rightarrow> fault set \<Rightarrow> bool" where
  "stable I m E \<equiv> valid (\<lambda>s. I (fst s)) m (\<lambda>_ s. I (fst s)) E"

lemma stable_ret [valid_intro]: "stable I (ret a) E"
  by (rule valid_ret)

lemma stable_bnd [valid_intro]: "stable I m E \<Longrightarrow> (\<And>a. stable I (f a) E) \<Longrightarrow> stable I (bnd m f) E"
  by (rule valid_bnd)

lemma stable_getg [valid_intro]: "stable I (getg f) E"
  by (rule validI) (simp_all add: getg_def)

lemma valid_bnd_getg:
  "(\<And>x. valid (\<lambda>s. P s \<and> x = f (fst s)) (k x) Q E) \<Longrightarrow> valid P (bnd (getg f) k) Q E"
  by (rule valid_bnd [of _ _ "\<lambda>x s. P s \<and> x = f (fst s)"]) (auto intro: validI simp: getg_def)

lemma stable_gete [valid_intro]: "(\<And>g e. I g \<Longrightarrow> f g = Inl e \<Longrightarrow> e \<in> E) \<Longrightarrow> stable I (gete f) E"
  by (rule validI) (auto simp: gete_def split: sum.splits)

lemma valid_modg: "(\<And>g h. P (g, h) \<Longrightarrow> Q () (f g, h)) \<Longrightarrow> valid P (modg f) Q E"
  by (rule validI) (auto simp: modg_def)

lemma stable_modg [valid_intro]: "(\<And>g. I g \<Longrightarrow> I (f g)) \<Longrightarrow> stable I (modg f) E"
  by (rule valid_modg) simp

lemma valid_mode:
  assumes "\<And>g h e. P (g, h) \<Longrightarrow> f g = Inl e \<Longrightarrow> e \<in> E" and "\<And>g h g'. P (g, h) \<Longrightarrow> f g = Inr g' \<Longrightarrow> Q () (g', h)"
  shows "valid P (mode f) Q E"
  by (rule validI) (use assms in \<open>auto simp: mode_def split: sum.splits\<close>)

lemma stable_mode [valid_intro]:
  "(\<And>g e. I g \<Longrightarrow> f g = Inl e \<Longrightarrow> e \<in> E) \<Longrightarrow> (\<And>g g'. I g \<Longrightarrow> f g = Inr g' \<Longrightarrow> I g') \<Longrightarrow> stable I (mode f) E"
  by (rule valid_mode) auto

lemma stable_mmio [valid_intro]: "stable I (mmio_read wd w a) E" "stable I (mmio_write w a v) E"
  by (rule validI; auto simp: mmio_read_def mmio_write_def Let_def)+

lemma valid_while_getg:
  assumes "valid (\<lambda>s. I (fst s) \<and> c (fst s)) b (\<lambda>_ s. I (fst s)) E"
  shows "valid (\<lambda>s. I (fst s)) (while_loop (getg c) b) (\<lambda>_ s. I (fst s) \<and> \<not> c (fst s)) E"
  by (rule valid_while [OF _ assms]) (auto intro: validI simp: getg_def)

lemma stable_busy_wait [valid_intro]: "stable I (busy_wait wd w a stop) E"
proof -
  have "valid (\<lambda>s. I (fst s)) (busy_wait wd w a stop) (\<lambda>_ s. I (fst s)) E"
    unfolding busy_wait_def
  proof (rule valid_while [where J = "\<lambda>s. I (fst s)"])
    have "stable I (bnd (getg a) (\<lambda>p. bnd (mmio_read wd w p) (\<lambda>v. ret (\<not> stop v)))) E"
      by (intro valid_intro)
    then show "valid (\<lambda>s. I (fst s)) (bnd (getg a) (\<lambda>p. bnd (mmio_read wd w p) (\<lambda>v. ret (\<not> stop v))))
        (\<lambda>t. if t then \<lambda>s. I (fst s) else (\<lambda>s. I (fst s))) E"
      by (rule valid_weaken) auto
  qed (intro valid_intro)
  then show ?thesis .
qed

end
