(* ===== verification/Mpu_Types.thy ===== *)
theory Mpu_Types
  imports Bus
begin

text \<open>
  The data of the firmware (\<open>mpu_sw/src/sys/sys_init.h\<close>, \<open>mpu_sw/src/cnn/cnn_package.h\<close>): the
  fixed-point constants, the C structs as records, the global variables as one record, and checked
  access to the image stack and to the template and error arrays.
\<close>

section \<open>Constants of \<open>cnn_package.h\<close>\<close>

definition busM :: nat where "busM = 6"
definition busF :: nat where "busF = 10"
definition busWidth :: nat where "busWidth = busM + busF"
definition busUSMax :: int where "busUSMax = 2 ^ busWidth - 1"
definition busMax :: int where "busMax = 2 ^ (busWidth - 1) - 1"
definition busMin :: int where "busMin = - (2 ^ (busWidth - 1))"
definition busFMax :: int where "busFMax = 2 ^ busF"
definition busFMin :: int where "busFMin = - (2 ^ busF)"
definition errorM :: nat where "errorM = 22"
definition errorF :: nat where "errorF = 10"
definition errorWidth :: nat where "errorWidth = errorM + errorF"
definition errorMax :: int where "errorMax = 2 ^ (errorWidth - 1) - 1"
definition errorMin :: int where "errorMin = - (2 ^ (errorWidth - 1))"
definition l2cacheWidthMAX :: u16 where "l2cacheWidthMAX = 128"
definition l2cacheHeightMAX :: u16 where "l2cacheHeightMAX = 128"
definition patchWH :: nat where "patchWH = 3"
definition patchTop :: u32 where "patchTop = of_nat patchWH - 1"
definition patchBot :: u32 where "patchBot = 0"

lemmas package_defs =
  busM_def busF_def busWidth_def busUSMax_def busMax_def busMin_def busFMax_def busFMin_def
  errorM_def errorF_def errorWidth_def errorMax_def errorMin_def l2cacheWidthMAX_def
  l2cacheHeightMAX_def patchWH_def patchTop_def patchBot_def

section \<open>The structs of \<open>sys_init.h\<close>\<close>

record general_struct =
  g_i :: u32
  g_j :: u32
  g_k :: u32

text \<open>
  The image stack is \<open>u16 ***\<close>: a block of plane pointers, each to a block of row pointers, each
  to a row of pixels. \<open>None\<close> is a pointer that must not be followed: NULL from a failed allocation,
  or a slot of a fresh block that nothing has been stored in yet.
\<close>

type_synonym row_ptr = "u16 list option"
type_synonym plane_ptr = "row_ptr list option"
type_synonym stack_ptr = "plane_ptr list option"

record image_struct =
  img_data :: stack_ptr
  img_width :: u16
  img_height :: u16
  img_count :: u16
  img_shift :: u32

record cache_struct =
  cache_width :: u16
  cache_height :: u16

record cnn_struct =
  cnn_Ts :: u16
  cnn_iter_cnt :: u16
  cnn_template_no :: u16
  cnn_learn_loop :: u16
  cnn_learn_rate :: u16

record template_struct =
  t_A :: "s16 list list"
  t_B :: "s16 list list"
  t_I :: s16
  t_x_bnd :: s16
  t_u_bnd :: s16

record error_struct =
  e_u :: "s16 list list"
  e_x :: "s16 list list"
  e_i :: s16

text \<open>
  The register pointers of \<open>mpu_struct\<close>. A field such as \<open>template_A01\<close> or \<open>error_x21\<close> is a
  constructor applied to its patch position, and \<open>x_data_in\<close>, \<open>u_data_in\<close>, \<open>ideal_data_in\<close> are
  one constructor applied to the cache it belongs to.
\<close>

datatype ix = I0 | I1 | I2

datatype cache = Cache_x | Cache_u | Cache_ideal

datatype mpu_reg =
    R_uart_rx | R_uart_tx | R_uart_status | R_command | R_feedback
  | R_template_A ix ix | R_template_B ix ix | R_template_I | R_template_xbnd | R_template_ubnd
  | R_data_in cache | R_data_out cache | R_address cache | R_we cache
  | R_error_i | R_error_u ix ix | R_error_x ix ix

datatype command =
    CMD_NULL | CMD_CACHE_WIDTH | CMD_CACHE_HEIGHT | CMD_TS | CMD_ITER_CNT | CMD_RAND_GEN
  | CMD_STATE_RST

fun command_code :: "command \<Rightarrow> u16" where
  "command_code CMD_NULL = 0"
| "command_code CMD_CACHE_WIDTH = 1"
| "command_code CMD_CACHE_HEIGHT = 2"
| "command_code CMD_TS = 3"
| "command_code CMD_ITER_CNT = 4"
| "command_code CMD_RAND_GEN = 5"
| "command_code CMD_STATE_RST = 6"

record mpu_struct =
  mpu_regs :: "mpu_reg \<Rightarrow> u32"
  mpu_command_var :: u32
  mpu_template_var :: s32
  mpu_bram_var :: s32

text \<open>The global variables, and the bytes of the C heap that are allocated and not freed.\<close>

record globals =
  general :: general_struct
  l2cache :: cache_struct
  image :: image_struct
  cnn :: cnn_struct
  mpu :: mpu_struct
  templates :: "template_struct list"
  errors :: error_struct
  heap_live :: nat

section \<open>Checked access to arrays\<close>

definition nth_chk :: "'a list \<Rightarrow> nat \<Rightarrow> fault + 'a" where
  "nth_chk xs i = (if i < length xs then Inr (xs ! i) else Inl OutOfBounds)"

definition upd_chk :: "'a list \<Rightarrow> nat \<Rightarrow> 'a \<Rightarrow> fault + 'a list" where
  "upd_chk xs i v = (if i < length xs then Inr (xs[i := v]) else Inl OutOfBounds)"

definition deref :: "'a option \<Rightarrow> fault + 'a" where
  "deref p = (case p of None \<Rightarrow> Inl NullDeref | Some v \<Rightarrow> Inr v)"

definition ebind :: "fault + 'a \<Rightarrow> ('a \<Rightarrow> fault + 'b) \<Rightarrow> fault + 'b" where
  "ebind m f = (case m of Inl e \<Rightarrow> Inl e | Inr a \<Rightarrow> f a)"

text \<open>\<open>M[i][j]\<close> of a two-dimensional array.\<close>

definition mat_get :: "'a list list \<Rightarrow> u32 \<Rightarrow> u32 \<Rightarrow> fault + 'a" where
  "mat_get M i j = ebind (nth_chk M (unat i)) (\<lambda>r. nth_chk r (unat j))"

definition mat_set :: "'a list list \<Rightarrow> u32 \<Rightarrow> u32 \<Rightarrow> 'a \<Rightarrow> fault + 'a list list" where
  "mat_set M i j v =
     ebind (nth_chk M (unat i)) (\<lambda>r. ebind (upd_chk r (unat j) v) (\<lambda>r'. Inr (M[unat i := r'])))"

text \<open>\<open>image.image[p][i][j]\<close> through the two levels of pointers.\<close>

definition img_get :: "stack_ptr \<Rightarrow> nat \<Rightarrow> nat \<Rightarrow> nat \<Rightarrow> fault + u16" where
  "img_get s p i j =
     ebind (deref s) (\<lambda>ps. ebind (nth_chk ps p) (\<lambda>pl. ebind (deref pl) (\<lambda>rs.
     ebind (nth_chk rs i) (\<lambda>rw. ebind (deref rw) (\<lambda>r. nth_chk r j)))))"

definition img_set :: "stack_ptr \<Rightarrow> nat \<Rightarrow> nat \<Rightarrow> nat \<Rightarrow> u16 \<Rightarrow> fault + stack_ptr" where
  "img_set s p i j v =
     ebind (deref s) (\<lambda>ps. ebind (nth_chk ps p) (\<lambda>pl. ebind (deref pl) (\<lambda>rs.
     ebind (nth_chk rs i) (\<lambda>rw. ebind (deref rw) (\<lambda>r. ebind (upd_chk r j v) (\<lambda>r'.
       Inr (Some (ps[p := Some (rs[i := Some r'])]))))))))"

text \<open>A stack of complete planes, and the pixel at a position of it.\<close>

definition planes :: "u16 list list list \<Rightarrow> stack_ptr" where
  "planes Ms = Some (map (\<lambda>M. Some (map Some M)) Ms)"

lemma ebind_simps [simp]: "ebind (Inr a) f = f a" "ebind (Inl e) f = Inl e"
  by (simp_all add: ebind_def)

lemma deref_simps [simp]: "deref (Some v) = Inr v" "deref None = Inl NullDeref"
  by (simp_all add: deref_def)

lemma ebind_eq_Inr [simp]: "ebind m f = Inr b \<longleftrightarrow> (\<exists>a. m = Inr a \<and> f a = Inr b)"
  by (cases m) simp_all

lemma deref_eq_Inr [simp]: "deref p = Inr v \<longleftrightarrow> p = Some v"
  by (cases p) simp_all

lemma nth_chk_eq_Inr: "nth_chk xs i = Inr v \<longleftrightarrow> i < length xs \<and> xs ! i = v"
  by (auto simp: nth_chk_def)

lemma upd_chk_eq_Inr: "upd_chk xs i v = Inr ys \<longleftrightarrow> i < length xs \<and> ys = xs[i := v]"
  by (auto simp: upd_chk_def)

lemma img_get_planes:
  assumes "p < length Ms" "i < length (Ms ! p)" "j < length (Ms ! p ! i)"
  shows "img_get (planes Ms) p i j = Inr (Ms ! p ! i ! j)"
  using assms by (simp add: img_get_def planes_def nth_chk_def)

lemma img_set_planes:
  assumes "p < length Ms" "i < length (Ms ! p)" "j < length (Ms ! p ! i)"
  shows "img_set (planes Ms) p i j v = Inr (planes (Ms[p := (Ms ! p)[i := (Ms ! p ! i)[j := v]]]))"
  using assms by (simp add: img_set_def planes_def nth_chk_def upd_chk_def map_update)

lemma mat_get_mat:
  "unat i < h \<Longrightarrow> unat j < w \<Longrightarrow> mat_get (mat h w f) i j = Inr (f (unat i) (unat j))"
  by (simp add: mat_get_def nth_chk_def)

lemma mat_set_mat:
  assumes "unat i < h" "unat j < w"
  shows "mat_set (mat h w f) i j v = Inr (mat h w (\<lambda>a b. if a = unat i \<and> b = unat j then v else f a b))"
  using assms mat_update [OF assms, of f v] by (simp add: mat_set_def nth_chk_def upd_chk_def)

end
