(* ===== verification/Sys_Func.thy ===== *)
theory Sys_Func
  imports Mpu_Types
begin

text \<open>
  The system functions of the firmware, \<open>mpu_sw/src/sys/sys_func.c\<close>: the polled UART, the image
  caches and the command register of the CNN processor, and the handlers of the host's requests
  (header, image transfer, errors, templates).
\<close>

section \<open>Register access and counted loops\<close>

definition reg_read :: "world \<Rightarrow> width \<Rightarrow> mpu_reg \<Rightarrow> (globals, u32) fw" where
  "reg_read wd w r = bnd (getg (\<lambda>g. mpu_regs (mpu g) r)) (\<lambda>a. mmio_read wd w a)"

definition reg_write :: "width \<Rightarrow> mpu_reg \<Rightarrow> u32 \<Rightarrow> (globals, unit) fw" where
  "reg_write w r v = bnd (getg (\<lambda>g. mpu_regs (mpu g) r)) (\<lambda>a. mmio_write w a v)"

text \<open>The loops count in the global variables \<open>general.i\<close> and \<open>general.j\<close>.\<close>

definition set_i :: "u32 \<Rightarrow> globals \<Rightarrow> globals" where
  "set_i v g = g\<lparr>general := (general g)\<lparr>g_i := v\<rparr>\<rparr>"

definition set_j :: "u32 \<Rightarrow> globals \<Rightarrow> globals" where
  "set_j v g = g\<lparr>general := (general g)\<lparr>g_j := v\<rparr>\<rparr>"

definition set_k :: "u32 \<Rightarrow> globals \<Rightarrow> globals" where
  "set_k v g = g\<lparr>general := (general g)\<lparr>g_k := v\<rparr>\<rparr>"

abbreviation gi :: "globals \<Rightarrow> u32" where "gi g \<equiv> g_i (general g)"
abbreviation gj :: "globals \<Rightarrow> u32" where "gj g \<equiv> g_j (general g)"
abbreviation gk :: "globals \<Rightarrow> u32" where "gk g \<equiv> g_k (general g)"

definition for_i :: "(globals \<Rightarrow> bool) \<Rightarrow> (globals, unit) fw \<Rightarrow> (globals, unit) fw" where
  "for_i c b = block [modg (set_i 0),
     while_loop (getg c) (block [b, modg (\<lambda>g. set_i (gi g + 1) g)])]"

definition for_j :: "(globals \<Rightarrow> bool) \<Rightarrow> (globals, unit) fw \<Rightarrow> (globals, unit) fw" where
  "for_j c b = block [modg (set_j 0),
     while_loop (getg c) (block [b, modg (\<lambda>g. set_j (gj g + 1) g)])]"

definition for_k :: "(globals \<Rightarrow> bool) \<Rightarrow> (globals, unit) fw \<Rightarrow> (globals, unit) fw" where
  "for_k c b = block [modg (set_k 0),
     while_loop (getg c) (block [b, modg (\<lambda>g. set_k (gk g + 1) g)])]"

text \<open>The two loops over all pixels of an image, and over the positions of a patch.\<close>

definition for_pixels :: "(globals, unit) fw \<Rightarrow> (globals, unit) fw" where
  "for_pixels b =
     for_i (\<lambda>g. gi g < ucast (img_height (image g)))
       (for_j (\<lambda>g. gj g < ucast (img_width (image g))) b)"

definition for_patch :: "(globals, unit) fw \<Rightarrow> (globals, unit) fw" where
  "for_patch b = for_i (\<lambda>g. gi g \<le> patchTop) (for_j (\<lambda>g. gj g \<le> patchTop) b)"

section \<open>UART\<close>

definition uart_read :: "world \<Rightarrow> (globals, u8) fw" where
  "uart_read wd =
     bnd (busy_wait wd W8 (\<lambda>g. mpu_regs (mpu g) R_uart_status) (\<lambda>v. v AND 0b00000001 \<noteq> 0)) (\<lambda>_.
     bnd (reg_read wd W8 R_uart_rx) (\<lambda>v. ret (ucast (v AND 0xFF))))"

definition uart_write :: "world \<Rightarrow> u8 \<Rightarrow> (globals, unit) fw" where
  "uart_write wd data = block
     [busy_wait wd W8 (\<lambda>g. mpu_regs (mpu g) R_uart_status) (\<lambda>v. v AND 0b00001000 \<noteq> 0b00001000),
      reg_write W8 R_uart_tx (ucast data)]"

section \<open>Commands, random numbers, ready flag\<close>

definition command_write :: "u16 \<Rightarrow> u16 \<Rightarrow> (globals, unit) fw" where
  "command_write address data = reg_write W32 R_command (push_bit 16 (ucast address) OR ucast data)"

abbreviation command :: "command \<Rightarrow> u16 \<Rightarrow> (globals, unit) fw" where
  "command c v \<equiv> command_write (command_code c) v"

definition rand_num_read :: "world \<Rightarrow> (globals, s16) fw" where
  "rand_num_read wd = bnd (reg_read wd W32 R_feedback) (\<lambda>v. ret (ucast (signed_drop_bit 16 v)))"

definition rand_num_generate :: "world \<Rightarrow> (globals, s16) fw" where
  "rand_num_generate wd = bnd (command CMD_RAND_GEN 1) (\<lambda>_. bnd (command CMD_RAND_GEN 0) (\<lambda>_.
     bnd (reg_read wd W32 R_feedback) (\<lambda>v. ret (ucast (signed_drop_bit 16 v)))))"

definition ready_read :: "world \<Rightarrow> (globals, u8) fw" where
  "ready_read wd = bnd (reg_read wd W32 R_feedback) (\<lambda>v. ret (ucast (v AND 0x00000001)))"

section \<open>Image caches\<close>

definition l2cache_setdimensions :: "u16 \<Rightarrow> u16 \<Rightarrow> (globals, unit) fw" where
  "l2cache_setdimensions width height =
     (if width > 0 \<and> width < l2cacheWidthMAX then
        if height > 0 \<and> height < l2cacheHeightMAX then
          block [command CMD_CACHE_WIDTH width, command CMD_CACHE_HEIGHT height]
        else ret ()
      else ret ())"

definition l2cache_u_read :: "world \<Rightarrow> u16 \<Rightarrow> (globals, u16) fw" where
  "l2cache_u_read wd address = bnd (reg_write W16 (R_address Cache_u) (ucast address)) (\<lambda>_.
     bnd (reg_read wd W16 (R_data_out Cache_u)) (\<lambda>v. ret (ucast v)))"

definition l2cache_u_write :: "u16 \<Rightarrow> u16 \<Rightarrow> (globals, unit) fw" where
  "l2cache_u_write address data = block
     [reg_write W16 (R_address Cache_u) (ucast address), reg_write W16 (R_data_in Cache_u) (ucast data),
      reg_write W8 (R_we Cache_u) 1, reg_write W8 (R_we Cache_u) 0]"

definition l2cache_x_read :: "world \<Rightarrow> u16 \<Rightarrow> (globals, u16) fw" where
  "l2cache_x_read wd address = bnd (reg_write W16 (R_address Cache_x) (ucast address)) (\<lambda>_.
     bnd (reg_read wd W16 (R_data_out Cache_x)) (\<lambda>v. ret (ucast v)))"

definition l2cache_x_write :: "u16 \<Rightarrow> u16 \<Rightarrow> (globals, unit) fw" where
  "l2cache_x_write address data = block
     [reg_write W16 (R_address Cache_x) (ucast address), reg_write W16 (R_data_in Cache_x) (ucast data),
      reg_write W8 (R_we Cache_x) 1, reg_write W8 (R_we Cache_x) 0]"

definition l2cache_ideal_read :: "world \<Rightarrow> u16 \<Rightarrow> (globals, u16) fw" where
  "l2cache_ideal_read wd address = bnd (reg_write W16 (R_address Cache_ideal) (ucast address)) (\<lambda>_.
     bnd (reg_read wd W16 (R_data_out Cache_ideal)) (\<lambda>v. ret (ucast v)))"

definition l2cache_ideal_write :: "u16 \<Rightarrow> u16 \<Rightarrow> (globals, unit) fw" where
  "l2cache_ideal_write address data = block
     [reg_write W16 (R_address Cache_ideal) (ucast address),
      reg_write W16 (R_data_in Cache_ideal) (ucast data),
      reg_write W8 (R_we Cache_ideal) 1, reg_write W8 (R_we Cache_ideal) 0]"

section \<open>The heap and the image stack\<close>

text \<open>The C library's \<open>malloc\<close>: the world decides whether the request can be met.\<close>

definition c_malloc :: "world \<Rightarrow> nat \<Rightarrow> (globals, bool) fw" where
  "c_malloc wd n = bnd (getg heap_live) (\<lambda>l.
     if heap_fits wd l n then bnd (modg (\<lambda>g. g\<lparr>heap_live := l + n\<rparr>)) (\<lambda>_. ret True) else ret False)"

definition set_img_data :: "stack_ptr \<Rightarrow> globals \<Rightarrow> globals" where
  "set_img_data d g = g\<lparr>image := (image g)\<lparr>img_data := d\<rparr>\<rparr>"

text \<open>
  \<open>free(image.image)\<close>: only the block of plane pointers is returned to the heap. Pointers are four
  bytes long.
\<close>

definition free_image :: "globals \<Rightarrow> globals" where
  "free_image g = (case img_data (image g) of
       None \<Rightarrow> g
     | Some ps \<Rightarrow> g\<lparr>heap_live := heap_live g - 4 * length ps\<rparr>)"

definition store_plane :: "plane_ptr \<Rightarrow> globals \<Rightarrow> fault + globals" where
  "store_plane pl g =
     ebind (deref (img_data (image g))) (\<lambda>ps. ebind (upd_chk ps (unat (gi g)) pl) (\<lambda>ps'.
       Inr (set_img_data (Some ps') g)))"

definition store_row :: "row_ptr \<Rightarrow> globals \<Rightarrow> fault + globals" where
  "store_row r g =
     ebind (deref (img_data (image g))) (\<lambda>ps. ebind (nth_chk ps (unat (gi g))) (\<lambda>pl.
     ebind (deref pl) (\<lambda>rs. ebind (upd_chk rs (unat (gj g)) r) (\<lambda>rs'.
       Inr (set_img_data (Some (ps[unat (gi g) := Some rs'])) g)))))"

text \<open>The allocation of a new stack, the same statements in \<open>init_image\<close> and \<open>header_read\<close>.\<close>

definition alloc_top :: "world \<Rightarrow> (globals, unit) fw" where
  "alloc_top wd = bnd (getg (\<lambda>g. unat (img_count (image g)))) (\<lambda>n.
     bnd (c_malloc wd (n * 4)) (\<lambda>ok. modg (set_img_data (if ok then Some (replicate n None) else None))))"

definition alloc_plane :: "world \<Rightarrow> (globals, unit) fw" where
  "alloc_plane wd = bnd (getg (\<lambda>g. unat (img_height (image g)))) (\<lambda>h.
     bnd (c_malloc wd (h * 4)) (\<lambda>ok. mode (store_plane (if ok then Some (replicate h None) else None))))"

definition alloc_row :: "world \<Rightarrow> (globals, unit) fw" where
  "alloc_row wd = bnd (getg (\<lambda>g. unat (img_width (image g)))) (\<lambda>w.
     bnd (c_malloc wd (w * 2)) (\<lambda>ok. mode (store_row (if ok then Some (replicate w 0) else None))))"

definition image_alloc :: "world \<Rightarrow> (globals, unit) fw" where
  "image_alloc wd = block
     [modg free_image,
      alloc_top wd,
      for_i (\<lambda>g. gi g < 20) (block
        [alloc_plane wd,
         for_j (\<lambda>g. gj g < ucast (img_height (image g))) (alloc_row wd)])]"

definition set_shift :: "globals \<Rightarrow> globals" where
  "set_shift g = g\<lparr>image := (image g)\<lparr>img_shift := ucast (img_width (image g)) * ucast (img_height (image g))\<rparr>\<rparr>"

section \<open>The header\<close>

text \<open>\<open>x = uart_read() << 8; x |= uart_read();\<close> on a 16-bit variable with updater \<open>upd\<close>.\<close>

definition read_u16 :: "world \<Rightarrow> ((u16 \<Rightarrow> u16) \<Rightarrow> globals \<Rightarrow> globals) \<Rightarrow> (globals, unit) fw" where
  "read_u16 wd upd = block
     [bnd (uart_read wd) (\<lambda>b. modg (upd (\<lambda>_. push_bit 8 (ucast b)))),
      bnd (uart_read wd) (\<lambda>b. modg (upd (\<lambda>x. x OR ucast b)))]"

definition upd_iter_cnt :: "(u16 \<Rightarrow> u16) \<Rightarrow> globals \<Rightarrow> globals" where
  "upd_iter_cnt f = cnn_update (cnn_iter_cnt_update f)"

definition header_read :: "world \<Rightarrow> (globals, unit) fw" where
  "header_read wd = block
     [command CMD_STATE_RST 1,
      read_u16 wd (\<lambda>f. image_update (img_width_update f)),
      read_u16 wd (\<lambda>f. image_update (img_height_update f)),
      read_u16 wd (\<lambda>f. cnn_update (cnn_Ts_update f)),
      read_u16 wd upd_iter_cnt,
      modg (upd_iter_cnt (\<lambda>x. x - 1)),
      read_u16 wd (\<lambda>f. cnn_update (cnn_template_no_update f)),
      read_u16 wd (\<lambda>f. cnn_update (cnn_learn_loop_update f)),
      read_u16 wd (\<lambda>f. cnn_update (cnn_learn_rate_update f)),
      bnd (getg (\<lambda>g. img_width (image g))) (\<lambda>v. command CMD_CACHE_WIDTH v),
      bnd (getg (\<lambda>g. img_height (image g))) (\<lambda>v. command CMD_CACHE_HEIGHT v),
      bnd (getg (\<lambda>g. cnn_Ts (cnn g))) (\<lambda>v. command CMD_TS v),
      bnd (getg (\<lambda>g. cnn_iter_cnt (cnn g))) (\<lambda>v. command CMD_ITER_CNT v),
      image_alloc wd,
      modg set_shift,
      uart_write wd 1]"

section \<open>Images\<close>

definition get_pixel :: "nat \<Rightarrow> globals \<Rightarrow> fault + u16" where
  "get_pixel p g = img_get (img_data (image g)) p (unat (gi g)) (unat (gj g))"

definition set_pixel :: "nat \<Rightarrow> u16 \<Rightarrow> globals \<Rightarrow> fault + globals" where
  "set_pixel p v g =
     ebind (img_set (img_data (image g)) p (unat (gi g)) (unat (gj g)) v) (\<lambda>d. Inr (set_img_data d g))"

text \<open>
  \<open>(u16)(data * pow(2, busF))\<close>: scaling a \<open>float\<close> by a power of two is exact in double precision,
  so the value is the rational one; a value that truncates outside the range of \<open>u16\<close> is an
  undefined conversion.
\<close>

definition float_to_fixed :: "rat \<Rightarrow> fault + u16" where
  "float_to_fixed data =
     (let v = data * 2 ^ busF; t = (if v < 0 then \<lceil>v\<rceil> else \<lfloor>v\<rfloor>) in
      if 0 \<le> t \<and> t < 2 ^ 16 then Inr (word_of_int t) else Inl BadConversion)"

definition image_fill :: "u16 \<Rightarrow> rat \<Rightarrow> (globals, unit) fw" where
  "image_fill index data = for_pixels
     (bnd (gete (\<lambda>_. float_to_fixed data)) (\<lambda>v. mode (set_pixel (unat index) v)))"

definition image_read :: "world \<Rightarrow> (globals, unit) fw" where
  "image_read wd = bnd (uart_read wd) (\<lambda>pos. for_pixels (block
     [bnd (uart_read wd) (\<lambda>b. mode (set_pixel (unat pos) (push_bit 8 (ucast b)))),
      bnd (uart_read wd) (\<lambda>b. mode (\<lambda>g.
        ebind (get_pixel (unat pos) g) (\<lambda>v. set_pixel (unat pos) (v OR ucast b) g)))]))"

definition image_send :: "world \<Rightarrow> (globals, unit) fw" where
  "image_send wd = bnd (uart_read wd) (\<lambda>pos. for_pixels (block
     [bnd (gete (get_pixel (unat pos))) (\<lambda>v. uart_write wd (ucast (drop_bit 8 (v AND 0xFF00)))),
      bnd (gete (get_pixel (unat pos))) (\<lambda>v. uart_write wd (ucast (v AND 0x00FF)))]))"

section \<open>Errors\<close>

text \<open>
  \<open>(*mpu.error_u00 * cnn.learn_rate) / (busFMax * image.shift)\<close> stored in an \<open>s16\<close>: the product
  is a 32-bit \<open>int\<close>, the divisor an \<open>s64\<close>, and the 64-bit quotient is truncated to 16 bits.
\<close>

definition scale_error :: "s32 \<Rightarrow> u16 \<Rightarrow> u32 \<Rightarrow> fault + s16" where
  "scale_error raw rate shift =
     (let num = sint (raw * ucast rate); den = busFMax * uint shift in
      if den = 0 then Inl DivByZero else Inr (word_of_int (c_div num den)))"

definition set_error_u :: "u32 \<Rightarrow> u32 \<Rightarrow> s16 \<Rightarrow> globals \<Rightarrow> fault + globals" where
  "set_error_u i j v g = ebind (mat_set (e_u (errors g)) i j v) (\<lambda>M. Inr (g\<lparr>errors := (errors g)\<lparr>e_u := M\<rparr>\<rparr>))"

definition set_error_x :: "u32 \<Rightarrow> u32 \<Rightarrow> s16 \<Rightarrow> globals \<Rightarrow> fault + globals" where
  "set_error_x i j v g = ebind (mat_set (e_x (errors g)) i j v) (\<lambda>M. Inr (g\<lparr>errors := (errors g)\<lparr>e_x := M\<rparr>\<rparr>))"

definition set_error_i :: "s16 \<Rightarrow> globals \<Rightarrow> fault + globals" where
  "set_error_i v g = Inr (g\<lparr>errors := (errors g)\<lparr>e_i := v\<rparr>\<rparr>)"

definition error_item :: "world \<Rightarrow> mpu_reg \<Rightarrow> (s16 \<Rightarrow> globals \<Rightarrow> fault + globals) \<Rightarrow> (globals, unit) fw" where
  "error_item wd r put = bnd (reg_read wd W32 r) (\<lambda>raw. mode (\<lambda>g.
     ebind (scale_error raw (cnn_learn_rate (cnn g)) (img_shift (image g))) (\<lambda>v. put v g)))"

text \<open>The nine positions of a patch in the order the source lists them.\<close>

definition patch :: "((ix \<times> ix) \<times> u32 \<times> u32) list" where
  "patch = [((I0, I0), 0, 0), ((I0, I1), 0, 1), ((I0, I2), 0, 2),
            ((I1, I0), 1, 0), ((I1, I1), 1, 1), ((I1, I2), 1, 2),
            ((I2, I0), 2, 0), ((I2, I1), 2, 1), ((I2, I2), 2, 2)]"

definition error_get :: "world \<Rightarrow> (globals, unit) fw" where
  "error_get wd = block
     (map (\<lambda>((a, b), i, j). error_item wd (R_error_u a b) (set_error_u i j)) patch @
      map (\<lambda>((a, b), i, j). error_item wd (R_error_x a b) (set_error_x i j)) patch @
      [error_item wd R_error_i set_error_i])"

text \<open>An error value is an \<open>s16\<close>, promoted to \<open>int\<close> and sent as four octets.\<close>

definition error_octets :: "s16 \<Rightarrow> u8 list" where
  "error_octets v = (let x = scast v :: u32 in
     [ucast (drop_bit 24 (x AND 0xFF000000)), ucast (drop_bit 16 (x AND 0x00FF0000)),
      ucast (drop_bit 8 (x AND 0x0000FF00)), ucast (x AND 0x000000FF)])"

definition send_error :: "world \<Rightarrow> s16 \<Rightarrow> (globals, unit) fw" where
  "send_error wd v = block (map (uart_write wd) (error_octets v))"

definition error_send :: "world \<Rightarrow> (globals, unit) fw" where
  "error_send wd = block
     [error_get wd,
      for_patch (bnd (gete (\<lambda>g. mat_get (e_x (errors g)) (gi g) (gj g))) (send_error wd)),
      for_patch (bnd (gete (\<lambda>g. mat_get (e_u (errors g)) (gi g) (gj g))) (send_error wd)),
      bnd (getg (\<lambda>g. e_i (errors g))) (send_error wd)]"

section \<open>Templates\<close>

definition template_get :: "u16 \<Rightarrow> (template_struct \<Rightarrow> fault + 'a) \<Rightarrow> globals \<Rightarrow> fault + 'a" where
  "template_get template_no f g = ebind (nth_chk (templates g) (unat template_no)) f"

definition template_out :: "u16 \<Rightarrow> mpu_reg \<Rightarrow> (template_struct \<Rightarrow> fault + s16) \<Rightarrow> (globals, unit) fw" where
  "template_out template_no r f = bnd (gete (template_get template_no f)) (\<lambda>v. reg_write W16 r (ucast v))"

definition template_set :: "u16 \<Rightarrow> (globals, unit) fw" where
  "template_set template_no = block
     (map (\<lambda>((a, b), i, j). template_out template_no (R_template_A a b) (\<lambda>t. mat_get (t_A t) i j)) patch @
      map (\<lambda>((a, b), i, j). template_out template_no (R_template_B a b) (\<lambda>t. mat_get (t_B t) i j)) patch @
      [template_out template_no R_template_I (\<lambda>t. Inr (t_I t)),
       template_out template_no R_template_xbnd (\<lambda>t. Inr (t_x_bnd t)),
       template_out template_no R_template_ubnd (\<lambda>t. Inr (t_u_bnd t))])"

definition set_template_var :: "s32 \<Rightarrow> globals \<Rightarrow> globals" where
  "set_template_var v g = g\<lparr>mpu := (mpu g)\<lparr>mpu_template_var := v\<rparr>\<rparr>"

text \<open>A coefficient goes through \<open>mpu.template_var\<close>, sign-extended, and out as two octets.\<close>

definition send_coefficient :: "world \<Rightarrow> (globals \<Rightarrow> fault + s16) \<Rightarrow> (globals, unit) fw" where
  "send_coefficient wd f = block
     [bnd (gete f) (\<lambda>v. modg (set_template_var (scast v))),
      bnd (getg (\<lambda>g. mpu_template_var (mpu g))) (\<lambda>x. uart_write wd (ucast (drop_bit 8 (x AND 0x0000FF00)))),
      bnd (getg (\<lambda>g. mpu_template_var (mpu g))) (\<lambda>x. uart_write wd (ucast (x AND 0x000000FF)))]"

definition template_send :: "world \<Rightarrow> (globals, unit) fw" where
  "template_send wd =
     bnd (uart_read wd) (\<lambda>hi. bnd (uart_read wd) (\<lambda>lo. let template_no = be16 hi lo in block
       [for_patch (send_coefficient wd (\<lambda>g. template_get template_no (\<lambda>t. mat_get (t_A t) (gi g) (gj g)) g)),
        for_patch (send_coefficient wd (\<lambda>g. template_get template_no (\<lambda>t. mat_get (t_B t) (gi g) (gj g)) g)),
        send_coefficient wd (template_get template_no (\<lambda>t. Inr (t_I t))),
        send_coefficient wd (template_get template_no (\<lambda>t. Inr (t_x_bnd t))),
        send_coefficient wd (template_get template_no (\<lambda>t. Inr (t_u_bnd t)))]))"

end
