(* ===== verification/Sys_Init.thy ===== *)
theory Sys_Init
  imports Sys_Func
begin

text \<open>
  System initialisation, \<open>mpu_sw/src/sys/sys_init.c\<close>: the global variables as the C startup code
  leaves them, the built-in templates, the register pointers, the image stack and the caches. The
  processor's instruction and data caches (\<open>ddr2_caches_enable\<close>, assembly of the board support
  package) are transparent to the program and have no counterpart.
\<close>

section \<open>The register map\<close>

text \<open>Base addresses of \<open>xparameters.h\<close>; the second channel of a GPIO core is at offset 8.\<close>

definition XPAR_IOMODULE_0_BASEADDR :: u32 where "XPAR_IOMODULE_0_BASEADDR = 0x80000000"

definition XPAR_TEMPLATE_A00_A01_BASEADDR :: u32 where "XPAR_TEMPLATE_A00_A01_BASEADDR = 0xB0000000"
definition XPAR_TEMPLATE_A02_A10_BASEADDR :: u32 where "XPAR_TEMPLATE_A02_A10_BASEADDR = 0xB0001000"
definition XPAR_TEMPLATE_A11_A12_BASEADDR :: u32 where "XPAR_TEMPLATE_A11_A12_BASEADDR = 0xB0002000"
definition XPAR_TEMPLATE_A20_A21_BASEADDR :: u32 where "XPAR_TEMPLATE_A20_A21_BASEADDR = 0xB0003000"
definition XPAR_TEMPLATE_A22_B00_BASEADDR :: u32 where "XPAR_TEMPLATE_A22_B00_BASEADDR = 0xB0004000"
definition XPAR_TEMPLATE_B01_B02_BASEADDR :: u32 where "XPAR_TEMPLATE_B01_B02_BASEADDR = 0xB0005000"
definition XPAR_TEMPLATE_B10_B11_BASEADDR :: u32 where "XPAR_TEMPLATE_B10_B11_BASEADDR = 0xB0006000"
definition XPAR_TEMPLATE_B12_B20_BASEADDR :: u32 where "XPAR_TEMPLATE_B12_B20_BASEADDR = 0xB0007000"
definition XPAR_TEMPLATE_B21_B22_BASEADDR :: u32 where "XPAR_TEMPLATE_B21_B22_BASEADDR = 0xB0008000"
definition XPAR_TEMPLATE_I_BASE_BASEADDR :: u32 where "XPAR_TEMPLATE_I_BASE_BASEADDR = 0xB0009000"
definition XPAR_TEMPLATE_XBND_UBND_BASEADDR :: u32 where "XPAR_TEMPLATE_XBND_UBND_BASEADDR = 0xB000A000"
definition XPAR_X_DATA_IN_OUT_BASEADDR :: u32 where "XPAR_X_DATA_IN_OUT_BASEADDR = 0xA0002000"
definition XPAR_X_ADDRESS_WE_BASEADDR :: u32 where "XPAR_X_ADDRESS_WE_BASEADDR = 0xA0003000"
definition XPAR_U_DATA_IN_OUT_BASEADDR :: u32 where "XPAR_U_DATA_IN_OUT_BASEADDR = 0xA0000000"
definition XPAR_U_ADDRESS_WE_BASEADDR :: u32 where "XPAR_U_ADDRESS_WE_BASEADDR = 0xA0001000"
definition XPAR_IDEAL_DATA_IN_OUT_BASEADDR :: u32 where "XPAR_IDEAL_DATA_IN_OUT_BASEADDR = 0xA0004000"
definition XPAR_IDEAL_ADDRESS_WE_BASEADDR :: u32 where "XPAR_IDEAL_ADDRESS_WE_BASEADDR = 0xA0005000"
definition XPAR_ERROR_I_BASE_BASEADDR :: u32 where "XPAR_ERROR_I_BASE_BASEADDR = 0x90000000"
definition XPAR_ERROR_U00_U01_BASEADDR :: u32 where "XPAR_ERROR_U00_U01_BASEADDR = 0x90001000"
definition XPAR_ERROR_U02_U10_BASEADDR :: u32 where "XPAR_ERROR_U02_U10_BASEADDR = 0x90002000"
definition XPAR_ERROR_U11_U12_BASEADDR :: u32 where "XPAR_ERROR_U11_U12_BASEADDR = 0x90003000"
definition XPAR_ERROR_U20_U21_BASEADDR :: u32 where "XPAR_ERROR_U20_U21_BASEADDR = 0x90004000"
definition XPAR_ERROR_U22_X00_BASEADDR :: u32 where "XPAR_ERROR_U22_X00_BASEADDR = 0x90005000"
definition XPAR_ERROR_X01_X02_BASEADDR :: u32 where "XPAR_ERROR_X01_X02_BASEADDR = 0x90006000"
definition XPAR_ERROR_X10_X11_BASEADDR :: u32 where "XPAR_ERROR_X10_X11_BASEADDR = 0x90007000"
definition XPAR_ERROR_X12_X20_BASEADDR :: u32 where "XPAR_ERROR_X12_X20_BASEADDR = 0x90008000"
definition XPAR_ERROR_X21_X22_BASEADDR :: u32 where "XPAR_ERROR_X21_X22_BASEADDR = 0x90009000"

lemmas xpar_defs =
  XPAR_IOMODULE_0_BASEADDR_def
  XPAR_TEMPLATE_A00_A01_BASEADDR_def
  XPAR_TEMPLATE_A02_A10_BASEADDR_def
  XPAR_TEMPLATE_A11_A12_BASEADDR_def
  XPAR_TEMPLATE_A20_A21_BASEADDR_def
  XPAR_TEMPLATE_A22_B00_BASEADDR_def
  XPAR_TEMPLATE_B01_B02_BASEADDR_def
  XPAR_TEMPLATE_B10_B11_BASEADDR_def
  XPAR_TEMPLATE_B12_B20_BASEADDR_def
  XPAR_TEMPLATE_B21_B22_BASEADDR_def
  XPAR_TEMPLATE_I_BASE_BASEADDR_def
  XPAR_TEMPLATE_XBND_UBND_BASEADDR_def
  XPAR_X_DATA_IN_OUT_BASEADDR_def
  XPAR_X_ADDRESS_WE_BASEADDR_def
  XPAR_U_DATA_IN_OUT_BASEADDR_def
  XPAR_U_ADDRESS_WE_BASEADDR_def
  XPAR_IDEAL_DATA_IN_OUT_BASEADDR_def
  XPAR_IDEAL_ADDRESS_WE_BASEADDR_def
  XPAR_ERROR_I_BASE_BASEADDR_def
  XPAR_ERROR_U00_U01_BASEADDR_def
  XPAR_ERROR_U02_U10_BASEADDR_def
  XPAR_ERROR_U11_U12_BASEADDR_def
  XPAR_ERROR_U20_U21_BASEADDR_def
  XPAR_ERROR_U22_X00_BASEADDR_def
  XPAR_ERROR_X01_X02_BASEADDR_def
  XPAR_ERROR_X10_X11_BASEADDR_def
  XPAR_ERROR_X12_X20_BASEADDR_def
  XPAR_ERROR_X21_X22_BASEADDR_def

definition uart_table :: "(mpu_reg \<times> u32) list" where
  "uart_table =
    [(R_uart_rx, XPAR_IOMODULE_0_BASEADDR OR 0x0),
     (R_uart_tx, XPAR_IOMODULE_0_BASEADDR OR 0x4),
     (R_uart_status, XPAR_IOMODULE_0_BASEADDR OR 0x8)]"

definition gpio_table :: "(mpu_reg \<times> u32) list" where
  "gpio_table =
    [(R_command, XPAR_IOMODULE_0_BASEADDR OR 0x10),
     (R_feedback, XPAR_IOMODULE_0_BASEADDR OR 0x20),
     (R_template_A I0 I0, XPAR_TEMPLATE_A00_A01_BASEADDR OR 0x00),
     (R_template_A I0 I1, XPAR_TEMPLATE_A00_A01_BASEADDR OR 0x08),
     (R_template_A I0 I2, XPAR_TEMPLATE_A02_A10_BASEADDR OR 0x00),
     (R_template_A I1 I0, XPAR_TEMPLATE_A02_A10_BASEADDR OR 0x08),
     (R_template_A I1 I1, XPAR_TEMPLATE_A11_A12_BASEADDR OR 0x00),
     (R_template_A I1 I2, XPAR_TEMPLATE_A11_A12_BASEADDR OR 0x08),
     (R_template_A I2 I0, XPAR_TEMPLATE_A20_A21_BASEADDR OR 0x00),
     (R_template_A I2 I1, XPAR_TEMPLATE_A20_A21_BASEADDR OR 0x08),
     (R_template_A I2 I2, XPAR_TEMPLATE_A22_B00_BASEADDR OR 0x00),
     (R_template_B I0 I0, XPAR_TEMPLATE_A22_B00_BASEADDR OR 0x08),
     (R_template_B I0 I1, XPAR_TEMPLATE_B01_B02_BASEADDR OR 0x00),
     (R_template_B I0 I2, XPAR_TEMPLATE_B01_B02_BASEADDR OR 0x08),
     (R_template_B I1 I0, XPAR_TEMPLATE_B10_B11_BASEADDR OR 0x00),
     (R_template_B I1 I1, XPAR_TEMPLATE_B10_B11_BASEADDR OR 0x08),
     (R_template_B I1 I2, XPAR_TEMPLATE_B12_B20_BASEADDR OR 0x00),
     (R_template_B I2 I0, XPAR_TEMPLATE_B12_B20_BASEADDR OR 0x08),
     (R_template_B I2 I1, XPAR_TEMPLATE_B21_B22_BASEADDR OR 0x00),
     (R_template_B I2 I2, XPAR_TEMPLATE_B21_B22_BASEADDR OR 0x08),
     (R_template_I, XPAR_TEMPLATE_I_BASE_BASEADDR OR 0x00),
     (R_template_xbnd, XPAR_TEMPLATE_XBND_UBND_BASEADDR OR 0x00),
     (R_template_ubnd, XPAR_TEMPLATE_XBND_UBND_BASEADDR OR 0x08),
     (R_data_in Cache_x, XPAR_X_DATA_IN_OUT_BASEADDR OR 0x00),
     (R_data_out Cache_x, XPAR_X_DATA_IN_OUT_BASEADDR OR 0x08),
     (R_address Cache_x, XPAR_X_ADDRESS_WE_BASEADDR OR 0x00),
     (R_we Cache_x, XPAR_X_ADDRESS_WE_BASEADDR OR 0x08),
     (R_data_in Cache_u, XPAR_U_DATA_IN_OUT_BASEADDR OR 0x00),
     (R_data_out Cache_u, XPAR_U_DATA_IN_OUT_BASEADDR OR 0x08),
     (R_address Cache_u, XPAR_U_ADDRESS_WE_BASEADDR OR 0x00),
     (R_we Cache_u, XPAR_U_ADDRESS_WE_BASEADDR OR 0x08),
     (R_data_in Cache_ideal, XPAR_IDEAL_DATA_IN_OUT_BASEADDR OR 0x00),
     (R_data_out Cache_ideal, XPAR_IDEAL_DATA_IN_OUT_BASEADDR OR 0x08),
     (R_address Cache_ideal, XPAR_IDEAL_ADDRESS_WE_BASEADDR OR 0x00),
     (R_we Cache_ideal, XPAR_IDEAL_ADDRESS_WE_BASEADDR OR 0x08),
     (R_error_i, XPAR_ERROR_I_BASE_BASEADDR OR 0x00),
     (R_error_u I0 I0, XPAR_ERROR_U00_U01_BASEADDR OR 0x00),
     (R_error_u I0 I1, XPAR_ERROR_U00_U01_BASEADDR OR 0x08),
     (R_error_u I0 I2, XPAR_ERROR_U02_U10_BASEADDR OR 0x00),
     (R_error_u I1 I0, XPAR_ERROR_U02_U10_BASEADDR OR 0x08),
     (R_error_u I1 I1, XPAR_ERROR_U11_U12_BASEADDR OR 0x00),
     (R_error_u I1 I2, XPAR_ERROR_U11_U12_BASEADDR OR 0x08),
     (R_error_u I2 I0, XPAR_ERROR_U20_U21_BASEADDR OR 0x00),
     (R_error_u I2 I1, XPAR_ERROR_U20_U21_BASEADDR OR 0x08),
     (R_error_u I2 I2, XPAR_ERROR_U22_X00_BASEADDR OR 0x00),
     (R_error_x I0 I0, XPAR_ERROR_U22_X00_BASEADDR OR 0x08),
     (R_error_x I0 I1, XPAR_ERROR_X01_X02_BASEADDR OR 0x00),
     (R_error_x I0 I2, XPAR_ERROR_X01_X02_BASEADDR OR 0x08),
     (R_error_x I1 I0, XPAR_ERROR_X10_X11_BASEADDR OR 0x00),
     (R_error_x I1 I1, XPAR_ERROR_X10_X11_BASEADDR OR 0x08),
     (R_error_x I1 I2, XPAR_ERROR_X12_X20_BASEADDR OR 0x00),
     (R_error_x I2 I0, XPAR_ERROR_X12_X20_BASEADDR OR 0x08),
     (R_error_x I2 I1, XPAR_ERROR_X21_X22_BASEADDR OR 0x00),
     (R_error_x I2 I2, XPAR_ERROR_X21_X22_BASEADDR OR 0x08)]"

definition store_pointers :: "(mpu_reg \<times> u32) list \<Rightarrow> globals \<Rightarrow> globals" where
  "store_pointers tab g =
     g\<lparr>mpu := (mpu g)\<lparr>mpu_regs := fold (\<lambda>(r, a) m. m(r := a)) tab (mpu_regs (mpu g))\<rparr>\<rparr>"

definition init_uart :: "(globals, unit) fw" where
  "init_uart = modg (store_pointers uart_table)"

definition init_gpio :: "(globals, unit) fw" where
  "init_gpio = modg (store_pointers gpio_table)"

section \<open>Variables\<close>

definition init_general :: "(globals, unit) fw" where
  "init_general = block [modg (set_i 0), modg (set_j 0), modg (set_k 0)]"

definition init_image :: "world \<Rightarrow> (globals, unit) fw" where
  "init_image wd = block
     [modg (image_update (\<lambda>m. m\<lparr>img_width := 128, img_height := 128, img_count := 20\<rparr>)),
      modg set_shift,
      image_alloc wd]"

definition init_cnn :: "(globals, unit) fw" where
  "init_cnn = modg (\<lambda>g. g\<lparr>cnn := \<lparr>cnn_Ts = 1, cnn_iter_cnt = 3, cnn_template_no = 0,
                                cnn_learn_loop = 100, cnn_learn_rate = 10\<rparr>\<rparr>)"

definition init_l2cache :: "(globals, unit) fw" where
  "init_l2cache = l2cache_setdimensions l2cacheWidthMAX l2cacheHeightMAX"

definition init_system :: "world \<Rightarrow> (globals, unit) fw" where
  "init_system wd = block
     [init_general, init_image wd, init_cnn, init_uart, init_gpio, init_l2cache,
      command CMD_STATE_RST 1]"

text \<open>The built-in templates (\<open>template_init.txt\<close>) and the zero-initialised globals.\<close>

definition tmpl :: "int list list \<Rightarrow> int list list \<Rightarrow> int \<Rightarrow> int \<Rightarrow> int \<Rightarrow> template_struct" where
  "tmpl A B I x u = \<lparr>t_A = map (map word_of_int) A, t_B = map (map word_of_int) B,
     t_I = word_of_int I, t_x_bnd = word_of_int x, t_u_bnd = word_of_int u\<rparr>"

definition template_init :: "template_struct list" where
  "template_init =
    [tmpl [[0, 0, 0], [0, 2048, 0], [0, 0, 0]] [[0, 0, 0], [0, 0, 0], [0, 0, 0]] (-4096) 0 0,
     tmpl [[0, 0, 0], [0, 1024, 0], [0, 0, 0]] [[-1024, -1024, -1024], [-1024, 8192, -1024], [-1024, -1024, -1024]] (-1024) 0 0,
     tmpl [[0, 0, 0], [0, 2048, 0], [0, 0, 0]] [[-1024, -1024, -1024], [-1024, 8192, -1024], [-1024, -1024, -1024]] (-512) 0 0,
     tmpl [[0, 0, 0], [0, 2048, 0], [0, 0, 0]] [[-1024, -1024, -1024], [-1024, 8192, -1024], [-1024, -1024, -1024]] (-8704) 0 0,
     tmpl [[0, 0, 0], [0, 0, 0], [0, 0, 0]] [[0, 0, 0], [0, 1024, 0], [0, 0, 0]] 0 0 (-1024),
     tmpl [[0, 0, 0], [0, 2048, 0], [0, 0, 0]] [[0, 0, 0], [0, 0, 0], [0, 0, 0]] 0 0 (-1024),
     tmpl [[0, 0, 0], [0, 1024, 0], [0, 0, 0]] [[-1024, -1024, -1024], [-1024, 1024, -1024], [-1024, -1024, -1024]] (-8192) 1024 1024,
     tmpl [[0, 0, 0], [0, 1024, 0], [0, 0, 0]] [[1024, 1024, 1024], [1024, 8192, 1024], [1024, 1024, 1024]] (-1024) 1024 (-1024),
     tmpl [[0, 0, 0], [0, 1024, 0], [0, 0, 0]] [[0, 0, 0], [0, -2048, 0], [0, 0, 0]] 0 0 0,
     tmpl [[0, 0, 0], [0, 2048, 0], [0, 0, 0]] [[0, 0, 0], [0, 1024, 0], [0, 0, 0]] (-1024) 0 0,
     tmpl [[0, 0, 0], [0, 2048, 0], [0, 0, 0]] [[0, 0, 0], [0, 1024, 0], [0, 0, 0]] 1024 0 0,
     tmpl [[0, 0, 0], [0, 2048, 0], [0, 0, 0]] [[0, 1024, 0], [1024, 1024, 1024], [0, 1024, 0]] (-4608) 1024 (-1024),
     tmpl [[0, 0, 0], [0, 2048, 0], [0, 0, 0]] [[0, 1024, 0], [1024, 1024, 1024], [0, 1024, 0]] 4608 (-1024) (-1024),
     tmpl [[0, 0, 0], [0, 1024, 0], [0, 0, 0]] [[0, 0, 0], [0, 1024, 0], [0, 0, 0]] 0 0 (-1024),
     tmpl [[0, 0, 0], [0, 1024, 0], [0, 0, 0]] [[0, 0, 0], [0, -1024, 0], [0, 0, 0]] (-2048) 0 0]"

definition zero_patch :: "s16 list list" where
  "zero_patch = mat 3 3 (\<lambda>_ _. 0)"

definition globals_at_reset :: globals where
  "globals_at_reset =
     \<lparr>general = \<lparr>g_i = 0, g_j = 0, g_k = 0\<rparr>,
      l2cache = \<lparr>cache_width = 0, cache_height = 0\<rparr>,
      image = \<lparr>img_data = None, img_width = 0, img_height = 0, img_count = 0, img_shift = 0\<rparr>,
      cnn = \<lparr>cnn_Ts = 0, cnn_iter_cnt = 0, cnn_template_no = 0, cnn_learn_loop = 0, cnn_learn_rate = 0\<rparr>,
      mpu = \<lparr>mpu_regs = (\<lambda>_. 0), mpu_command_var = 0, mpu_template_var = 0, mpu_bram_var = 0\<rparr>,
      templates = template_init,
      errors = \<lparr>e_u = zero_patch, e_x = zero_patch, e_i = 0\<rparr>,
      heap_live = 0\<rparr>"

section \<open>The initialised register map\<close>

text \<open>The address each register pointer holds once both tables are stored.\<close>

definition reg_addr :: "mpu_reg \<Rightarrow> u32" where
  "reg_addr r = (case map_of (uart_table @ gpio_table) r of Some a \<Rightarrow> a | None \<Rightarrow> 0)"

definition pointers_ok :: "globals \<Rightarrow> bool" where
  "pointers_ok g \<longleftrightarrow> mpu_regs (mpu g) = reg_addr"

lemmas table_defs = uart_table_def gpio_table_def xpar_defs

lemma fold_store:
  "distinct (map fst tab) \<Longrightarrow>
   fold (\<lambda>(r, a) m. m(r := a)) tab m r = (case map_of tab r of Some a \<Rightarrow> a | None \<Rightarrow> m r)"
proof (induction tab arbitrary: m)
  case (Cons x tab)
  obtain k v where x: "x = (k, v)" by force
  have "map_of tab k = None" using Cons.prems x by (simp add: map_of_eq_None_iff)
  then show ?case using Cons x by auto
qed simp

lemma table_keys: "distinct (map fst (uart_table @ gpio_table))"
  by (simp add: uart_table_def gpio_table_def)

lemma table_addresses: "distinct (map snd (uart_table @ gpio_table))"
  by (simp add: table_defs)

lemma table_total: "r \<in> fst ` set (uart_table @ gpio_table)"
proof -
  have ix: "\<And>P. P I0 \<Longrightarrow> P I1 \<Longrightarrow> P I2 \<Longrightarrow> (\<And>i. P i)" by (metis ix.exhaust)
  have ixs: "(a, b) \<in> {(I0, I0), (I0, I1), (I0, I2), (I1, I0), (I1, I1), (I1, I2), (I2, I0), (I2, I1), (I2, I2)}"
    for a b by (cases a; cases b) simp_all
  show ?thesis
  proof (cases r)
    case (R_template_A a b)
    then show ?thesis using ixs [of a b] by (auto simp: uart_table_def gpio_table_def)
  next
    case (R_template_B a b)
    then show ?thesis using ixs [of a b] by (auto simp: uart_table_def gpio_table_def)
  next
    case (R_error_u a b)
    then show ?thesis using ixs [of a b] by (auto simp: uart_table_def gpio_table_def)
  next
    case (R_error_x a b)
    then show ?thesis using ixs [of a b] by (auto simp: uart_table_def gpio_table_def)
  next
    case (R_data_in c)
    then show ?thesis by (cases c) (simp_all add: uart_table_def gpio_table_def)
  next
    case (R_data_out c)
    then show ?thesis by (cases c) (simp_all add: uart_table_def gpio_table_def)
  next
    case (R_address c)
    then show ?thesis by (cases c) (simp_all add: uart_table_def gpio_table_def)
  next
    case (R_we c)
    then show ?thesis by (cases c) (simp_all add: uart_table_def gpio_table_def)
  qed (simp_all add: uart_table_def gpio_table_def)
qed

lemma reg_addr_inj: "inj reg_addr"
proof (rule injI)
  fix r s assume eq: "reg_addr r = reg_addr s"
  let ?t = "uart_table @ gpio_table"
  obtain a where r: "(r, a) \<in> set ?t" using table_total [of r] by (metis imageE prod.collapse)
  obtain b where s: "(s, b) \<in> set ?t" using table_total [of s] by (metis imageE prod.collapse)
  have "map_of ?t r = Some a" "map_of ?t s = Some b"
    using r s table_keys by (metis map_of_eq_Some_iff)+
  with eq have "a = b" by (simp add: reg_addr_def)
  then have same: "snd (r, a) = snd (s, b)" by simp
  have "inj_on snd (set ?t)" using table_addresses unfolding distinct_map by blast
  from inj_onD [OF this same r s] show "r = s" by simp
qed

lemma reg_addr_simps [simp]:
  "reg_addr R_uart_rx = uart_rx_a" "reg_addr R_uart_tx = uart_tx_a"
  "reg_addr R_uart_status = uart_status_a" "reg_addr R_command = command_a"
  "reg_addr R_feedback = feedback_a"
  by (simp_all add: reg_addr_def table_defs iomodule_addresses)

lemma reg_addr_eq_iff [simp]: "reg_addr r = reg_addr s \<longleftrightarrow> r = s"
  using reg_addr_inj by (simp add: inj_eq)

lemma iomodule_neq [simp]:
  "uart_rx_a \<noteq> uart_status_a" "uart_rx_a \<noteq> feedback_a" "uart_rx_a \<noteq> uart_tx_a" "uart_rx_a \<noteq> command_a"
  "uart_tx_a \<noteq> uart_status_a" "uart_tx_a \<noteq> feedback_a" "uart_tx_a \<noteq> uart_rx_a" "uart_tx_a \<noteq> command_a"
  "command_a \<noteq> uart_status_a" "command_a \<noteq> feedback_a" "command_a \<noteq> uart_rx_a" "command_a \<noteq> uart_tx_a"
  "uart_status_a \<noteq> feedback_a" "feedback_a \<noteq> uart_status_a"
  by (simp_all add: iomodule_addresses)

lemma reg_addr_iomodule [simp]:
  "reg_addr r = uart_rx_a \<longleftrightarrow> r = R_uart_rx" "reg_addr r = uart_tx_a \<longleftrightarrow> r = R_uart_tx"
  "reg_addr r = uart_status_a \<longleftrightarrow> r = R_uart_status" "reg_addr r = command_a \<longleftrightarrow> r = R_command"
  "reg_addr r = feedback_a \<longleftrightarrow> r = R_feedback"
  "uart_rx_a = reg_addr r \<longleftrightarrow> r = R_uart_rx" "uart_tx_a = reg_addr r \<longleftrightarrow> r = R_uart_tx"
  "uart_status_a = reg_addr r \<longleftrightarrow> r = R_uart_status" "command_a = reg_addr r \<longleftrightarrow> r = R_command"
  "feedback_a = reg_addr r \<longleftrightarrow> r = R_feedback"
  by (metis reg_addr_simps reg_addr_eq_iff)+

lemma store_pointers_init:
  "pointers_ok (store_pointers gpio_table (store_pointers uart_table g))"
proof -
  have "mpu_regs (mpu (store_pointers gpio_table (store_pointers uart_table g)))
      = fold (\<lambda>(r, a) m. m(r := a)) (uart_table @ gpio_table) (mpu_regs (mpu g))"
    by (simp add: store_pointers_def)
  also have "\<dots> = reg_addr"
  proof
    fix r
    obtain a where "map_of (uart_table @ gpio_table) r = Some a"
      using table_total [of r] by (metis map_of_eq_None_iff option.exhaust)
    then show "fold (\<lambda>(r, a) m. m(r := a)) (uart_table @ gpio_table) (mpu_regs (mpu g)) r = reg_addr r"
      unfolding fold_store [OF table_keys] reg_addr_def by simp
  qed
  finally show ?thesis by (simp add: pointers_ok_def)
qed

end
