(* ===== verification/Host_Link.thy ===== *)
theory Host_Link
  imports Sys_Init
begin

text \<open>
  The host link. The UART is an interface of the hardware: the locale \<open>uart_env\<close> states what the
  firmware relies on (status bit 0 is set, after finitely many polls, while received octets remain;
  once it has been seen set, reading the receive register yields the next of them; the transmitter
  does not stay full for ever). Octets written to a transmitter that was not seen free do not count
  (\<open>quiet\<close> of \<open>Bus\<close>). Inside the locale the firmware's handlers are executed symbolically, giving each
  one's exact effect on the globals and on the octets exchanged.
\<close>

section \<open>Octets on the wire\<close>

definition rx_count :: "event list \<Rightarrow> nat" where
  "rx_count q = length (filter (\<lambda>e. case e of Rd w a v \<Rightarrow> a = uart_rx_a | Wr w a v \<Rightarrow> False) q)"

fun tx_octet :: "event \<Rightarrow> u8 list" where
  "tx_octet (Wr w a v) = (if a = uart_tx_a then [ucast v] else [])"
| "tx_octet (Rd w a v) = []"

definition tx_octets :: "event list \<Rightarrow> u8 list" where
  "tx_octets q = concat (map tx_octet (rev q))"

fun command_word :: "event \<Rightarrow> u32 list" where
  "command_word (Wr w a v) = (if a = command_a then [v] else [])"
| "command_word (Rd w a v) = []"

definition commands :: "event list \<Rightarrow> u32 list" where
  "commands q = concat (map command_word (rev q))"

lemma rx_count_simps [simp]:
  "rx_count [] = 0"
  "rx_count (Rd w a v # q) = (if a = uart_rx_a then Suc (rx_count q) else rx_count q)"
  "rx_count (Wr w a v # q) = rx_count q"
  by (simp_all add: rx_count_def)

lemma tx_octets_simps [simp]:
  "tx_octets [] = []"
  "tx_octets (Rd w a v # q) = tx_octets q"
  "tx_octets (Wr w a v # q) = (if a = uart_tx_a then tx_octets q @ [ucast v] else tx_octets q)"
  by (simp_all add: tx_octets_def)

lemma commands_simps [simp]:
  "commands [] = []"
  "commands (Rd w a v # q) = commands q"
  "commands (Wr w a v # q) = (if a = command_a then commands q @ [v] else commands q)"
  by (simp_all add: commands_def)

lemma clip_W8: "clip W8 v = ucast (ucast v :: u8)"
  by (rule bit_word_eqI) (auto simp: bit_simps)

lemma clip_W16: "clip W16 v = ucast (ucast v :: u16)"
  by (rule bit_word_eqI) (auto simp: bit_simps)

lemma take_bit_ucast8 [simp]: "take_bit 8 (ucast (b :: u8)) = (ucast b :: u32)"
  by (rule bit_word_eqI) (use bit_imp_le_length in \<open>fastforce simp: bit_simps\<close>)

lemma take_bit_ucast16 [simp]: "take_bit 16 (ucast (b :: u16)) = (ucast b :: u32)"
  by (rule bit_word_eqI) (use bit_imp_le_length in \<open>fastforce simp: bit_simps\<close>)

lemma take_bit_8_and_bits [simp]:
  "take_bit 8 v AND 1 = v AND 1" "take_bit 8 v AND 8 = v AND 8" for v :: u32
  by (simp_all add: take_bit_eq_mask mask_numeral and.assoc)

lemma and_octet [simp]: "v AND 0xFF = take_bit 8 v" "v AND 0xFFFF = take_bit 16 v" for v :: u32
  by (simp_all add: take_bit_eq_mask mask_numeral)

lemma ucast_take_bit_8 [simp]: "ucast (take_bit 8 v) = (ucast v :: u8)" for v :: u32
  by (rule bit_word_eqI) (auto simp: bit_simps)

lemma ucast_back [simp]: "ucast (ucast b :: u32) = b" for b :: u8
  by (rule bit_word_eqI) (auto simp: bit_simps)

section \<open>Symbolic execution of the primitives\<close>

lemma exec_reg_write:
  "mpu_regs (mpu g) r \<noteq> uart_tx_a \<Longrightarrow>
   exec (reg_write w r v) g q () g (Wr w (mpu_regs (mpu g) r) (clip w v) # q)"
  unfolding reg_write_def by (rule exec_bnd, rule exec_getg, rule exec_mmio_write)

lemma exec_reg_read:
  assumes "\<And>h. quiet h = q \<Longrightarrow> clip w (bus_in wd h (mpu_regs (mpu g) r)) = v"
    and "mpu_regs (mpu g) r \<noteq> uart_status_a" "mpu_regs (mpu g) r \<noteq> feedback_a"
  shows "exec (reg_read wd w r) g q v g (Rd w (mpu_regs (mpu g) r) v # q)"
  unfolding reg_read_def by (rule exec_bnd, rule exec_getg, rule exec_mmio_read) (fact assms)+

lemma exec_command_write:
  "mpu_regs (mpu g) R_command \<noteq> uart_tx_a \<Longrightarrow>
   exec (command_write a d) g q () g
     (Wr W32 (mpu_regs (mpu g) R_command) (push_bit 16 (ucast a) OR ucast d) # q)"
  unfolding command_write_def by (rule exec_conv, rule exec_reg_write) simp_all

lemma set_ijk_simps [simp]:
  "g_i (general (set_i v g)) = v" "g_j (general (set_i v g)) = gj g" "g_k (general (set_i v g)) = gk g"
  "g_i (general (set_j v g)) = gi g" "g_j (general (set_j v g)) = v" "g_k (general (set_j v g)) = gk g"
  "g_i (general (set_k v g)) = gi g" "g_j (general (set_k v g)) = gj g" "g_k (general (set_k v g)) = v"
  "image (set_i v g) = image g" "image (set_j v g) = image g" "image (set_k v g) = image g"
  "cnn (set_i v g) = cnn g" "cnn (set_j v g) = cnn g" "cnn (set_k v g) = cnn g"
  "mpu (set_i v g) = mpu g" "mpu (set_j v g) = mpu g" "mpu (set_k v g) = mpu g"
  "templates (set_i v g) = templates g" "templates (set_j v g) = templates g" "templates (set_k v g) = templates g"
  "errors (set_i v g) = errors g" "errors (set_j v g) = errors g" "errors (set_k v g) = errors g"
  "heap_live (set_i v g) = heap_live g" "heap_live (set_j v g) = heap_live g" "heap_live (set_k v g) = heap_live g"
  by (simp_all add: set_i_def set_j_def set_k_def)

lemma set_img_data_simps [simp]:
  "general (set_img_data d g) = general g" "cnn (set_img_data d g) = cnn g" "mpu (set_img_data d g) = mpu g"
  "templates (set_img_data d g) = templates g" "errors (set_img_data d g) = errors g"
  "heap_live (set_img_data d g) = heap_live g"
  "img_data (image (set_img_data d g)) = d" "img_width (image (set_img_data d g)) = img_width (image g)"
  "img_height (image (set_img_data d g)) = img_height (image g)"
  "img_count (image (set_img_data d g)) = img_count (image g)"
  "img_shift (image (set_img_data d g)) = img_shift (image g)"
  by (simp_all add: set_img_data_def)

section \<open>Loops\<close>

lemma exec_block_modg:
  "exec b g q () g1 q1 \<Longrightarrow> g2 = f g1 \<Longrightarrow> exec (block [b, modg f]) g q () g2 q1"
  by (auto intro: exec_bnd exec_modg)

lemma exec_for_i:
  assumes "\<And>k. k < n \<Longrightarrow> c (G k) \<and> exec b (G k) (Q k) () (B k) (Q (Suc k)) \<and> G (Suc k) = set_i (gi (B k) + 1) (B k)"
    and "\<not> c (G n)" and "G 0 = set_i 0 g" and "Q 0 = q" and "g' = G n" and "q' = Q n"
  shows "exec (for_i c b) g q () g' q'"
proof -
  have "exec (while_loop (getg c) (block [b, modg (\<lambda>g. set_i (gi g + 1) g)])) (G 0) (Q 0) () (G n) (Q n)"
    by (rule exec_while_getg) (use assms(1,2) in \<open>auto intro!: exec_block_modg simp del: block.simps\<close>)
  then show ?thesis unfolding for_i_def using assms(3-) exec_modg [of "set_i 0" g q]
    by (auto intro!: exec_bnd)
qed

lemma exec_for_j:
  assumes "\<And>k. k < n \<Longrightarrow> c (G k) \<and> exec b (G k) (Q k) () (B k) (Q (Suc k)) \<and> G (Suc k) = set_j (gj (B k) + 1) (B k)"
    and "\<not> c (G n)" and "G 0 = set_j 0 g" and "Q 0 = q" and "g' = G n" and "q' = Q n"
  shows "exec (for_j c b) g q () g' q'"
proof -
  have "exec (while_loop (getg c) (block [b, modg (\<lambda>g. set_j (gj g + 1) g)])) (G 0) (Q 0) () (G n) (Q n)"
    by (rule exec_while_getg) (use assms(1,2) in \<open>auto intro!: exec_block_modg simp del: block.simps\<close>)
  then show ?thesis unfolding for_j_def using assms(3-) exec_modg [of "set_j 0" g q]
    by (auto intro!: exec_bnd)
qed

lemma exec_for_k:
  assumes "\<And>k. k < n \<Longrightarrow> c (G k) \<and> exec b (G k) (Q k) () (B k) (Q (Suc k)) \<and> G (Suc k) = set_k (gk (B k) + 1) (B k)"
    and "\<not> c (G n)" and "G 0 = set_k 0 g" and "Q 0 = q" and "g' = G n" and "q' = Q n"
  shows "exec (for_k c b) g q () g' q'"
proof -
  have "exec (while_loop (getg c) (block [b, modg (\<lambda>g. set_k (gk g + 1) g)])) (G 0) (Q 0) () (G n) (Q n)"
    by (rule exec_while_getg) (use assms(1,2) in \<open>auto intro!: exec_block_modg simp del: block.simps\<close>)
  then show ?thesis unfolding for_k_def using assms(3-) exec_modg [of "set_k 0" g q]
    by (auto intro!: exec_bnd)
qed

section \<open>Counters and array bounds\<close>

lemma counter_less:
  "n \<le> 65536 \<Longrightarrow> (of_nat n :: u32) < ucast (x :: u16) \<longleftrightarrow> n < unat x"
  by (simp add: word_less_nat_alt)

lemma of_nat_Suc32: "of_nat n + 1 = (of_nat (Suc n) :: u32)"
  by simp

section \<open>Allocation of the image stack\<close>

text \<open>The heap can grow to \<open>B\<close> allocated bytes.\<close>

definition fits_upto :: "world \<Rightarrow> nat \<Rightarrow> bool" where
  "fits_upto wd B \<longleftrightarrow> (\<forall>l n. l + n \<le> B \<longrightarrow> heap_fits wd l n)"

definition stack_bytes :: "nat \<Rightarrow> nat \<Rightarrow> nat" where
  "stack_bytes w h = 80 + 20 * (4 * h + 2 * w * h)"

definition alloc_state :: "globals \<Rightarrow> u32 \<Rightarrow> u32 \<Rightarrow> stack_ptr \<Rightarrow> nat \<Rightarrow> globals" where
  "alloc_state g i j d l = g\<lparr>general := (general g)\<lparr>g_i := i, g_j := j\<rparr>,
     image := (image g)\<lparr>img_data := d\<rparr>, heap_live := l\<rparr>"

lemma alloc_state_simps [simp]:
  "set_i v (alloc_state g i j d l) = alloc_state g v j d l"
  "set_j v (alloc_state g i j d l) = alloc_state g i v d l"
  "set_img_data e (alloc_state g i j d l) = alloc_state g i j e l"
  "(alloc_state g i j d l)\<lparr>heap_live := m\<rparr> = alloc_state g i j d m"
  "heap_live (alloc_state g i j d l) = l"
  "gi (alloc_state g i j d l) = i" "gj (alloc_state g i j d l) = j" "gk (alloc_state g i j d l) = gk g"
  "img_data (image (alloc_state g i j d l)) = d"
  "img_width (image (alloc_state g i j d l)) = img_width (image g)"
  "img_height (image (alloc_state g i j d l)) = img_height (image g)"
  "img_count (image (alloc_state g i j d l)) = img_count (image g)"
  "img_shift (image (alloc_state g i j d l)) = img_shift (image g)"
  "cnn (alloc_state g i j d l) = cnn g" "mpu (alloc_state g i j d l) = mpu g"
  "templates (alloc_state g i j d l) = templates g" "errors (alloc_state g i j d l) = errors g"
  "pointers_ok (alloc_state g i j d l) = pointers_ok g"
  by (simp_all add: alloc_state_def set_i_def set_j_def set_img_data_def pointers_ok_def)

lemma exec_c_malloc:
  "heap_fits wd (heap_live g) n \<Longrightarrow>
   exec (c_malloc wd n) g q True (g\<lparr>heap_live := heap_live g + n\<rparr>) q"
  unfolding c_malloc_def
  by (rule exec_bnd, rule exec_getg, simp, rule exec_bnd, rule exec_modg, rule exec_ret)

lemma replicate_step:
  assumes "k < n"
  shows "(replicate k a @ replicate (n - k) b)[k := a] = replicate (Suc k) a @ replicate (n - Suc k) b"
proof -
  from assms have "replicate (n - k) b = b # replicate (n - Suc k) b"
    by (metis Suc_diff_Suc replicate_Suc)
  then show ?thesis by (simp add: list_update_append replicate_append_same)
qed

lemma exec_alloc_row:
  fixes g :: globals
  defines "h \<equiv> unat (img_height (image g))" and "w \<equiv> unat (img_width (image g))"
  assumes "k < length ps" "k < 20" "j < h" and "heap_fits wd l (w * 2)"
  shows "exec (alloc_row wd)
    (alloc_state g (of_nat k) (of_nat j)
      (Some (ps[k := Some (replicate j (Some (replicate w 0)) @ replicate (h - j) None)])) l) q ()
    (alloc_state g (of_nat k) (of_nat j)
      (Some (ps[k := Some (replicate (Suc j) (Some (replicate w 0)) @ replicate (h - Suc j) None)])) (l + w * 2)) q"
    (is "exec _ ?S q () ?T q")
proof -
  let ?M = "?S\<lparr>heap_live := l + w * 2\<rparr>"
  have "h < 65536" by (simp add: h_def)
  then have s: "store_row (Some (replicate w 0)) ?M = Inr ?T"
    using assms(3-5)
    by (simp add: store_row_def nth_chk_def upd_chk_def replicate_step del: replicate_Suc)
  have m: "exec (c_malloc wd (w * 2)) ?S q True ?M q"
    using assms(6) by (intro exec_conv [OF exec_c_malloc]) simp_all
  have "exec (bnd (c_malloc wd (w * 2)) (\<lambda>ok. mode (store_row (if ok then Some (replicate w 0) else None)))) ?S q () ?T q"
    by (rule exec_bnd [OF m]) (use s in \<open>auto intro: exec_mode simp del: replicate_Suc\<close>)
  moreover have "unat (img_width (image ?S)) = w" by (simp add: w_def)
  ultimately show ?thesis by (simp only: alloc_row_def exec_bnd_getg)
qed

lemma exec_alloc_rows:
  fixes g :: globals
  defines "h \<equiv> unat (img_height (image g))" and "w \<equiv> unat (img_width (image g))"
  assumes k: "k < length ps" "k < 20" and pk: "ps ! k = Some (replicate h None)"
    and fit: "fits_upto wd B" and B: "l + 2 * w * h \<le> B"
  shows "exec (for_j (\<lambda>g. gj g < ucast (img_height (image g))) (alloc_row wd))
         (alloc_state g (of_nat k) j0 (Some ps) l) q ()
         (alloc_state g (of_nat k) (of_nat h) (Some (ps[k := Some (replicate h (Some (replicate w 0)))])) (l + 2 * w * h)) q"
proof -
  define S where "S a j = alloc_state g (of_nat k) (of_nat j)
      (Some (ps[k := Some (replicate a (Some (replicate w 0)) @ replicate (h - a) None)])) (l + a * (w * 2))" for a j
  have h: "h < 65536" by (simp add: h_def)
  have "exec (for_j (\<lambda>g. gj g < ucast (img_height (image g))) (alloc_row wd))
         (alloc_state g (of_nat k) j0 (Some ps) l) q () (S h h) q"
  proof (rule exec_for_j [where n = h and Q = "\<lambda>_. q" and G = "\<lambda>j. S j j" and B = "\<lambda>j. S (Suc j) j"])
    fix j assume j: "j < h"
    have "Suc j * (w * 2) \<le> h * (w * 2)" using j by (intro mult_le_mono1) simp
    then have "heap_fits wd (l + j * (w * 2)) (w * 2)"
      using fit B by (simp add: fits_upto_def mult.commute mult.left_commute)
    then have "exec (alloc_row wd) (S j j) q () (S (Suc j) j) q"
      using exec_alloc_row [of k ps j g wd "l + j * (w * 2)" q] k j
      by (simp add: S_def w_def h_def ac_simps)
    then show "gj (S j j) < ucast (img_height (image (S j j))) \<and>
        exec (alloc_row wd) (S j j) q () (S (Suc j) j) q \<and>
        S (Suc j) (Suc j) = set_j (gj (S (Suc j) j) + 1) (S (Suc j) j)"
      using j h by (simp add: S_def counter_less h_def [symmetric] of_nat_Suc32 del: of_nat_Suc)
  next
    have "ps[k := Some (replicate h None)] = ps" using pk by (metis list_update_id)
    then show "S 0 0 = set_j 0 (alloc_state g (of_nat k) j0 (Some ps) l)" by (simp add: S_def)
  qed (use h in \<open>simp_all add: S_def counter_less h_def\<close>)
  then show ?thesis by (simp add: S_def ac_simps)
qed

text \<open>The stack of \<open>n\<close> zero planes.\<close>

definition zero_planes :: "nat \<Rightarrow> nat \<Rightarrow> nat \<Rightarrow> u16 list list list" where
  "zero_planes n h w = replicate n (mat h w (\<lambda>_ _. 0))"

lemma zero_plane: "Some (replicate h (Some (replicate w 0))) = Some (map Some (mat h w (\<lambda>_ _. 0)))"
  by (simp add: mat_def map_replicate_const)

lemma exec_image_alloc:
  fixes g :: globals
  defines "h \<equiv> unat (img_height (image g))" and "w \<equiv> unat (img_width (image g))"
  defines "l0 \<equiv> heap_live (free_image g)"
  assumes count: "img_count (image g) = 20"
    and fit: "fits_upto wd (l0 + stack_bytes w h)"
  shows "exec (image_alloc wd) g q ()
     (alloc_state g 20 (of_nat h) (planes (zero_planes 20 h w)) (l0 + stack_bytes w h)) q"
proof -
  let ?full = "Some (replicate h (Some (replicate w (0 :: u16))))"
  define c where "c = 4 * h + 2 * w * h"
  have bytes: "stack_bytes w h = 80 + 20 * c" by (simp add: stack_bytes_def c_def)
  define S where "S a k = alloc_state g (of_nat k) (if k = 0 then gj g else of_nat h)
      (Some (replicate a ?full @ replicate (20 - a) None)) (l0 + 80 + a * c)" for a k
  define T where "T k = alloc_state g (of_nat k) (of_nat h)
      (Some (replicate (Suc k) ?full @ replicate (20 - Suc k) None)) (l0 + 80 + Suc k * c)" for k
  have free: "free_image g = alloc_state g (gi g) (gj g) (img_data (image g)) l0"
    by (cases g) (simp add: free_image_def alloc_state_def l0_def split: option.split)
  have top: "exec (alloc_top wd) (free_image g) q ()
      (alloc_state g (gi g) (gj g) (Some (replicate 20 None)) (l0 + 80)) q"
  proof -
    have "exec (c_malloc wd (20 * 4)) (free_image g) q True ((free_image g)\<lparr>heap_live := l0 + 80\<rparr>) q"
      using fit by (intro exec_conv [OF exec_c_malloc]) (simp_all add: l0_def fits_upto_def bytes)
    then have "exec (bnd (c_malloc wd (20 * 4)) (\<lambda>ok. modg (set_img_data (if ok then Some (replicate 20 None) else None))))
        (free_image g) q () (alloc_state g (gi g) (gj g) (Some (replicate 20 None)) (l0 + 80)) q"
      by (rule exec_bnd) (intro exec_modgI, simp add: free)
    moreover have "unat (img_count (image (free_image g))) = 20" by (simp add: free count)
    ultimately show ?thesis by (simp only: alloc_top_def exec_bnd_getg)
  qed
  have "exec (for_i (\<lambda>g. gi g < 20) (block [alloc_plane wd,
           for_j (\<lambda>g. gj g < ucast (img_height (image g))) (alloc_row wd)]))
       (alloc_state g (gi g) (gj g) (Some (replicate 20 None)) (l0 + 80)) q () (S 20 20) q"
  proof (rule exec_for_i [where n = 20 and Q = "\<lambda>_. q" and G = "\<lambda>k. S k k" and B = T])
    fix k :: nat assume k: "k < 20"
    let ?ps = "(replicate k ?full @ replicate (20 - k) None)[k := Some (replicate h None)]"
    let ?M = "alloc_state g (of_nat k) (gj (S k k)) (Some ?ps) (l0 + 80 + k * c + h * 4)"
    have "Suc k * c \<le> 20 * c" using k by (intro mult_le_mono1) simp
    then have bound: "k * c + c \<le> 20 * c" by simp
    then have hb: "k * c + (h * 4 + 2 * w * h) \<le> 20 * c" by (simp add: c_def)
    have "h * 4 \<le> c" by (simp add: c_def)
    with bound have "l0 + 80 + k * c + h * 4 \<le> l0 + (80 + 20 * c)" by linarith
    then have fits: "heap_fits wd (l0 + 80 + k * c) (h * 4)"
      using fit unfolding fits_upto_def bytes by blast
    let ?L = "(S k k)\<lparr>heap_live := l0 + 80 + k * c + h * 4\<rparr>"
    have "exec (c_malloc wd (h * 4)) (S k k) q True ?L q"
      using fits by (intro exec_conv [OF exec_c_malloc]) (simp_all add: S_def)
    moreover have "store_plane (Some (replicate h None)) ?L = Inr ?M"
      using k by (simp add: S_def store_plane_def upd_chk_def)
    ultimately have "exec (bnd (c_malloc wd (h * 4))
        (\<lambda>ok. mode (store_plane (if ok then Some (replicate h None) else None)))) (S k k) q () ?M q"
      by (auto intro!: exec_bnd exec_mode)
    moreover have "unat (img_height (image (S k k))) = h" by (simp add: S_def h_def)
    ultimately have plane: "exec (alloc_plane wd) (S k k) q () ?M q"
      by (simp only: alloc_plane_def exec_bnd_getg)
    have rows: "exec (for_j (\<lambda>g. gj g < ucast (img_height (image g))) (alloc_row wd)) ?M q () (T k) q"
    proof (rule exec_conv [OF exec_alloc_rows [where B = "l0 + stack_bytes w h"]])
      show "alloc_state g (of_nat k) (of_nat (unat (img_height (image g))))
        (Some (?ps[k := Some (replicate (unat (img_height (image g))) (Some (replicate (unat (img_width (image g))) 0)))]))
        (l0 + 80 + k * c + h * 4 + 2 * unat (img_width (image g)) * unat (img_height (image g))) = T k"
        using k by (simp add: T_def h_def w_def c_def replicate_step algebra_simps del: replicate_Suc)
    qed (use k fit hb in \<open>simp_all add: h_def [symmetric] w_def [symmetric] bytes del: mult_le_cancel2\<close>)
    show "gi (S k k) < 20 \<and> exec (block [alloc_plane wd,
           for_j (\<lambda>g. gj g < ucast (img_height (image g))) (alloc_row wd)]) (S k k) q () (T k) q \<and>
        S (Suc k) (Suc k) = set_i (gi (T k) + 1) (T k)"
      using k exec_block_Cons [OF plane exec_block_Cons [OF rows exec_block_Nil]]
      by (simp add: S_def T_def word_less_nat_alt of_nat_Suc32 del: of_nat_Suc block.simps replicate_Suc)
  qed (simp_all add: S_def)
  from exec_block_Cons [OF exec_modg [of free_image] exec_block_Cons [OF top exec_block_Cons [OF this exec_block_Nil]]]
  show ?thesis
    unfolding image_alloc_def by (rule exec_conv)
      (simp_all add: S_def bytes planes_def zero_planes_def zero_plane algebra_simps)
qed

section \<open>Loops over pixels\<close>

lemma exec_for_pixels:
  fixes g :: globals
  defines "h \<equiv> unat (img_height (image g))" and "w \<equiv> unat (img_width (image g))"
  defines "st \<equiv> \<lambda>i j d. alloc_state g (of_nat i) (of_nat j) d (heap_live g)"
  assumes body: "\<And>i j. i < h \<Longrightarrow> j < w \<Longrightarrow> exec b (st i j (D i j)) (Q i j) () (st i j (D i (Suc j))) (Q i (Suc j))"
    and wrap: "\<And>i. i < h \<Longrightarrow> D i w = D (Suc i) 0" "\<And>i. i < h \<Longrightarrow> Q i w = Q (Suc i) 0"
    and start: "D 0 0 = img_data (image g)" "Q 0 0 = q"
  shows "exec (for_pixels b) g q ()
    (alloc_state g (of_nat h) (if h = 0 then gj g else of_nat w) (D h 0) (heap_live g)) (Q h 0)"
proof -
  let ?O = "\<lambda>i. alloc_state g (of_nat i) (if i = 0 then gj g else of_nat w) (D i 0) (heap_live g)"
  have hw: "h < 65536" "w < 65536" by (simp_all add: h_def w_def)
  have row: "exec (for_j (\<lambda>g. gj g < ucast (img_width (image g))) b) (?O i) (Q i 0) () (st i w (D i w)) (Q i w)"
    if i: "i < h" for i
    by (rule exec_for_j [where n = w and G = "\<lambda>j. st i j (D i j)" and Q = "Q i"
          and B = "\<lambda>j. st i j (D i (Suc j))"])
      (use i body hw in \<open>simp_all add: st_def counter_less w_def [symmetric] of_nat_Suc32 del: of_nat_Suc\<close>)
  show ?thesis unfolding for_pixels_def
  proof (rule exec_for_i [where n = h and G = ?O and Q = "\<lambda>i. Q i 0" and B = "\<lambda>i. st i w (D i w)"])
    show "?O 0 = set_i 0 g"
      using start(1) by (cases g) (simp add: alloc_state_def set_i_def)
  qed (use row hw wrap start in
      \<open>simp_all add: st_def counter_less h_def [symmetric] of_nat_Suc32 del: of_nat_Suc\<close>)
qed

section \<open>Shapes and pixel order\<close>

definition shaped :: "nat \<Rightarrow> nat \<Rightarrow> 'a list list \<Rightarrow> bool" where
  "shaped h w M \<longleftrightarrow> length M = h \<and> (\<forall>r \<in> set M. length r = w)"

lemma shaped_mat [simp]: "shaped h w (mat h w f)"
  by (auto simp: shaped_def mat_def)

lemma shaped_eq_mat: "shaped h w M \<Longrightarrow> M = mat h w (\<lambda>i j. M ! i ! j)"
  by (auto simp: shaped_def intro!: mat_shape)

lemma shaped_nth: "shaped h w M \<Longrightarrow> i < h \<Longrightarrow> length (M ! i) = w"
  by (simp add: shaped_def)

lemma length_concat_shaped: "shaped h w M \<Longrightarrow> length (concat M) = h * w"
  unfolding shaped_def by (induction M arbitrary: h) auto

lemma nth_concat_shaped:
  "shaped h w M \<Longrightarrow> i < h \<Longrightarrow> j < w \<Longrightarrow> concat M ! (i * w + j) = M ! i ! j"
proof (induction M arbitrary: h i)
  case (Cons r M)
  then have r: "length r = w" and M: "shaped (h - 1) w M" by (auto simp: shaped_def)
  show ?case
  proof (cases i)
    case 0
    then show ?thesis using Cons.prems r by (simp add: nth_append)
  next
    case (Suc i')
    then have "i' < h - 1" using Cons.prems by simp
    from Cons.IH [OF M this Cons.prems(3)] show ?thesis using Suc r by (simp add: nth_append)
  qed
qed (simp add: shaped_def)

lemma pixel_index_less: "i < h \<Longrightarrow> j < w \<Longrightarrow> i * w + j < h * (w :: nat)"
proof -
  assume "i < h" "j < w"
  then have "i * w + j < Suc i * w" "Suc i * w \<le> h * w" by (simp, intro mult_le_mono1, simp)
  then show ?thesis by simp
qed

text \<open>A pixel on the wire: most significant octet first.\<close>

definition pixel_octets :: "u16 \<Rightarrow> u8 list" where
  "pixel_octets v = [ucast (drop_bit 8 v), ucast v]"

definition plane_octets :: "u16 list list \<Rightarrow> u8 list" where
  "plane_octets M = concat (map pixel_octets (concat M))"

lemma pixel_octets_be16: "pixel_octets (be16 a b) = [a, b]"
proof -
  have "ucast (drop_bit 8 (be16 a b)) = a"
    by (rule bit_word_eqI) (use bit_imp_le_length in \<open>fastforce simp: be16_def bit_simps\<close>)
  moreover have "ucast (be16 a b) = b"
    by (rule bit_word_eqI) (auto simp: be16_def bit_simps)
  ultimately show ?thesis by (simp add: pixel_octets_def)
qed

lemma be16_octets: "be16 (ucast (drop_bit 8 v)) (ucast v) = v"
  by (rule bit_word_eqI) (auto simp: be16_def bit_simps)

text \<open>An octet received from and an octet sent to the host, as events.\<close>

definition got :: "u8 \<Rightarrow> event" where "got b = Rd W8 uart_rx_a (ucast b)"
definition put :: "u8 \<Rightarrow> event" where "put b = Wr W8 uart_tx_a (ucast b)"

lemma got_put_simps [simp]:
  "rx_count (got b # q) = Suc (rx_count q)" "rx_count (put b # q) = rx_count q"
  "tx_octets (got b # q) = tx_octets q" "tx_octets (put b # q) = tx_octets q @ [b]"
  "commands (got b # q) = commands q" "commands (put b # q) = commands q"
  by (simp_all add: got_def put_def)

lemma wire_runs [simp]:
  "rx_count (rev (map got bs) @ q) = rx_count q + length bs"
  "rx_count (rev (map put bs) @ q) = rx_count q"
  "tx_octets (rev (map got bs) @ q) = tx_octets q"
  "tx_octets (rev (map put bs) @ q) = tx_octets q @ bs"
  "commands (rev (map got bs) @ q) = commands q"
  "commands (rev (map put bs) @ q) = commands q"
  by (induction bs arbitrary: q) simp_all

lemma rx_count_got: "rx_count (rev (map got bs) @ q) = rx_count q + length bs"
  by simp

lemma concat_pairs_nth:
  "k < length xs \<Longrightarrow> concat (map pixel_octets xs) ! (2 * k) = ucast (drop_bit 8 (xs ! k))"
  "k < length xs \<Longrightarrow> concat (map pixel_octets xs) ! (2 * k + 1) = ucast (xs ! k)"
  by (induction xs arbitrary: k; case_tac k; simp add: pixel_octets_def)+

lemma length_pixels: "length (concat (map pixel_octets xs)) = 2 * length xs"
  by (induction xs) (simp_all add: pixel_octets_def)

lemma plane_octets_eqI:
  assumes M: "shaped h w M" and len: "length bs = 2 * (h * w)"
    and px: "\<And>i j. i < h \<Longrightarrow> j < w \<Longrightarrow> M ! i ! j = be16 (bs ! (2 * (i * w + j))) (bs ! (2 * (i * w + j) + 1))"
  shows "plane_octets M = bs"
proof (rule nth_equalityI)
  have lc: "length (concat M) = h * w" by (rule length_concat_shaped [OF M])
  show "length (plane_octets M) = length bs" by (simp add: plane_octets_def length_pixels lc len)
  fix m assume "m < length (plane_octets M)"
  then have m: "m < 2 * (h * w)" by (simp add: plane_octets_def length_pixels lc)
  define k where "k = m div 2"
  have k: "k < h * w" using m by (simp add: k_def)
  then have w: "0 < w" by (cases w) simp_all
  have ij: "k div w < h" "k mod w < w" using k w by (simp_all add: less_mult_imp_div_less)
  have "concat M ! k = M ! (k div w) ! (k mod w)"
    using nth_concat_shaped [OF M ij] by simp
  also have "\<dots> = be16 (bs ! (2 * k)) (bs ! (2 * k + 1))" using px [OF ij] by simp
  finally have "pixel_octets (concat M ! k) = [bs ! (2 * k), bs ! (2 * k + 1)]"
    by (simp add: pixel_octets_be16)
  then have "concat (map pixel_octets (concat M)) ! (2 * k) = bs ! (2 * k)"
    "concat (map pixel_octets (concat M)) ! (2 * k + 1) = bs ! (2 * k + 1)"
    using k concat_pairs_nth [of k "concat M"] by (simp_all add: lc pixel_octets_def)
  moreover have "m = 2 * k \<or> m = 2 * k + 1" unfolding k_def by arith
  ultimately show "plane_octets M ! m = bs ! m" by (auto simp: plane_octets_def)
qed

section \<open>The contract of the UART\<close>

text \<open>
  While octets of the host remain, the status shows one after finitely many polls; the receive register
  yields the next of them when the status has shown that it is there (nothing is promised otherwise);
  and the transmitter does not stay full for ever.
\<close>

lemma and_8_cases: "v AND 8 \<noteq> 8 \<Longrightarrow> v AND 8 = 0" for v :: u32
proof -
  have "v AND 2 ^ 3 = (if bit v 3 then 2 ^ 3 else 0)"
    by (rule bit_word_eqI) (auto simp only: bit_and_iff bit_exp_iff bit_0_eq bot_apply bot_bool_def split: if_splits)
  then show "v AND 8 \<noteq> 8 \<Longrightarrow> v AND 8 = 0" by (simp split: if_splits)
qed

locale uart_env =
  fixes wd :: world and inp :: "u8 list"
  assumes rx_live: "rx_count (quiet h) < length inp \<Longrightarrow>
      \<exists>n. bus_in wd (polled wd W8 uart_status_a n h) uart_status_a AND 1 \<noteq> 0"
    and rx_data: "rx_valid h \<Longrightarrow> rx_count (quiet h) < length inp \<Longrightarrow>
      ucast (bus_in wd h uart_rx_a) = inp ! rx_count (quiet h)"
    and tx_live: "\<exists>n. bus_in wd (polled wd W8 uart_status_a n h) uart_status_a AND 8 = 0"
begin

lemma exec_uart_read:
  assumes "pointers_ok g" and "rx_count q < length inp"
  shows "exec (uart_read wd) g q (inp ! rx_count q) g (Rd W8 uart_rx_a (ucast (inp ! rx_count q)) # q)"
proof (rule execI)
  let ?b = "ucast (inp ! rx_count q) :: u32"
  fix h assume h: "quiet h = q"
  have regs: "mpu_regs (mpu g) R_uart_status = uart_status_a" "mpu_regs (mpu g) R_uart_rx = uart_rx_a"
    using assms(1) by (simp_all add: pointers_ok_def)
  have "\<exists>n. clip W8 (bus_in wd (polled wd W8 uart_status_a n h) uart_status_a) AND 1 \<noteq> 0"
    using rx_live [of h] assms(2) h by simp
  then obtain v h' where w: "busy_wait wd W8 (\<lambda>g. mpu_regs (mpu g) R_uart_status) (\<lambda>v. v AND 1 \<noteq> 0) (g, h)
      = Some (Inr ((), (g, Rd W8 uart_status_a v # h')))" "v AND 1 \<noteq> 0" "quiet h' = q"
    using busy_wait_status [where a = "\<lambda>g. mpu_regs (mpu g) R_uart_status" and stop = "\<lambda>v. v AND 1 \<noteq> 0", OF regs(1)] h
    by metis
  have d: "clip W8 (bus_in wd (Rd W8 uart_status_a v # h') uart_rx_a) = ?b"
    using rx_data [of "Rd W8 uart_status_a v # h'"] w(2,3) assms(2) by (simp add: clip_W8 del: clip.simps)
  show "\<exists>h'. uart_read wd (g, h) = Some (Inr (inp ! rx_count q, g, h')) \<and> quiet h' = Rd W8 uart_rx_a ?b # q"
    using w(1,3) d by (intro exI [of _ "Rd W8 uart_rx_a ?b # Rd W8 uart_status_a v # h'"])
      (simp add: uart_read_def bnd_Some reg_read_def bnd_def getg_def mmio_read_def ret_def Let_def regs del: clip.simps)
qed

lemma exec_uart_write:
  assumes "pointers_ok g"
  shows "exec (uart_write wd b) g q () g (Wr W8 uart_tx_a (ucast b) # q)"
proof (rule execI)
  fix h assume h: "quiet h = q"
  have regs: "mpu_regs (mpu g) R_uart_status = uart_status_a" "mpu_regs (mpu g) R_uart_tx = uart_tx_a"
    using assms(1) by (simp_all add: pointers_ok_def)
  have "\<exists>n. clip W8 (bus_in wd (polled wd W8 uart_status_a n h) uart_status_a) AND 8 \<noteq> 8"
  proof -
    obtain n where "bus_in wd (polled wd W8 uart_status_a n h) uart_status_a AND 8 = 0"
      using tx_live [of h] by blast
    then show ?thesis by (intro exI [of _ n]) simp
  qed
  then obtain v h' where w: "busy_wait wd W8 (\<lambda>g. mpu_regs (mpu g) R_uart_status) (\<lambda>v. v AND 8 \<noteq> 8) (g, h)
      = Some (Inr ((), (g, Rd W8 uart_status_a v # h')))" "v AND 8 \<noteq> 8" "quiet h' = q"
    using busy_wait_status [where a = "\<lambda>g. mpu_regs (mpu g) R_uart_status" and stop = "\<lambda>v. v AND 8 \<noteq> 8", OF regs(1)] h
    by metis
  have "v AND 8 = 0" using w(2) by (rule and_8_cases)
  then show "\<exists>h'. uart_write wd b (g, h) = Some (Inr ((), g, h')) \<and> quiet h' = Wr W8 uart_tx_a (ucast b) # q"
    using w(1,3) by (intro exI [of _ "Wr W8 uart_tx_a (ucast b) # Rd W8 uart_status_a v # h'"])
      (simp add: uart_write_def bnd_Some reg_write_def bnd_def getg_def mmio_write_def ret_def regs)
qed

text \<open>Runs of received and of sent octets, as histories.\<close>

lemma exec_send_octets:
  assumes "pointers_ok g"
  shows "exec (block (map (uart_write wd) bs)) g q () g (rev (map put bs) @ q)"
proof (induction bs arbitrary: q)
  case Nil
  show ?case by (simp add: exec_ret)
next
  case (Cons b bs)
  have "exec (block (map (uart_write wd) bs)) g (put b # q) () g (rev (map put bs) @ put b # q)"
    by (rule Cons.IH)
  from exec_block_Cons [OF exec_uart_write [OF assms, of b q, folded put_def] this] show ?case by simp
qed

lemma exec_read_u16:
  assumes "pointers_ok g" and "Suc (rx_count q) < length inp" and "\<And>f. pointers_ok (upd f g)"
  shows "exec (read_u16 wd upd) g q ()
     (upd (\<lambda>x. x OR ucast (inp ! Suc (rx_count q))) (upd (\<lambda>_. push_bit 8 (ucast (inp ! rx_count q))) g))
     (got (inp ! Suc (rx_count q)) # got (inp ! rx_count q) # q)"
proof -
  let ?g1 = "upd (\<lambda>_. push_bit 8 (ucast (inp ! rx_count q))) g"
  let ?q1 = "got (inp ! rx_count q) # q"
  have 1: "exec (uart_read wd) g q (inp ! rx_count q) g ?q1"
    using exec_uart_read [of g q] assms by (simp add: got_def)
  have 2: "exec (uart_read wd) ?g1 ?q1 (inp ! Suc (rx_count q)) ?g1 (got (inp ! Suc (rx_count q)) # ?q1)"
    using exec_uart_read [of ?g1 ?q1] assms by (simp add: got_def)
  show ?thesis unfolding read_u16_def
    by (rule exec_block_Cons, rule exec_bnd [OF 1 exec_modg], rule exec_block_Cons,
        rule exec_bnd [OF 2 exec_modg], rule exec_block_Nil)
qed

lemma exec_image_read:
  assumes ptr: "pointers_ok g" and data: "img_data (image g) = planes Ms"
    and p: "p < length Ms" "shaped (unat (img_height (image g))) (unat (img_width (image g))) (Ms ! p)"
    and n: "rx_count q = n" "n + 2 * (unat (img_height (image g)) * unat (img_width (image g))) < length inp"
    and pos: "unat (inp ! n) = p"
  shows "\<exists>M g' q'. exec (image_read wd) g q () g' q'
    \<and> shaped (unat (img_height (image g))) (unat (img_width (image g))) M
    \<and> plane_octets M = take (2 * (unat (img_height (image g)) * unat (img_width (image g)))) (drop (Suc n) inp)
    \<and> img_data (image g') = planes (Ms[p := M])
    \<and> g' = alloc_state g (gi g') (gj g') (planes (Ms[p := M])) (heap_live g)
    \<and> q' = rev (map got (take (Suc (2 * (unat (img_height (image g)) * unat (img_width (image g))))) (drop n inp))) @ q"
proof -
  define h where "h = unat (img_height (image g))"
  define w where "w = unat (img_width (image g))"
  note hw = h_def [symmetric] w_def [symmetric]
  define old where "old = (\<lambda>i j. Ms ! p ! i ! j)"
  define new where "new = (\<lambda>i j. be16 (inp ! (Suc n + 2 * (i * w + j))) (inp ! (Suc n + 2 * (i * w + j) + 1)))"
  define Mt where "Mt i j = mat h w (\<lambda>a b. if a < i \<or> a = i \<and> b < j then new a b else old a b)" for i j
  define D where "D i j = planes (Ms[p := Mt i j])" for i j
  define Q where "Q i j = rev (map got (take (Suc (2 * (i * w + j))) (drop n inp))) @ q" for i j
  have len: "n + 2 * (h * w) < length inp" using n(2) by (simp add: hw)
  have h16: "h < 65536" "w < 65536" by (simp_all add: h_def w_def)
  have start: "D 0 0 = img_data (image g)"
    using p shaped_eq_mat [OF p(2)] by (simp add: D_def Mt_def old_def hw data list_update_same_conv)
  have wrapD: "D i w = D (Suc i) 0" for i
    unfolding D_def Mt_def by (intro arg_cong [where f = "\<lambda>M. planes (Ms[p := M])"] mat_cong) auto
  have wrapQ: "Q i w = Q (Suc i) 0" for i by (simp add: Q_def add.commute)
  let ?st = "\<lambda>i j d. alloc_state g (of_nat i) (of_nat j) d (heap_live g)"
  let ?b = "block [bnd (uart_read wd) (\<lambda>b. mode (set_pixel p (push_bit 8 (ucast b)))),
      bnd (uart_read wd) (\<lambda>b. mode (\<lambda>g. ebind (get_pixel p g) (\<lambda>v. set_pixel p (v OR ucast b) g)))]"
  have body: "exec ?b (?st i j (D i j)) (Q i j) () (?st i j (D i (Suc j))) (Q i (Suc j))"
    if ij: "i < h" "j < w" for i j
  proof -
    define k where "k = i * w + j"
    have "k < h * w" using ij unfolding k_def by (rule pixel_index_less)
    then have k: "n + Suc (Suc (Suc (2 * k))) \<le> length inp" using len by simp
    have rx: "rx_count (Q i j) = Suc n + 2 * k"
      using k n(1) by (simp add: Q_def k_def [symmetric] rx_count_got)
    have Qs: "Q i (Suc j) = got (inp ! (Suc n + 2 * k + 1)) # got (inp ! (Suc n + 2 * k)) # Q i j"
      using k by (simp add: Q_def k_def [symmetric] take_Suc_conv_app_nth)
    have ij32: "unat (of_nat i :: u32) = i" "unat (of_nat j :: u32) = j" using ij h16 by simp_all
    have set: "img_set (planes (Ms[p := M])) p i j v
        = Inr (planes (Ms[p := M[i := (M ! i)[j := v]]]))" if "shaped h w M" for M v
      using img_set_planes [of p "Ms[p := M]" i j v] p(1) ij that by (simp add: shaped_def)
    have get: "img_get (planes (Ms[p := M])) p i j = Inr (M ! i ! j)" if "shaped h w M" for M
      using img_get_planes [of p "Ms[p := M]" i j] p(1) ij that by (simp add: shaped_def)
    define hi where "hi = (push_bit 8 (ucast (inp ! (Suc n + 2 * k))) :: u16)"
    let ?M1 = "(Mt i j)[i := (Mt i j ! i)[j := hi]]"
    let ?M2 = "?M1[i := (?M1 ! i)[j := hi OR ucast (inp ! (Suc n + 2 * k + 1))]]"
    have sh: "shaped h w (Mt i j)" "shaped h w ?M1"
      using ij by (simp_all add: Mt_def mat_update del: nth_mat)
    have M1: "?M1 ! i ! j = hi" using sh(1) ij by (simp add: shaped_def)
    have M2: "?M2 = Mt i (Suc j)"
    proof -
      have "hi OR ucast (inp ! (Suc n + 2 * k + 1)) = new i j"
        by (simp add: hi_def new_def be16_def k_def)
      moreover have "Mt i (Suc j) = mat h w (\<lambda>a b. if a = i \<and> b = j then new i j
          else if a < i \<or> a = i \<and> b < j then new a b else old a b)"
        unfolding Mt_def by (rule mat_cong) (auto simp: less_Suc_eq)
      ultimately show ?thesis using ij
        by (auto simp: Mt_def mat_update simp del: nth_mat intro!: mat_cong)
    qed
    have 1: "set_pixel p hi (?st i j (D i j)) = Inr (?st i j (planes (Ms[p := ?M1])))"
      by (simp add: set_pixel_def ij32 D_def set [OF sh(1)])
    have 2: "ebind (get_pixel p (?st i j (planes (Ms[p := ?M1]))))
        (\<lambda>v. set_pixel p (v OR ucast (inp ! (Suc n + 2 * k + 1))) (?st i j (planes (Ms[p := ?M1]))))
        = Inr (?st i j (D i (Suc j)))"
      by (simp add: set_pixel_def get_pixel_def ij32 set [OF sh(2)] get [OF sh(2)] M1 M2 [symmetric] D_def)
    have r1: "exec (uart_read wd) (?st i j (D i j)) (Q i j) (inp ! (Suc n + 2 * k)) (?st i j (D i j))
        (got (inp ! (Suc n + 2 * k)) # Q i j)"
      using exec_uart_read [of "?st i j (D i j)" "Q i j"] ptr rx k by (simp add: got_def)
    have r2: "exec (uart_read wd) (?st i j d) (got (inp ! (Suc n + 2 * k)) # Q i j)
        (inp ! (Suc n + 2 * k + 1)) (?st i j d) (Q i (Suc j))" for d
      using exec_uart_read [of "?st i j d" "got (inp ! (Suc n + 2 * k)) # Q i j"] ptr rx k Qs
      by (simp add: got_def)
    show ?thesis
      by (rule exec_block_Cons, rule exec_bnd [OF r1], rule exec_mode, rule 1 [unfolded hi_def],
          rule exec_block_Cons, rule exec_bnd, rule r2 [unfolded hi_def], rule exec_mode,
          rule 2 [unfolded hi_def], rule exec_block_Nil)
  qed
  have loop: "exec (for_pixels ?b) g (Q 0 0) ()
      (alloc_state g (of_nat h) (if h = 0 then gj g else of_nat w) (D h 0) (heap_live g)) (Q h 0)"
    using exec_for_pixels [of g ?b D Q "Q 0 0", folded h_def w_def] body wrapD wrapQ start by blast
  have first: "exec (uart_read wd) g q (inp ! n) g (Q 0 0)"
    using exec_uart_read [OF ptr, of q] n(1) len
    by (simp add: Q_def got_def take_Suc_conv_app_nth)
  have "exec (image_read wd) g q ()
      (alloc_state g (of_nat h) (if h = 0 then gj g else of_nat w) (D h 0) (heap_live g)) (Q h 0)"
    unfolding image_read_def by (rule exec_bnd [OF first]) (use loop pos in simp)
  moreover have "plane_octets (Mt h 0) = take (2 * (h * w)) (drop (Suc n) inp)"
  proof (rule plane_octets_eqI)
    show "shaped h w (Mt h 0)" by (simp add: Mt_def)
    show "length (take (2 * (h * w)) (drop (Suc n) inp)) = 2 * (h * w)" using len by simp
    fix i j assume ij: "i < h" "j < w"
    have "i * w + j < h * w" using ij by (rule pixel_index_less)
    then show "Mt h 0 ! i ! j = be16 (take (2 * (h * w)) (drop (Suc n) inp) ! (2 * (i * w + j)))
        (take (2 * (h * w)) (drop (Suc n) inp) ! (2 * (i * w + j) + 1))"
      using ij len by (simp add: Mt_def new_def)
  qed
  ultimately show ?thesis
    by (intro exI [of _ "Mt h 0"] exI conjI) (auto simp: hw Mt_def D_def Q_def)
qed

end

end
