(* ===== verification/Host_Requests.thy ===== *)
theory Host_Requests
  imports Host_Link
begin

text \<open>
  What the host sees of its requests: the exact effect of \<open>header_read\<close>, \<open>image_send\<close>,
  \<open>error_send\<close>, \<open>template_set\<close> and \<open>template_send\<close> (\<open>sys_func.c\<close>) on the globals and on the octets
  and register accesses, over the contract of the UART.
\<close>

section \<open>Commands and headers\<close>

definition cmd :: "command \<Rightarrow> u16 \<Rightarrow> event" where
  "cmd c v = Wr W32 command_a (push_bit 16 (ucast (command_code c)) OR ucast v)"

lemma cmd_simps [simp]:
  "rx_count (cmd c v # q) = rx_count q" "tx_octets (cmd c v # q) = tx_octets q"
  "commands (cmd c v # q) = commands q @ [push_bit 16 (ucast (command_code c)) OR ucast v]"
  by (simp_all add: cmd_def)

lemma exec_command:
  "pointers_ok g \<Longrightarrow> exec (command c v) g q () g (cmd c v # q)"
  by (rule exec_conv [OF exec_command_write]) (simp_all add: pointers_ok_def cmd_def)

text \<open>The seven big-endian words of a header.\<close>

definition word_at :: "u8 list \<Rightarrow> nat \<Rightarrow> u16" where
  "word_at bs k = be16 (bs ! (2 * k)) (bs ! (2 * k + 1))"

definition with_header :: "u8 list \<Rightarrow> globals \<Rightarrow> globals" where
  "with_header bs g = g\<lparr>image := (image g)\<lparr>img_width := word_at bs 0, img_height := word_at bs 1\<rparr>,
     cnn := \<lparr>cnn_Ts = word_at bs 2, cnn_iter_cnt = word_at bs 3 - 1, cnn_template_no = word_at bs 4,
             cnn_learn_loop = word_at bs 5, cnn_learn_rate = word_at bs 6\<rparr>\<rparr>"

text \<open>The state after a header, and the accesses it makes (newest first).\<close>

definition header_state :: "u8 list \<Rightarrow> globals \<Rightarrow> globals" where
  "header_state bs g = (let h = unat (word_at bs 1); w = unat (word_at bs 0) in
     set_shift (alloc_state (with_header bs g) 20 (of_nat h) (planes (zero_planes 20 h w))
       (heap_live (free_image g) + stack_bytes w h)))"

definition header_trace :: "u8 list \<Rightarrow> event list" where
  "header_trace bs =
     [put 1, cmd CMD_ITER_CNT (word_at bs 3 - 1), cmd CMD_TS (word_at bs 2),
      cmd CMD_CACHE_HEIGHT (word_at bs 1), cmd CMD_CACHE_WIDTH (word_at bs 0)]
     @ rev (map got bs) @ [cmd CMD_STATE_RST 1]"

lemma push_8_or: "push_bit 8 (ucast (a :: u8)) OR ucast (b :: u8) = be16 a b"
  by (simp add: be16_def)

lemma pointers_ok_updates [simp]:
  "pointers_ok (g\<lparr>image := i\<rparr>) = pointers_ok g" "pointers_ok (g\<lparr>cnn := c\<rparr>) = pointers_ok g"
  "pointers_ok (g\<lparr>general := l\<rparr>) = pointers_ok g" "pointers_ok (g\<lparr>errors := e\<rparr>) = pointers_ok g"
  "pointers_ok (g\<lparr>templates := t\<rparr>) = pointers_ok g" "pointers_ok (g\<lparr>heap_live := n\<rparr>) = pointers_ok g"
  "pointers_ok (image_update fi g) = pointers_ok g" "pointers_ok (cnn_update fc g) = pointers_ok g"
  "pointers_ok (set_i v g) = pointers_ok g" "pointers_ok (set_j v g) = pointers_ok g"
  "pointers_ok (set_k v g) = pointers_ok g" "pointers_ok (set_template_var x g) = pointers_ok g"
  "pointers_ok (set_shift g) = pointers_ok g" "pointers_ok (set_img_data d g) = pointers_ok g"
  "pointers_ok (with_header bs g) = pointers_ok g" "pointers_ok (header_state bs g) = pointers_ok g"
  by (simp_all add: pointers_ok_def set_i_def set_j_def set_k_def set_template_var_def set_shift_def
      set_img_data_def with_header_def header_state_def Let_def alloc_state_def)

lemma exec_bnd_gete: "f g = Inr v \<Longrightarrow> exec (k v) g q a g' q' \<Longrightarrow> exec (bnd (gete f) k) g q a g' q'"
  by (rule exec_bnd [OF exec_gete])

lemma exec_block_append:
  "exec (block ms) g q () g' q' \<Longrightarrow> exec (block ns) g' q' () g'' q'' \<Longrightarrow> exec (block (ms @ ns)) g q () g'' q''"
  by (simp only: block_append exec_bnd)

context uart_env begin

lemma exec_header_read:
  fixes q
  defines "n \<equiv> rx_count q" defines "bs \<equiv> take 14 (drop n inp)"
  defines "h \<equiv> unat (word_at bs 1)" and "w \<equiv> unat (word_at bs 0)"
  assumes ptr: "pointers_ok g" and count: "img_count (image g) = 20"
    and len: "n + 14 \<le> length inp"
    and fit: "fits_upto wd (heap_live (free_image g) + stack_bytes w h)"
  shows "exec (header_read wd) g q () (header_state bs g) (header_trace bs @ q)"
proof -
  have nth: "bs ! k = inp ! (n + k)" if "k < 14" for k
    using that len by (simp add: bs_def)
  define q0 where "q0 = cmd CMD_STATE_RST 1 # q"
  have rx0: "rx_count q0 = n" by (simp add: q0_def n_def)
  define R where "R k = rev (map got (take k bs)) @ q0" for k
  have lb: "length bs = 14" using len by (simp add: bs_def)
  have rxR: "rx_count (R k) = n + k" if "k \<le> 14" for k
    using that lb by (simp add: R_def rx0)
  have RS: "R (Suc k) = got (bs ! k) # R k" if "k < 14" for k
    using that lb by (simp add: R_def take_Suc_conv_app_nth)
  have word: "exec (read_u16 wd upd) G (R a) () (upd (\<lambda>_. word_at bs k) G) (R b)"
    if "k < 7" "a = 2 * k" "b = 2 * k + 2" "pointers_ok G" "\<And>f. pointers_ok (upd f G)"
      "\<And>hi lo. upd (\<lambda>x. x OR lo) (upd (\<lambda>_. hi) G) = upd (\<lambda>_. hi OR lo) G" for k upd G a b
    using exec_read_u16 [of G "R (2 * k)" upd] that rxR [of "2 * k"] RS [of "2 * k"]
      RS [of "2 * k + 1"] nth [of "2 * k"] nth [of "2 * k + 1"] len
    by (simp add: word_at_def push_8_or)
  note words = word [where k = 0 and a = 0 and b = 2] word [where k = 1 and a = 2 and b = 4]
    word [where k = 2 and a = 4 and b = 6] word [where k = 3 and a = 6 and b = 8]
    word [where k = 4 and a = 8 and b = 10] word [where k = 5 and a = 10 and b = 12]
    word [where k = 6 and a = 12 and b = 14]
  let ?H = "with_header bs g"
  let ?A = "alloc_state ?H 20 (of_nat h) (planes (zero_planes 20 h w)) (heap_live (free_image g) + stack_bytes w h)"
  have free: "heap_live (free_image ?H) = heap_live (free_image g)"
    by (simp add: free_image_def with_header_def split: option.split)
  have dims: "unat (img_height (image ?H)) = h" "unat (img_width (image ?H)) = w"
      "img_count (image ?H) = 20" by (simp_all add: with_header_def h_def w_def count)
  have alloc: "exec (image_alloc wd) ?H q' () ?A q'" for q'
    by (rule exec_conv [OF exec_image_alloc])
      (use fit in \<open>simp_all only: free dims\<close>)
  have start: "exec (command CMD_STATE_RST 1) g q () g (R 0)"
    by (rule exec_conv [OF exec_command [OF ptr]]) (simp_all add: R_def q0_def)
  let ?W = "word_at bs"
  let ?I = "image_update (img_height_update (\<lambda>_. ?W 1)) (image_update (img_width_update (\<lambda>_. ?W 0)) g)"
  let ?C = "cnn_update (cnn_iter_cnt_update (\<lambda>x. x - 1)) (cnn_update (cnn_iter_cnt_update (\<lambda>_. ?W 3))
     (cnn_update (cnn_Ts_update (\<lambda>_. ?W 2)) ?I))"
  have H: "cnn_update (cnn_learn_rate_update (\<lambda>_. ?W 6)) (cnn_update (cnn_learn_loop_update (\<lambda>_. ?W 5))
     (cnn_update (cnn_template_no_update (\<lambda>_. ?W 4)) ?C)) = ?H"
    by (cases g) (simp add: with_header_def)
  have words: "exec (block
     [read_u16 wd (\<lambda>f. image_update (img_width_update f)),
      read_u16 wd (\<lambda>f. image_update (img_height_update f)),
      read_u16 wd (\<lambda>f. cnn_update (cnn_Ts_update f)),
      read_u16 wd upd_iter_cnt,
      modg (upd_iter_cnt (\<lambda>x. x - 1)),
      read_u16 wd (\<lambda>f. cnn_update (cnn_template_no_update f)),
      read_u16 wd (\<lambda>f. cnn_update (cnn_learn_loop_update f)),
      read_u16 wd (\<lambda>f. cnn_update (cnn_learn_rate_update f))]) g (R 0) () ?H (R 14)"
    unfolding H [symmetric]
    apply (rule exec_block_Cons, rule words(1))
    apply (simp_all add: ptr)[6]
    apply (rule exec_block_Cons, rule words(2))
    apply (simp_all add: ptr)[6]
    apply (rule exec_block_Cons, rule words(3))
    apply (simp_all add: ptr)[6]
    apply (rule exec_block_Cons, rule words(4))
    apply (simp_all add: ptr upd_iter_cnt_def)[6]
    apply (rule exec_block_Cons, rule exec_modg)
    apply (rule exec_block_Cons, rule words(5))
    apply (simp_all add: ptr upd_iter_cnt_def)[6]
    apply (rule exec_block_Cons, rule words(6))
    apply (simp_all add: ptr upd_iter_cnt_def)[6]
    apply (rule exec_block_Cons, rule words(7))
    apply (simp_all add: ptr upd_iter_cnt_def)[6]
    apply (simp add: upd_iter_cnt_def exec_ret)
    done
  have tail: "exec (block
     [bnd (getg (\<lambda>g. img_width (image g))) (\<lambda>v. command CMD_CACHE_WIDTH v),
      bnd (getg (\<lambda>g. img_height (image g))) (\<lambda>v. command CMD_CACHE_HEIGHT v),
      bnd (getg (\<lambda>g. cnn_Ts (cnn g))) (\<lambda>v. command CMD_TS v),
      bnd (getg (\<lambda>g. cnn_iter_cnt (cnn g))) (\<lambda>v. command CMD_ITER_CNT v),
      image_alloc wd, modg set_shift, uart_write wd 1]) ?H (R 14) () (header_state bs g) (header_trace bs @ q)"
    apply (simp only: exec_bnd_getg block.simps(2))
    apply (rule exec_bnd, rule exec_bnd_getg [THEN iffD2], rule exec_command, simp add: ptr)+
    apply (rule exec_bnd, rule alloc, rule exec_bnd, rule exec_modg)
    apply (rule exec_conv, rule exec_bnd, rule exec_uart_write)
    apply (simp add: ptr)
    apply (rule exec_block_Nil)
    apply (simp_all add: header_state_def header_trace_def h_def w_def Let_def put_def with_header_def R_def q0_def lb)
    done
  show ?thesis
    using exec_block_Cons [OF start exec_block_append [OF words tail]]
    by (simp only: header_read_def append.simps)
qed

end

section \<open>Sending an image\<close>

lemma put_run: "rev (map put (xs @ [a, b])) @ q = put b # put a # rev (map put xs) @ q"
  by simp

context uart_env begin

lemma exec_image_send:
  fixes q and g :: globals
  defines "n \<equiv> rx_count q"
  defines "h \<equiv> unat (img_height (image g))" and "w \<equiv> unat (img_width (image g))"
  assumes ptr: "pointers_ok g" and data: "img_data (image g) = planes Ms"
    and p: "p < length Ms" "shaped h w (Ms ! p)"
    and n: "n < length inp" and pos: "unat (inp ! n) = p"
  shows "exec (image_send wd) g q ()
     (alloc_state g (of_nat h) (if h = 0 then gj g else of_nat w) (planes Ms) (heap_live g))
     (rev (map put (plane_octets (Ms ! p))) @ got (inp ! n) # q)"
proof -
  define D where "D i j = planes Ms" for i j :: nat
  define Q where "Q i j = rev (map put (concat (map pixel_octets (take (i * w + j) (concat (Ms ! p))))))
      @ got (inp ! n) # q" for i j
  let ?px = "\<lambda>v. [ucast (drop_bit 8 (v AND 0xFF00)), ucast (v AND 0x00FF)] :: u8 list"
  have px: "?px v = pixel_octets v" for v :: u16
  proof -
    have "ucast (drop_bit 8 (v AND 0xFF00)) = (ucast (drop_bit 8 v) :: u8)"
    proof -
      have e: "(0xFF00 :: u16) = push_bit 8 (mask 8)" by (simp add: mask_numeral)
      show ?thesis unfolding e
        by (intro bit_word_eqI) (auto simp: bit_simps)
    qed
    moreover have "ucast (v AND 0xFF) = (ucast v :: u8)"
    proof -
      have e: "(0xFF :: u16) = mask 8" by (simp add: mask_numeral)
      show ?thesis unfolding e
        by (intro bit_word_eqI) (auto simp: bit_simps)
    qed
    ultimately show ?thesis by (simp add: pixel_octets_def)
  qed
  have h16: "h < 65536" "w < 65536" by (simp_all add: h_def w_def)
  let ?st = "\<lambda>i j d. alloc_state g (of_nat i) (of_nat j) d (heap_live g)"
  let ?b = "block
     [bnd (gete (get_pixel p)) (\<lambda>v. uart_write wd (ucast (drop_bit 8 (v AND 0xFF00)))),
      bnd (gete (get_pixel p)) (\<lambda>v. uart_write wd (ucast (v AND 0x00FF)))]"
  have body: "exec ?b (?st i j (D i j)) (Q i j) () (?st i j (D i (Suc j))) (Q i (Suc j))"
    if ij: "i < h" "j < w" for i j
  proof -
    let ?v = "Ms ! p ! i ! j"
    let ?S = "?st i j (planes Ms)"
    have k: "i * w + j < h * w" using ij by (rule pixel_index_less)
    have "img_get (planes Ms) p i j = Inr ?v"
      using p ij by (intro img_get_planes) (simp_all add: shaped_def)
    then have get: "get_pixel p ?S = Inr ?v" using ij h16 by (simp add: get_pixel_def)
    have "take (Suc (i * w + j)) (concat (Ms ! p)) = take (i * w + j) (concat (Ms ! p)) @ [?v]"
      using k nth_concat_shaped [OF p(2) ij] length_concat_shaped [OF p(2)]
      by (simp add: take_Suc_conv_app_nth)
    then have Q: "Q i (Suc j) = put (?px ?v ! 1) # put (?px ?v ! 0) # Q i j"
      by (simp add: Q_def px [symmetric])
    note send = exec_uart_write [of ?S, folded put_def]
    have 1: "exec (bnd (gete (get_pixel p)) (\<lambda>v. uart_write wd (ucast (drop_bit 8 (v AND 0xFF00)))))
        ?S (Q i j) () ?S (put (?px ?v ! 0) # Q i j)"
      by (rule exec_bnd_gete, rule get) (use send ptr in simp)
    have 2: "exec (bnd (gete (get_pixel p)) (\<lambda>v. uart_write wd (ucast (v AND 0x00FF))))
        ?S q' () ?S (put (?px ?v ! 1) # q')" for q'
      by (rule exec_bnd_gete, rule get) (use send ptr in simp)
    show ?thesis unfolding D_def Q by (rule exec_block_Cons [OF 1 exec_block_Cons [OF 2 exec_block_Nil]])
  qed
  have wrapD: "D i w = D (Suc i) 0" and start: "D 0 0 = img_data (image g)" for i
    by (simp_all add: D_def data)
  have wrapQ: "Q i w = Q (Suc i) 0" for i by (simp add: Q_def add.commute)
  have loop: "exec (for_pixels ?b) g (Q 0 0) ()
      (alloc_state g (of_nat h) (if h = 0 then gj g else of_nat w) (D h 0) (heap_live g)) (Q h 0)"
    using exec_for_pixels [of g ?b D Q "Q 0 0", folded h_def w_def] body wrapD wrapQ start by blast
  have first: "exec (uart_read wd) g q (inp ! n) g (Q 0 0)"
    using exec_uart_read [OF ptr, of q] n n_def
    by (simp add: Q_def got_def)
  have "Q h 0 = rev (map put (plane_octets (Ms ! p))) @ got (inp ! n) # q"
    using length_concat_shaped [OF p(2)] by (simp add: Q_def plane_octets_def)
  with loop show ?thesis
    unfolding image_send_def by (intro exec_bnd [OF first]) (simp add: pos D_def)
qed

end

end
