(* ===== verification/Patch_Requests.thy ===== *)
theory Patch_Requests
  imports Host_Requests
begin

text \<open>
  The requests that work on the 3 by 3 patches: programming a template into the coefficient registers
  (\<open>template_set\<close>), sending a template (\<open>template_send\<close>), fetching and scaling the error registers
  (\<open>error_get\<close>) and sending them (\<open>error_send\<close>), all in \<open>sys_func.c\<close>.
\<close>

section \<open>Loops over the positions of a patch\<close>

definition at_ij :: "nat \<Rightarrow> nat \<Rightarrow> globals \<Rightarrow> globals" where
  "at_ij i j g = set_j (of_nat j) (set_i (of_nat i) g)"

lemma at_ij_simps [simp]:
  "gi (at_ij i j g) = of_nat i" "gj (at_ij i j g) = of_nat j" "gk (at_ij i j g) = gk g"
  "image (at_ij i j g) = image g" "cnn (at_ij i j g) = cnn g" "mpu (at_ij i j g) = mpu g"
  "templates (at_ij i j g) = templates g" "errors (at_ij i j g) = errors g"
  "heap_live (at_ij i j g) = heap_live g" "pointers_ok (at_ij i j g) = pointers_ok g"
  "set_i v (at_ij i j g) = set_j (of_nat j) (set_i v g)" "set_j v (at_ij i j g) = set_j v (set_i (of_nat i) g)"
  "set_template_var x (at_ij i j g) = at_ij i j (set_template_var x g)"
  by (simp_all add: at_ij_def set_i_def set_j_def set_template_var_def)

lemma patch_counter [simp]: "n \<le> 3 \<Longrightarrow> of_nat n \<le> patchTop \<longleftrightarrow> n < 3"
  by (auto simp: word_le_nat_alt package_defs)

lemma patch_end [simp]: "\<not> 3 \<le> patchTop"
  by (simp add: package_defs)

lemma exec_for_patch:
  assumes body: "\<And>i j. i < 3 \<Longrightarrow> j < 3 \<Longrightarrow>
      exec b (at_ij i j (X i j)) (Q i j) () (at_ij i j (X i (Suc j))) (Q i (Suc j))"
    and wrap: "\<And>i. i < 3 \<Longrightarrow> X i 3 = X (Suc i) 0" "\<And>i. i < 3 \<Longrightarrow> Q i 3 = Q (Suc i) 0"
    and start: "X 0 0 = g" "Q 0 0 = q"
  shows "exec (for_patch b) g q () (at_ij 3 3 (X 3 0)) (Q 3 0)"
proof -
  let ?O = "\<lambda>i. if i = 0 then set_i 0 g else at_ij i 3 (X i 0)"
  have row: "exec (for_j (\<lambda>g. gj g \<le> patchTop) b) (?O i) (Q i 0) () (at_ij i 3 (X i 3)) (Q i 3)"
    if i: "i < 3" for i
    by (rule exec_for_j [where n = 3 and G = "\<lambda>j. at_ij i j (X i j)" and Q = "Q i"
          and B = "\<lambda>j. at_ij i j (X i (Suc j))"])
      (use i body start(1) in \<open>auto simp: of_nat_Suc32 at_ij_def set_i_def set_j_def simp del: of_nat_Suc\<close>)
  show ?thesis unfolding for_patch_def
    by (rule exec_for_i [where n = 3 and G = ?O and Q = "\<lambda>i. Q i 0" and B = "\<lambda>i. at_ij i 3 (X i 3)"])
      (use row wrap start in \<open>auto simp: of_nat_Suc32 at_ij_def set_i_def set_j_def simp del: of_nat_Suc\<close>)
qed

lemma exec_block_map:
  assumes "\<And>k. k < length xs \<Longrightarrow> exec (f (xs ! k)) (G k) (Q k) () (G (Suc k)) (Q (Suc k))"
  shows "exec (block (map f xs)) (G 0) (Q 0) () (G (length xs)) (Q (length xs))"
  using assms
proof (induction xs arbitrary: G Q)
  case Nil
  show ?case by (simp add: exec_ret)
next
  case (Cons x xs)
  have 1: "exec (f x) (G 0) (Q 0) () (G (Suc 0)) (Q (Suc 0))" using Cons.prems [of 0] by simp
  have 2: "exec (block (map f xs)) (G (Suc 0)) (Q (Suc 0)) () (G (Suc (length xs))) (Q (Suc (length xs)))"
    using Cons.prems [of "Suc k" for k] by (intro Cons.IH [of "\<lambda>k. G (Suc k)" "\<lambda>k. Q (Suc k)"]) simp
  from exec_block_Cons [OF 1 2] show ?case by simp
qed

section \<open>Programming a template\<close>

definition ixn :: "nat \<Rightarrow> ix" where
  "ixn n = (if n = 0 then I0 else if n = 1 then I1 else I2)"

lemma less3: "n < 3 \<Longrightarrow> n = 0 \<or> n = 1 \<or> n = (2 :: nat)" by arith

lemma less9: "k < 9 \<Longrightarrow> k \<in> {0, 1, 2, 3, 4, 5, 6, 7, 8 :: nat}" by auto

lemma length_patch [simp]: "length patch = 9" by (simp add: patch_def)

lemma nth_patch:
  "k < 9 \<Longrightarrow> patch ! k = ((ixn (k div 3), ixn (k mod 3)), of_nat (k div 3), of_nat (k mod 3))"
  by (drule less9) (auto simp: patch_def ixn_def)

text \<open>The coefficient of a template a coefficient register stands for.\<close>

primrec nix :: "ix \<Rightarrow> nat" where "nix I0 = 0" | "nix I1 = 1" | "nix I2 = 2"

fun coefficient :: "template_struct \<Rightarrow> mpu_reg \<Rightarrow> s16" where
  "coefficient t (R_template_A a b) = t_A t ! nix a ! nix b"
| "coefficient t (R_template_B a b) = t_B t ! nix a ! nix b"
| "coefficient t R_template_I = t_I t"
| "coefficient t R_template_xbnd = t_x_bnd t"
| "coefficient t R_template_ubnd = t_u_bnd t"
| "coefficient t r = 0"

definition wf_template :: "template_struct \<Rightarrow> bool" where
  "wf_template t \<longleftrightarrow> shaped 3 3 (t_A t) \<and> shaped 3 3 (t_B t)"

definition template_regs :: "mpu_reg list" where
  "template_regs = map (\<lambda>((a, b), _). R_template_A a b) patch @ map (\<lambda>((a, b), _). R_template_B a b) patch
     @ [R_template_I, R_template_xbnd, R_template_ubnd]"

definition coeff_write :: "template_struct \<Rightarrow> mpu_reg \<Rightarrow> event" where
  "coeff_write t r = Wr W16 (reg_addr r) (ucast (coefficient t r))"

lemma mat_get_shaped:
  "shaped h w M \<Longrightarrow> unat i < h \<Longrightarrow> unat j < w \<Longrightarrow> mat_get M i j = Inr (M ! unat i ! unat j)"
  by (simp add: mat_get_def nth_chk_def shaped_def)

lemma exec_template_out:
  assumes "pointers_ok g" "unat n < length (templates g)" "templates g ! unat n = t" "f t = Inr (coefficient t r)" "r \<noteq> R_uart_tx"
  shows "exec (template_out n r f) g q () g (coeff_write t r # q)"
proof -
  have "template_get n f g = Inr (coefficient t r)"
    using assms by (simp add: template_get_def nth_chk_def)
  moreover have "exec (reg_write W16 r (ucast (coefficient t r))) g q () g (coeff_write t r # q)"
    by (rule exec_conv [OF exec_reg_write]) (use assms(1,5) in \<open>simp_all add: coeff_write_def pointers_ok_def\<close>)
  ultimately show ?thesis unfolding template_out_def by (rule exec_bnd_gete)
qed

lemma exec_template_outs:
  assumes "pointers_ok g" "unat n < length (templates g)" "templates g ! unat n = t"
    and "\<And>x. rr x \<noteq> R_uart_tx" and "\<And>k. k < length xs \<Longrightarrow> ff (xs ! k) t = Inr (coefficient t (rr (xs ! k)))"
  shows "exec (block (map (\<lambda>x. template_out n (rr x) (ff x)) xs)) g q () g
     (rev (map (coeff_write t) (map rr xs)) @ q)"
  using assms(5)
proof (induction xs arbitrary: q)
  case Nil
  show ?case by (simp add: exec_ret)
next
  case (Cons x xs)
  have 1: "exec (template_out n (rr x) (ff x)) g q () g (coeff_write t (rr x) # q)"
    using Cons.prems [of 0] by (intro exec_template_out assms) simp
  have 2: "exec (block (map (\<lambda>x. template_out n (rr x) (ff x)) xs)) g (coeff_write t (rr x) # q) () g
     (rev (map (coeff_write t) (map rr xs)) @ coeff_write t (rr x) # q)"
    using Cons.prems [of "Suc k" for k] by (intro Cons.IH) simp
  from exec_block_Cons [OF 1 2] show ?case by simp
qed

lemma exec_template_set:
  assumes ptr: "pointers_ok g" and n: "unat n < length (templates g)" and t: "templates g ! unat n = t"
    and wf: "wf_template t"
  shows "exec (template_set n) g q () g (rev (map (coeff_write t) template_regs) @ q)"
proof -
  let ?rA = "\<lambda>((a, b), _). R_template_A a b" and ?fA = "\<lambda>((a, b), i, j) t. mat_get (t_A t) i j"
  let ?rB = "\<lambda>((a, b), _). R_template_B a b" and ?fB = "\<lambda>((a, b), i, j) t. mat_get (t_B t) i j"
  have nix: "nix (ixn k) = k" if "k < 3" for k using less3 [OF that] by (auto simp: ixn_def)
  have eqA: "(\<lambda>((a, b), i, j). template_out n (R_template_A a b) (\<lambda>t. mat_get (t_A t) i j))
      = (\<lambda>x. template_out n (?rA x) (?fA x))" by auto
  have eqB: "(\<lambda>((a, b), i, j). template_out n (R_template_B a b) (\<lambda>t. mat_get (t_B t) i j))
      = (\<lambda>x. template_out n (?rB x) (?fB x))" by auto
  have cell: "k div 3 < 3" "k mod 3 < 3" if "k < 9" for k :: nat using that by auto
  have A: "exec (block (map (\<lambda>x. template_out n (?rA x) (?fA x)) patch)) g q () g
      (rev (map (coeff_write t) (map ?rA patch)) @ q)" for q
    by (rule exec_template_outs [OF ptr n t])
      (use wf cell in \<open>auto simp: nth_patch mat_get_shaped [of 3 3] wf_template_def nix\<close>)
  have B: "exec (block (map (\<lambda>x. template_out n (?rB x) (?fB x)) patch)) g q () g
      (rev (map (coeff_write t) (map ?rB patch)) @ q)" for q
    by (rule exec_template_outs [OF ptr n t])
      (use wf cell in \<open>auto simp: nth_patch mat_get_shaped [of 3 3] wf_template_def nix\<close>)
  note out = exec_template_out [OF ptr n t]
  have C: "exec (block [template_out n R_template_I (\<lambda>t. Inr (t_I t)),
       template_out n R_template_xbnd (\<lambda>t. Inr (t_x_bnd t)),
       template_out n R_template_ubnd (\<lambda>t. Inr (t_u_bnd t))]) g q () g
      (rev (map (coeff_write t) [R_template_I, R_template_xbnd, R_template_ubnd]) @ q)" for q
    by (rule exec_conv, rule exec_block_Cons, rule out, simp, simp, rule exec_block_Cons, rule out, simp, simp,
        rule exec_block_Cons, rule out, simp, simp, rule exec_block_Nil) simp_all
  show ?thesis unfolding template_set_def eqA eqB
    using exec_block_append [OF A exec_block_append [OF B C]]
    by (simp add: template_regs_def)
qed

section \<open>Sending a template\<close>

lemma set_template_var_simps [simp]:
  "set_template_var x (set_template_var y g) = set_template_var x g"
  "set_template_var (mpu_template_var (mpu g)) g = g"
  "mpu_template_var (mpu (set_template_var x g)) = x" "mpu_regs (mpu (set_template_var x g)) = mpu_regs (mpu g)"
  "templates (set_template_var x g) = templates g" "image (set_template_var x g) = image g"
  "errors (set_template_var x g) = errors g" "cnn (set_template_var x g) = cnn g"
  "general (set_template_var x g) = general g" "heap_live (set_template_var x g) = heap_live g"
  by (simp_all add: set_template_var_def)

lemma coefficient_octets:
  "ucast (drop_bit 8 ((scast v :: s32) AND 0x0000FF00)) = (ucast (drop_bit 8 v) :: u8)"
  "ucast ((scast v :: s32) AND 0x000000FF) = (ucast v :: u8)" for v :: s16
proof -
  have e: "(0xFF00 :: u32) = push_bit 8 (mask 8)" by (simp add: mask_numeral)
  show "ucast (drop_bit 8 ((scast v :: s32) AND 0x0000FF00)) = (ucast (drop_bit 8 v) :: u8)"
    unfolding e by (intro bit_word_eqI) (auto simp: bit_simps)
  show "ucast ((scast v :: s32) AND 0x000000FF) = (ucast v :: u8)"
    by (simp, intro bit_word_eqI) (auto simp: bit_simps)
qed

definition matrix_list :: "'a list list \<Rightarrow> 'a list" where
  "matrix_list M = concat M"

text \<open>What is sent of a template: its 21 coefficients, two octets each.\<close>

definition template_octets :: "template_struct \<Rightarrow> u8 list" where
  "template_octets t = concat (map pixel_octets (concat (t_A t) @ concat (t_B t) @ [t_I t, t_x_bnd t, t_u_bnd t]))"

context uart_env begin

lemma exec_send_coefficient:
  assumes ptr: "pointers_ok g" and f: "f g = Inr v"
  shows "exec (send_coefficient wd f) g q () (set_template_var (scast v) g) (rev (map put (pixel_octets v)) @ q)"
proof -
  let ?g = "set_template_var (scast v) g"
  have P: "pointers_ok ?g" using ptr by simp
  have 1: "exec (bnd (gete f) (\<lambda>v. modg (set_template_var (scast v)))) g q () ?g q"
    by (rule exec_bnd_gete, rule f, rule exec_modg)
  have 2: "exec (bnd (getg (\<lambda>g. mpu_template_var (mpu g))) (\<lambda>x. uart_write wd (ucast (drop_bit 8 (x AND 0x0000FF00)))))
      ?g q () ?g (put (ucast (drop_bit 8 v)) # q)" for q
    using exec_uart_write [OF P, folded put_def] by (simp only: exec_bnd_getg set_template_var_simps coefficient_octets)
  have 3: "exec (bnd (getg (\<lambda>g. mpu_template_var (mpu g))) (\<lambda>x. uart_write wd (ucast (x AND 0x000000FF))))
      ?g q () ?g (put (ucast v) # q)" for q
    using exec_uart_write [OF P, folded put_def] by (simp only: exec_bnd_getg set_template_var_simps coefficient_octets)
  from exec_block_Cons [OF 1 exec_block_Cons [OF 2 exec_block_Cons [OF 3 exec_block_Nil]]]
  show ?thesis by (simp only: send_coefficient_def pixel_octets_def list.map rev.simps append.simps)
qed

text \<open>A matrix of a template, coefficient after coefficient.\<close>

lemma exec_send_matrix:
  assumes ptr: "pointers_ok g" and M: "shaped 3 3 M"
    and f: "\<And>i j x. i < 3 \<Longrightarrow> j < 3 \<Longrightarrow> f (at_ij i j (set_template_var x g)) = Inr (M ! i ! j)"
  shows "\<exists>x. exec (for_patch (send_coefficient wd f)) g q () (at_ij 3 3 (set_template_var x g))
     (rev (map put (concat (map pixel_octets (concat M)))) @ q)"
proof -
  define vs where "vs = concat M"
  have lv: "length vs = 9" using length_concat_shaped [OF M] by (simp add: vs_def)
  define X where "X i j = set_template_var
      (if 3 * i + j = 0 then mpu_template_var (mpu g) else scast (vs ! (3 * i + j - 1))) g" for i j
  define Q where "Q i j = rev (map put (concat (map pixel_octets (take (3 * i + j) vs)))) @ q" for i j :: nat
  have "exec (for_patch (send_coefficient wd f)) g q () (at_ij 3 3 (X 3 0)) (Q 3 0)"
  proof (rule exec_for_patch)
    fix i j :: nat assume ij: "i < 3" "j < 3"
    have v: "vs ! (3 * i + j) = M ! i ! j"
      using nth_concat_shaped [OF M ij] by (simp add: vs_def mult.commute)
    have k: "3 * i + j < length vs" using ij by (simp add: lv)
    have F: "f (at_ij i j (X i j)) = Inr (M ! i ! j)" unfolding X_def by (rule f [OF ij])
    have "exec (send_coefficient wd f) (at_ij i j (X i j)) (Q i j) ()
        (set_template_var (scast (M ! i ! j)) (at_ij i j (X i j))) (rev (map put (pixel_octets (M ! i ! j))) @ Q i j)"
      by (rule exec_send_coefficient, simp add: X_def ptr, rule F)
    then show "exec (send_coefficient wd f) (at_ij i j (X i j)) (Q i j) () (at_ij i j (X i (Suc j))) (Q i (Suc j))"
      by (rule exec_conv) (simp_all add: X_def Q_def v take_Suc_conv_app_nth [OF k])
  qed (simp_all add: X_def Q_def add.commute [of 3])
  then show ?thesis using lv by (auto simp: X_def Q_def vs_def)
qed

lemma exec_template_send:
  fixes q and g :: globals
  defines "n \<equiv> rx_count q"
  defines "t \<equiv> templates g ! unat (be16 (inp ! n) (inp ! Suc n))"
  assumes ptr: "pointers_ok g" and len: "Suc n < length inp"
    and no: "unat (be16 (inp ! n) (inp ! Suc n)) < length (templates g)" and wf: "wf_template t"
  shows "exec (template_send wd) g q () (set_template_var (scast (t_u_bnd t)) (at_ij 3 3 g))
     (rev (map put (template_octets t)) @ got (inp ! Suc n) # got (inp ! n) # q)"
proof -
  let ?no = "be16 (inp ! n) (inp ! Suc n)"
  let ?q = "got (inp ! Suc n) # got (inp ! n) # q"
  have r1: "exec (uart_read wd) g q (inp ! n) g (got (inp ! n) # q)"
    using exec_uart_read [OF ptr, of q] len by (simp add: n_def got_def)
  have r2: "exec (uart_read wd) g (got (inp ! n) # q) (inp ! Suc n) g ?q"
    using exec_uart_read [OF ptr, of "got (inp ! n) # q"] len by (simp add: n_def got_def)
  have tg: "template_get ?no f g' = f t" if "templates g' = templates g"
    for f :: "template_struct \<Rightarrow> fault + s16" and g'
    using no that by (simp add: template_get_def nth_chk_def t_def)
  have cell: "mat_get M (of_nat i) (of_nat j) = Inr (M ! i ! j)" if "shaped 3 3 M" "i < 3" "j < 3" for M :: "s16 list list" and i j
    using mat_get_shaped [OF that(1), of "of_nat i" "of_nat j"] that by simp
  have A: "shaped 3 3 (t_A t)" and B: "shaped 3 3 (t_B t)" using wf by (simp_all add: wf_template_def)
  let ?fA = "\<lambda>g. template_get ?no (\<lambda>t. mat_get (t_A t) (gi g) (gj g)) g"
  let ?fB = "\<lambda>g. template_get ?no (\<lambda>t. mat_get (t_B t) (gi g) (gj g)) g"
  obtain x where sA: "exec (for_patch (send_coefficient wd ?fA)) g ?q () (at_ij 3 3 (set_template_var x g))
     (rev (map put (concat (map pixel_octets (concat (t_A t))))) @ ?q)"
    using exec_send_matrix [OF ptr A, of ?fA ?q] by (auto simp: tg cell A)
  let ?gA = "at_ij 3 3 (set_template_var x g)"
  have "\<exists>y. exec (for_patch (send_coefficient wd ?fB)) ?gA q () (at_ij 3 3 (set_template_var y ?gA))
     (rev (map put (concat (map pixel_octets (concat (t_B t))))) @ q)" for q
    by (rule exec_send_matrix) (use ptr B in \<open>simp_all add: tg cell\<close>)
  then obtain y where sB: "exec (for_patch (send_coefficient wd ?fB)) ?gA (rev (map put (concat (map pixel_octets (concat (t_A t))))) @ ?q) ()
      (at_ij 3 3 (set_template_var y ?gA)) (rev (map put (concat (map pixel_octets (concat (t_B t)))))
        @ rev (map put (concat (map pixel_octets (concat (t_A t))))) @ ?q)"
    by blast
  have gB: "at_ij 3 3 (set_template_var y ?gA) = set_template_var y (at_ij 3 3 g)"
    by (simp add: at_ij_def set_template_var_def set_i_def set_j_def)
  have one: "exec (send_coefficient wd (template_get ?no (\<lambda>t. Inr (f t)))) (set_template_var z (at_ij 3 3 g)) q ()
      (set_template_var (scast (f t)) (at_ij 3 3 g)) (rev (map put (pixel_octets (f t))) @ q)" for f z q
  proof (rule exec_conv [OF exec_send_coefficient])
    show "template_get ?no (\<lambda>t. Inr (f t)) (set_template_var z (at_ij 3 3 g)) = Inr (f t)"
      by (rule tg) simp
  qed (simp_all add: ptr)
  show ?thesis unfolding template_send_def
    apply (rule exec_bnd [OF r1], rule exec_bnd [OF r2], unfold Let_def)
    apply (rule exec_block_Cons [OF sA], rule exec_block_Cons [OF sB], unfold gB)
    apply (rule exec_conv, (rule exec_block_Cons, rule one)+, rule exec_block_Nil)
    apply (simp_all add: template_octets_def)
    done
qed

end

section \<open>Errors\<close>

text \<open>An error register and the scaled value \<open>error_get\<close> stores for it.\<close>

definition scaled :: "(mpu_reg \<Rightarrow> u32) \<Rightarrow> globals \<Rightarrow> mpu_reg \<Rightarrow> s16" where
  "scaled raw g r = word_of_int (c_div (sint (raw r * ucast (cnn_learn_rate (cnn g))))
     (busFMax * uint (img_shift (image g))))"

definition fetched :: "(mpu_reg \<Rightarrow> u32) \<Rightarrow> globals \<Rightarrow> globals" where
  "fetched raw g = g\<lparr>errors :=
     \<lparr>e_u = mat 3 3 (\<lambda>i j. scaled raw g (R_error_u (ixn i) (ixn j))),
      e_x = mat 3 3 (\<lambda>i j. scaled raw g (R_error_x (ixn i) (ixn j))),
      e_i = scaled raw g R_error_i\<rparr>\<rparr>"

definition error_regs :: "mpu_reg list" where
  "error_regs = map (\<lambda>((a, b), _). R_error_u a b) patch @ map (\<lambda>((a, b), _). R_error_x a b) patch @ [R_error_i]"

definition error_read :: "(mpu_reg \<Rightarrow> u32) \<Rightarrow> mpu_reg \<Rightarrow> event" where
  "error_read raw r = Rd W32 (reg_addr r) (raw r)"

text \<open>
  The device holds the raw errors: from history \<open>q\<close> on, while only error registers are read (and
  polled registers, which \<open>quiet\<close> drops), the error register \<open>r\<close> answers \<open>raw r\<close>.
\<close>

definition holds_errors :: "world \<Rightarrow> event list \<Rightarrow> (mpu_reg \<Rightarrow> u32) \<Rightarrow> bool" where
  "holds_errors wd q raw \<longleftrightarrow> (\<forall>h rs r. quiet h = map (error_read raw) rs @ q \<longrightarrow> set rs \<subseteq> set error_regs
     \<longrightarrow> r \<in> set error_regs \<longrightarrow> bus_in wd h (reg_addr r) = raw r)"

definition wf_errors :: "globals \<Rightarrow> bool" where
  "wf_errors g \<longleftrightarrow> shaped 3 3 (e_u (errors g)) \<and> shaped 3 3 (e_x (errors g))"

lemma scale_error_scaled:
  "img_shift (image g) \<noteq> 0 \<Longrightarrow> scale_error (raw r) (cnn_learn_rate (cnn g)) (img_shift (image g)) = Inr (scaled raw g r)"
  by (simp add: scale_error_def scaled_def Let_def busFMax_def busF_def uint_0_iff)

lemma holds_errorsD:
  "holds_errors wd q raw \<Longrightarrow> set rs \<subseteq> set error_regs \<Longrightarrow> r \<in> set error_regs \<Longrightarrow>
   quiet h = map (error_read raw) rs @ q \<Longrightarrow> bus_in wd h (reg_addr r) = raw r"
  by (auto simp: holds_errors_def)

lemma holds_errors_step:
  assumes "holds_errors wd q raw" "r \<in> set error_regs"
  shows "holds_errors wd (error_read raw r # q) raw"
  unfolding holds_errors_def
proof (intro allI impI)
  fix h rs r' assume "quiet h = map (error_read raw) rs @ error_read raw r # q"
    "set rs \<subseteq> set error_regs" "r' \<in> set error_regs"
  then show "bus_in wd h (reg_addr r') = raw r'"
    using holds_errorsD [OF assms(1), of "rs @ [r]" r' h] assms(2) by simp
qed

lemma holds_errors_run:
  "set rs \<subseteq> set error_regs \<Longrightarrow> holds_errors wd q raw \<Longrightarrow> holds_errors wd (rev (map (error_read raw) rs) @ q) raw"
proof (induction rs arbitrary: q)
  case (Cons r rs)
  then show ?case using holds_errors_step [of wd q raw r] by simp
qed simp

lemma exec_error_item:
  assumes ptr: "pointers_ok g" and hold: "holds_errors wd q raw" and r: "r \<in> set error_regs"
    and nz: "img_shift (image g) \<noteq> 0" and st: "st (scaled raw g r) g = Inr g'"
  shows "exec (error_item wd r st) g q () g' (error_read raw r # q)"
proof -
  have npoll: "r \<noteq> R_uart_status" "r \<noteq> R_feedback"
    using r by (auto simp: error_regs_def patch_def)
  have "exec (reg_read wd W32 r) g q (raw r) g (Rd W32 (mpu_regs (mpu g) r) (raw r) # q)"
    using ptr npoll holds_errorsD [OF hold _ r, of "[]"]
    by (intro exec_reg_read) (simp_all add: pointers_ok_def)
  then have read: "exec (reg_read wd W32 r) g q (raw r) g (error_read raw r # q)"
    using ptr by (simp add: pointers_ok_def error_read_def)
  show ?thesis unfolding error_item_def
    by (rule exec_bnd [OF read], rule exec_mode) (simp add: scale_error_scaled [OF nz] st)
qed

lemma scaled_errors [simp]: "scaled raw (g\<lparr>errors := e\<rparr>) = scaled raw g"
  by (rule ext) (simp add: scaled_def)

lemma patch_fill:
  assumes k: "k < 9"
  shows "mat_set (mat 3 3 (\<lambda>a b. if 3 * a + b < k then new a b else old a b)) (of_nat (k div 3)) (of_nat (k mod 3))
      (new (k div 3) (k mod 3)) = Inr (mat 3 3 (\<lambda>a b. if 3 * a + b < Suc k then new a b else old a b))"
proof -
  have lt: "k div 3 < 3" "k mod 3 < 3" using k by auto
  have pos: "(a = k div 3 \<and> b = k mod 3) = (3 * a + b = k)" if "a < 3" "b < 3" for a b
    using that by auto
  have "mat 3 3 (\<lambda>a b. if a = k div 3 \<and> b = k mod 3 then new (k div 3) (k mod 3)
        else if 3 * a + b < k then new a b else old a b)
      = mat 3 3 (\<lambda>a b. if 3 * a + b < Suc k then new a b else old a b)"
    by (rule mat_cong) (use pos in \<open>force simp: less_Suc_eq\<close>)
  then show ?thesis using lt by (subst mat_set_mat) simp_all
qed

lemma exec_error_patch:
  assumes ptr: "pointers_ok g" and hold: "holds_errors wd q raw" and nz: "img_shift (image g) \<noteq> 0"
    and M: "M = mat 3 3 old"
    and reg: "\<And>a b. rg a b \<in> set error_regs"
    and st: "\<And>i j v. st i j v g = ebind (mat_set M i j v) (\<lambda>M'. Inr (upd M' g))" and M0: "upd M g = g"
    and st': "\<And>M i j v. st i j v (upd M g) = ebind (mat_set M i j v) (\<lambda>M'. Inr (upd M' g))"
    and upd: "\<And>M. pointers_ok (upd M g)" "\<And>M. image (upd M g) = image g" "\<And>M. scaled raw (upd M g) = scaled raw g"
  shows "exec (block (map (\<lambda>((a, b), i, j). error_item wd (rg a b) (st i j)) patch)) g q ()
      (upd (mat 3 3 (\<lambda>i j. scaled raw g (rg (ixn i) (ixn j)))) g)
      (rev (map (error_read raw) (map (\<lambda>((a, b), _). rg a b) patch)) @ q)"
proof -
  define new where "new = (\<lambda>i j. scaled raw g (rg (ixn i) (ixn j)))"
  have new_ij: "scaled raw g (rg (ixn i) (ixn j)) = new i j" for i j by (simp add: new_def)
  define G where "G k = upd (mat 3 3 (\<lambda>a b. if 3 * a + b < k then new a b else old a b)) g" for k :: nat
  define rs where "rs = map (\<lambda>((a, b), _). rg a b) patch"
  have lrs: "length rs = 9" by (simp add: rs_def)
  have nrs: "rs ! k = rg (ixn (k div 3)) (ixn (k mod 3))" if "k < 9" for k
    using that by (simp add: rs_def nth_patch)
  have rsE: "set rs \<subseteq> set error_regs" using reg by (auto simp: rs_def)
  define Q where "Q k = rev (map (error_read raw) (take k rs)) @ q" for k
  have hq: "holds_errors wd (Q k) raw" for k
    unfolding Q_def by (rule holds_errors_run [OF _ hold]) (use rsE set_take_subset in fast)
  have "exec (block (map (\<lambda>((a, b), i, j). error_item wd (rg a b) (st i j)) patch)) (G 0) (Q 0) ()
      (G (length patch)) (Q (length patch))"
  proof (rule exec_block_map)
    fix k assume "k < length patch"
    then have k: "k < 9" by simp
    have Q: "Q (Suc k) = error_read raw (rg (ixn (k div 3)) (ixn (k mod 3))) # Q k"
      using k by (simp add: Q_def take_Suc_conv_app_nth lrs nrs)
    have "exec (error_item wd (rg (ixn (k div 3)) (ixn (k mod 3))) (st (of_nat (k div 3)) (of_nat (k mod 3)))) (G k) (Q k) ()
        (G (Suc k)) (error_read raw (rg (ixn (k div 3)) (ixn (k mod 3))) # Q k)"
    proof (rule exec_error_item)
      show "st (of_nat (k div 3)) (of_nat (k mod 3)) (scaled raw (G k) (rg (ixn (k div 3)) (ixn (k mod 3)))) (G k) = Inr (G (Suc k))"
        unfolding G_def st' upd new_ij patch_fill [OF k] by simp
    qed (use upd hq k reg nz in \<open>simp_all add: G_def\<close>)
    then show "exec (case patch ! k of (x, xa) \<Rightarrow> (case x of (a, b) \<Rightarrow> \<lambda>(i, j). error_item wd (rg a b) (st i j)) xa) (G k) (Q k) () (G (Suc k)) (Q (Suc k))"
      unfolding nth_patch [OF k] Q by simp
  qed
  moreover have "G 0 = g" by (simp add: G_def M [symmetric] M0)
  moreover have "G 9 = upd (mat 3 3 new) g" unfolding G_def
    by (intro arg_cong [where f = "\<lambda>M. upd M g"] mat_cong) simp
  ultimately show ?thesis by (simp add: Q_def lrs rs_def [symmetric] new_def)
qed

lemma exec_error_get:
  assumes ptr: "pointers_ok g" and hold: "holds_errors wd q raw" and nz: "img_shift (image g) \<noteq> 0"
    and wf: "wf_errors g"
  shows "exec (error_get wd) g q () (fetched raw g) (rev (map (error_read raw) error_regs) @ q)"
proof -
  define uu where "uu M g = g\<lparr>errors := (errors g)\<lparr>e_u := M\<rparr>\<rparr>" for M and g :: globals
  define ux where "ux M g = g\<lparr>errors := (errors g)\<lparr>e_x := M\<rparr>\<rparr>" for M and g :: globals
  define mu where "mu = mat 3 3 (\<lambda>i j. scaled raw g (R_error_u (ixn i) (ixn j)))"
  define mx where "mx = mat 3 3 (\<lambda>i j. scaled raw g (R_error_x (ixn i) (ixn j)))"
  let ?U = "map (error_read raw) (map (\<lambda>((a, b), _). R_error_u a b) patch)"
  let ?X = "map (error_read raw) (map (\<lambda>((a, b), _). R_error_x a b) patch)"
  have inU: "R_error_u a b \<in> set error_regs" and inX: "R_error_x a b \<in> set error_regs" for a b
    by (cases a; cases b; simp add: error_regs_def patch_def)+
  have U: "exec (block (map (\<lambda>((a, b), i, j). error_item wd (R_error_u a b) (set_error_u i j)) patch))
      g q () (uu mu g) (rev ?U @ q)"
    unfolding mu_def
    by (rule exec_error_patch [OF ptr hold nz shaped_eq_mat])
      (use wf in \<open>auto simp: wf_errors_def uu_def set_error_u_def inU ptr\<close>)
  have X: "exec (block (map (\<lambda>((a, b), i, j). error_item wd (R_error_x a b) (set_error_x i j)) patch))
      (uu mu g) (rev ?U @ q) () (ux mx (uu mu g)) (rev ?X @ rev ?U @ q)"
  proof -
    have "mx = mat 3 3 (\<lambda>i j. scaled raw (uu mu g) (R_error_x (ixn i) (ixn j)))"
      by (simp add: mx_def uu_def)
    then show ?thesis
      by (simp only:, intro exec_error_patch [OF _ holds_errors_run [OF _ hold] _ shaped_eq_mat])
        (use wf nz in \<open>auto simp: wf_errors_def ux_def uu_def set_error_x_def inU inX ptr\<close>)
  qed
  have I: "exec (error_item wd R_error_i set_error_i) (ux mx (uu mu g)) (rev ?X @ rev ?U @ q) ()
      (fetched raw g) (error_read raw R_error_i # rev ?X @ rev ?U @ q)"
  proof (rule exec_error_item)
    have "holds_errors wd (rev (map (error_read raw) (map (\<lambda>((a, b), _). R_error_u a b) patch
        @ map (\<lambda>((a, b), _). R_error_x a b) patch)) @ q) raw"
      by (rule holds_errors_run [OF _ hold]) (auto simp: inU inX)
    then show "holds_errors wd (rev ?X @ rev ?U @ q) raw" by simp
  qed (use ptr nz in \<open>simp_all add: error_regs_def ux_def uu_def set_error_i_def fetched_def mx_def mu_def\<close>)
  show ?thesis unfolding error_get_def
    using exec_block_append [OF U exec_block_append [OF X exec_block_Cons [OF I exec_block_Nil]]]
    by (simp add: error_regs_def)
qed

text \<open>With an image without pixels the scaling divides by zero at the first register.\<close>

lemma error_get_zero:
  assumes "img_shift (image g) = 0"
  shows "error_get wd (g, h) = Some (Inl DivByZero)"
proof -
  have "error_item wd r st (g, h) = Some (Inl DivByZero)" for r st
    by (simp add: error_item_def reg_read_def bnd_def getg_def mmio_read_def mode_def Let_def
        scale_error_def assms)
  then show ?thesis by (simp add: error_get_def patch_def bnd_Inl)
qed

section \<open>Sending the errors\<close>

definition errors_octets :: "error_struct \<Rightarrow> u8 list" where
  "errors_octets e = concat (map error_octets (concat (e_x e) @ concat (e_u e) @ [e_i e]))"

lemma length_errors_octets:
  "shaped 3 3 (e_x e) \<Longrightarrow> shaped 3 3 (e_u e) \<Longrightarrow> length (errors_octets e) = 76"
proof -
  assume "shaped 3 3 (e_x e)" "shaped 3 3 (e_u e)"
  moreover have "length (concat (map error_octets vs)) = 4 * length vs" for vs
    by (induction vs) (simp_all add: error_octets_def Let_def)
  ultimately show ?thesis by (simp add: errors_octets_def length_concat_shaped error_octets_def Let_def)
qed

text \<open>A value is sent as the 32-bit sign extension, most significant octet first.\<close>

definition be32 :: "u8 \<Rightarrow> u8 \<Rightarrow> u8 \<Rightarrow> u8 \<Rightarrow> u32" where
  "be32 a b c d = push_bit 24 (ucast a) OR push_bit 16 (ucast b) OR push_bit 8 (ucast c) OR ucast d"

lemma error_octets_decode:
  "\<exists>a b c d. error_octets v = [a, b, c, d] \<and> be32 a b c d = scast v"
proof -
  let ?x = "scast v :: u32"
  have e: "(0xFF000000 :: u32) = push_bit 24 (mask 8)" "(0x00FF0000 :: u32) = push_bit 16 (mask 8)"
    "(0x0000FF00 :: u32) = push_bit 8 (mask 8)" "(0x000000FF :: u32) = mask 8"
    by (simp_all add: mask_numeral)
  have "be32 (ucast (drop_bit 24 (?x AND 0xFF000000))) (ucast (drop_bit 16 (?x AND 0x00FF0000)))
      (ucast (drop_bit 8 (?x AND 0x0000FF00))) (ucast (?x AND 0x000000FF)) = ?x"
    unfolding e be32_def
  proof (rule bit_word_eqI)
    fix n assume "n < LENGTH(32)"
    then consider "n < 8" | "8 \<le> n" "n < 16" | "16 \<le> n" "n < 24" | "24 \<le> n" "n < 32"
      by fastforce
    then show "bit (push_bit 24 (ucast (ucast (drop_bit 24 (?x AND push_bit 24 (mask 8))) :: u8))
        OR push_bit 16 (ucast (ucast (drop_bit 16 (?x AND push_bit 16 (mask 8))) :: u8))
        OR push_bit 8 (ucast (ucast (drop_bit 8 (?x AND push_bit 8 (mask 8))) :: u8))
        OR ucast (ucast (?x AND mask 8) :: u8) :: u32) n = bit ?x n"
      by cases (auto simp: bit_simps)
  qed
  then show ?thesis unfolding error_octets_def Let_def by blast
qed

context uart_env begin

lemma exec_send_error_matrix:
  assumes ptr: "pointers_ok g" and M: "shaped 3 3 M"
    and f: "\<And>i j. i < 3 \<Longrightarrow> j < 3 \<Longrightarrow> f (at_ij i j g) = Inr (M ! i ! j)"
  shows "exec (for_patch (bnd (gete f) (send_error wd))) g q () (at_ij 3 3 g)
     (rev (map put (concat (map error_octets (concat M)))) @ q)"
proof -
  define vs where "vs = concat M"
  have lv: "length vs = 9" using length_concat_shaped [OF M] by (simp add: vs_def)
  define Q where "Q i j = rev (map put (concat (map error_octets (take (3 * i + j) vs)))) @ q" for i j :: nat
  have "exec (for_patch (bnd (gete f) (send_error wd))) g q () (at_ij 3 3 g) (Q 3 0)"
  proof (rule exec_for_patch [where X = "\<lambda>_ _. g"])
    fix i j :: nat assume ij: "i < 3" "j < 3"
    have v: "vs ! (3 * i + j) = M ! i ! j"
      using nth_concat_shaped [OF M ij] by (simp add: vs_def mult.commute)
    have k: "3 * i + j < length vs" using ij by (simp add: lv)
    have "exec (send_error wd (M ! i ! j)) (at_ij i j g) (Q i j) () (at_ij i j g) (Q i (Suc j))"
      unfolding send_error_def
      by (rule exec_conv [OF exec_send_octets])
        (simp_all add: ptr Q_def v take_Suc_conv_app_nth [OF k])
    then show "exec (bnd (gete f) (send_error wd)) (at_ij i j g) (Q i j) () (at_ij i j g) (Q i (Suc j))"
      by (rule exec_bnd_gete [of f, OF f [OF ij]])
  qed (simp_all add: Q_def add.commute [of 3])
  then show ?thesis using lv by (simp add: Q_def vs_def)
qed

lemma exec_error_send:
  assumes ptr: "pointers_ok g" and hold: "holds_errors wd q raw" and nz: "img_shift (image g) \<noteq> 0"
    and wf: "wf_errors g"
  shows "exec (error_send wd) g q () (at_ij 3 3 (fetched raw g))
     (rev (map put (errors_octets (errors (fetched raw g)))) @ rev (map (error_read raw) error_regs) @ q)"
proof -
  let ?g = "fetched raw g"
  let ?q = "rev (map (error_read raw) error_regs) @ q"
  let ?fx = "\<lambda>g. mat_get (e_x (errors g)) (gi g) (gj g)" and ?fu = "\<lambda>g. mat_get (e_u (errors g)) (gi g) (gj g)"
  have P: "pointers_ok ?g" using ptr by (simp add: fetched_def)
  have x: "shaped 3 3 (e_x (errors ?g))" and u: "shaped 3 3 (e_u (errors ?g))" by (simp_all add: fetched_def)
  have same: "at_ij 3 3 (at_ij 3 3 ?g) = at_ij 3 3 ?g" by (simp add: at_ij_def set_i_def set_j_def)
  have X: "exec (for_patch (bnd (gete ?fx) (send_error wd))) ?g q () (at_ij 3 3 ?g)
      (rev (map put (concat (map error_octets (concat (e_x (errors ?g)))))) @ q)" for q
    by (rule exec_send_error_matrix [OF P x]) (simp add: mat_get_shaped [OF x])
  have U: "exec (for_patch (bnd (gete ?fu) (send_error wd))) (at_ij 3 3 ?g) q () (at_ij 3 3 ?g)
      (rev (map put (concat (map error_octets (concat (e_u (errors ?g)))))) @ q)" for q
    by (subst (2) same [symmetric], rule exec_send_error_matrix [OF _ u]) (simp_all add: P mat_get_shaped [OF u])
  have I: "exec (bnd (getg (\<lambda>g. e_i (errors g))) (send_error wd)) (at_ij 3 3 ?g) q () (at_ij 3 3 ?g)
      (rev (map put (error_octets (e_i (errors ?g)))) @ q)" for q
    unfolding exec_bnd_getg send_error_def at_ij_simps
    by (rule exec_send_octets) (simp add: P)
  show ?thesis unfolding error_send_def
    using exec_block_Cons [OF exec_error_get [OF ptr hold nz wf]
      exec_block_Cons [OF X exec_block_Cons [OF U exec_block_Cons [OF I exec_block_Nil]]]]
    by (simp add: errors_octets_def)
qed

end

end
