(* ===== verification/Cnn_Func.thy ===== *)
theory Cnn_Func
  imports Patch_Requests
begin

text \<open>
  The operations on the CNN processor, \<open>mpu_sw/src/cnn/cnn_func.c\<close>: running the network on the
  image stack (\<open>cnn_driver\<close>) and the creation and the learning updates of templates.
\<close>

section \<open>Running the network\<close>

text \<open>\<open>general.j+general.i*image.width\<close>, a 32-bit sum passed as a 16-bit address.\<close>

definition pixel_address :: "globals \<Rightarrow> u16" where
  "pixel_address g = ucast (gj g + gi g * ucast (img_width (image g)))"

text \<open>\<open>while (ready_read() == 0);\<close>\<close>

definition wait_ready :: "world \<Rightarrow> (globals, unit) fw" where
  "wait_ready wd = while_loop (bnd (ready_read wd) (\<lambda>v. ret (v = 0))) (ret ())"

definition upload_pixel :: "u8 \<Rightarrow> (u16 \<Rightarrow> u16 \<Rightarrow> (globals, unit) fw) \<Rightarrow> (globals, unit) fw" where
  "upload_pixel loc wr = bnd (getg pixel_address) (\<lambda>a. bnd (gete (get_pixel (unat loc))) (\<lambda>v. wr a v))"

definition cnn_driver :: "world \<Rightarrow> u8 \<Rightarrow> u8 \<Rightarrow> u8 \<Rightarrow> u16 \<Rightarrow> u16 \<Rightarrow> u16 \<Rightarrow> (globals, unit) fw" where
  "cnn_driver wd u_loc x_loc ideal_loc template_no iter_cnt Ts = block
     [bnd (getg (\<lambda>g. img_width (image g))) (\<lambda>v. command CMD_CACHE_WIDTH v),
      bnd (getg (\<lambda>g. img_height (image g))) (\<lambda>v. command CMD_CACHE_HEIGHT v),
      command CMD_TS Ts,
      command CMD_ITER_CNT iter_cnt,
      template_set template_no,
      for_pixels (block
        [upload_pixel u_loc l2cache_u_write, upload_pixel x_loc l2cache_x_write,
         upload_pixel ideal_loc l2cache_ideal_write]),
      command CMD_STATE_RST (push_bit 1 0 OR 1),
      command CMD_STATE_RST (push_bit 1 0 OR 0),
      wait_ready wd,
      for_pixels (bnd (getg pixel_address) (\<lambda>a. bnd (l2cache_x_read wd a) (\<lambda>v.
        mode (set_pixel (unat x_loc) v))))]"

section \<open>Coefficients of a template\<close>

text \<open>The coefficient that \<open>loc\<close>, \<open>i\<close>, \<open>j\<close> select; \<open>None\<close> is the default branch of the switch.\<close>

definition template_fetch :: "char \<Rightarrow> u32 \<Rightarrow> u32 \<Rightarrow> (template_struct \<Rightarrow> fault + s16) option" where
  "template_fetch loc i j =
     (if loc = CHR ''A'' then Some (\<lambda>t. mat_get (t_A t) i j)
      else if loc = CHR ''B'' then Some (\<lambda>t. mat_get (t_B t) i j)
      else if loc = CHR ''I'' then Some (\<lambda>t. Inr (t_I t))
      else if loc = CHR ''x'' then Some (\<lambda>t. Inr (t_x_bnd t))
      else if loc = CHR ''u'' then Some (\<lambda>t. Inr (t_u_bnd t))
      else None)"

definition template_store :: "char \<Rightarrow> u32 \<Rightarrow> u32 \<Rightarrow> s16 \<Rightarrow> template_struct \<Rightarrow> fault + template_struct" where
  "template_store loc i j v t =
     (if loc = CHR ''A'' then ebind (mat_set (t_A t) i j v) (\<lambda>M. Inr (t\<lparr>t_A := M\<rparr>))
      else if loc = CHR ''B'' then ebind (mat_set (t_B t) i j v) (\<lambda>M. Inr (t\<lparr>t_B := M\<rparr>))
      else if loc = CHR ''I'' then Inr (t\<lparr>t_I := v\<rparr>)
      else if loc = CHR ''x'' then Inr (t\<lparr>t_x_bnd := v\<rparr>)
      else if loc = CHR ''u'' then Inr (t\<lparr>t_u_bnd := v\<rparr>)
      else Inr t)"

definition store_var :: "u16 \<Rightarrow> char \<Rightarrow> u32 \<Rightarrow> u32 \<Rightarrow> globals \<Rightarrow> fault + globals" where
  "store_var template_no loc i j g =
     (if template_fetch loc i j = None then Inr g else
      ebind (nth_chk (templates g) (unat template_no)) (\<lambda>t.
      ebind (template_store loc i j (ucast (mpu_template_var (mpu g))) t) (\<lambda>t'.
        Inr (g\<lparr>templates := (templates g)[unat template_no := t']\<rparr>))))"

definition template_pixel_create :: "u16 \<Rightarrow> char \<Rightarrow> u32 \<Rightarrow> u32 \<Rightarrow> s16 \<Rightarrow> globals \<Rightarrow> fault + globals" where
  "template_pixel_create template_no loc i j val g =
     store_var template_no loc i j (set_template_var
       (if sint val > busMax then word_of_int busMax
        else if sint val < busMin then word_of_int busMin
        else scast val) g)"

definition template_pixel_update :: "u16 \<Rightarrow> char \<Rightarrow> u32 \<Rightarrow> u32 \<Rightarrow> s32 \<Rightarrow> globals \<Rightarrow> fault + globals" where
  "template_pixel_update template_no loc i j error g =
     (case template_fetch loc i j of
        None \<Rightarrow> Inr g
      | Some f \<Rightarrow>
          ebind (template_get template_no f g) (\<lambda>v.
          let var = (scast v :: s32);
              template_sum = sint ((scast (ucast (var AND 0xFFFF) :: s16) :: s32) + error) in
          store_var template_no loc i j (set_template_var
            (if template_sum > errorMax then word_of_int errorMax
             else if template_sum < errorMin then word_of_int errorMin
             else scast (word_of_int template_sum :: s16)) g)))"

section \<open>Creation and learning\<close>

definition template_create :: "u16 \<Rightarrow> (globals, unit) fw" where
  "template_create template_no = block
     [for_i (\<lambda>g. gi g \<le> 2) (for_j (\<lambda>g. gj g \<le> 2) (block
        [mode (\<lambda>g. template_pixel_create template_no CHR ''A'' (gi g) (gj g) 0 g),
         mode (\<lambda>g. template_pixel_create template_no CHR ''B'' (gi g) (gj g) 0 g)])),
      mode (template_pixel_create template_no CHR ''I'' 0 0 0),
      mode (template_pixel_create template_no CHR ''x'' 0 0 0),
      mode (template_pixel_create template_no CHR ''u'' 0 0 0)]"

text \<open>The update at the current position, from the errors of the same position.\<close>

definition update_position :: "u16 \<Rightarrow> (globals, unit) fw" where
  "update_position template_no = block
     [bnd (gete (\<lambda>g. mat_get (e_x (errors g)) (gi g) (gj g))) (\<lambda>e.
        mode (\<lambda>g. template_pixel_update template_no CHR ''A'' (gi g) (gj g) (scast e) g)),
      bnd (gete (\<lambda>g. mat_get (e_u (errors g)) (gi g) (gj g))) (\<lambda>e.
        mode (\<lambda>g. template_pixel_update template_no CHR ''B'' (gi g) (gj g) (scast e) g))]"

definition update_biases :: "u16 \<Rightarrow> (globals, unit) fw" where
  "update_biases template_no = block
     [mode (\<lambda>g. template_pixel_update template_no CHR ''I'' 0 0 (scast (e_i (errors g))) g),
      mode (template_pixel_update template_no CHR ''x'' 0 0 0),
      mode (template_pixel_update template_no CHR ''u'' 0 0 0)]"

definition template_update_1d :: "u16 \<Rightarrow> (globals, unit) fw" where
  "template_update_1d template_no = block
     [for_patch (bnd (getg (\<lambda>g. gi g = 1)) (\<lambda>middle.
        if middle then update_position template_no else ret ())),
      update_biases template_no]"

definition template_update_2d :: "world \<Rightarrow> u16 \<Rightarrow> (globals, unit) fw" where
  "template_update_2d wd template_no = block
     [error_get wd,
      for_patch (update_position template_no),
      update_biases template_no]"

end
