(* ===== verification/Learning.thy ===== *)
theory Learning
  imports Cnn_Func
begin

text \<open>
  What the template operations of \<open>cnn_func.c\<close> compute: creation clears a template, an update adds
  the errors to the coefficients modulo \<open>2 ^ 16\<close>, in one or in all rows of the patch.
\<close>

section \<open>One coefficient\<close>

lemma sint_16_range: "- 32768 \<le> sint (v :: s16)" "sint v < 32768"
  using sint_ge [of v] sint_lt [of v] by simp_all

lemma sint_scast_32 [simp]: "sint (scast (v :: s16) :: s32) = sint v"
  using sint_16_range [of v] by (simp add: signed_scast_eq signed_take_bit_int_eq_self)

lemma scast_add_16:
  fixes v e :: s16
  shows "sint (scast v + scast e :: s32) = sint v + sint e"
    and "(word_of_int (sint v + sint e) :: s16) = v + e"
proof -
  have "sint (scast v + scast e :: s32) = signed_take_bit 31 (sint v + sint e)"
    by (simp add: sint_word_ariths)
  also have "\<dots> = sint v + sint e"
    using sint_16_range [of v] sint_16_range [of e] by (intro signed_take_bit_int_eq_self) simp_all
  finally show "sint (scast v + scast e :: s32) = sint v + sint e" .
  show "(word_of_int (sint v + sint e) :: s16) = v + e"
    by simp
qed

lemma ucast_and_16: "(ucast ((scast v :: s32) AND 0xFFFF) :: s16) = v" for v :: s16
proof -
  have e: "(0xFFFF :: s32) = mask 16" by (simp add: mask_numeral)
  show ?thesis unfolding e by (intro bit_word_eqI) (auto simp: bit_simps)
qed

lemma ucast_scast_16 [simp]: "(ucast (scast v :: s32) :: s16) = v" for v :: s16
  by (intro bit_word_eqI) (auto simp: bit_simps)

definition with_template :: "u16 \<Rightarrow> template_struct \<Rightarrow> globals \<Rightarrow> globals" where
  "with_template no t g = g\<lparr>templates := (templates g)[unat no := t]\<rparr>"

lemma with_template_simps [simp]:
  "general (with_template no t g) = general g" "image (with_template no t g) = image g"
  "cnn (with_template no t g) = cnn g" "mpu (with_template no t g) = mpu g"
  "errors (with_template no t g) = errors g" "heap_live (with_template no t g) = heap_live g"
  "length (templates (with_template no t g)) = length (templates g)"
  "unat no < length (templates g) \<Longrightarrow> templates (with_template no t g) ! unat no = t"
  "unat no \<noteq> k \<Longrightarrow> templates (with_template no t g) ! k = templates g ! k"
  "with_template no t' (with_template no t g) = with_template no t' g"
  "set_template_var x (with_template no t g) = with_template no t (set_template_var x g)"
  "at_ij i j (with_template no t g) = with_template no t (at_ij i j g)"
  "pointers_ok (with_template no t g) = pointers_ok g"
  by (simp_all add: with_template_def set_template_var_def at_ij_def set_i_def set_j_def pointers_ok_def)

lemma with_template_id [simp]: "with_template no (templates g ! unat no) g = g"
  by (simp add: with_template_def)

text \<open>
  An update stores the sum of the coefficient and the error at 16 bits: the comparisons with
  \<open>errorMax\<close> and \<open>errorMin\<close>, the bounds of 32 bits, never apply.
\<close>

lemma template_pixel_update:
  assumes no: "unat no < length (templates g)" and f: "template_fetch loc i j = Some f"
    and v: "f (templates g ! unat no) = Inr v"
    and t': "template_store loc i j (v + e) (templates g ! unat no) = Inr t'"
  shows "template_pixel_update no loc i j (scast e) g = Inr (with_template no t' (set_template_var (scast (v + e)) g))"
proof -
  have range: "sint v + sint e \<le> errorMax" "errorMin \<le> sint v + sint e"
    using sint_16_range [of v] sint_16_range [of e] by (simp_all add: package_defs)
  have get: "template_get no f g = Inr v" using no v by (simp add: template_get_def nth_chk_def)
  have store: "store_var no loc i j (set_template_var (scast (v + e)) g)
      = Inr (with_template no t' (set_template_var (scast (v + e)) g))"
    using no t' f by (simp add: store_var_def nth_chk_def with_template_def)
  show ?thesis
    unfolding template_pixel_update_def f option.case get ebind_simps Let_def ucast_and_16 scast_add_16
    using range store by simp
qed

lemma template_pixel_create:
  assumes no: "unat no < length (templates g)" and f: "template_fetch loc i j \<noteq> None"
    and t': "template_store loc i j v (templates g ! unat no) = Inr t'"
  shows "template_pixel_create no loc i j v g = Inr (with_template no t' (set_template_var (scast v) g))"
proof -
  have "sint v \<le> busMax" "busMin \<le> sint v"
    using sint_16_range [of v] by (simp_all add: package_defs)
  then show ?thesis using no f t'
    by (auto simp: template_pixel_create_def store_var_def nth_chk_def with_template_def)
qed

section \<open>A whole template\<close>

text \<open>The template after learning in the rows \<open>R\<close> with the errors \<open>e\<close>.\<close>

definition add_rows :: "(nat \<Rightarrow> bool) \<Rightarrow> nat \<Rightarrow> s16 list list \<Rightarrow> s16 list list \<Rightarrow> s16 list list" where
  "add_rows R n M E = mat 3 3 (\<lambda>a b. if R a \<and> 3 * a + b < n then M ! a ! b + E ! a ! b else M ! a ! b)"

definition learn_rows :: "(nat \<Rightarrow> bool) \<Rightarrow> nat \<Rightarrow> error_struct \<Rightarrow> template_struct \<Rightarrow> template_struct" where
  "learn_rows R n e t = t\<lparr>t_A := add_rows R n (t_A t) (e_x e), t_B := add_rows R n (t_B t) (e_u e)\<rparr>"

definition learn_bias :: "error_struct \<Rightarrow> template_struct \<Rightarrow> template_struct" where
  "learn_bias e t = t\<lparr>t_I := t_I t + e_i e\<rparr>"

definition learned :: "(nat \<Rightarrow> bool) \<Rightarrow> error_struct \<Rightarrow> template_struct \<Rightarrow> template_struct" where
  "learned R e t = learn_bias e (learn_rows R 9 e t)"

lemma shaped_add_rows [simp]: "shaped 3 3 (add_rows R n M E)"
  by (simp add: add_rows_def)

lemma add_rows_nth: "i < 3 \<Longrightarrow> j < 3 \<Longrightarrow>
  add_rows R n M E ! i ! j = (if R i \<and> 3 * i + j < n then M ! i ! j + E ! i ! j else M ! i ! j)"
  by (simp add: add_rows_def)

lemma add_rows_0: "shaped 3 3 M \<Longrightarrow> add_rows R 0 M E = M"
  using shaped_eq_mat [of 3 3 M] by (simp add: add_rows_def)

lemma learn_rows_0: "wf_template t \<Longrightarrow> learn_rows R 0 e t = t"
  by (simp add: learn_rows_def wf_template_def add_rows_0)

lemma position_eq: "a < 3 \<Longrightarrow> b < 3 \<Longrightarrow> i < 3 \<Longrightarrow> j < 3 \<Longrightarrow> 3 * a + b = 3 * i + j \<longleftrightarrow> a = i \<and> b = (j :: nat)"
  by presburger

lemma add_rows_Suc:
  assumes ij: "i < 3" "j < 3" and R: "R i"
  shows "mat_set (add_rows R (3 * i + j) M E) (of_nat i) (of_nat j) (M ! i ! j + E ! i ! j)
     = Inr (add_rows R (Suc (3 * i + j)) M E)"
proof -
  have "mat 3 3 (\<lambda>a b. if a = i \<and> b = j then M ! i ! j + E ! i ! j
      else if R a \<and> 3 * a + b < 3 * i + j then M ! a ! b + E ! a ! b else M ! a ! b)
    = add_rows R (Suc (3 * i + j)) M E"
    unfolding add_rows_def
    by (rule mat_cong) (use ij R in \<open>auto simp: less_Suc_eq position_eq [OF _ _ ij]\<close>)
  then show ?thesis unfolding add_rows_def using ij by (subst mat_set_mat) simp_all
qed

lemma learn_rows_skip:
  assumes "\<not> R i" "i < 3" "j < 3"
  shows "learn_rows R (Suc (3 * i + j)) e t = learn_rows R (3 * i + j) e t"
proof -
  have "add_rows R (Suc (3 * i + j)) M E = add_rows R (3 * i + j) M E" for M E
    unfolding add_rows_def
    by (rule mat_cong) (use assms in \<open>auto simp: less_Suc_eq position_eq [OF _ _ assms(2,3)]\<close>)
  then show ?thesis by (simp add: learn_rows_def)
qed

lemma exec_update_position:
  assumes ij: "i < 3" "j < 3" and R: "R i" and no: "unat no < length (templates g)"
    and wf: "wf_template t" "wf_errors g"
  shows "exec (update_position no) (at_ij i j (set_template_var x (with_template no (learn_rows R (3 * i + j) (errors g) t) g))) q ()
     (at_ij i j (set_template_var (scast (t_B t ! i ! j + e_u (errors g) ! i ! j))
        (with_template no (learn_rows R (Suc (3 * i + j)) (errors g) t) g))) q"
proof -
  let ?k = "3 * i + j" and ?e = "errors g"
  let ?P = "learn_rows R ?k ?e t"
  let ?A = "t_A t ! i ! j + e_x ?e ! i ! j" and ?B = "t_B t ! i ! j + e_u ?e ! i ! j"
  let ?P1 = "?P\<lparr>t_A := add_rows R (Suc ?k) (t_A t) (e_x ?e)\<rparr>"
  let ?S = "\<lambda>x P. at_ij i j (set_template_var x (with_template no P g))"
  have i32: "unat (of_nat i :: u32) = i" "unat (of_nat j :: u32) = j" using ij by simp_all
  have ex: "mat_get (e_x ?e) (of_nat i) (of_nat j) = Inr (e_x ?e ! i ! j)"
    and eu: "mat_get (e_u ?e) (of_nat i) (of_nat j) = Inr (e_u ?e ! i ! j)"
    using wf(2) ij by (simp_all add: wf_errors_def mat_get_shaped [of 3 3] i32)
  have A: "template_pixel_update no CHR ''A'' (of_nat i) (of_nat j) (scast (e_x ?e ! i ! j)) (?S x ?P)
      = Inr (?S (scast ?A) ?P1)"
    by (subst template_pixel_update [where v = "t_A t ! i ! j" and t' = ?P1 and f = "\<lambda>t. mat_get (t_A t) (of_nat i) (of_nat j)"])
      (use ij no in \<open>simp_all add: template_fetch_def template_store_def learn_rows_def mat_get_shaped [of 3 3] i32
        add_rows_nth add_rows_Suc [of i j R, OF ij R]\<close>)
  have B: "template_pixel_update no CHR ''B'' (of_nat i) (of_nat j) (scast (e_u ?e ! i ! j)) (?S y ?P1)
      = Inr (?S (scast ?B) (learn_rows R (Suc ?k) ?e t))" for y
    by (subst template_pixel_update [where v = "t_B t ! i ! j" and t' = "learn_rows R (Suc ?k) ?e t" and f = "\<lambda>t. mat_get (t_B t) (of_nat i) (of_nat j)"])
      (use ij no in \<open>simp_all add: template_fetch_def template_store_def learn_rows_def mat_get_shaped [of 3 3] i32
        add_rows_nth add_rows_Suc [of i j R, OF ij R]\<close>)
  show ?thesis unfolding update_position_def
  proof (rule exec_block_Cons [where g' = "?S (scast ?A) ?P1" and q' = q])
    show "exec (bnd (gete (\<lambda>g. mat_get (e_x (errors g)) (gi g) (gj g))) (\<lambda>e. mode (\<lambda>g. template_pixel_update no CHR ''A'' (gi g) (gj g) (scast e) g)))
        (?S x ?P) q () (?S (scast ?A) ?P1) q"
      by (rule exec_bnd_gete [where v = "e_x ?e ! i ! j"], simp add: ex, rule exec_mode) (use A in simp)
    have "exec (bnd (gete (\<lambda>g. mat_get (e_u (errors g)) (gi g) (gj g))) (\<lambda>e. mode (\<lambda>g. template_pixel_update no CHR ''B'' (gi g) (gj g) (scast e) g)))
        (?S (scast ?A) ?P1) q () (?S (scast ?B) (learn_rows R (Suc ?k) ?e t)) q"
      by (rule exec_bnd_gete [where v = "e_u ?e ! i ! j"], simp add: eu, rule exec_mode) (use B in simp)
    from exec_block_Cons [OF this exec_block_Nil]
    show "exec (block [bnd (gete (\<lambda>g. mat_get (e_u (errors g)) (gi g) (gj g))) (\<lambda>e. mode (\<lambda>g. template_pixel_update no CHR ''B'' (gi g) (gj g) (scast e) g))])
        (?S (scast ?A) ?P1) q () (?S (scast ?B) (learn_rows R (Suc ?k) ?e t)) q" .
  qed
qed

lemma exec_update_patch:
  assumes no: "unat no < length (templates g)" and t: "templates g ! unat no = t"
    and wf: "wf_template t" "wf_errors g"
    and body: "\<And>i j x P. i < 3 \<Longrightarrow> j < 3 \<Longrightarrow> \<not> R i \<Longrightarrow>
        exec b (at_ij i j (set_template_var x (with_template no P g))) q () (at_ij i j (set_template_var x (with_template no P g))) q"
    and body': "\<And>i j x P g' q'. i < 3 \<Longrightarrow> j < 3 \<Longrightarrow> R i \<Longrightarrow>
        exec (update_position no) (at_ij i j (set_template_var x (with_template no P g))) q () g' q'
        \<Longrightarrow> exec b (at_ij i j (set_template_var x (with_template no P g))) q () g' q'"
  shows "\<exists>x. exec (for_patch b) g q () (at_ij 3 3 (set_template_var x (with_template no (learn_rows R 9 (errors g) t) g))) q"
proof -
  define tv where "tv = rec_nat (mpu_template_var (mpu g))
    (\<lambda>k x. if R (k div 3) then scast (t_B t ! (k div 3) ! (k mod 3) + e_u (errors g) ! (k div 3) ! (k mod 3)) else x)"
  define X where "X i j = set_template_var (tv (3 * i + j)) (with_template no (learn_rows R (3 * i + j) (errors g) t) g)" for i j
  have "exec (for_patch b) g q () (at_ij 3 3 (X 3 0)) q"
  proof (rule exec_for_patch [where Q = "\<lambda>_ _. q"])
    fix i j :: nat assume ij: "i < 3" "j < 3"
    then have dm: "(3 * i + j) div 3 = i" "(3 * i + j) mod 3 = j" by simp_all
    have tvS: "tv (Suc (3 * i + j)) = (if R i then scast (t_B t ! i ! j + e_u (errors g) ! i ! j) else tv (3 * i + j))"
      using dm by (simp add: tv_def)
    show "exec b (at_ij i j (X i j)) q () (at_ij i j (X i (Suc j))) q"
    proof (cases "R i")
      case True
      then show ?thesis using body' [OF ij True exec_update_position [of i j R no g t, OF ij True no wf]]
        by (simp add: X_def tvS)
    next
      case False
      then show ?thesis using body [OF ij False] learn_rows_skip [of R i j, OF False ij]
        by (simp add: X_def tvS)
    qed
  next
    have "learn_rows R 0 (errors g) t = t" using wf(1) by (rule learn_rows_0)
    then show "X 0 0 = g" using with_template_id [of no g] t by (simp add: X_def tv_def)
  qed (simp_all add: X_def add.commute [of 3])
  then show ?thesis by (auto simp: X_def)
qed

lemma exec_update_biases:
  assumes no: "unat no < length (templates g)" and t: "templates g ! unat no = t"
  shows "exec (update_biases no) g q () (set_template_var (scast (t_u_bnd t)) (with_template no (learn_bias (errors g) t) g)) q"
proof -
  let ?e = "errors g"
  let ?T = "learn_bias ?e t"
  have I: "template_pixel_update no CHR ''I'' 0 0 (scast (e_i (errors g))) g
      = Inr (with_template no ?T (set_template_var (scast (t_I t + e_i ?e)) g))"
    by (rule template_pixel_update) (simp_all add: no t template_fetch_def template_store_def learn_bias_def)
  have x: "template_pixel_update no CHR ''x'' 0 0 (scast (0 :: s16)) (with_template no ?T (set_template_var y g))
      = Inr (with_template no ?T (set_template_var (scast (t_x_bnd t + 0)) g))" for y
    by (subst template_pixel_update [where t' = ?T and v = "t_x_bnd t" and f = "\<lambda>t. Inr (t_x_bnd t)"])
      (simp_all add: no t template_fetch_def template_store_def learn_bias_def)
  have u: "template_pixel_update no CHR ''u'' 0 0 (scast (0 :: s16)) (with_template no ?T (set_template_var y g))
      = Inr (with_template no ?T (set_template_var (scast (t_u_bnd t + 0)) g))" for y
    by (subst template_pixel_update [where t' = ?T and v = "t_u_bnd t" and f = "\<lambda>t. Inr (t_u_bnd t)"])
      (simp_all add: no t template_fetch_def template_store_def learn_bias_def)
  have 1: "exec (mode (\<lambda>g. template_pixel_update no CHR ''I'' 0 0 (scast (e_i (errors g))) g)) g q ()
      (with_template no ?T (set_template_var (scast (t_I t + e_i ?e)) g)) q"
    by (rule exec_mode) (rule I)
  show ?thesis unfolding update_biases_def
    by (rule exec_conv, rule exec_block_Cons [OF 1], rule exec_block_Cons, rule exec_mode, rule x [simplified],
        rule exec_block_Cons, rule exec_mode, rule u [simplified], rule exec_block_Nil) simp_all
qed

text \<open>The state after an update of template \<open>no\<close> in the rows \<open>R\<close>.\<close>

definition updated :: "(nat \<Rightarrow> bool) \<Rightarrow> u16 \<Rightarrow> globals \<Rightarrow> globals" where
  "updated R no g = (let t = learned R (errors g) (templates g ! unat no) in
     at_ij 3 3 (set_template_var (scast (t_u_bnd t)) (with_template no t g)))"

lemma exec_update:
  assumes no: "unat no < length (templates g)" and wf: "wf_template (templates g ! unat no)" "wf_errors g"
    and body: "\<And>i j x P. i < 3 \<Longrightarrow> j < 3 \<Longrightarrow> \<not> R i \<Longrightarrow>
        exec b (at_ij i j (set_template_var x (with_template no P g))) q () (at_ij i j (set_template_var x (with_template no P g))) q"
    and body': "\<And>i j x P g' q'. i < 3 \<Longrightarrow> j < 3 \<Longrightarrow> R i \<Longrightarrow>
        exec (update_position no) (at_ij i j (set_template_var x (with_template no P g))) q () g' q'
        \<Longrightarrow> exec b (at_ij i j (set_template_var x (with_template no P g))) q () g' q'"
  shows "exec (block [for_patch b, update_biases no]) g q () (updated R no g) q"
proof -
  let ?t = "templates g ! unat no"
  obtain x where patch: "exec (for_patch b) g q () (at_ij 3 3 (set_template_var x (with_template no (learn_rows R 9 (errors g) ?t) g))) q"
    using exec_update_patch [OF no refl wf, of R b q] body body' by blast
  let ?g = "at_ij 3 3 (set_template_var x (with_template no (learn_rows R 9 (errors g) ?t) g))"
  have "exec (update_biases no) ?g q () (set_template_var (scast (t_u_bnd (learn_rows R 9 (errors g) ?t)))
      (with_template no (learn_bias (errors ?g) (learn_rows R 9 (errors g) ?t)) ?g)) q"
    by (rule exec_update_biases) (use no in simp_all)
  then show ?thesis
    by (intro exec_conv [OF exec_block_Cons [OF patch exec_block_Cons [OF _ exec_block_Nil]]])
      (simp_all add: updated_def Let_def learned_def learn_rows_def learn_bias_def)
qed

lemma exec_update_1d:
  assumes no: "unat no < length (templates g)" and wf: "wf_template (templates g ! unat no)" "wf_errors g"
  shows "exec (template_update_1d no) g q () (updated (\<lambda>i. i = 1) no g) q"
  unfolding template_update_1d_def
proof (rule exec_update [OF no wf])
  fix i j :: nat and x P assume ij: "i < 3" "j < 3"
  have eq: "gi (at_ij i j (set_template_var x (with_template no P g))) = 1 \<longleftrightarrow> i = 1"
    using ij less3 by force
  show "exec (bnd (getg (\<lambda>g. gi g = 1)) (\<lambda>middle. if middle then update_position no else ret ()))
      (at_ij i j (set_template_var x (with_template no P g))) q () (at_ij i j (set_template_var x (with_template no P g))) q" if "i \<noteq> 1"
    unfolding exec_bnd_getg eq using that by (simp add: exec_ret)
  show "exec (bnd (getg (\<lambda>g. gi g = 1)) (\<lambda>middle. if middle then update_position no else ret ()))
      (at_ij i j (set_template_var x (with_template no P g))) q () g' q'"
    if "i = 1" "exec (update_position no) (at_ij i j (set_template_var x (with_template no P g))) q () g' q'" for g' q'
    unfolding exec_bnd_getg eq using that by simp
qed

lemma exec_update_2d_rest:
  assumes no: "unat no < length (templates g)" and wf: "wf_template (templates g ! unat no)" "wf_errors g"
  shows "exec (block [for_patch (update_position no), update_biases no]) g q () (updated (\<lambda>_. True) no g) q"
  by (rule exec_update [OF no wf]) simp_all

lemma exec_update_2d:
  assumes ptr: "pointers_ok g" and hold: "holds_errors wd q raw" and nz: "img_shift (image g) \<noteq> 0"
    and no: "unat no < length (templates g)" and wf: "wf_template (templates g ! unat no)" "wf_errors g"
  shows "exec (template_update_2d wd no) g q () (updated (\<lambda>_. True) no (fetched raw g))
     (rev (map (error_read raw) error_regs) @ q)"
proof -
  have "exec (block [for_patch (update_position no), update_biases no]) (fetched raw g)
      (rev (map (error_read raw) error_regs) @ q) () (updated (\<lambda>_. True) no (fetched raw g))
      (rev (map (error_read raw) error_regs) @ q)"
    by (rule exec_update_2d_rest) (use no wf in \<open>simp_all add: fetched_def wf_errors_def\<close>)
  from exec_block_Cons [OF exec_error_get [OF ptr hold nz wf(2)] this] show ?thesis
    by (simp only: template_update_2d_def)
qed

section \<open>Creation\<close>

definition zero_template :: template_struct where
  "zero_template = \<lparr>t_A = zero_patch, t_B = zero_patch, t_I = 0, t_x_bnd = 0, t_u_bnd = 0\<rparr>"

definition cleared :: "nat \<Rightarrow> template_struct \<Rightarrow> template_struct" where
  "cleared n t = t\<lparr>t_A := mat 3 3 (\<lambda>a b. if 3 * a + b < n then 0 else t_A t ! a ! b),
                   t_B := mat 3 3 (\<lambda>a b. if 3 * a + b < n then 0 else t_B t ! a ! b)\<rparr>"

lemma cleared_0: "wf_template t \<Longrightarrow> cleared 0 t = t"
  using shaped_eq_mat [of 3 3 "t_A t"] shaped_eq_mat [of 3 3 "t_B t"]
  by (simp add: cleared_def wf_template_def)

lemma mat_set_clear:
  fixes M :: "s16 list list"
  assumes "i < 3" "j < 3"
  shows "mat_set (mat 3 3 (\<lambda>a b. if 3 * a + b < 3 * i + j then 0 else M ! a ! b)) (of_nat i) (of_nat j) 0
    = Inr (mat 3 3 (\<lambda>a b. if 3 * a + b < Suc (3 * i + j) then 0 else M ! a ! b))"
  using patch_fill [of "3 * i + j" "\<lambda>_ _. 0" "\<lambda>a b. M ! a ! b"] assms by simp

lemma exec_clear_position:
  assumes ij: "i < 3" "j < 3" and no: "unat no < length (templates g)"
  shows "exec (block
        [mode (\<lambda>g. template_pixel_create no CHR ''A'' (gi g) (gj g) 0 g),
         mode (\<lambda>g. template_pixel_create no CHR ''B'' (gi g) (gj g) 0 g)])
     (at_ij i j (set_template_var x (with_template no (cleared (3 * i + j) t) g))) q ()
     (at_ij i j (set_template_var 0 (with_template no (cleared (Suc (3 * i + j)) t) g))) q"
proof -
  let ?P = "cleared (3 * i + j) t" and ?P2 = "cleared (Suc (3 * i + j)) t"
  let ?P1 = "?P\<lparr>t_A := t_A ?P2\<rparr>"
  let ?S = "\<lambda>x P. at_ij i j (set_template_var x (with_template no P g))"
  have A: "template_pixel_create no CHR ''A'' (of_nat i) (of_nat j) 0 (?S x ?P) = Inr (?S 0 ?P1)"
    by (subst template_pixel_create [where t' = ?P1])
      (use no in \<open>simp_all add: template_fetch_def template_store_def cleared_def mat_set_clear [OF ij]\<close>)
  have B: "template_pixel_create no CHR ''B'' (of_nat i) (of_nat j) 0 (?S y ?P1) = Inr (?S 0 ?P2)" for y
    by (subst template_pixel_create [where t' = ?P2])
      (use no in \<open>simp_all add: template_fetch_def template_store_def cleared_def mat_set_clear [OF ij]\<close>)
  have 1: "exec (mode (\<lambda>g. template_pixel_create no CHR ''A'' (gi g) (gj g) 0 g)) (?S x ?P) q () (?S 0 ?P1) q"
    by (rule exec_mode) (use A in simp)
  have 2: "exec (mode (\<lambda>g. template_pixel_create no CHR ''B'' (gi g) (gj g) 0 g)) (?S 0 ?P1) q () (?S 0 ?P2) q"
    by (rule exec_mode) (use B in simp)
  show ?thesis by (rule exec_block_Cons [OF 1 exec_block_Cons [OF 2 exec_block_Nil]])
qed

text \<open>The state after \<open>template_create\<close>.\<close>

definition created :: "u16 \<Rightarrow> globals \<Rightarrow> globals" where
  "created no g = at_ij 3 3 (set_template_var 0 (with_template no zero_template g))"

lemma exec_template_create:
  assumes no: "unat no < length (templates g)" and wf: "wf_template (templates g ! unat no)"
  shows "exec (template_create no) g q () (created no g) q"
proof -
  let ?t = "templates g ! unat no"
  let ?b = "block
        [mode (\<lambda>g. template_pixel_create no CHR ''A'' (gi g) (gj g) 0 g),
         mode (\<lambda>g. template_pixel_create no CHR ''B'' (gi g) (gj g) 0 g)]"
  define X where "X i j = set_template_var (if 3 * i + j = 0 then mpu_template_var (mpu g) else 0)
      (with_template no (cleared (3 * i + j) ?t) g)" for i j
  have loops: "for_i (\<lambda>g. gi g \<le> 2) (for_j (\<lambda>g. gj g \<le> 2) ?b) = for_patch ?b"
    by (simp add: for_patch_def package_defs)
  have patch: "exec (for_patch ?b) g q () (at_ij 3 3 (X 3 0)) q"
  proof (rule exec_for_patch [where Q = "\<lambda>_ _. q"])
    fix i j :: nat assume ij: "i < 3" "j < 3"
    show "exec ?b (at_ij i j (X i j)) q () (at_ij i j (X i (Suc j))) q"
      using exec_clear_position [OF ij no, of _ ?t q] unfolding X_def by simp
  next
    show "X 0 0 = g" using cleared_0 [OF wf] by (simp add: X_def)
  qed (simp_all add: X_def add.commute [of 3])
  let ?z = "cleared 9 ?t"
  have z: "?z\<lparr>t_I := 0, t_x_bnd := 0, t_u_bnd := 0\<rparr> = zero_template"
  proof -
    have "mat 3 3 (\<lambda>a b. if 3 * a + b < 9 then 0 else M ! a ! b) = mat 3 3 (\<lambda>_ _. 0)" for M :: "s16 list list"
      by (rule mat_cong) auto
    then show ?thesis by (cases ?t) (simp add: cleared_def zero_template_def zero_patch_def)
  qed
  have bias: "template_pixel_create no loc 0 0 0 (with_template no P g') = Inr (with_template no P' (set_template_var 0 g'))"
    if "template_fetch loc 0 0 \<noteq> None" "template_store loc 0 0 0 P = Inr P'" "length (templates g') = length (templates g)"
    for loc P P' g'
    using template_pixel_create [of no "with_template no P g'" loc 0 0 0 P'] that no by simp
  have g1: "at_ij 3 3 (X 3 0) = with_template no ?z (at_ij 3 3 (set_template_var 0 g))" by (simp add: X_def)
  have I: "exec (mode (template_pixel_create no CHR ''I'' 0 0 0)) (at_ij 3 3 (X 3 0)) q ()
      (with_template no (?z\<lparr>t_I := 0\<rparr>) (at_ij 3 3 (set_template_var 0 g))) q"
    unfolding g1 by (rule exec_mode, subst bias [where P' = "?z\<lparr>t_I := 0\<rparr>"]) (simp_all add: template_fetch_def template_store_def)
  have x: "exec (mode (template_pixel_create no CHR ''x'' 0 0 0)) (with_template no (?z\<lparr>t_I := 0\<rparr>) (at_ij 3 3 (set_template_var 0 g))) q ()
      (with_template no (?z\<lparr>t_I := 0, t_x_bnd := 0\<rparr>) (at_ij 3 3 (set_template_var 0 g))) q"
    by (rule exec_mode, subst bias [where P' = "?z\<lparr>t_I := 0, t_x_bnd := 0\<rparr>"]) (simp_all add: template_fetch_def template_store_def)
  have u: "exec (mode (template_pixel_create no CHR ''u'' 0 0 0)) (with_template no (?z\<lparr>t_I := 0, t_x_bnd := 0\<rparr>) (at_ij 3 3 (set_template_var 0 g))) q ()
      (created no g) q"
    by (rule exec_mode, subst bias [where P' = zero_template])
      (simp_all add: template_fetch_def template_store_def z [symmetric] created_def)
  show ?thesis unfolding template_create_def loops
    by (rule exec_block_Cons [OF patch exec_block_Cons [OF I exec_block_Cons [OF x exec_block_Cons [OF u exec_block_Nil]]]])
qed

end
