(* ===== verification/Driver.thy ===== *)
theory Driver
  imports Learning
begin

text \<open>
  The run of the network, \<open>cnn_driver\<close> of \<open>cnn_func.c\<close>, over the contract of the CNN processor: the
  locale \<open>cnn_env\<close> extends the UART's with the ready flag and the result cache. The lemmas give the
  exact sequence of register accesses and the plane the result is stored in.
\<close>

section \<open>Accesses to the caches\<close>

definition u16_at :: "nat \<Rightarrow> nat \<Rightarrow> nat \<Rightarrow> u16" where
  "u16_at w i j = of_nat (j + i * w)"

text \<open>The four writes that store a pixel in a cache, oldest first.\<close>

definition cache_store :: "cache \<Rightarrow> u16 \<Rightarrow> u16 \<Rightarrow> event list" where
  "cache_store c a v =
     [Wr W16 (reg_addr (R_address c)) (ucast a), Wr W16 (reg_addr (R_data_in c)) (ucast v),
      Wr W8 (reg_addr (R_we c)) 1, Wr W8 (reg_addr (R_we c)) 0]"

definition fetch_addr :: "u16 \<Rightarrow> event" where
  "fetch_addr a = Wr W16 (reg_addr (R_address Cache_x)) (ucast a)"

definition fetch_data :: "u16 \<Rightarrow> event" where
  "fetch_data v = Rd W16 (reg_addr (R_data_out Cache_x)) (ucast v)"

lemma clip_ucast_16 [simp]: "clip W16 (ucast (v :: u16)) = ucast v"
  by simp

lemma ucast_back_16 [simp]: "ucast (ucast v :: u32) = v" for v :: u16
  by (rule bit_word_eqI) (auto simp: bit_simps)

lemma alloc_state_twice [simp]:
  "alloc_state (alloc_state g i j d l) i' j' d' l' = alloc_state g i' j' d' l'"
  by (simp add: alloc_state_def)

lemma exec_writes4:
  assumes "pointers_ok g"
    and "R_uart_tx \<notin> {r1, r2, r3, r4}"
  shows "exec (block [reg_write w1 r1 v1, reg_write w2 r2 v2, reg_write w3 r3 v3, reg_write w4 r4 v4]) g q () g
    (rev [Wr w1 (reg_addr r1) (clip w1 v1), Wr w2 (reg_addr r2) (clip w2 v2),
          Wr w3 (reg_addr r3) (clip w3 v3), Wr w4 (reg_addr r4) (clip w4 v4)] @ q)"
proof -
  have w: "exec (reg_write w r v) g q () g (Wr w (reg_addr r) (clip w v) # q)" if "r \<in> {r1, r2, r3, r4}" for w r v q
    by (rule exec_conv [OF exec_reg_write]) (use assms that in \<open>auto simp: pointers_ok_def\<close>)
  show ?thesis
    by (rule exec_conv, (rule exec_block_Cons, rule w, simp)+, rule exec_block_Nil) simp_all
qed

lemma exec_l2cache_write:
  assumes "pointers_ok g"
  shows "exec (l2cache_u_write a v) g q () g (rev (cache_store Cache_u a v) @ q)"
    and "exec (l2cache_x_write a v) g q () g (rev (cache_store Cache_x a v) @ q)"
    and "exec (l2cache_ideal_write a v) g q () g (rev (cache_store Cache_ideal a v) @ q)"
  unfolding l2cache_u_write_def l2cache_x_write_def l2cache_ideal_write_def cache_store_def
  by (rule exec_conv [OF exec_writes4 [OF assms]]; simp)+

section \<open>Loops over pixels that leave a trace\<close>

text \<open>The events of the pixels before \<open>(i, j)\<close>, on top of \<open>q\<close>; \<open>ev\<close> gives each pixel's, oldest first.\<close>

definition traced :: "nat \<Rightarrow> nat \<Rightarrow> (nat \<Rightarrow> nat \<Rightarrow> event list) \<Rightarrow> nat \<Rightarrow> nat \<Rightarrow> event list \<Rightarrow> event list" where
  "traced h w ev i j q = rev (concat (take (i * w + j) (concat (mat h w ev)))) @ q"

definition pixel_trace :: "nat \<Rightarrow> nat \<Rightarrow> (nat \<Rightarrow> nat \<Rightarrow> event list) \<Rightarrow> event list" where
  "pixel_trace h w ev = concat (concat (mat h w ev))"

lemma traced_0 [simp]: "traced h w ev 0 0 q = q"
  by (simp add: traced_def)

lemma traced_Suc:
  assumes "i < h" "j < w"
  shows "traced h w ev i (Suc j) q = rev (ev i j) @ traced h w ev i j q"
proof -
  have "i * w + j < length (concat (mat h w ev))"
    using pixel_index_less [OF assms] length_concat_shaped [OF shaped_mat] by metis
  moreover have "concat (mat h w ev) ! (i * w + j) = ev i j"
    using nth_concat_shaped [OF shaped_mat assms, of ev] assms by simp
  ultimately show ?thesis by (simp add: traced_def take_Suc_conv_app_nth)
qed

lemma traced_wrap: "traced h w ev i w q = traced h w ev (Suc i) 0 q"
  by (simp add: traced_def add.commute)

lemma traced_end: "traced h w ev h 0 q = rev (pixel_trace h w ev) @ q"
proof -
  have "length (concat (mat h w ev)) = h * w" by (rule length_concat_shaped) simp
  then show ?thesis by (simp add: traced_def pixel_trace_def)
qed

lemma exec_for_pixels_traced:
  fixes g :: globals
  defines "h \<equiv> unat (img_height (image g))" and "w \<equiv> unat (img_width (image g))"
  defines "st \<equiv> \<lambda>i j d. alloc_state g (of_nat i) (of_nat j) d (heap_live g)"
  assumes body: "\<And>i j. i < h \<Longrightarrow> j < w \<Longrightarrow> exec b (st i j (D i j)) (traced h w ev i j q) ()
      (st i j (D i (Suc j))) (rev (ev i j) @ traced h w ev i j q)"
    and wrap: "\<And>i. i < h \<Longrightarrow> D i w = D (Suc i) 0" and start: "D 0 0 = img_data (image g)"
  shows "exec (for_pixels b) g q ()
    (alloc_state g (of_nat h) (if h = 0 then gj g else of_nat w) (D h 0) (heap_live g)) (rev (pixel_trace h w ev) @ q)"
  using exec_for_pixels [of g b D "\<lambda>i j. traced h w ev i j q" q, folded h_def w_def] body wrap start
  by (simp add: st_def traced_Suc traced_wrap traced_end)

section \<open>The contract of the CNN processor\<close>

text \<open>
  \<open>net q a\<close> is the state the network computes for the pixel at address \<open>a\<close> when it is started after
  the accesses \<open>q\<close>: the processor raises the ready flag some time after every start (its state machine,
  \<open>cnn_state_machine.vhd\<close>, in state \<open>SUCCESS\<close>), and once the flag has been seen up the result cache shows the
  pixel at the address written last. Between the start and that poll the machine rewrites the cache
  in place, and nothing is promised of what it shows.
\<close>

locale cnn_env = uart_env wd inp
  for wd :: world and inp :: "u8 list" +
  fixes net :: "event list \<Rightarrow> u16 \<Rightarrow> u16"
  assumes ready_live: "quiet h = cmd CMD_STATE_RST 0 # q \<Longrightarrow>
      \<exists>n. bus_in wd (polled wd W32 feedback_a n h) feedback_a AND 1 \<noteq> 0"
    and result: "quiet h = fetch_addr a # es @ ready_seen # cmd CMD_STATE_RST 0 # q \<Longrightarrow>
      set es \<subseteq> range fetch_addr \<union> range fetch_data \<Longrightarrow>
      ucast (bus_in wd h (reg_addr (R_data_out Cache_x))) = net q a"
begin

lemma wait_ready_busy_wait:
  "wait_ready wd = busy_wait wd W32 (\<lambda>g. mpu_regs (mpu g) R_feedback) (\<lambda>v. (ucast (v AND 1) :: u8) \<noteq> 0)"
  by (simp add: wait_ready_def busy_wait_def ready_read_def reg_read_def bnd_assoc)

lemma ucast_and_1: "(ucast (v AND 1) :: u8) \<noteq> 0 \<longleftrightarrow> v AND 1 \<noteq> 0" for v :: u32
  by (simp add: and_one_eq mod_2_eq_odd)

lemma exec_wait_ready:
  assumes "pointers_ok g"
  shows "exec (wait_ready wd) g (cmd CMD_STATE_RST 0 # q) () g (ready_seen # cmd CMD_STATE_RST 0 # q)"
  unfolding wait_ready_busy_wait
  by (rule exec_wait_flag) (use assms ready_live in \<open>auto simp: pointers_ok_def ucast_and_1\<close>)

end

section \<open>The run\<close>

definition upload_events :: "u16 list list list \<Rightarrow> nat \<Rightarrow> nat \<Rightarrow> nat \<Rightarrow> nat \<Rightarrow> nat \<Rightarrow> nat \<Rightarrow> event list" where
  "upload_events Ms u x d w i j =
     cache_store Cache_u (u16_at w i j) (Ms ! u ! i ! j) @ cache_store Cache_x (u16_at w i j) (Ms ! x ! i ! j)
     @ cache_store Cache_ideal (u16_at w i j) (Ms ! d ! i ! j)"

text \<open>The accesses before the start of the network, newest first.\<close>

definition start_trace ::
  "u16 list list list \<Rightarrow> nat \<Rightarrow> nat \<Rightarrow> nat \<Rightarrow> template_struct \<Rightarrow> u16 \<Rightarrow> u16 \<Rightarrow> u16 \<Rightarrow> u16 \<Rightarrow> event list \<Rightarrow> event list" where
  "start_trace Ms u x d t iter Ts wid hei q =
     cmd CMD_STATE_RST 1 #
     rev (pixel_trace (unat hei) (unat wid) (upload_events Ms u x d (unat wid))) @
     rev (map (coeff_write t) template_regs) @
     [cmd CMD_ITER_CNT iter, cmd CMD_TS Ts, cmd CMD_CACHE_HEIGHT hei, cmd CMD_CACHE_WIDTH wid] @ q"

definition fetch_events :: "(u16 \<Rightarrow> u16) \<Rightarrow> nat \<Rightarrow> nat \<Rightarrow> nat \<Rightarrow> event list" where
  "fetch_events f w i j = [fetch_addr (u16_at w i j), fetch_data (f (u16_at w i j))]"

definition run_trace :: "(u16 \<Rightarrow> u16) \<Rightarrow> u16 \<Rightarrow> u16 \<Rightarrow> event list \<Rightarrow> event list" where
  "run_trace f wid hei q0 = rev (pixel_trace (unat hei) (unat wid) (fetch_events f (unat wid))) @
     ready_seen # cmd CMD_STATE_RST 0 # q0"

definition result_plane :: "(u16 \<Rightarrow> u16) \<Rightarrow> u16 \<Rightarrow> u16 \<Rightarrow> u16 list list" where
  "result_plane f wid hei = mat (unat hei) (unat wid) (\<lambda>i j. f (u16_at (unat wid) i j))"

lemma ucast_of_nat_16: "ucast (of_nat n :: u32) = (of_nat n :: u16)"
  by (intro bit_word_eqI) (simp add: bit_simps)

lemma pixel_address_at:
  assumes "i < 65536" "j < 65536"
  shows "pixel_address (alloc_state g (of_nat i) (of_nat j) d l) = u16_at (unat (img_width (image g))) i j"
proof -
  have "ucast (img_width (image g)) = (of_nat (unat (img_width (image g))) :: u32)"
    by (simp add: unsigned_ucast_eq word_unat_eq_iff)
  then have "pixel_address (alloc_state g (of_nat i) (of_nat j) d l)
      = ucast (of_nat (j + i * unat (img_width (image g))) :: u32)"
    by (simp add: pixel_address_def)
  also have "\<dots> = u16_at (unat (img_width (image g))) i j"
    by (simp only: u16_at_def ucast_of_nat_16)
  finally show ?thesis .
qed

lemma get_pixel_at:
  assumes "img_data (image g') = planes Ms" "gi g' = of_nat i" "gj g' = of_nat j"
    and "p < length Ms" "shaped h w (Ms ! p)" "i < h" "j < w" "h < 65536" "w < 65536"
  shows "get_pixel p g' = Inr (Ms ! p ! i ! j)"
  using assms img_get_planes [of p Ms i j] by (simp add: get_pixel_def shaped_def)

lemma exec_upload_pixel:
  assumes g: "g' = alloc_state g (of_nat i) (of_nat j) (planes Ms) l"
    and p: "unat loc < length Ms" "shaped h w (Ms ! unat loc)" "i < h" "j < w" "h < 65536" "w < 65536"
    and wr: "exec (wr (u16_at (unat (img_width (image g))) i j) (Ms ! unat loc ! i ! j)) g' q () g' q'"
  shows "exec (upload_pixel loc wr) g' q () g' q'"
proof -
  have "get_pixel (unat loc) g' = Inr (Ms ! unat loc ! i ! j)"
    by (rule get_pixel_at [of _ Ms i j _ h w]) (use p in \<open>simp_all add: g\<close>)
  moreover have "pixel_address g' = u16_at (unat (img_width (image g))) i j"
    using p unfolding g by (intro pixel_address_at) simp_all
  ultimately show ?thesis
    using wr unfolding upload_pixel_def by (auto intro: exec_bnd_gete)
qed

lemma exec_upload:
  fixes g :: globals and q
  defines "h \<equiv> unat (img_height (image g))" and "w \<equiv> unat (img_width (image g))"
  assumes ptr: "pointers_ok g" and data: "img_data (image g) = planes Ms"
    and locs: "unat u < length Ms" "unat x < length Ms" "unat d < length Ms"
    and shape: "\<And>M. M \<in> set Ms \<Longrightarrow> shaped h w M"
  shows "exec (for_pixels (block
        [upload_pixel u l2cache_u_write, upload_pixel x l2cache_x_write, upload_pixel d l2cache_ideal_write])) g q ()
    (alloc_state g (of_nat h) (if h = 0 then gj g else of_nat w) (planes Ms) (heap_live g))
    (rev (pixel_trace h w (upload_events Ms (unat u) (unat x) (unat d) w)) @ q)"
proof -
  have h16: "h < 65536" "w < 65536" by (simp_all add: h_def w_def)
  have sh: "shaped h w (Ms ! unat u)" "shaped h w (Ms ! unat x)" "shaped h w (Ms ! unat d)"
    using locs shape by simp_all
  show ?thesis
  proof (rule exec_for_pixels_traced [of g _ "\<lambda>_ _. planes Ms" "upload_events Ms (unat u) (unat x) (unat d) w" q,
        folded h_def w_def])
    fix i j assume ij: "i < h" "j < w"
    let ?g = "alloc_state g (of_nat i) (of_nat j) (planes Ms) (heap_live g)"
    have P: "pointers_ok ?g" using ptr by simp
    note px = exec_upload_pixel [OF refl _ _ ij h16]
    have 1: "exec (upload_pixel u l2cache_u_write) ?g q () ?g (rev (cache_store Cache_u (u16_at w i j) (Ms ! unat u ! i ! j)) @ q)" for q
      by (rule px [OF locs(1) sh(1)], fold w_def, rule exec_l2cache_write(1) [OF P])
    have 2: "exec (upload_pixel x l2cache_x_write) ?g q () ?g (rev (cache_store Cache_x (u16_at w i j) (Ms ! unat x ! i ! j)) @ q)" for q
      by (rule px [OF locs(2) sh(2)], fold w_def, rule exec_l2cache_write(2) [OF P])
    have 3: "exec (upload_pixel d l2cache_ideal_write) ?g q () ?g (rev (cache_store Cache_ideal (u16_at w i j) (Ms ! unat d ! i ! j)) @ q)" for q
      by (rule px [OF locs(3) sh(3)], fold w_def, rule exec_l2cache_write(3) [OF P])
    show "exec (block [upload_pixel u l2cache_u_write, upload_pixel x l2cache_x_write, upload_pixel d l2cache_ideal_write])
        ?g (traced h w (upload_events Ms (unat u) (unat x) (unat d) w) i j q) () ?g
        (rev (upload_events Ms (unat u) (unat x) (unat d) w i j) @ traced h w (upload_events Ms (unat u) (unat x) (unat d) w) i j q)"
      using exec_block_Cons [OF 1 exec_block_Cons [OF 2 exec_block_Cons [OF 3 exec_block_Nil]]]
      by (simp only: upload_events_def rev_append append_assoc)
  qed (simp_all add: data)
qed

lemma traced_shape:
  assumes "\<And>a b. set (ev a b) \<subseteq> S"
  obtains es where "traced h w ev i j q = es @ q" "set es \<subseteq> S"
proof
  show "traced h w ev i j q = rev (concat (take (i * w + j) (concat (mat h w ev)))) @ q"
    by (simp add: traced_def)
  have "set es \<subseteq> S" if "es \<in> set (take (i * w + j) (concat (mat h w ev)))" for es
  proof -
    have "es \<in> set (concat (mat h w ev))" using that by (rule in_set_takeD)
    then show ?thesis using assms by (auto simp: mat_def)
  qed
  then show "set (rev (concat (take (i * w + j) (concat (mat h w ev))))) \<subseteq> S" by auto
qed

text \<open>The state after a run that stores its result in plane \<open>x\<close>.\<close>

definition ran :: "u16 list list list \<Rightarrow> nat \<Rightarrow> (u16 \<Rightarrow> u16) \<Rightarrow> globals \<Rightarrow> globals" where
  "ran Ms x f g = (let h = unat (img_height (image g)); w = unat (img_width (image g)) in
     alloc_state g (of_nat h) (if h = 0 then gj g else of_nat w)
       (planes (Ms[x := result_plane f (img_width (image g)) (img_height (image g))])) (heap_live g))"

context cnn_env begin

lemma exec_l2cache_x_read:
  assumes ptr: "pointers_ok g" and es: "set es \<subseteq> range fetch_addr \<union> range fetch_data"
  shows "exec (l2cache_x_read wd a) g (es @ ready_seen # cmd CMD_STATE_RST 0 # q0) (net q0 a) g
    (fetch_data (net q0 a) # fetch_addr a # es @ ready_seen # cmd CMD_STATE_RST 0 # q0)"
proof -
  let ?q = "es @ ready_seen # cmd CMD_STATE_RST 0 # q0"
  have 1: "exec (reg_write W16 (R_address Cache_x) (ucast a)) g ?q () g (fetch_addr a # ?q)"
    by (rule exec_conv [OF exec_reg_write]) (use ptr in \<open>simp_all add: fetch_addr_def pointers_ok_def\<close>)
  have 2: "exec (reg_read wd W16 (R_data_out Cache_x)) g (fetch_addr a # ?q) (ucast (net q0 a)) g
      (Rd W16 (mpu_regs (mpu g) (R_data_out Cache_x)) (ucast (net q0 a)) # fetch_addr a # ?q)"
  proof (rule exec_reg_read)
    fix h assume "quiet h = fetch_addr a # ?q"
    from result [OF this es] show "clip W16 (bus_in wd h (mpu_regs (mpu g) (R_data_out Cache_x))) = ucast (net q0 a)"
      using ptr by (simp add: clip_W16 pointers_ok_def del: clip.simps)
  qed (use ptr in \<open>simp_all add: pointers_ok_def\<close>)
  show ?thesis unfolding l2cache_x_read_def
    by (rule exec_conv, rule exec_bnd [OF 1], rule exec_bnd [OF 2], rule exec_ret)
      (use ptr in \<open>simp_all add: fetch_data_def pointers_ok_def\<close>)
qed

lemma exec_fetch:
  fixes g :: globals and q0
  defines "h \<equiv> unat (img_height (image g))" and "w \<equiv> unat (img_width (image g))"
  assumes ptr: "pointers_ok g" and data: "img_data (image g) = planes Ms"
    and x: "unat x < length Ms" and shape: "shaped h w (Ms ! unat x)"
  shows "exec (for_pixels (bnd (getg pixel_address) (\<lambda>a. bnd (l2cache_x_read wd a) (\<lambda>v. mode (set_pixel (unat x) v)))))
    g (ready_seen # cmd CMD_STATE_RST 0 # q0) () (ran Ms (unat x) (net q0) g)
    (run_trace (net q0) (img_width (image g)) (img_height (image g)) q0)"
proof -
  let ?f = "net q0" and ?x = "unat x" and ?q = "ready_seen # cmd CMD_STATE_RST 0 # q0"
  let ?ev = "fetch_events ?f w"
  define Mt where "Mt i j = mat h w (\<lambda>a b. if a < i \<or> a = i \<and> b < j then ?f (u16_at w a b) else Ms ! ?x ! a ! b)" for i j
  define D where "D i j = planes (Ms[?x := Mt i j])" for i j
  have h16: "h < 65536" "w < 65536" by (simp_all add: h_def w_def)
  have "Mt 0 0 = Ms ! ?x" using shaped_eq_mat [OF shape] by (simp add: Mt_def)
  then have start: "D 0 0 = img_data (image g)" by (simp add: D_def data)
  have wrap: "D i w = D (Suc i) 0" for i
    unfolding D_def Mt_def by (intro arg_cong [where f = "\<lambda>M. planes (Ms[?x := M])"] mat_cong) auto
  let ?b = "bnd (getg pixel_address) (\<lambda>a. bnd (l2cache_x_read wd a) (\<lambda>v. mode (set_pixel ?x v)))"
  let ?st = "\<lambda>i j d. alloc_state g (of_nat i) (of_nat j) d (heap_live g)"
  have body: "exec ?b (?st i j (D i j)) (traced h w ?ev i j ?q) () (?st i j (D i (Suc j)))
      (rev (?ev i j) @ traced h w ?ev i j ?q)" if ij: "i < h" "j < w" for i j
  proof -
    obtain es where es: "traced h w ?ev i j ?q = es @ ?q" "set es \<subseteq> range fetch_addr \<union> range fetch_data"
      by (rule traced_shape [of ?ev "range fetch_addr \<union> range fetch_data"]) (auto simp: fetch_events_def)
    have addr: "pixel_address (?st i j (D i j)) = u16_at w i j"
      using pixel_address_at [of i j g] ij h16 by (simp add: w_def)
    have "Mt i (Suc j) = (Mt i j)[i := (Mt i j ! i)[j := ?f (u16_at w i j)]]"
      using ij by (auto simp: Mt_def mat_update less_Suc_eq simp del: nth_mat intro!: mat_cong)
    moreover have "img_set (planes (Ms[?x := Mt i j])) ?x i j v
        = Inr (planes (Ms[?x := (Mt i j)[i := (Mt i j ! i)[j := v]]]))" for v
      using img_set_planes [of ?x "Ms[?x := Mt i j]" i j v] x ij by (simp add: Mt_def)
    ultimately have set: "set_pixel ?x (?f (u16_at w i j)) (?st i j (D i j)) = Inr (?st i j (D i (Suc j)))"
      using ij h16 by (simp add: set_pixel_def D_def)
    have "exec (l2cache_x_read wd (u16_at w i j)) (?st i j (D i j)) (es @ ?q) (?f (u16_at w i j)) (?st i j (D i j))
        (rev (?ev i j) @ es @ ?q)"
      using exec_l2cache_x_read [OF _ es(2), of "?st i j (D i j)" "u16_at w i j" q0] ptr
      by (simp add: fetch_events_def)
    then show ?thesis unfolding exec_bnd_getg addr es(1)
      by (rule exec_bnd) (rule exec_mode [of "set_pixel ?x (?f (u16_at w i j))", OF set])
  qed
  have "exec (for_pixels ?b) g ?q ()
      (alloc_state g (of_nat h) (if h = 0 then gj g else of_nat w) (D h 0) (heap_live g)) (rev (pixel_trace h w ?ev) @ ?q)"
    using exec_for_pixels_traced [of g ?b D ?ev ?q, folded h_def w_def] body wrap start by blast
  moreover have "D h 0 = planes (Ms[?x := result_plane ?f (img_width (image g)) (img_height (image g))])"
    unfolding D_def Mt_def result_plane_def h_def [symmetric] w_def [symmetric]
    by (intro arg_cong [where f = "\<lambda>M. planes (Ms[?x := M])"] mat_cong) auto
  ultimately show ?thesis by (simp add: ran_def Let_def run_trace_def h_def [symmetric] w_def [symmetric])
qed

lemma exec_cnn_driver:
  fixes g :: globals and q and iter Ts :: u16
  defines "wid \<equiv> img_width (image g)" and "hei \<equiv> img_height (image g)"
  assumes ptr: "pointers_ok g" and data: "img_data (image g) = planes Ms"
    and locs: "unat u < length Ms" "unat x < length Ms" "unat d < length Ms"
    and shape: "\<And>M. M \<in> set Ms \<Longrightarrow> shaped (unat hei) (unat wid) M"
    and no: "unat no < length (templates g)" and wf: "wf_template (templates g ! unat no)"
  defines "q0 \<equiv> start_trace Ms (unat u) (unat x) (unat d) (templates g ! unat no) iter Ts wid hei q"
  shows "exec (cnn_driver wd u x d no iter Ts) g q () (ran Ms (unat x) (net q0) g) (run_trace (net q0) wid hei q0)"
proof -
  let ?t = "templates g ! unat no" and ?h = "unat hei" and ?w = "unat wid"
  let ?c = "[cmd CMD_ITER_CNT iter, cmd CMD_TS Ts, cmd CMD_CACHE_HEIGHT hei, cmd CMD_CACHE_WIDTH wid] @ q"
  let ?g = "alloc_state g (of_nat ?h) (if ?h = 0 then gj g else of_nat ?w) (planes Ms) (heap_live g)"
  have P: "pointers_ok ?g" using ptr by simp
  have a: "exec (bnd (getg (\<lambda>g. img_width (image g))) (\<lambda>v. command CMD_CACHE_WIDTH v)) g q () g (cmd CMD_CACHE_WIDTH wid # q)" for q
    unfolding exec_bnd_getg wid_def by (rule exec_command [OF ptr])
  have b: "exec (bnd (getg (\<lambda>g. img_height (image g))) (\<lambda>v. command CMD_CACHE_HEIGHT v)) g q () g (cmd CMD_CACHE_HEIGHT hei # q)" for q
    unfolding exec_bnd_getg hei_def by (rule exec_command [OF ptr])
  note c = exec_command [OF ptr] and c' = exec_command [OF P]
  note t = exec_template_set [OF ptr no refl wf]
  note up = exec_upload [OF ptr data locs shape [unfolded hei_def wid_def], folded hei_def wid_def]
  have start: "exec (command CMD_STATE_RST (push_bit 1 0 OR 0)) ?g q () ?g (cmd CMD_STATE_RST 0 # q)" for q
  proof -
    have "(push_bit 1 0 OR 0 :: u16) = 0" by simp
    then show ?thesis using c' [of CMD_STATE_RST 0 q] by (simp only:)
  qed
  have f: "exec (for_pixels (bnd (getg pixel_address) (\<lambda>a. bnd (l2cache_x_read wd a) (\<lambda>v. mode (set_pixel (unat x) v)))))
    ?g (ready_seen # cmd CMD_STATE_RST 0 # q0) () (ran Ms (unat x) (net q0) g) (run_trace (net q0) wid hei q0)"
    by (rule exec_conv [OF exec_fetch [of ?g Ms x]])
      (use P locs shape in \<open>simp_all add: ran_def Let_def hei_def wid_def\<close>)
  show ?thesis unfolding cnn_driver_def
    apply (rule exec_block_Cons [OF a], rule exec_block_Cons [OF b], rule exec_block_Cons [OF c])
    apply (rule exec_block_Cons [OF c])
    apply (rule exec_block_Cons [OF t])
    apply (rule exec_block_Cons [OF up], assumption)
    apply (rule exec_block_Cons [OF c'])
    apply (rule exec_block_Cons [OF start])
    apply (rule exec_block_Cons [OF exec_wait_ready [OF P]])
    apply (rule exec_block_Cons [OF _ exec_block_Nil])
    apply (use f in \<open>simp add: q0_def start_trace_def\<close>)
    done
qed

end

end
