(* ===== verification/Cnn_Algorithm.thy ===== *)
theory Cnn_Algorithm
  imports Driver
begin

text \<open>
  The algorithms the host can start, \<open>mpu_sw/src/cnn/cnn_algorithm.c\<close>, and what they compute over the
  contract of the CNN processor: one run, a pipeline of four runs, and the learning loops.
\<close>

definition algorithm1 :: "world \<Rightarrow> (globals, unit) fw" where
  "algorithm1 wd = block
     [uart_write wd 2,
      bnd (getg cnn) (\<lambda>c. cnn_driver wd 0 1 2 (cnn_template_no c) (cnn_iter_cnt c) (cnn_Ts c)),
      uart_write wd 2]"

text \<open>\<open>0.1*busFMax\<close> and \<open>1*busFMax\<close>, truncated to the 16-bit parameter.\<close>

definition Ts_tenth :: u16 where "Ts_tenth = word_of_int \<lfloor>(1 / 10 :: rat) * of_int busFMax\<rfloor>"
definition Ts_one :: u16 where "Ts_one = word_of_int busFMax"

definition algorithm2 :: "world \<Rightarrow> (globals, unit) fw" where
  "algorithm2 wd = block
     [uart_write wd 2,
      image_fill 1 0,
      cnn_driver wd 0 1 2 2 100 Ts_tenth,
      image_fill 3 0,
      cnn_driver wd 1 3 2 12 1 Ts_one,
      image_fill 4 0,
      cnn_driver wd 3 4 2 8 1 Ts_one,
      cnn_driver wd 4 1 2 4 1 Ts_one,
      uart_write wd 2]"

definition learning :: "(globals, unit) fw list \<Rightarrow> (globals, unit) fw" where
  "learning body = for_k (\<lambda>g. gk g < ucast (cnn_learn_loop (cnn g))) (block body)"

definition learn_driver :: "world \<Rightarrow> u16 \<Rightarrow> (globals, unit) fw" where
  "learn_driver wd template_no = bnd (getg cnn) (\<lambda>c. cnn_driver wd 0 1 2 template_no (cnn_iter_cnt c) (cnn_Ts c))"

definition algorithm3 :: "world \<Rightarrow> (globals, unit) fw" where
  "algorithm3 wd = block
     [uart_write wd 2,
      template_create 1,
      learning [learn_driver wd 1, error_get wd, template_update_1d 1],
      uart_write wd 2]"

definition algorithm4 :: "world \<Rightarrow> (globals, unit) fw" where
  "algorithm4 wd = block
     [uart_write wd 2,
      template_create 1,
      template_create 2,
      learning [learn_driver wd 1, error_get wd, template_update_1d 1,
                learn_driver wd 2, template_update_1d 2],
      uart_write wd 2]"

definition algorithm5 :: "world \<Rightarrow> (globals, unit) fw" where
  "algorithm5 wd = block
     [uart_write wd 2,
      template_create 1,
      learning [learn_driver wd 1, error_get wd, template_update_2d wd 1],
      uart_write wd 2]"

definition algorithm_run :: "world \<Rightarrow> (globals, unit) fw" where
  "algorithm_run wd = bnd (uart_read wd) (\<lambda>cmd.
     if cmd = 1 then algorithm1 wd
     else if cmd = 2 then algorithm2 wd
     else if cmd = 3 then algorithm3 wd
     else if cmd = 4 then algorithm4 wd
     else if cmd = 5 then algorithm5 wd
     else ret ())"

section \<open>States in which the network can run\<close>

definition planes_of :: "stack_ptr \<Rightarrow> u16 list list list" where
  "planes_of s = (case s of None \<Rightarrow> [] | Some ps \<Rightarrow> map (\<lambda>pl. map the (the pl)) ps)"

lemma planes_of_planes [simp]: "planes_of (planes Ms) = Ms"
  by (simp add: planes_of_def planes_def comp_def)

definition runnable :: "globals \<Rightarrow> bool" where
  "runnable g \<longleftrightarrow> pointers_ok g
     \<and> (\<exists>Ms. img_data (image g) = planes Ms \<and> length Ms = 20
          \<and> (\<forall>M \<in> set Ms. shaped (unat (img_height (image g))) (unat (img_width (image g))) M))
     \<and> length (templates g) = 15 \<and> (\<forall>t \<in> set (templates g). wf_template t) \<and> wf_errors g"

lemma runnableD:
  assumes "runnable g"
  shows "pointers_ok g" "img_data (image g) = planes (planes_of (img_data (image g)))"
    "length (planes_of (img_data (image g))) = 20"
    "M \<in> set (planes_of (img_data (image g))) \<Longrightarrow> shaped (unat (img_height (image g))) (unat (img_width (image g))) M"
    "length (templates g) = 15" "n < 15 \<Longrightarrow> wf_template (templates g ! n)" "wf_errors g"
  using assms by (auto simp: runnable_def)

lemma wf_template_mats [simp]: "wf_template (learned R e t)" "wf_template zero_template"
  by (simp_all add: wf_template_def learned_def learn_rows_def learn_bias_def zero_template_def zero_patch_def)

text \<open>The run of the network from planes \<open>u\<close>, \<open>x\<close>, \<open>d\<close>: the accesses up to the start, and the state after.\<close>

definition start_of :: "nat \<Rightarrow> nat \<Rightarrow> nat \<Rightarrow> u16 \<Rightarrow> u16 \<Rightarrow> u16 \<Rightarrow> globals \<Rightarrow> event list \<Rightarrow> event list" where
  "start_of u x d no iter Ts g q = start_trace (planes_of (img_data (image g))) u x d (templates g ! unat no) iter Ts
     (img_width (image g)) (img_height (image g)) q"

definition run_state :: "nat \<Rightarrow> (u16 \<Rightarrow> u16) \<Rightarrow> globals \<Rightarrow> globals" where
  "run_state x f g = ran (planes_of (img_data (image g))) x f g"

lemma run_state_simps [simp]:
  "image (run_state x f g) = (image g)\<lparr>img_data := planes ((planes_of (img_data (image g)))
     [x := result_plane f (img_width (image g)) (img_height (image g))])\<rparr>"
  "templates (run_state x f g) = templates g" "errors (run_state x f g) = errors g" "cnn (run_state x f g) = cnn g"
  "mpu (run_state x f g) = mpu g" "heap_live (run_state x f g) = heap_live g" "gk (run_state x f g) = gk g"
  "pointers_ok (run_state x f g) = pointers_ok g"
  by (simp_all add: run_state_def ran_def Let_def alloc_state_def pointers_ok_def)

lemma runnable_run_state [simp]: "runnable g \<Longrightarrow> runnable (run_state x f g)"
proof -
  assume g: "runnable g"
  let ?Ms = "planes_of (img_data (image g))"
  let ?P = "result_plane f (img_width (image g)) (img_height (image g))"
  have "shaped (unat (img_height (image g))) (unat (img_width (image g))) M" if "M \<in> set (?Ms[x := ?P])" for M
    using that runnableD(4) [OF g] set_update_subset_insert [of ?Ms x ?P]
    by (auto simp: result_plane_def)
  then show ?thesis using runnableD [OF g] g by (auto simp: runnable_def wf_errors_def)
qed

lemma runnable_updates [simp]:
  "runnable (set_k v g) = runnable g" "runnable (at_ij i j g) = runnable g"
  "runnable (set_template_var x g) = runnable g"
  by (simp_all add: runnable_def set_k_def at_ij_def set_i_def set_j_def set_template_var_def wf_errors_def pointers_ok_def)

lemma runnable_with_template [simp]: "runnable g \<Longrightarrow> wf_template t \<Longrightarrow> runnable (with_template no t g)"
  using set_update_subset_insert [of "templates g" "unat no" t]
  by (auto simp: runnable_def with_template_def wf_errors_def pointers_ok_def)

lemma runnable_fetched [simp]: "runnable g \<Longrightarrow> runnable (fetched raw g)"
  by (simp add: runnable_def fetched_def wf_errors_def)

lemma runnable_updated [simp]: "runnable g \<Longrightarrow> runnable (updated R no g)" "runnable g \<Longrightarrow> runnable (created no g)"
  by (simp_all add: updated_def Let_def created_def)

section \<open>Filling a plane\<close>

definition filled :: "nat \<Rightarrow> u16 \<Rightarrow> globals \<Rightarrow> globals" where
  "filled p v g = (let h = unat (img_height (image g)); w = unat (img_width (image g)) in
     alloc_state g (of_nat h) (if h = 0 then gj g else of_nat w)
       (planes ((planes_of (img_data (image g)))[p := mat h w (\<lambda>_ _. v)])) (heap_live g))"

lemma runnable_filled [simp]: "runnable g \<Longrightarrow> runnable (filled p v g)"
proof -
  assume g: "runnable g"
  let ?Ms = "planes_of (img_data (image g))" and ?h = "unat (img_height (image g))" and ?w = "unat (img_width (image g))"
  have "shaped ?h ?w M" if "M \<in> set (?Ms[p := mat ?h ?w (\<lambda>_ _. v)])" for M
    using that runnableD(4) [OF g] set_update_subset_insert [of ?Ms p "mat ?h ?w (\<lambda>_ _. v)"] by auto
  then show ?thesis using runnableD [OF g] g by (auto simp: runnable_def wf_errors_def filled_def Let_def)
qed

lemma exec_image_fill:
  assumes g: "runnable g" and p: "unat p < 20" and v: "float_to_fixed x = Inr v"
  shows "exec (image_fill p x) g q () (filled (unat p) v g) q"
proof -
  define h where "h = unat (img_height (image g))"
  define w where "w = unat (img_width (image g))"
  define Ms where "Ms = planes_of (img_data (image g))"
  have data: "img_data (image g) = planes Ms" and len: "length Ms = 20"
    and sh: "shaped h w (Ms ! unat p)"
    using runnableD(2-4) [OF g] p by (auto simp: Ms_def h_def w_def)
  define Mt where "Mt i j = mat h w (\<lambda>a b. if a < i \<or> a = i \<and> b < j then v else Ms ! unat p ! a ! b)" for i j
  define D where "D i j = planes (Ms[unat p := Mt i j])" for i j
  have h16: "h < 65536" "w < 65536" by (simp_all add: h_def w_def)
  have "Mt 0 0 = Ms ! unat p" using shaped_eq_mat [OF sh] by (simp add: Mt_def)
  then have start: "D 0 0 = img_data (image g)" by (simp add: D_def data)
  have wrap: "D i w = D (Suc i) 0" for i
    unfolding D_def Mt_def by (intro arg_cong [where f = "\<lambda>M. planes (Ms[unat p := M])"] mat_cong) auto
  let ?b = "bnd (gete (\<lambda>_. float_to_fixed x)) (\<lambda>v. mode (set_pixel (unat p) v))"
  let ?st = "\<lambda>i j d. alloc_state g (of_nat i) (of_nat j) d (heap_live g)"
  have body: "exec ?b (?st i j (D i j)) q () (?st i j (D i (Suc j))) q" if ij: "i < h" "j < w" for i j
  proof -
    have "Mt i (Suc j) = (Mt i j)[i := (Mt i j ! i)[j := v]]"
      using ij by (auto simp: Mt_def mat_update less_Suc_eq simp del: nth_mat intro!: mat_cong)
    moreover have "img_set (planes (Ms[unat p := Mt i j])) (unat p) i j v
        = Inr (planes (Ms[unat p := (Mt i j)[i := (Mt i j ! i)[j := v]]]))"
      using img_set_planes [of "unat p" "Ms[unat p := Mt i j]" i j v] p len ij by (simp add: Mt_def)
    ultimately have "set_pixel (unat p) v (?st i j (D i j)) = Inr (?st i j (D i (Suc j)))"
      using ij h16 by (simp add: set_pixel_def D_def)
    then have "exec (mode (set_pixel (unat p) v)) (?st i j (D i j)) q () (?st i j (D i (Suc j))) q"
      by (rule exec_mode)
    then show ?thesis by (intro exec_bnd_gete [of "\<lambda>_. float_to_fixed x"]) (rule v)
  qed
  have "exec (for_pixels ?b) g q ()
      (alloc_state g (of_nat h) (if h = 0 then gj g else of_nat w) (D h 0) (heap_live g)) q"
    using exec_for_pixels [of g ?b D "\<lambda>_ _. q" q, folded h_def w_def] body wrap start by blast
  moreover have "D h 0 = planes (Ms[unat p := mat h w (\<lambda>_ _. v)])"
    unfolding D_def Mt_def by (intro arg_cong [where f = "\<lambda>M. planes (Ms[unat p := M])"] mat_cong) auto
  ultimately show ?thesis
    by (simp add: image_fill_def filled_def Let_def h_def [symmetric] w_def [symmetric] Ms_def [symmetric])
qed

section \<open>Runs and learning epochs\<close>

definition driven ::
  "(event list \<Rightarrow> u16 \<Rightarrow> u16) \<Rightarrow> u16 \<Rightarrow> nat \<Rightarrow> nat \<Rightarrow> nat \<Rightarrow> u16 \<Rightarrow> u16 \<Rightarrow> globals \<times> event list \<Rightarrow> globals \<times> event list" where
  "driven net no u x d iter Ts s = (let q0 = start_of u x d no iter Ts (fst s) (snd s) in
     (run_state x (net q0) (fst s),
      run_trace (net q0) (img_width (image (fst s))) (img_height (image (fst s))) q0))"

text \<open>One run of a learning loop, and the run followed by the fetch of the errors it leaves.\<close>

definition learn_start :: "u16 \<Rightarrow> globals \<times> event list \<Rightarrow> event list" where
  "learn_start no s = start_of 0 1 2 no (cnn_iter_cnt (cnn (fst s))) (cnn_Ts (cnn (fst s))) (fst s) (snd s)"

definition learn_run :: "(event list \<Rightarrow> u16 \<Rightarrow> u16) \<Rightarrow> u16 \<Rightarrow> globals \<times> event list \<Rightarrow> globals \<times> event list" where
  "learn_run net no s = driven net no 0 1 2 (cnn_iter_cnt (cnn (fst s))) (cnn_Ts (cnn (fst s))) s"

definition fetch :: "(mpu_reg \<Rightarrow> u32) \<Rightarrow> globals \<times> event list \<Rightarrow> globals \<times> event list" where
  "fetch raw s = (fetched raw (fst s), rev (map (error_read raw) error_regs) @ snd s)"

definition on_globals :: "(globals \<Rightarrow> globals) \<Rightarrow> globals \<times> event list \<Rightarrow> globals \<times> event list" where
  "on_globals f s = (f (fst s), snd s)"

definition next_k :: "globals \<times> event list \<Rightarrow> globals \<times> event list" where
  "next_k = on_globals (\<lambda>g. set_k (gk g + 1) g)"

text \<open>One turn of the loops of \<open>algorithm3\<close>, \<open>algorithm4\<close> and \<open>algorithm5\<close>.\<close>

definition epoch_1d ::
  "(event list \<Rightarrow> u16 \<Rightarrow> u16) \<Rightarrow> (event list \<Rightarrow> mpu_reg \<Rightarrow> u32) \<Rightarrow> globals \<times> event list \<Rightarrow> globals \<times> event list" where
  "epoch_1d net err s =
     on_globals (updated (\<lambda>i. i = 1) 1) (fetch (err (learn_start 1 s)) (learn_run net 1 s))"

definition epoch_multi ::
  "(event list \<Rightarrow> u16 \<Rightarrow> u16) \<Rightarrow> (event list \<Rightarrow> mpu_reg \<Rightarrow> u32) \<Rightarrow> globals \<times> event list \<Rightarrow> globals \<times> event list" where
  "epoch_multi net err s = on_globals (updated (\<lambda>i. i = 1) 2) (learn_run net 2 (epoch_1d net err s))"

definition epoch_2d ::
  "(event list \<Rightarrow> u16 \<Rightarrow> u16) \<Rightarrow> (event list \<Rightarrow> mpu_reg \<Rightarrow> u32) \<Rightarrow> globals \<times> event list \<Rightarrow> globals \<times> event list" where
  "epoch_2d net err s = (let raw = err (learn_start 1 s) in
     on_globals (updated (\<lambda>_. True) 1) (fetch raw (fetch raw (learn_run net 1 s))))"

definition epochs ::
  "(globals \<times> event list \<Rightarrow> globals \<times> event list) \<Rightarrow> globals \<Rightarrow> event list \<Rightarrow> globals \<times> event list" where
  "epochs ep g q = ((next_k \<circ> ep) ^^ unat (cnn_learn_loop (cnn g))) (set_k 0 g, q)"

abbreviation exec_to :: "(globals, unit) fw \<Rightarrow> globals \<times> event list \<Rightarrow> globals \<times> event list \<Rightarrow> bool" where
  "exec_to m s s' \<equiv> exec m (fst s) (snd s) () (fst s') (snd s')"

lemma exec_learning:
  assumes ep: "\<And>s. I (fst s) \<Longrightarrow> exec_to (block body) s (ep s)"
    and I: "\<And>s. I (fst s) \<Longrightarrow> I (fst (ep s)) \<and> gk (fst (ep s)) = gk (fst s) \<and> cnn (fst (ep s)) = cnn (fst s)"
    and Ik: "\<And>v g. I g \<Longrightarrow> I (set_k v g)" and g: "I g"
  shows "exec_to (learning body) (g, q) (epochs ep g q)"
proof -
  let ?n = "unat (cnn_learn_loop (cnn g))"
  define S where "S k = ((next_k \<circ> ep) ^^ k) (set_k 0 g, q)" for k
  have n: "?n < 65536" by simp
  have S: "I (fst (S k)) \<and> gk (fst (S k)) = of_nat k \<and> cnn (fst (S k)) = cnn g" for k
  proof (induction k)
    case (Suc k)
    have "S (Suc k) = next_k (ep (S k))" by (simp add: S_def)
    then show ?case using Suc I [of "S k"] Ik by (simp add: next_k_def on_globals_def)
  qed (simp add: S_def g Ik)
  have "exec (learning body) g q () (fst (S ?n)) (snd (S ?n))"
    unfolding learning_def
  proof (rule exec_for_k [where n = ?n and G = "\<lambda>k. fst (S k)" and Q = "\<lambda>k. snd (S k)" and B = "\<lambda>k. fst (ep (S k))"])
    fix k assume k: "k < ?n"
    have "S (Suc k) = next_k (ep (S k))" by (simp add: S_def)
    then show "gk (fst (S k)) < ucast (cnn_learn_loop (cnn (fst (S k)))) \<and>
        exec (block body) (fst (S k)) (snd (S k)) () (fst (ep (S k))) (snd (S (Suc k))) \<and>
        fst (S (Suc k)) = set_k (gk (fst (ep (S k))) + 1) (fst (ep (S k)))"
      using S [of k] ep [of "S k"] k less_trans [OF k n] by (simp add: counter_less next_k_def on_globals_def)
  qed (use S [of ?n] n in \<open>simp_all add: counter_less S_def\<close>)
  then show ?thesis by (simp add: epochs_def S_def)
qed

lemma learn_run_keeps [simp]:
  "runnable (fst s) \<Longrightarrow> runnable (fst (learn_run net no s))"
  "img_shift (image (fst (learn_run net no s))) = img_shift (image (fst s))"
  "gk (fst (learn_run net no s)) = gk (fst s)" "cnn (fst (learn_run net no s)) = cnn (fst s)"
  "templates (fst (learn_run net no s)) = templates (fst s)" "errors (fst (learn_run net no s)) = errors (fst s)"
  by (simp_all add: learn_run_def driven_def Let_def)

lemma fetch_keeps [simp]:
  "runnable (fst s) \<Longrightarrow> runnable (fst (fetch raw s))"
  "img_shift (image (fst (fetch raw s))) = img_shift (image (fst s))"
  "gk (fst (fetch raw s)) = gk (fst s)" "cnn (fst (fetch raw s)) = cnn (fst s)"
  "templates (fst (fetch raw s)) = templates (fst s)"
  by (simp_all add: fetch_def) (simp_all add: fetched_def)

lemma updated_keeps [simp]:
  "img_shift (image (updated R no g)) = img_shift (image g)"
  "gk (updated R no g) = gk g" "cnn (updated R no g) = cnn g" "errors (updated R no g) = errors g"
  by (simp_all add: updated_def Let_def)

definition learner :: "globals \<Rightarrow> bool" where
  "learner g \<longleftrightarrow> runnable g \<and> img_shift (image g) \<noteq> 0"

lemma epoch_1d_keeps:
  "learner (fst s) \<Longrightarrow> learner (fst (epoch_1d net err s)) \<and> gk (fst (epoch_1d net err s)) = gk (fst s)
     \<and> cnn (fst (epoch_1d net err s)) = cnn (fst s)"
  by (simp add: learner_def epoch_1d_def on_globals_def)

lemma epoch_multi_keeps:
  "learner (fst s) \<Longrightarrow> learner (fst (epoch_multi net err s)) \<and> gk (fst (epoch_multi net err s)) = gk (fst s)
     \<and> cnn (fst (epoch_multi net err s)) = cnn (fst s)"
  using epoch_1d_keeps [of s] by (simp add: learner_def epoch_multi_def on_globals_def)

lemma epoch_2d_keeps:
  "learner (fst s) \<Longrightarrow> learner (fst (epoch_2d net err s)) \<and> gk (fst (epoch_2d net err s)) = gk (fst s)
     \<and> cnn (fst (epoch_2d net err s)) = cnn (fst s)"
  by (simp add: learner_def epoch_2d_def on_globals_def Let_def)

lemma learner_created: "learner g \<Longrightarrow> learner (created no g)" "learner g \<Longrightarrow> learner (set_k v g)"
  by (simp_all add: learner_def) (simp_all add: created_def)

lemma exec_create_runnable:
  assumes g: "runnable g" and no: "unat no < 15"
  shows "exec (template_create no) g q () (created no g) q"
  using exec_template_create [of no g q] runnableD [OF g] no by simp

lemma epochs_learner:
  assumes "learner g" and ep: "\<And>s. learner (fst s) \<Longrightarrow> learner (fst (ep s))"
  shows "learner (fst (epochs ep g q))"
proof -
  have "learner (fst (((next_k \<circ> ep) ^^ n) (set_k 0 g, q)))" for n
    by (induction n) (use assms learner_created in \<open>simp_all add: next_k_def on_globals_def\<close>)
  then show ?thesis by (simp add: epochs_def)
qed

context cnn_env begin

lemma exec_driven:
  assumes g: "runnable g" and locs: "unat u < 20" "unat x < 20" "unat d < 20" and no: "unat no < 15"
  shows "exec (cnn_driver wd u x d no iter Ts) g q ()
    (fst (driven net no (unat u) (unat x) (unat d) iter Ts (g, q))) (snd (driven net no (unat u) (unat x) (unat d) iter Ts (g, q)))"
  using exec_cnn_driver [OF runnableD(1,2) [OF g], of u x d no iter Ts q] runnableD [OF g] locs no
  by (simp add: driven_def start_of_def run_state_def Let_def)

lemma exec_learn_driver:
  assumes g: "runnable (fst s)" and no: "unat no < 15"
  shows "exec_to (learn_driver wd no) s (learn_run net no s)"
  unfolding learn_driver_def exec_bnd_getg learn_run_def
  using exec_driven [OF g, of 0 1 2 no _ _ "snd s"] no by simp

end

locale learn_env = cnn_env wd inp net
  for wd :: world and inp :: "u8 list" and net :: "event list \<Rightarrow> u16 \<Rightarrow> u16" +
  fixes err :: "event list \<Rightarrow> mpu_reg \<Rightarrow> u32"
  assumes errors: "holds_errors wd (run_trace (net q0) wid hei q0) (err q0)"
begin

lemma exec_fetch_errors:
  assumes g: "runnable g" and nz: "img_shift (image g) \<noteq> 0"
    and hold: "holds_errors wd q raw"
  shows "exec (error_get wd) g q () (fst (fetch raw (g, q))) (snd (fetch raw (g, q)))"
  using exec_error_get [OF runnableD(1) [OF g] hold nz runnableD(7) [OF g]] by (simp add: fetch_def)

lemma learn_run_holds: "holds_errors wd (snd (learn_run net no s)) (err (learn_start no s))"
  using errors by (simp add: learn_run_def driven_def learn_start_def Let_def)

lemma exec_update_runnable:
  assumes g: "runnable g" and no: "unat no < 15"
  shows "exec (template_update_1d no) g q () (updated (\<lambda>i. i = 1) no g) q"
  using exec_update_1d [of no g q] runnableD [OF g] no by simp

lemma exec_epoch_1d:
  assumes g: "learner (fst s)"
  shows "exec_to (block [learn_driver wd 1, error_get wd, template_update_1d 1]) s (epoch_1d net err s)"
proof -
  let ?s = "learn_run net 1 s" and ?raw = "err (learn_start 1 s)"
  have r: "runnable (fst s)" "img_shift (image (fst s)) \<noteq> 0" using g by (simp_all add: learner_def)
  have 1: "exec_to (learn_driver wd 1) s ?s" by (rule exec_learn_driver) (simp_all add: r)
  have 2: "exec (error_get wd) (fst ?s) (snd ?s) () (fst (fetch ?raw ?s)) (snd (fetch ?raw ?s))"
    using exec_fetch_errors [OF _ _ learn_run_holds [of 1 s], of "fst ?s"] r by simp
  have 3: "exec (template_update_1d 1) (fst (fetch ?raw ?s)) (snd (fetch ?raw ?s)) ()
      (updated (\<lambda>i. i = 1) 1 (fst (fetch ?raw ?s))) (snd (fetch ?raw ?s))"
    by (rule exec_update_runnable) (simp_all add: r)
  from exec_block_Cons [OF 1 exec_block_Cons [OF 2 exec_block_Cons [OF 3 exec_block_Nil]]]
  show ?thesis by (simp only: epoch_1d_def on_globals_def fst_conv snd_conv)
qed

lemma exec_epoch_multi:
  assumes g: "learner (fst s)"
  shows "exec_to (block [learn_driver wd 1, error_get wd, template_update_1d 1, learn_driver wd 2, template_update_1d 2])
    s (epoch_multi net err s)"
proof -
  let ?s = "epoch_1d net err s"
  have r: "runnable (fst ?s)" using epoch_1d_keeps [OF g] by (simp add: learner_def)
  have 1: "exec_to (learn_driver wd 2) ?s (learn_run net 2 ?s)" by (rule exec_learn_driver) (simp_all add: r)
  have 2: "exec (template_update_1d 2) (fst (learn_run net 2 ?s)) (snd (learn_run net 2 ?s)) ()
      (updated (\<lambda>i. i = 1) 2 (fst (learn_run net 2 ?s))) (snd (learn_run net 2 ?s))"
    by (rule exec_update_runnable) (simp_all add: r)
  from exec_block_append [OF exec_epoch_1d [OF g] exec_block_Cons [OF 1 exec_block_Cons [OF 2 exec_block_Nil]]]
  show ?thesis by (simp only: epoch_multi_def on_globals_def fst_conv snd_conv append.simps)
qed

lemma exec_epoch_2d:
  assumes g: "learner (fst s)"
  shows "exec_to (block [learn_driver wd 1, error_get wd, template_update_2d wd 1]) s (epoch_2d net err s)"
proof -
  let ?s = "learn_run net 1 s" and ?raw = "err (learn_start 1 s)"
  let ?f = "fetch ?raw ?s"
  have r: "runnable (fst s)" "img_shift (image (fst s)) \<noteq> 0" using g by (simp_all add: learner_def)
  have 1: "exec_to (learn_driver wd 1) s ?s" by (rule exec_learn_driver) (simp_all add: r)
  have 2: "exec (error_get wd) (fst ?s) (snd ?s) () (fst ?f) (snd ?f)"
    using exec_fetch_errors [OF _ _ learn_run_holds [of 1 s], of "fst ?s"] r by simp
  have hold: "holds_errors wd (snd ?f) ?raw"
    unfolding fetch_def snd_conv by (rule holds_errors_run [OF order_refl learn_run_holds])
  have f: "runnable (fst ?f)" using r by simp
  have 3: "exec (template_update_2d wd 1) (fst ?f) (snd ?f) ()
      (updated (\<lambda>_. True) 1 (fst (fetch ?raw ?f))) (snd (fetch ?raw ?f))"
    by (rule exec_conv [OF exec_update_2d [OF runnableD(1) [OF f] hold _ _ _ runnableD(7) [OF f]]])
      (use r runnableD(5,6) [OF f] in \<open>simp_all add: fetch_def [of _ ?f]\<close>)
  from exec_block_Cons [OF 1 exec_block_Cons [OF 2 exec_block_Cons [OF 3 exec_block_Nil]]]
  show ?thesis by (simp only: epoch_2d_def on_globals_def fst_conv snd_conv Let_def)
qed

lemma exec_ack:
  "runnable g \<Longrightarrow> exec (uart_write wd 2) g q () g (put 2 # q)"
  using exec_uart_write [of g 2 q] runnableD(1) [of g] by (simp add: put_def)

lemma exec_algorithm3:
  assumes g: "learner g"
  shows "exec_to (algorithm3 wd) (g, q)
    (fst (epochs (epoch_1d net err) (created 1 g) (put 2 # q)), put 2 # snd (epochs (epoch_1d net err) (created 1 g) (put 2 # q)))"
proof -
  let ?e = "epochs (epoch_1d net err) (created 1 g) (put 2 # q)"
  have r: "runnable g" and c: "learner (created 1 g)" using g learner_created by (simp_all add: learner_def)
  have 1: "exec (uart_write wd 2) g q () g (put 2 # q)" by (rule exec_ack [OF r])
  have 2: "exec (template_create 1) g (put 2 # q) () (created 1 g) (put 2 # q)"
    by (rule exec_create_runnable [OF r]) simp
  have 3: "exec_to (learning [learn_driver wd 1, error_get wd, template_update_1d 1]) (created 1 g, put 2 # q) ?e"
    by (rule exec_learning [of learner]) (simp_all add: exec_epoch_1d epoch_1d_keeps learner_created c del: block.simps)
  have "runnable (fst ?e)" using epochs_learner [OF c] epoch_1d_keeps by (simp add: learner_def)
  then have 4: "exec (uart_write wd 2) (fst ?e) (snd ?e) () (fst ?e) (put 2 # snd ?e)" by (rule exec_ack)
  from exec_block_Cons [OF 1 exec_block_Cons [OF 2 exec_block_Cons [OF 3 [simplified] exec_block_Cons [OF 4 exec_block_Nil]]]]
  show ?thesis by (simp only: algorithm3_def fst_conv snd_conv)
qed

lemma exec_algorithm4:
  assumes g: "learner g"
  shows "exec_to (algorithm4 wd) (g, q)
    (fst (epochs (epoch_multi net err) (created 2 (created 1 g)) (put 2 # q)),
     put 2 # snd (epochs (epoch_multi net err) (created 2 (created 1 g)) (put 2 # q)))"
proof -
  let ?g = "created 2 (created 1 g)"
  let ?e = "epochs (epoch_multi net err) ?g (put 2 # q)"
  have r: "runnable g" "runnable (created 1 g)" and c: "learner ?g" using g learner_created by (simp_all add: learner_def)
  have 1: "exec (uart_write wd 2) g q () g (put 2 # q)" by (rule exec_ack [OF r(1)])
  have 2: "exec (template_create 1) g (put 2 # q) () (created 1 g) (put 2 # q)"
    by (rule exec_create_runnable [OF r(1)]) simp
  have 3: "exec (template_create 2) (created 1 g) (put 2 # q) () ?g (put 2 # q)"
    by (rule exec_create_runnable [OF r(2)]) simp
  have 4: "exec_to (learning [learn_driver wd 1, error_get wd, template_update_1d 1, learn_driver wd 2, template_update_1d 2])
      (?g, put 2 # q) ?e"
    by (rule exec_learning [of learner]) (simp_all add: exec_epoch_multi epoch_multi_keeps learner_created c del: block.simps)
  have "runnable (fst ?e)" using epochs_learner [OF c] epoch_multi_keeps by (simp add: learner_def)
  then have 5: "exec (uart_write wd 2) (fst ?e) (snd ?e) () (fst ?e) (put 2 # snd ?e)" by (rule exec_ack)
  from exec_block_Cons [OF 1 exec_block_Cons [OF 2 exec_block_Cons [OF 3 exec_block_Cons [OF 4 [simplified] exec_block_Cons [OF 5 exec_block_Nil]]]]]
  show ?thesis by (simp only: algorithm4_def fst_conv snd_conv)
qed

lemma exec_algorithm5:
  assumes g: "learner g"
  shows "exec_to (algorithm5 wd) (g, q)
    (fst (epochs (epoch_2d net err) (created 1 g) (put 2 # q)), put 2 # snd (epochs (epoch_2d net err) (created 1 g) (put 2 # q)))"
proof -
  let ?e = "epochs (epoch_2d net err) (created 1 g) (put 2 # q)"
  have r: "runnable g" and c: "learner (created 1 g)" using g learner_created by (simp_all add: learner_def)
  have 1: "exec (uart_write wd 2) g q () g (put 2 # q)" by (rule exec_ack [OF r])
  have 2: "exec (template_create 1) g (put 2 # q) () (created 1 g) (put 2 # q)"
    by (rule exec_create_runnable [OF r]) simp
  have 3: "exec_to (learning [learn_driver wd 1, error_get wd, template_update_2d wd 1]) (created 1 g, put 2 # q) ?e"
    by (rule exec_learning [of learner]) (simp_all add: exec_epoch_2d epoch_2d_keeps learner_created c del: block.simps)
  have "runnable (fst ?e)" using epochs_learner [OF c] epoch_2d_keeps by (simp add: learner_def)
  then have 4: "exec (uart_write wd 2) (fst ?e) (snd ?e) () (fst ?e) (put 2 # snd ?e)" by (rule exec_ack)
  from exec_block_Cons [OF 1 exec_block_Cons [OF 2 exec_block_Cons [OF 3 [simplified] exec_block_Cons [OF 4 exec_block_Nil]]]]
  show ?thesis by (simp only: algorithm5_def fst_conv snd_conv)
qed

end

section \<open>One run and the pipeline\<close>

lemma float_to_fixed_0: "float_to_fixed 0 = Inr 0"
  by (simp add: float_to_fixed_def Let_def)

lemma runnable_driven [simp]: "runnable (fst s) \<Longrightarrow> runnable (fst (driven net no u x d iter Ts s))"
  by (simp add: driven_def Let_def)

text \<open>The four runs of \<open>algorithm2\<close> with the planes they clear.\<close>

definition pipeline :: "(event list \<Rightarrow> u16 \<Rightarrow> u16) \<Rightarrow> globals \<times> event list \<Rightarrow> globals \<times> event list" where
  "pipeline net s =
     (driven net 4 4 1 2 1 Ts_one \<circ> driven net 8 3 4 2 1 Ts_one \<circ> on_globals (filled 4 0)
      \<circ> driven net 12 1 3 2 1 Ts_one \<circ> on_globals (filled 3 0)
      \<circ> driven net 2 0 1 2 100 Ts_tenth \<circ> on_globals (filled 1 0)) s"

context cnn_env begin

lemma exec_algorithm1:
  fixes q :: "event list"
  assumes g: "runnable g" and no: "unat (cnn_template_no (cnn g)) < 15"
  defines "s \<equiv> driven net (cnn_template_no (cnn g)) 0 1 2 (cnn_iter_cnt (cnn g)) (cnn_Ts (cnn g)) (g, put 2 # q)"
  shows "exec_to (algorithm1 wd) (g, q) (fst s, put 2 # snd s)"
proof -
  have ack: "exec (uart_write wd 2) g q () g (put 2 # q)" if "runnable g" for g q
    using exec_uart_write [of g 2 q] runnableD(1) [OF that] by (simp add: put_def)
  have run: "exec (bnd (getg cnn) (\<lambda>c. cnn_driver wd 0 1 2 (cnn_template_no c) (cnn_iter_cnt c) (cnn_Ts c)))
      g (put 2 # q) () (fst s) (snd s)"
    unfolding exec_bnd_getg s_def using exec_driven [OF g, of 0 1 2 "cnn_template_no (cnn g)"] no by simp
  have "runnable (fst s)" using g by (simp add: s_def)
  from exec_block_Cons [OF ack [OF g] exec_block_Cons [OF run exec_block_Cons [OF ack [OF this] exec_block_Nil]]]
  show ?thesis by (simp only: algorithm1_def fst_conv snd_conv)
qed

lemma exec_algorithm2:
  assumes g: "runnable g"
  shows "exec_to (algorithm2 wd) (g, q) (fst (pipeline net (g, put 2 # q)), put 2 # snd (pipeline net (g, put 2 # q)))"
proof -
  have ack: "exec (uart_write wd 2) g q () g (put 2 # q)" if "runnable g" for g q
    using exec_uart_write [of g 2 q] runnableD(1) [OF that] by (simp add: put_def)
  have fill: "exec (image_fill p 0) (fst s) (snd s) () (fst (on_globals (filled (unat p) 0) s)) (snd (on_globals (filled (unat p) 0) s))"
    if "runnable (fst s)" "unat p < 20" for p s
    using exec_image_fill [OF that float_to_fixed_0] by (simp add: on_globals_def)
  have run: "exec_to (cnn_driver wd u x d no iter Ts) s (driven net no (unat u) (unat x) (unat d) iter Ts s)"
    if "runnable (fst s)" "unat u < 20" "unat x < 20" "unat d < 20" "unat no < 15" for u x d no iter Ts s
    using exec_driven [OF that, of iter Ts "snd s"] by simp
  let ?s1 = "on_globals (filled 1 0) (g, put 2 # q)"
  let ?s2 = "driven net 2 0 1 2 100 Ts_tenth ?s1"
  let ?s3 = "on_globals (filled 3 0) ?s2"
  let ?s4 = "driven net 12 1 3 2 1 Ts_one ?s3"
  let ?s5 = "on_globals (filled 4 0) ?s4"
  let ?s6 = "driven net 8 3 4 2 1 Ts_one ?s5"
  let ?s7 = "driven net 4 4 1 2 1 Ts_one ?s6"
  have og: "runnable (fst s) \<Longrightarrow> runnable (fst (on_globals (filled p v) s))" for p v s by (simp add: on_globals_def)
  have r: "runnable (fst ?s1)" "runnable (fst ?s2)" "runnable (fst ?s3)" "runnable (fst ?s4)"
    "runnable (fst ?s5)" "runnable (fst ?s6)" "runnable (fst ?s7)"
    by (simp_all add: g og)
  have 1: "exec (image_fill 1 0) g (put 2 # q) () (fst ?s1) (snd ?s1)" using fill [of "(g, put 2 # q)" 1] g by simp
  have 2: "exec_to (cnn_driver wd 0 1 2 2 100 Ts_tenth) ?s1 ?s2" using run [OF r(1), of 0 1 2 2] by simp
  have 3: "exec_to (image_fill 3 0) ?s2 ?s3" using fill [OF r(2), of 3] by simp
  have 4: "exec_to (cnn_driver wd 1 3 2 12 1 Ts_one) ?s3 ?s4" using run [OF r(3), of 1 3 2 12] by simp
  have 5: "exec_to (image_fill 4 0) ?s4 ?s5" using fill [OF r(4), of 4] by simp
  have 6: "exec_to (cnn_driver wd 3 4 2 8 1 Ts_one) ?s5 ?s6" using run [OF r(5), of 3 4 2 8] by simp
  have 7: "exec_to (cnn_driver wd 4 1 2 4 1 Ts_one) ?s6 ?s7" using run [OF r(6), of 4 1 2 4] by simp
  have p: "pipeline net (g, put 2 # q) = ?s7" by (simp add: pipeline_def)
  show ?thesis unfolding algorithm2_def p fst_conv snd_conv
    by (rule exec_block_Cons [OF ack [OF g] exec_block_Cons [OF 1 exec_block_Cons [OF 2 exec_block_Cons [OF 3
        exec_block_Cons [OF 4 exec_block_Cons [OF 5 exec_block_Cons [OF 6 exec_block_Cons [OF 7
        exec_block_Cons [OF ack [OF r(7)] exec_block_Nil]]]]]]]]])
qed

end

end
