(* ===== verification/Firmware.thy ===== *)
theory Firmware
  imports Cnn_Algorithm
begin

text \<open>
  The program, \<open>mpu_sw/src/main.c\<close>: initialisation and the endless loop that serves the host's
  requests, as a step relation; and what holds in every state the firmware can reach, whatever the
  host sends, whatever the devices answer and whichever allocations fail.
\<close>

section \<open>The main loop\<close>

definition dispatch :: "world \<Rightarrow> u8 \<Rightarrow> (globals, unit) fw" where
  "dispatch wd request =
     (if request = 0 then header_read wd
      else if request = 1 then image_read wd
      else if request = 2 then algorithm_run wd
      else if request = 3 then image_send wd
      else if request = 4 then error_send wd
      else if request = 5 then template_send wd
      else ret ())"

definition main_body :: "world \<Rightarrow> (globals, unit) fw" where
  "main_body wd = bnd (uart_read wd) (dispatch wd)"

inductive main_step :: "world \<Rightarrow> globals \<times> event list \<Rightarrow> globals \<times> event list \<Rightarrow> bool" for wd where
  serve: "main_body wd s = Some (Inr ((), s')) \<Longrightarrow> main_step wd s s'"

inductive reachable :: "world \<Rightarrow> globals \<times> event list \<Rightarrow> bool" for wd where
  boot: "init_system wd (globals_at_reset, []) = Some (Inr ((), s)) \<Longrightarrow> reachable wd s"
| step: "reachable wd s \<Longrightarrow> main_step wd s s' \<Longrightarrow> reachable wd s'"

inductive_simps main_step_iff: "main_step wd s s'"

inductive_cases reachableE: "reachable wd s"

section \<open>The invariant\<close>

definition rows_ok :: "nat \<Rightarrow> row_ptr list \<Rightarrow> bool" where
  "rows_ok w rs \<longleftrightarrow> (\<forall>r \<in> set rs. \<forall>xs. r = Some xs \<longrightarrow> length xs = w)"

definition plane_ok :: "nat \<Rightarrow> nat \<Rightarrow> plane_ptr \<Rightarrow> bool" where
  "plane_ok h w pl = (case pl of None \<Rightarrow> h = 0 | Some rs \<Rightarrow> length rs = h \<and> rows_ok w rs)"

text \<open>
  Twenty planes of \<open>height\<close> rows; a row is as long as the image is wide, or NULL because its
  allocation failed.
\<close>

definition stack_ok :: "nat \<Rightarrow> nat \<Rightarrow> stack_ptr \<Rightarrow> bool" where
  "stack_ok h w s = (case s of None \<Rightarrow> False | Some ps \<Rightarrow> length ps = 20 \<and> (\<forall>pl \<in> set ps. plane_ok h w pl))"

definition wf_core :: "globals \<Rightarrow> bool" where
  "wf_core g \<longleftrightarrow> pointers_ok g \<and> img_count (image g) = 20 \<and> length (templates g) = 15
     \<and> (\<forall>t \<in> set (templates g). wf_template t) \<and> wf_errors g"

definition wf_image :: "globals \<Rightarrow> bool" where
  "wf_image g \<longleftrightarrow> stack_ok (unat (img_height (image g))) (unat (img_width (image g))) (img_data (image g))"

definition wf_shift :: "globals \<Rightarrow> bool" where
  "wf_shift g \<longleftrightarrow> img_shift (image g) = ucast (img_width (image g)) * ucast (img_height (image g))"

definition wf_state :: "globals \<Rightarrow> bool" where
  "wf_state g \<longleftrightarrow> wf_core g \<and> wf_image g \<and> wf_shift g"

lemmas wf_defs = wf_state_def wf_core_def wf_image_def wf_shift_def

lemma wf_counters [simp]:
  "wf_state (set_i v g) = wf_state g" "wf_state (set_j v g) = wf_state g" "wf_state (set_k v g) = wf_state g" "wf_state (set_template_var x g) = wf_state g"
  "wf_core (set_i v g) = wf_core g" "wf_core (set_j v g) = wf_core g" "wf_core (set_k v g) = wf_core g"
  "wf_core (set_template_var x g) = wf_core g" "wf_core (g\<lparr>heap_live := n\<rparr>) = wf_core g"
  "wf_core (set_img_data d g) = wf_core g" "wf_core (set_shift g) = wf_core g"
  by (simp_all add: wf_defs wf_errors_def set_shift_def)

text \<open>The invariant, with an image that has pixels if \<open>z\<close>.\<close>

definition wf_nz :: "bool \<Rightarrow> globals \<Rightarrow> bool" where
  "wf_nz z g \<longleftrightarrow> wf_state g \<and> (z \<longrightarrow> img_shift (image g) \<noteq> 0)"

lemma wf_nz_simps [simp]:
  "wf_nz z (set_i v g) = wf_nz z g" "wf_nz z (set_j v g) = wf_nz z g" "wf_nz z (set_k v g) = wf_nz z g"
  "wf_nz z (set_template_var x g) = wf_nz z g"
  by (simp_all add: wf_nz_def)

lemma wf_nz_core: "wf_nz z g \<Longrightarrow> wf_core g"
  by (simp add: wf_nz_def wf_state_def)

section \<open>Operations that only talk to devices\<close>

lemma stable_block [valid_intro]:
  "stable I (block []) E" "stable I m E \<Longrightarrow> stable I (block ms) E \<Longrightarrow> stable I (block (m # ms)) E"
  by (rule valid_block_Nil) (rule valid_block_Cons)

lemma stable_reg [valid_intro]: "stable I (reg_read wd w r) E" "stable I (reg_write w r v) E"
  unfolding reg_read_def reg_write_def by (intro valid_intro)+

lemma stable_uart [valid_intro]: "stable I (uart_read wd) E" "stable I (uart_write wd b) E"
proof -
  show "stable I (uart_read wd) E" unfolding uart_read_def by (intro valid_intro)
  show "stable I (uart_write wd b) E" unfolding uart_write_def
    by (intro valid_intro)
qed

lemma stable_command [valid_intro]: "stable I (command_write a d) E"
  unfolding command_write_def by (intro valid_intro)

lemma stable_l2cache [valid_intro]:
  "stable I (l2cache_u_write a v) E" "stable I (l2cache_x_write a v) E" "stable I (l2cache_ideal_write a v) E"
  "stable I (l2cache_x_read wd a) E"
  unfolding l2cache_u_write_def l2cache_x_write_def l2cache_ideal_write_def l2cache_x_read_def
  by (intro valid_intro)+

lemma stable_wait_ready [valid_intro]: "stable I (wait_ready wd) E"
proof -
  have "wait_ready wd = busy_wait wd W32 (\<lambda>g. mpu_regs (mpu g) R_feedback) (\<lambda>v. (ucast (v AND 1) :: u8) \<noteq> 0)"
    by (simp add: wait_ready_def busy_wait_def ready_read_def reg_read_def bnd_assoc)
  then show ?thesis by (simp add: stable_busy_wait)
qed

section \<open>Loops\<close>

lemma stable_for_pixels:
  assumes I: "\<And>v g. I g \<Longrightarrow> I (set_i v g)" "\<And>v g. I g \<Longrightarrow> I (set_j v g)"
    and b: "stable (\<lambda>g. I g \<and> gi g < ucast (img_height (image g)) \<and> gj g < ucast (img_width (image g))) b E"
  shows "stable I (for_pixels b) E"
proof -
  let ?H = "\<lambda>g. I g \<and> gi g < ucast (img_height (image g))"
  have inner: "valid (\<lambda>s. ?H (fst s)) (for_j (\<lambda>g. gj g < ucast (img_width (image g))) b) (\<lambda>_ s. ?H (fst s)) E"
    unfolding for_j_def
  proof (intro valid_block_Cons [OF _ valid_block_Cons [OF _ valid_block_Nil]])
    have "valid (\<lambda>s. ?H (fst s)) (while_loop (getg (\<lambda>g. gj g < ucast (img_width (image g)))) (block [b, modg (\<lambda>g. set_j (gj g + 1) g)]))
        (\<lambda>_ s. ?H (fst s) \<and> \<not> gj (fst s) < ucast (img_width (image (fst s)))) E"
      by (rule valid_while_getg [of ?H], rule valid_block_Cons [where R = "\<lambda>s. ?H (fst s)"], rule valid_weaken [OF b],
          (simp_all)[3], rule valid_block_Cons [OF _ valid_block_Nil], rule valid_modg) (auto intro: I)
    then show "valid (\<lambda>s. ?H (fst s)) (while_loop (getg (\<lambda>g. gj g < ucast (img_width (image g)))) (block [b, modg (\<lambda>g. set_j (gj g + 1) g)]))
        (\<lambda>_ s. ?H (fst s)) E" by (rule valid_weaken) auto
  qed (auto intro!: valid_modg I)
  show ?thesis unfolding for_pixels_def for_i_def
  proof (intro valid_block_Cons [OF _ valid_block_Cons [OF _ valid_block_Nil]])
    have "valid (\<lambda>s. I (fst s)) (while_loop (getg (\<lambda>g. gi g < ucast (img_height (image g))))
          (block [for_j (\<lambda>g. gj g < ucast (img_width (image g))) b, modg (\<lambda>g. set_i (gi g + 1) g)]))
        (\<lambda>_ s. I (fst s) \<and> \<not> gi (fst s) < ucast (img_height (image (fst s)))) E"
      by (rule valid_while_getg [of I], rule valid_block_Cons, rule inner,
          rule valid_block_Cons [OF _ valid_block_Nil], rule valid_modg) (auto intro: I)
    then show "stable I (while_loop (getg (\<lambda>g. gi g < ucast (img_height (image g))))
          (block [for_j (\<lambda>g. gj g < ucast (img_width (image g))) b, modg (\<lambda>g. set_i (gi g + 1) g)])) E"
      by (rule valid_weaken) auto
  qed (auto intro!: valid_modg I)
qed

lemma stable_for_patch:
  assumes I: "\<And>v g. I g \<Longrightarrow> I (set_i v g)" "\<And>v g. I g \<Longrightarrow> I (set_j v g)"
    and b: "stable (\<lambda>g. I g \<and> gi g \<le> patchTop \<and> gj g \<le> patchTop) b E"
  shows "stable I (for_patch b) E"
proof -
  let ?H = "\<lambda>g. I g \<and> gi g \<le> patchTop"
  let ?J = "while_loop (getg (\<lambda>g. gj g \<le> patchTop)) (block [b, modg (\<lambda>g. set_j (gj g + 1) g)])"
  have inner: "valid (\<lambda>s. ?H (fst s)) (for_j (\<lambda>g. gj g \<le> patchTop) b) (\<lambda>_ s. ?H (fst s)) E"
    unfolding for_j_def
  proof (intro valid_block_Cons [OF _ valid_block_Cons [OF _ valid_block_Nil]])
    have "valid (\<lambda>s. ?H (fst s)) ?J (\<lambda>_ s. ?H (fst s) \<and> \<not> gj (fst s) \<le> patchTop) E"
      by (rule valid_while_getg [of ?H], rule valid_block_Cons [where R = "\<lambda>s. ?H (fst s)"], rule valid_weaken [OF b],
          (simp_all)[3], rule valid_block_Cons [OF _ valid_block_Nil], rule valid_modg) (auto intro: I)
    then show "valid (\<lambda>s. ?H (fst s)) ?J (\<lambda>_ s. ?H (fst s)) E" by (rule valid_weaken) auto
  qed (auto intro!: valid_modg I)
  let ?I = "while_loop (getg (\<lambda>g. gi g \<le> patchTop)) (block [for_j (\<lambda>g. gj g \<le> patchTop) b, modg (\<lambda>g. set_i (gi g + 1) g)])"
  show ?thesis unfolding for_patch_def for_i_def
  proof (intro valid_block_Cons [OF _ valid_block_Cons [OF _ valid_block_Nil]])
    have "valid (\<lambda>s. I (fst s)) ?I (\<lambda>_ s. I (fst s) \<and> \<not> gi (fst s) \<le> patchTop) E"
      by (rule valid_while_getg [of I], rule valid_block_Cons, rule inner,
          rule valid_block_Cons [OF _ valid_block_Nil], rule valid_modg) (auto intro: I)
    then show "stable I ?I E" by (rule valid_weaken) auto
  qed (auto intro!: valid_modg I)
qed

lemma stable_learning:
  assumes I: "\<And>v g. I g \<Longrightarrow> I (set_k v g)" and b: "stable I (block body) E"
  shows "stable I (learning body) E"
proof -
  let ?K = "while_loop (getg (\<lambda>g. gk g < ucast (cnn_learn_loop (cnn g)))) (block [block body, modg (\<lambda>g. set_k (gk g + 1) g)])"
  have "valid (\<lambda>s. I (fst s)) ?K (\<lambda>_ s. I (fst s) \<and> \<not> gk (fst s) < ucast (cnn_learn_loop (cnn (fst s)))) E"
    by (rule valid_while_getg [of I], rule valid_block_Cons [where R = "\<lambda>s. I (fst s)"], rule valid_weaken [OF b],
        (simp_all)[3], rule valid_block_Cons [OF _ valid_block_Nil], rule valid_modg) (auto intro: I)
  then have "stable I ?K E" by (rule valid_weaken) auto
  then show ?thesis unfolding learning_def for_k_def by (intro stable_block stable_modg I)
qed

section \<open>Pixels\<close>

definition pixel_faults :: "nat \<Rightarrow> fault set" where
  "pixel_faults p = (if p < 20 then {NullDeref} else {OutOfBounds})"

text \<open>A position of the image: the counters are in range.\<close>

definition in_image :: "bool \<Rightarrow> globals \<Rightarrow> bool" where
  "in_image z g \<longleftrightarrow> wf_nz z g \<and> gi g < ucast (img_height (image g)) \<and> gj g < ucast (img_width (image g))"

lemma in_image_bounds:
  "in_image z g \<Longrightarrow> unat (gi g) < unat (img_height (image g)) \<and> unat (gj g) < unat (img_width (image g))"
  by (simp add: in_image_def word_less_nat_alt)

lemma stack_plane:
  assumes "in_image z g" "p < 20"
  obtains ps rs where "img_data (image g) = Some ps" "length ps = 20" "ps ! p = Some rs"
    "length rs = unat (img_height (image g))" "rows_ok (unat (img_width (image g))) rs"
    "\<forall>pl \<in> set ps. plane_ok (unat (img_height (image g))) (unat (img_width (image g))) pl"
proof -
  have st: "stack_ok (unat (img_height (image g))) (unat (img_width (image g))) (img_data (image g))"
    using assms by (simp add: in_image_def wf_nz_def wf_state_def wf_image_def)
  then obtain ps where ps: "img_data (image g) = Some ps" "length ps = 20"
    "\<forall>pl \<in> set ps. plane_ok (unat (img_height (image g))) (unat (img_width (image g))) pl"
    by (auto simp: stack_ok_def split: option.splits)
  then have "plane_ok (unat (img_height (image g))) (unat (img_width (image g))) (ps ! p)" using assms by simp
  then show thesis
    using that ps in_image_bounds [OF assms(1)] by (auto simp: plane_ok_def split: option.splits)
qed

lemma get_pixel_faults:
  assumes g: "in_image z g" and e: "get_pixel p g = Inl e"
  shows "e \<in> pixel_faults p"
proof (cases "p < 20")
  case True
  then obtain ps rs where s: "img_data (image g) = Some ps" "length ps = 20" "ps ! p = Some rs"
    "length rs = unat (img_height (image g))" "rows_ok (unat (img_width (image g))) rs"
    using stack_plane [OF g] by blast
  have ij: "unat (gi g) < length rs" "unat (gj g) < unat (img_width (image g))"
    using in_image_bounds [OF g] s by simp_all
  show ?thesis
  proof (cases "rs ! unat (gi g)")
    case None
    then show ?thesis using s ij True e by (simp add: get_pixel_def img_get_def nth_chk_def pixel_faults_def)
  next
    case (Some r)
    then have "length r = unat (img_width (image g))" using s(5) ij by (metis nth_mem rows_ok_def)
    then show ?thesis using Some s ij True e by (simp add: get_pixel_def img_get_def nth_chk_def)
  qed
next
  case False
  obtain ps where "img_data (image g) = Some ps" "length ps = 20"
    using stack_plane [OF g, of 0] by auto
  then show ?thesis using False e by (simp add: get_pixel_def img_get_def nth_chk_def pixel_faults_def)
qed

lemma rows_ok_update: "rows_ok w rs \<Longrightarrow> length xs = w \<Longrightarrow> rows_ok w (rs[i := Some xs])"
  unfolding rows_ok_def using set_update_subset_insert by fastforce

lemma set_pixel_ok:
  assumes g: "in_image z g"
  shows "set_pixel p v g = Inl e \<Longrightarrow> e \<in> pixel_faults p" and "set_pixel p v g = Inr g' \<Longrightarrow> in_image z g'"
proof -
  show "e \<in> pixel_faults p" if e: "set_pixel p v g = Inl e"
  proof (cases "get_pixel p g")
    case (Inl e')
    then have "set_pixel p v g = Inl e'"
      by (auto simp: set_pixel_def get_pixel_def img_set_def img_get_def ebind_def deref_def nth_chk_def upd_chk_def
          split: sum.splits option.splits if_splits)
    then show ?thesis using get_pixel_faults [OF g Inl] e by simp
  next
    case (Inr x)
    then have "\<exists>g'. set_pixel p v g = Inr g'"
      by (auto simp: set_pixel_def get_pixel_def img_set_def img_get_def nth_chk_def upd_chk_def split: if_splits)
    then show ?thesis using e by simp
  qed
  show "in_image z g'" if ok: "set_pixel p v g = Inr g'"
  proof -
    let ?h = "unat (img_height (image g))" and ?w = "unat (img_width (image g))"
    from ok obtain ps rs r where d: "img_data (image g) = Some ps" "p < length ps" "ps ! p = Some rs"
      "unat (gi g) < length rs" "rs ! unat (gi g) = Some r"
      and g': "g' = set_img_data (Some (ps[p := Some (rs[unat (gi g) := Some (r[unat (gj g) := v])])])) g"
      by (auto simp: set_pixel_def img_set_def nth_chk_eq_Inr upd_chk_eq_Inr)
    have st: "stack_ok ?h ?w (img_data (image g))" using g by (simp add: in_image_def wf_nz_def wf_state_def wf_image_def)
    then have "plane_ok ?h ?w (ps ! p)" using d(1) nth_mem [OF d(2)] by (simp add: stack_ok_def)
    then have p: "length rs = ?h" "rows_ok ?w rs" using d by (simp_all add: plane_ok_def)
    then have "length r = ?w" using d by (metis nth_mem rows_ok_def)
    then have "plane_ok ?h ?w (Some (rs[unat (gi g) := Some (r[unat (gj g) := v])]))"
      using p by (simp add: plane_ok_def rows_ok_update)
    then have "stack_ok ?h ?w (Some (ps[p := Some (rs[unat (gi g) := Some (r[unat (gj g) := v])])]))"
      using st d set_update_subset_insert [of ps p] by (fastforce simp: stack_ok_def)
    then show ?thesis using g g' by (auto simp: in_image_def wf_nz_def wf_state_def wf_image_def wf_shift_def)
  qed
qed

lemma stable_get_pixel: "stable (in_image z) (gete (get_pixel p)) (pixel_faults p)"
  by (rule stable_gete) (rule get_pixel_faults)

lemma stable_set_pixel: "stable (in_image z) (mode (set_pixel p v)) (pixel_faults p)"
  by (rule stable_mode) (auto dest: set_pixel_ok)

lemma stable_pixels:
  assumes "stable (in_image z) b E"
  shows "stable (wf_nz z) (for_pixels b) E"
proof (rule stable_for_pixels)
  have "valid (\<lambda>s. in_image z (fst s)) b (\<lambda>_ s. in_image z (fst s)) E" by (rule assms)
  then show "stable (\<lambda>g. wf_nz z g \<and> gi g < ucast (img_height (image g)) \<and> gj g < ucast (img_width (image g))) b E"
    by (simp only: in_image_def)
qed simp_all

lemma stable_mono: "stable I m E \<Longrightarrow> E \<subseteq> E' \<Longrightarrow> stable I m E'"
  by (rule valid_weaken)

lemma stable_image_fill:
  assumes "float_to_fixed x = Inr v"
  shows "stable (wf_nz z) (image_fill p x) (pixel_faults (unat p))"
  unfolding image_fill_def
  by (intro stable_pixels stable_bnd stable_gete stable_set_pixel) (simp add: assms)

lemma stable_image_read: "stable (wf_nz z) (image_read wd) {NullDeref, OutOfBounds}"
  unfolding image_read_def
proof (intro stable_bnd stable_uart stable_mono [OF stable_pixels])
  fix pos
  show "stable (in_image z) (block [bnd (uart_read wd) (\<lambda>b. mode (set_pixel (unat pos) (push_bit 8 (ucast b)))),
      bnd (uart_read wd) (\<lambda>b. mode (\<lambda>g. ebind (get_pixel (unat pos) g) (\<lambda>v. set_pixel (unat pos) (v OR ucast b) g)))])
      (pixel_faults (unat pos))"
  proof (intro stable_block stable_bnd stable_uart stable_set_pixel stable_mode)
    fix b g e
    assume g: "in_image z g" and "ebind (get_pixel (unat pos) g) (\<lambda>v. set_pixel (unat pos) (v OR ucast b) g) = Inl e"
    then show "e \<in> pixel_faults (unat pos)"
      using get_pixel_faults [OF g] set_pixel_ok(1) [OF g] by (cases "get_pixel (unat pos) g") auto
  qed (auto dest: set_pixel_ok(2))
qed (simp add: pixel_faults_def)

lemma stable_image_send: "stable (wf_nz z) (image_send wd) {NullDeref, OutOfBounds}"
  unfolding image_send_def
proof (intro stable_bnd stable_uart stable_mono [OF stable_pixels])
  fix pos
  show "stable (in_image z) (block
      [bnd (gete (get_pixel (unat pos))) (\<lambda>v. uart_write wd (ucast (drop_bit 8 (v AND 0xFF00)))),
       bnd (gete (get_pixel (unat pos))) (\<lambda>v. uart_write wd (ucast (v AND 0x00FF)))]) (pixel_faults (unat pos))"
    by (intro stable_block stable_bnd stable_uart stable_get_pixel)
qed (simp add: pixel_faults_def)

section \<open>Templates and errors\<close>

lemma template_in_range: "wf_core g \<Longrightarrow> n < 15 \<Longrightarrow> wf_template (templates g ! n)"
  by (simp add: wf_core_def)

lemma template_get_faults:
  assumes "wf_core g" and "\<And>t. wf_template t \<Longrightarrow> \<exists>v. f t = Inr v"
  shows "template_get n f g = Inl e \<Longrightarrow> \<not> unat n < 15 \<and> e = OutOfBounds"
proof -
  assume e: "template_get n f g = Inl e"
  show ?thesis
  proof (cases "unat n < 15")
    case True
    then obtain v where "f (templates g ! unat n) = Inr v" using assms template_in_range by blast
    then show ?thesis using e True assms(1) by (simp add: template_get_def nth_chk_def wf_core_def)
  next
    case False
    then show ?thesis using e assms(1) by (simp add: template_get_def nth_chk_def wf_core_def)
  qed
qed

definition template_faults :: "u16 \<Rightarrow> fault set" where
  "template_faults n = (if unat n < 15 then {} else {OutOfBounds})"

lemma mat_cell:
  assumes "shaped 3 3 M" "unat i < 3" "unat j < 3"
  shows "\<exists>v. mat_get M i j = Inr v" and "\<exists>M'. mat_set M i j v = Inr M' \<and> shaped 3 3 M'"
proof -
  show "\<exists>v. mat_get M i j = Inr v" using mat_get_shaped [OF assms] by blast
  have "mat_set M i j v = Inr (mat 3 3 (\<lambda>a b. if a = unat i \<and> b = unat j then v else M ! a ! b))"
    using mat_set_mat [OF assms(2,3), of "\<lambda>a b. M ! a ! b" v] shaped_eq_mat [OF assms(1)] by simp
  then show "\<exists>M'. mat_set M i j v = Inr M' \<and> shaped 3 3 M'" by auto
qed

lemma patch_index: "i \<le> patchTop \<Longrightarrow> unat i < 3"
  by (simp add: package_defs word_le_nat_alt)

lemma stable_template_out:
  assumes "\<And>t. wf_template t \<Longrightarrow> \<exists>v. f t = Inr v"
  shows "stable (wf_nz z) (template_out n r f) (template_faults n)"
  unfolding template_out_def
  by (intro stable_bnd stable_reg stable_gete)
    (use template_get_faults [OF wf_nz_core assms] in \<open>auto simp: template_faults_def\<close>)

lemma stable_template_set: "stable (wf_nz z) (template_set n) (template_faults n)"
proof -
  have patchA: "\<exists>v. mat_get (t_A t) i j = Inr v" "\<exists>v. mat_get (t_B t) i j = Inr v"
    if "wf_template t" "((a, b), i, j) \<in> set patch" for a b i j t
    using that mat_cell(1) [of "t_A t" i j] mat_cell(1) [of "t_B t" i j]
    by (auto simp: wf_template_def patch_def)
  show ?thesis unfolding template_set_def
    by (rule valid_block) (auto intro!: stable_template_out patchA)
qed

definition error_faults :: "bool \<Rightarrow> fault set" where
  "error_faults z = (if z then {} else {DivByZero})"

lemma stable_error_item:
  assumes "\<And>v g. wf_nz z g \<Longrightarrow> \<exists>g'. st v g = Inr g' \<and> wf_nz z g'"
  shows "stable (wf_nz z) (error_item wd r st) (error_faults z)"
  unfolding error_item_def
proof (intro stable_bnd stable_reg stable_mode)
  fix raw and g :: globals
  assume g: "wf_nz z g"
  let ?m = "ebind (scale_error raw (cnn_learn_rate (cnn g)) (img_shift (image g))) (\<lambda>v. st v g)"
  show "e \<in> error_faults z" if "?m = Inl e" for e
  proof (cases "img_shift (image g) = 0")
    case True
    then show ?thesis using that g by (simp add: scale_error_def Let_def error_faults_def wf_nz_def)
  next
    case False
    obtain g' where "st (scaled (\<lambda>_. raw) g r) g = Inr g'" using assms [OF g] by blast
    then show ?thesis using that False scale_error_scaled [of g "\<lambda>_. raw" r] by simp
  qed
  show "wf_nz z g'" if m: "?m = Inr g'" for g'
  proof -
    from m obtain v where "st v g = Inr g'" by auto
    then show ?thesis using assms [OF g, of v] by auto
  qed
qed

lemma stable_error_get: "stable (wf_nz z) (error_get wd) (error_faults z)"
proof -
  have u: "\<exists>g'. set_error_u i j v g = Inr g' \<and> wf_nz z g'"
    and x: "\<exists>g'. set_error_x i j v g = Inr g' \<and> wf_nz z g'"
    if g: "wf_nz z g" and ij: "((a, b), i, j) \<in> set patch" for a b i j v g
  proof -
    have sh: "shaped 3 3 (e_u (errors g))" "shaped 3 3 (e_x (errors g))" and lt: "unat i < 3" "unat j < 3"
      using g ij by (auto simp: wf_nz_def wf_defs wf_errors_def patch_def)
    obtain M where "mat_set (e_u (errors g)) i j v = Inr M" "shaped 3 3 M" using mat_cell(2) [OF sh(1) lt] by blast
    then show "\<exists>g'. set_error_u i j v g = Inr g' \<and> wf_nz z g'"
      using g by (auto simp: set_error_u_def wf_nz_def wf_defs wf_errors_def)
    obtain N where "mat_set (e_x (errors g)) i j v = Inr N" "shaped 3 3 N" using mat_cell(2) [OF sh(2) lt] by blast
    then show "\<exists>g'. set_error_x i j v g = Inr g' \<and> wf_nz z g'"
      using g by (auto simp: set_error_x_def wf_nz_def wf_defs wf_errors_def)
  qed
  have i: "\<exists>g'. set_error_i v g = Inr g' \<and> wf_nz z g'" if "wf_nz z g" for v g
    using that by (auto simp: set_error_i_def wf_nz_def wf_defs wf_errors_def)
  show ?thesis unfolding error_get_def
    by (rule valid_block) (auto intro!: stable_error_item u x i)
qed

text \<open>A position of a patch: the counters are in range.\<close>

lemma stable_patch:
  assumes "\<And>f :: globals \<Rightarrow> bool. stable (\<lambda>g. wf_nz z g \<and> gi g \<le> patchTop \<and> gj g \<le> patchTop) b E"
  shows "stable (wf_nz z) (for_patch b) E"
  by (rule stable_for_patch) (use assms in simp_all)

lemma stable_send_error: "stable I (send_error wd v) E"
  unfolding send_error_def by (rule valid_block) (auto intro: stable_uart)

lemma stable_error_send: "stable (wf_nz z) (error_send wd) (error_faults z)"
proof -
  have "mat_get (e_x (errors g)) (gi g) (gj g) \<noteq> Inl e" "mat_get (e_u (errors g)) (gi g) (gj g) \<noteq> Inl e"
    if "wf_nz z g" "gi g \<le> patchTop" "gj g \<le> patchTop" for g e
    using that mat_cell(1) [of _ "gi g" "gj g"] patch_index by (fastforce simp: wf_nz_def wf_defs wf_errors_def)+
  then show ?thesis unfolding error_send_def
    by (intro stable_block stable_error_get stable_patch stable_bnd stable_gete stable_send_error stable_getg) blast+
qed

section \<open>Template operations\<close>

lemma wf_nz_with_template: "wf_nz z g \<Longrightarrow> wf_template t \<Longrightarrow> wf_nz z (with_template no t g)"
  using set_update_subset_insert [of "templates g" "unat no" t]
  by (auto simp: wf_nz_def wf_defs wf_errors_def) (auto simp: with_template_def)

lemma store_var_ok:
  assumes g: "wf_nz z g" and ij: "unat i < 3" "unat j < 3"
  shows "store_var no loc i j g = Inl e \<Longrightarrow> e \<in> template_faults no"
    and "store_var no loc i j g = Inr g' \<Longrightarrow> wf_nz z g' \<and> general g' = general g"
proof -
  let ?v = "ucast (mpu_template_var (mpu g))"
  have len: "length (templates g) = 15" and wf: "\<And>n. n < 15 \<Longrightarrow> wf_template (templates g ! n)"
    using wf_nz_core [OF g] template_in_range by (simp_all add: wf_core_def)
  have store: "\<exists>t'. template_store loc i j v t = Inr t' \<and> wf_template t'" if "wf_template t" for t v
    using that mat_cell(2) [of "t_A t" i j v] mat_cell(2) [of "t_B t" i j v] ij
    by (auto simp: template_store_def wf_template_def)
  show "e \<in> template_faults no" if "store_var no loc i j g = Inl e"
  proof (cases "unat no < 15")
    case True
    then show ?thesis using that store [OF wf [OF True], of ?v] len
      by (auto simp: store_var_def nth_chk_def split: if_splits)
  next
    case False
    then show ?thesis using that len by (auto simp: store_var_def nth_chk_def template_faults_def split: if_splits)
  qed
  show "wf_nz z g' \<and> general g' = general g" if ok: "store_var no loc i j g = Inr g'"
  proof (cases "template_fetch loc i j = None")
    case True
    then show ?thesis using ok g by (simp add: store_var_def)
  next
    case False
    then obtain t' where n: "unat no < 15" and t': "template_store loc i j ?v (templates g ! unat no) = Inr t'"
      and g': "g' = with_template no t' g"
      using ok len False by (auto simp: store_var_def nth_chk_eq_Inr with_template_def)
    then have "wf_template t'" using store [OF wf [OF n], of ?v] by auto
    then show ?thesis using g' wf_nz_with_template [OF g] by simp
  qed
qed

lemma pixel_create_ok:
  assumes "wf_nz z g" "unat i < 3" "unat j < 3"
  shows "template_pixel_create no loc i j v g = Inl e \<Longrightarrow> e \<in> template_faults no"
    and "template_pixel_create no loc i j v g = Inr g' \<Longrightarrow> wf_nz z g' \<and> general g' = general g"
  unfolding template_pixel_create_def
  using store_var_ok [where z = z and no = no and loc = loc, OF _ assms(2,3)] assms(1)
  by (metis wf_nz_simps(4), metis wf_nz_simps(4) set_template_var_simps(9))

lemma template_fetch_ok:
  "template_fetch loc i j = Some f \<Longrightarrow> wf_template t \<Longrightarrow> unat i < 3 \<Longrightarrow> unat j < 3 \<Longrightarrow> \<exists>v. f t = Inr v"
  using mat_cell(1) [of "t_A t" i j] mat_cell(1) [of "t_B t" i j]
  by (auto simp: template_fetch_def wf_template_def split: if_splits)

lemma pixel_update_ok:
  assumes g: "wf_nz z g" and ij: "unat i < 3" "unat j < 3"
  shows "template_pixel_update no loc i j err g = Inl e \<Longrightarrow> e \<in> template_faults no"
    and "template_pixel_update no loc i j err g = Inr g' \<Longrightarrow> wf_nz z g' \<and> general g' = general g"
proof -
  note st = store_var_ok [where z = z and no = no and loc = loc, OF _ ij]
  show "e \<in> template_faults no" if e: "template_pixel_update no loc i j err g = Inl e"
  proof (cases "template_fetch loc i j")
    case None
    then show ?thesis using e by (simp add: template_pixel_update_def)
  next
    case (Some f)
    show ?thesis
    proof (cases "template_get no f g")
      case (Inl e')
      then have "e' \<in> template_faults no"
        using template_get_faults [OF wf_nz_core [OF g], of f no e'] template_fetch_ok [OF Some _ ij]
        by (auto simp: template_faults_def)
      then show ?thesis using e Some Inl by (simp add: template_pixel_update_def)
    next
      case (Inr v)
      then obtain x where "store_var no loc i j (set_template_var x g) = Inl e"
        using e Some by (simp add: template_pixel_update_def Let_def)
      then show ?thesis using st(1) [of "set_template_var x g"] g by simp
    qed
  qed
  show "wf_nz z g' \<and> general g' = general g" if ok: "template_pixel_update no loc i j err g = Inr g'"
  proof (cases "template_fetch loc i j")
    case None
    then show ?thesis using ok g by (simp add: template_pixel_update_def)
  next
    case (Some f)
    then obtain v where "template_get no f g = Inr v" using ok by (auto simp: template_pixel_update_def)
    then obtain x where "store_var no loc i j (set_template_var x g) = Inr g'"
      using ok Some by (simp add: template_pixel_update_def Let_def)
    then show ?thesis using st(2) [of "set_template_var x g" g'] g by simp
  qed
qed

definition in_patch :: "bool \<Rightarrow> globals \<Rightarrow> bool" where
  "in_patch z g \<longleftrightarrow> wf_nz z g \<and> gi g \<le> patchTop \<and> gj g \<le> patchTop"

lemma in_patch_bounds: "in_patch z g \<Longrightarrow> wf_nz z g" "in_patch z g \<Longrightarrow> unat (gi g) < 3" "in_patch z g \<Longrightarrow> unat (gj g) < 3"
  by (simp_all add: in_patch_def patch_index)

lemma stable_patch_ops:
  assumes "stable (in_patch z) b E"
  shows "stable (wf_nz z) (for_patch b) E"
proof (rule stable_for_patch)
  have "valid (\<lambda>s. in_patch z (fst s)) b (\<lambda>_ s. in_patch z (fst s)) E" by (rule assms)
  then show "stable (\<lambda>g. wf_nz z g \<and> gi g \<le> patchTop \<and> gj g \<le> patchTop) b E"
    by (simp only: in_patch_def)
qed simp_all

lemma in_patch_general: "in_patch z g \<Longrightarrow> wf_nz z g' \<and> general g' = general g \<Longrightarrow> in_patch z g'"
  by (simp add: in_patch_def)

lemma pixel_ops_in_patch:
  assumes "in_patch z g"
  shows "template_pixel_update no loc (gi g) (gj g) v g = Inl e \<Longrightarrow> e \<in> template_faults no"
    and "template_pixel_update no loc (gi g) (gj g) v g = Inr g' \<Longrightarrow> in_patch z g'"
    and "template_pixel_create no loc (gi g) (gj g) u g = Inl e \<Longrightarrow> e \<in> template_faults no"
    and "template_pixel_create no loc (gi g) (gj g) u g = Inr g' \<Longrightarrow> in_patch z g'"
  using pixel_update_ok [OF in_patch_bounds [OF assms]] pixel_create_ok [OF in_patch_bounds [OF assms]]
    in_patch_general [OF assms] by blast+

lemma stable_update_position: "stable (in_patch z) (update_position no) (template_faults no)"
proof -
  have "mat_get (e_x (errors g)) (gi g) (gj g) \<noteq> Inl e" "mat_get (e_u (errors g)) (gi g) (gj g) \<noteq> Inl e"
    if "in_patch z g" for g e
    using in_patch_bounds [OF that] mat_cell(1) [of _ "gi g" "gj g"] by (fastforce simp: wf_nz_def wf_defs wf_errors_def)+
  moreover have "stable (in_patch z) (mode (\<lambda>g. template_pixel_update no loc (gi g) (gj g) v g)) (template_faults no)" for loc v
    by (rule stable_mode) (erule (1) pixel_ops_in_patch)+
  ultimately show ?thesis unfolding update_position_def
    by (intro stable_block stable_bnd stable_gete) blast+
qed

lemma stable_update_biases: "stable (wf_nz z) (update_biases no) (template_faults no)"
proof -
  have "stable (wf_nz z) (mode (\<lambda>g. template_pixel_update no loc 0 0 (v g) g)) (template_faults no)" for loc v
    by (rule stable_mode) (use pixel_update_ok [where i = 0 and j = 0, simplified] in blast)+
  then show ?thesis unfolding update_biases_def by (intro stable_block) auto
qed

lemma stable_updates:
  "stable (wf_nz z) (template_update_1d no) (template_faults no)"
  "stable (wf_nz z) (template_update_2d wd no) (template_faults no \<union> error_faults z)"
proof -
  have u: "stable (wf_nz z) (update_biases no) (template_faults no \<union> error_faults z)"
    "stable (in_patch z) (update_position no) (template_faults no \<union> error_faults z)"
    "stable (wf_nz z) (error_get wd) (template_faults no \<union> error_faults z)"
    by (rule stable_mono [OF stable_update_biases] stable_mono [OF stable_update_position] stable_mono [OF stable_error_get], simp)+
  show "stable (wf_nz z) (template_update_1d no) (template_faults no)"
    unfolding template_update_1d_def
    by (intro stable_block stable_patch_ops stable_bnd valid_if stable_getg stable_update_position stable_update_biases stable_ret)
  show "stable (wf_nz z) (template_update_2d wd no) (template_faults no \<union> error_faults z)"
    unfolding template_update_2d_def by (intro stable_block stable_patch_ops u)
qed

lemma stable_template_create: "stable (wf_nz z) (template_create no) (template_faults no)"
proof -
  have loops: "for_i (\<lambda>g. gi g \<le> 2) (for_j (\<lambda>g. gj g \<le> 2) b) = for_patch b" for b
    by (simp add: for_patch_def package_defs)
  have 1: "stable (in_patch z) (mode (\<lambda>g. template_pixel_create no loc (gi g) (gj g) 0 g)) (template_faults no)" for loc
    by (rule stable_mode) (erule (1) pixel_ops_in_patch)+
  have 2: "stable (wf_nz z) (mode (template_pixel_create no loc 0 0 0)) (template_faults no)" for loc
    by (rule stable_mode) (use pixel_create_ok [where i = 0 and j = 0, simplified] in blast)+
  show ?thesis unfolding template_create_def loops by (intro stable_block stable_patch_ops 1 2)
qed

lemma stable_template_send: "stable (wf_nz z) (template_send wd) {OutOfBounds}"
proof -
  have send: "stable I (send_coefficient wd f) {OutOfBounds}"
    if "\<And>x g. I g \<Longrightarrow> I (set_template_var x g)" "\<And>g e. I g \<Longrightarrow> f g = Inl e \<Longrightarrow> e = OutOfBounds" for I f
    unfolding send_coefficient_def
    by (intro stable_block stable_bnd stable_gete stable_modg stable_getg stable_uart) (use that in auto)
  have P: "in_patch z (set_template_var x g) = in_patch z g" for x g by (simp add: in_patch_def)
  have A: "stable (in_patch z) (send_coefficient wd (\<lambda>g. template_get n (\<lambda>t. mat_get (t_A t) (gi g) (gj g)) g)) {OutOfBounds}"
    and B: "stable (in_patch z) (send_coefficient wd (\<lambda>g. template_get n (\<lambda>t. mat_get (t_B t) (gi g) (gj g)) g)) {OutOfBounds}" for n
  proof -
    have "\<exists>v. mat_get (t_A t) (gi g) (gj g) = Inr v" "\<exists>v. mat_get (t_B t) (gi g) (gj g) = Inr v"
      if "in_patch z g" "wf_template t" for g t
      using mat_cell(1) [of "t_A t" "gi g" "gj g"] mat_cell(1) [of "t_B t" "gi g" "gj g"]
        in_patch_bounds [OF that(1)] that(2) by (simp_all add: wf_template_def)
    then have "e = OutOfBounds" if "in_patch z g"
      "template_get n (\<lambda>t. mat_get (t_A t) (gi g) (gj g)) g = Inl e \<or> template_get n (\<lambda>t. mat_get (t_B t) (gi g) (gj g)) g = Inl e" for g e
      using that template_get_faults [OF wf_nz_core [OF in_patch_bounds(1) [OF that(1)]], of "\<lambda>t. mat_get (t_A t) (gi g) (gj g)" n e]
        template_get_faults [OF wf_nz_core [OF in_patch_bounds(1) [OF that(1)]], of "\<lambda>t. mat_get (t_B t) (gi g) (gj g)" n e] by blast
    then show "stable (in_patch z) (send_coefficient wd (\<lambda>g. template_get n (\<lambda>t. mat_get (t_A t) (gi g) (gj g)) g)) {OutOfBounds}"
      "stable (in_patch z) (send_coefficient wd (\<lambda>g. template_get n (\<lambda>t. mat_get (t_B t) (gi g) (gj g)) g)) {OutOfBounds}"
      by (simp_all add: send P)
  qed
  have C: "stable (wf_nz z) (send_coefficient wd (template_get n (\<lambda>t. Inr (f t)))) {OutOfBounds}" for n f
  proof (rule send)
    fix g e assume "wf_nz z g" "template_get n (\<lambda>t. Inr (f t)) g = Inl e"
    then show "e = OutOfBounds" using template_get_faults [OF wf_nz_core, of z g "\<lambda>t. Inr (f t)" n e] by simp
  qed simp
  show ?thesis unfolding template_send_def Let_def
    by (intro stable_bnd stable_uart stable_block stable_patch_ops A B C)
qed

section \<open>Runs and algorithms\<close>

lemma stable_cnn_driver:
  assumes "unat u < 20" "unat x < 20" "unat d < 20"
  shows "stable (wf_nz z) (cnn_driver wd u x d no iter Ts) ({NullDeref} \<union> template_faults no)"
proof -
  let ?E = "{NullDeref} \<union> template_faults no"
  have px: "stable (in_image z) (upload_pixel loc wr) ?E"
    if "unat loc < 20" "\<And>a v. stable (in_image z) (wr a v) ?E" for loc wr
    unfolding upload_pixel_def
    by (intro stable_bnd stable_getg stable_mono [OF stable_get_pixel] that) (use that in \<open>auto simp: pixel_faults_def\<close>)
  have t: "stable (wf_nz z) (template_set no) ?E" by (rule stable_mono [OF stable_template_set]) auto
  have s: "stable (in_image z) (mode (set_pixel (unat x) v)) ?E" for v
    by (rule stable_mono [OF stable_set_pixel]) (use assms in \<open>simp add: pixel_faults_def\<close>)
  show ?thesis unfolding cnn_driver_def
    by (intro stable_block stable_bnd stable_getg stable_command t stable_pixels px assms stable_l2cache stable_wait_ready s)
qed

lemma stable_learn_driver: "stable (wf_nz z) (learn_driver wd no) ({NullDeref} \<union> template_faults no)"
  unfolding learn_driver_def by (intro stable_bnd stable_getg stable_cnn_driver) simp_all

lemma stable_algorithms:
  "stable (wf_nz z) (algorithm1 wd) {NullDeref, OutOfBounds}"
  "stable (wf_nz z) (algorithm2 wd) {NullDeref}"
  "stable (wf_nz z) (algorithm3 wd) ({NullDeref} \<union> error_faults z)"
  "stable (wf_nz z) (algorithm4 wd) ({NullDeref} \<union> error_faults z)"
  "stable (wf_nz z) (algorithm5 wd) ({NullDeref} \<union> error_faults z)"
proof -
  let ?E = "{NullDeref} \<union> error_faults z"
  have d: "stable (wf_nz z) (cnn_driver wd u x d no iter Ts) {NullDeref}"
    if "unat u < 20" "unat x < 20" "unat d < 20" "unat no < 15" for u x d no iter Ts
    using stable_cnn_driver [OF that(1-3), of z wd no iter Ts] that(4) by (simp add: template_faults_def)
  have f: "stable (wf_nz z) (image_fill p 0) {NullDeref}" if "unat p < 20" for p
    using stable_image_fill [OF float_to_fixed_0, of z p] that by (simp add: pixel_faults_def)
  show "stable (wf_nz z) (algorithm1 wd) {NullDeref, OutOfBounds}"
    unfolding algorithm1_def
    by (intro stable_block stable_uart stable_bnd stable_getg stable_mono [OF stable_cnn_driver]) (simp_all add: template_faults_def)
  show "stable (wf_nz z) (algorithm2 wd) {NullDeref}"
    unfolding algorithm2_def by (intro stable_block stable_uart d f) simp_all
  have e: "stable (wf_nz z) (error_get wd) ?E" by (rule stable_mono [OF stable_error_get]) auto
  have l: "stable (wf_nz z) (learn_driver wd no) ?E"
    "stable (wf_nz z) (template_update_1d no) ?E" "stable (wf_nz z) (template_update_2d wd no) ?E"
    "stable (wf_nz z) (template_create no) ?E" if "unat no < 15" for no
    by (rule stable_mono [OF stable_learn_driver] stable_mono [OF stable_updates(1)]
        stable_mono [OF stable_updates(2)] stable_mono [OF stable_template_create], use that in \<open>auto simp: template_faults_def\<close>)+
  show "stable (wf_nz z) (algorithm3 wd) ?E"
    unfolding algorithm3_def by (intro stable_block stable_uart stable_learning l e) simp_all
  show "stable (wf_nz z) (algorithm4 wd) ?E"
    unfolding algorithm4_def by (intro stable_block stable_uart stable_learning l e) simp_all
  show "stable (wf_nz z) (algorithm5 wd) ?E"
    unfolding algorithm5_def by (intro stable_block stable_uart stable_learning l e) simp_all
qed

lemma stable_algorithm_run: "stable (wf_nz z) (algorithm_run wd) ({NullDeref, OutOfBounds} \<union> error_faults z)"
  unfolding algorithm_run_def
  by (intro stable_bnd stable_uart valid_if stable_ret; rule stable_mono, rule stable_algorithms, auto)

section \<open>Allocation\<close>

text \<open>
  The allocation of a stack keeps every property \<open>J\<close> of the globals that does not depend on the stack,
  the counters or the heap, and completes the planes it returns.
\<close>

lemma plane_ok_fresh: "plane_ok h w (Some (replicate h None))"
  by (simp add: plane_ok_def rows_ok_def)

lemma stable_c_malloc: "stable I (c_malloc wd n) E" if "\<And>g m. I g \<Longrightarrow> I (g\<lparr>heap_live := m\<rparr>)"
  unfolding c_malloc_def by (intro stable_bnd stable_getg valid_if stable_modg stable_ret that)

definition dims :: "(globals \<Rightarrow> bool) \<Rightarrow> nat \<Rightarrow> nat \<Rightarrow> globals \<Rightarrow> bool" where
  "dims J h w g \<longleftrightarrow> J g \<and> unat (img_height (image g)) = h \<and> unat (img_width (image g)) = w"

text \<open>The planes before the counter are complete; without a stack the counter is still 0.\<close>

definition filled_to :: "(globals \<Rightarrow> bool) \<Rightarrow> nat \<Rightarrow> nat \<Rightarrow> globals \<Rightarrow> bool" where
  "filled_to J h w g \<longleftrightarrow> dims J h w g \<and> gi g \<le> 20 \<and>
     (case img_data (image g) of None \<Rightarrow> gi g = 0
      | Some ps \<Rightarrow> length ps = 20 \<and> (\<forall>k < unat (gi g). plane_ok h w (ps ! k)))"

text \<open>The plane at the counter has its rows filled up to the second counter.\<close>

definition filling :: "(globals \<Rightarrow> bool) \<Rightarrow> nat \<Rightarrow> nat \<Rightarrow> globals \<Rightarrow> bool" where
  "filling J h w g \<longleftrightarrow> dims J h w g \<and> gi g < 20 \<and>
     (\<exists>ps. img_data (image g) = Some ps \<and> length ps = 20 \<and> (\<forall>k < unat (gi g). plane_ok h w (ps ! k))
        \<and> (case ps ! unat (gi g) of None \<Rightarrow> gj g = 0 | Some rs \<Rightarrow> length rs = h \<and> rows_ok w rs))"

locale stack_frame =
  fixes J :: "globals \<Rightarrow> bool"
  assumes frame: "J (set_i v g) = J g" "J (set_j v g) = J g" "J (set_img_data d g) = J g" "J (g\<lparr>heap_live := m\<rparr>) = J g"
    and count: "J g \<Longrightarrow> img_count (image g) = 20"
begin

lemma filling_simps [simp]:
  "dims J h w (g\<lparr>heap_live := m\<rparr>) = dims J h w g" "filling J h w (g\<lparr>heap_live := m\<rparr>) = filling J h w g"
  "filled_to J h w (g\<lparr>heap_live := m\<rparr>) = filled_to J h w g"
  "dims J h w (set_i v g) = dims J h w g" "dims J h w (set_j v g) = dims J h w g" "dims J h w (set_img_data d g) = dims J h w g"
  by (simp_all add: dims_def filling_def filled_to_def frame cong: option.case_cong)

lemma store_row_filling:
  assumes g: "filling J h w g" "gj g < ucast (img_height (image g))" and r: "\<forall>xs. r = Some xs \<longrightarrow> length xs = w"
  shows "store_row r g = Inl e \<Longrightarrow> e = NullDeref" and "store_row r g = Inr g' \<Longrightarrow> filling J h w (set_j (gj g' + 1) g')"
proof -
  obtain ps where ps: "img_data (image g) = Some ps" "length ps = 20" "\<forall>k < unat (gi g). plane_ok h w (ps ! k)"
    and pl: "case ps ! unat (gi g) of None \<Rightarrow> gj g = 0 | Some rs \<Rightarrow> length rs = h \<and> rows_ok w rs"
    and d: "dims J h w g" and i: "unat (gi g) < 20"
    using g(1) by (auto simp: filling_def word_less_nat_alt)
  have j: "unat (gj g) < h" using g(2) d by (simp add: dims_def word_less_nat_alt)
  show "e = NullDeref" if "store_row r g = Inl e"
    using that ps i pl j by (cases "ps ! unat (gi g)") (simp_all add: store_row_def nth_chk_def upd_chk_def)
  show "filling J h w (set_j (gj g' + 1) g')" if "store_row r g = Inr g'"
  proof -
    from that obtain rs where rs: "ps ! unat (gi g) = Some rs" "unat (gj g) < length rs"
      and g': "g' = set_img_data (Some (ps[unat (gi g) := Some (rs[unat (gj g) := r])])) g"
      using ps i by (auto simp: store_row_def nth_chk_eq_Inr upd_chk_eq_Inr)
    have "rows_ok w (rs[unat (gj g) := r])"
      using pl rs r set_update_subset_insert [of rs "unat (gj g)" r] by (auto simp: rows_ok_def)
    then show ?thesis using g(1) d ps pl rs i by (simp add: g' filling_def)
  qed
qed

lemma valid_alloc_row:
  "valid (\<lambda>s. filling J h w (fst s) \<and> gj (fst s) < ucast (img_height (image (fst s)))) (alloc_row wd)
     (\<lambda>_ s. filling J h w (set_j (gj (fst s) + 1) (fst s))) {NullDeref}"
proof -
  let ?P = "\<lambda>g. filling J h w g \<and> gj g < ucast (img_height (image g))"
  have mal: "stable ?P (c_malloc wd n) {NullDeref}" for n by (rule stable_c_malloc) simp
  show ?thesis unfolding alloc_row_def
  proof (rule valid_bnd_getg)
    fix x
    show "valid (\<lambda>s. (filling J h w (fst s) \<and> gj (fst s) < ucast (img_height (image (fst s)))) \<and> x = unat (img_width (image (fst s))))
        (bnd (c_malloc wd (x * 2)) (\<lambda>ok. mode (store_row (if ok then Some (replicate x 0) else None))))
        (\<lambda>_ s. filling J h w (set_j (gj (fst s) + 1) (fst s))) {NullDeref}"
    proof (rule valid_bnd)
      show "valid (\<lambda>s. (filling J h w (fst s) \<and> gj (fst s) < ucast (img_height (image (fst s)))) \<and> x = unat (img_width (image (fst s))))
          (c_malloc wd (x * 2)) (\<lambda>_ s. (?P (fst s)) \<and> x = w) {NullDeref}"
      proof (cases "x = w")
        case True
        then show ?thesis using mal [of "x * 2"] by (auto elim!: valid_weaken)
      next
        case False
        then show ?thesis by (auto simp: valid_def filling_def dims_def)
      qed
      fix ok
      show "valid (\<lambda>s. ?P (fst s) \<and> x = w) (mode (store_row (if ok then Some (replicate x 0) else None)))
          (\<lambda>_ s. filling J h w (set_j (gj (fst s) + 1) (fst s))) {NullDeref}"
      proof -
        have "\<forall>xs. (if ok then Some (replicate w (0 :: u16)) else None) = Some xs \<longrightarrow> length xs = w" by auto
        from store_row_filling [OF _ _ this] show ?thesis by (intro valid_mode) auto
      qed
    qed
  qed
qed

lemma valid_alloc_rows:
  "valid (\<lambda>s. filling J h w (set_j 0 (fst s))) (for_j (\<lambda>g. gj g < ucast (img_height (image g))) (alloc_row wd))
     (\<lambda>_ s. filled_to J h w (set_i (gi (fst s) + 1) (fst s))) {NullDeref}"
proof -
  have "valid (\<lambda>s. filling J h w (fst s)) (while_loop (getg (\<lambda>g. gj g < ucast (img_height (image g)))) (block [alloc_row wd, modg (\<lambda>g. set_j (gj g + 1) g)]))
      (\<lambda>_ s. filling J h w (fst s) \<and> \<not> gj (fst s) < ucast (img_height (image (fst s)))) {NullDeref}"
    by (rule valid_while_getg [of "filling J h w"], rule valid_block_Cons [OF valid_alloc_row],
        rule valid_block_Cons [OF _ valid_block_Nil], rule valid_modg) simp
  moreover have "filled_to J h w (set_i (gi g + 1) g)" if g: "filling J h w g" "\<not> gj g < ucast (img_height (image g))" for g
  proof -
    obtain ps where ps: "img_data (image g) = Some ps" "length ps = 20" "\<forall>k < unat (gi g). plane_ok h w (ps ! k)"
      and pl: "case ps ! unat (gi g) of None \<Rightarrow> gj g = 0 | Some rs \<Rightarrow> length rs = h \<and> rows_ok w rs"
      and d: "dims J h w g" and i: "gi g < 20"
      using g(1) by (auto simp: filling_def)
    have i': "unat (gi g + 1) = Suc (unat (gi g))" using i by (intro unat_plus_simple [THEN iffD1, THEN trans]) (auto simp: word_less_nat_alt word_le_nat_alt unat_word_ariths)
    have "h = 0" if "gj g = 0" using g(2) d that by (simp add: dims_def word_less_nat_alt)
    then have "plane_ok h w (ps ! unat (gi g))" using pl by (auto simp: plane_ok_def split: option.splits)
    then have "\<forall>k < unat (gi g + 1). plane_ok h w (ps ! k)" using ps i' by (auto simp: less_Suc_eq)
    moreover have "gi g + 1 \<le> 20" using i i' by (simp add: word_less_nat_alt word_le_nat_alt)
    ultimately show ?thesis using d ps by (simp add: filled_to_def)
  qed
  ultimately show ?thesis unfolding for_j_def
    by (intro valid_block_Cons [OF valid_modg [where Q = "\<lambda>_ s. filling J h w (fst s)"] valid_block_Cons [OF _ valid_block_Nil]])
      (auto elim!: valid_weaken)
qed

lemma store_plane_filling:
  assumes g: "filled_to J h w g" "gi g < 20" and pl: "pl = None \<or> pl = Some (replicate h None)"
  shows "store_plane pl g = Inl e \<Longrightarrow> e = NullDeref" and "store_plane pl g = Inr g' \<Longrightarrow> filling J h w (set_j 0 g')"
proof -
  have i: "unat (gi g) < 20" using g(2) by (simp add: word_less_nat_alt)
  show "e = NullDeref" if "store_plane pl g = Inl e"
    using that g(1) i by (auto simp: store_plane_def filled_to_def upd_chk_def split: option.splits)
  show "filling J h w (set_j 0 g')" if "store_plane pl g = Inr g'"
  proof -
    from that obtain ps where ps: "img_data (image g) = Some ps" and g': "g' = set_img_data (Some (ps[unat (gi g) := pl])) g"
      by (auto simp: store_plane_def upd_chk_eq_Inr)
    have "length ps = 20" "\<forall>k < unat (gi g). plane_ok h w (ps ! k)" "dims J h w g"
      using g(1) ps by (simp_all add: filled_to_def)
    then show ?thesis using g(2) i pl by (auto simp: g' filling_def rows_ok_def)
  qed
qed

lemma valid_alloc_plane:
  "valid (\<lambda>s. filled_to J h w (fst s) \<and> gi (fst s) < 20) (alloc_plane wd) (\<lambda>_ s. filling J h w (set_j 0 (fst s))) {NullDeref}"
proof -
  let ?P = "\<lambda>g. filled_to J h w g \<and> gi g < 20"
  have mal: "stable ?P (c_malloc wd n) {NullDeref}" for n by (rule stable_c_malloc) simp
  show ?thesis unfolding alloc_plane_def
  proof (rule valid_bnd_getg)
    fix x
    show "valid (\<lambda>s. (filled_to J h w (fst s) \<and> gi (fst s) < 20) \<and> x = unat (img_height (image (fst s))))
        (bnd (c_malloc wd (x * 4)) (\<lambda>ok. mode (store_plane (if ok then Some (replicate x None) else None))))
        (\<lambda>_ s. filling J h w (set_j 0 (fst s))) {NullDeref}"
    proof (rule valid_bnd)
      show "valid (\<lambda>s. (filled_to J h w (fst s) \<and> gi (fst s) < 20) \<and> x = unat (img_height (image (fst s))))
          (c_malloc wd (x * 4)) (\<lambda>_ s. (?P (fst s)) \<and> x = h) {NullDeref}"
      proof (cases "x = h")
        case True
        then show ?thesis using mal [of "x * 4"] by (auto elim!: valid_weaken)
      next
        case False
        then show ?thesis by (auto simp: valid_def filled_to_def dims_def)
      qed
      fix ok
      show "valid (\<lambda>s. ?P (fst s) \<and> x = h) (mode (store_plane (if ok then Some (replicate x None) else None)))
          (\<lambda>_ s. filling J h w (set_j 0 (fst s))) {NullDeref}"
      proof -
        have "(if ok then Some (replicate h None) else None) = None \<or> (if ok then Some (replicate h None) else None) = Some (replicate h (None :: row_ptr))"
          by simp
        from store_plane_filling [OF _ _ this] show ?thesis by (intro valid_mode) auto
      qed
    qed
  qed
qed

lemma valid_alloc_top: "valid (\<lambda>s. dims J h w (fst s)) (alloc_top wd) (\<lambda>_ s. filled_to J h w (set_i 0 (fst s))) {NullDeref}"
  unfolding alloc_top_def
proof (rule valid_bnd_getg, rule valid_bnd)
  fix n ok
  show "valid (\<lambda>s. dims J h w (fst s) \<and> n = unat (img_count (image (fst s)))) (c_malloc wd (n * 4))
      (\<lambda>_ s. dims J h w (fst s) \<and> n = unat (img_count (image (fst s)))) {NullDeref}"
    by (rule stable_c_malloc) simp
  show "valid (\<lambda>s. dims J h w (fst s) \<and> n = unat (img_count (image (fst s))))
      (modg (set_img_data (if ok then Some (replicate n None) else None)))
      (\<lambda>_ s. filled_to J h w (set_i 0 (fst s))) {NullDeref}"
    by (rule valid_modg) (auto simp: filled_to_def dims_def frame count)
qed

lemma valid_image_alloc_dims:
  "valid (\<lambda>s. dims J h w (fst s)) (image_alloc wd) (\<lambda>_ s. J (fst s) \<and> wf_image (fst s)) {NullDeref}"
proof -
  let ?L = "while_loop (getg (\<lambda>g. gi g < 20)) (block [block [alloc_plane wd,
         for_j (\<lambda>g. gj g < ucast (img_height (image g))) (alloc_row wd)], modg (\<lambda>g. set_i (gi g + 1) g)])"
  have free: "dims J h w (free_image g) = dims J h w g" for g
    by (cases "img_data (image g)") (simp_all add: free_image_def)
  have loop: "valid (\<lambda>s. filled_to J h w (fst s)) ?L (\<lambda>_ s. filled_to J h w (fst s) \<and> \<not> gi (fst s) < 20) {NullDeref}"
    by (rule valid_while_getg [of "filled_to J h w"], rule valid_block_Cons,
        rule valid_block_Cons [OF valid_alloc_plane valid_block_Cons [OF valid_alloc_rows valid_block_Nil]],
        rule valid_block_Cons [OF _ valid_block_Nil], rule valid_modg) simp
  have fin: "J g \<and> wf_image g" if f: "filled_to J h w g" "\<not> gi g < 20" for g
  proof -
    have gi: "gi g = 20" using f by (simp add: filled_to_def)
    then obtain ps where "img_data (image g) = Some ps" "length ps = 20" "\<forall>k < 20. plane_ok h w (ps ! k)"
      using f(1) by (auto simp: filled_to_def split: option.splits)
    then show ?thesis using f(1)
      by (auto simp: filled_to_def dims_def wf_image_def stack_ok_def in_set_conv_nth)
  qed
  have "valid (\<lambda>s. dims J h w (fst s)) (image_alloc wd) (\<lambda>_ s. filled_to J h w (fst s) \<and> \<not> gi (fst s) < 20) {NullDeref}"
    unfolding image_alloc_def for_i_def
    by (rule valid_block_Cons, rule valid_modg [where Q = "\<lambda>_ s. dims J h w (fst s)"], simp add: free,
        rule valid_block_Cons [OF valid_alloc_top], rule valid_block_Cons [OF _ valid_block_Nil],
        rule valid_block_Cons, rule valid_modg [where Q = "\<lambda>_ s. filled_to J h w (fst s)"], simp,
        rule valid_block_Cons [OF loop valid_block_Nil])
  then show ?thesis by (rule valid_weaken) (use fin in auto)
qed

lemma valid_image_alloc:
  "valid (\<lambda>s. J (fst s)) (image_alloc wd) (\<lambda>_ s. J (fst s) \<and> wf_image (fst s)) {NullDeref}"
proof (rule validI)
  fix s e assume "J (fst s)" "image_alloc wd s = Some (Inl e)"
  then show "e \<in> {NullDeref}" using validD(2) [OF valid_image_alloc_dims [of "unat (img_height (image (fst s)))" "unat (img_width (image (fst s)))" wd], of s] by (simp add: dims_def)
next
  fix s s' :: "globals \<times> event list" and a :: unit assume "J (fst s)" "image_alloc wd s = Some (Inr (a, s'))"
  then show "J (fst s') \<and> wf_image (fst s')" using validD(1) [OF valid_image_alloc_dims [of "unat (img_height (image (fst s)))" "unat (img_width (image (fst s)))" wd], of s] by (simp add: dims_def)
qed

end

section \<open>Headers, requests and the loop\<close>

interpretation core_frame: stack_frame wf_core
  by unfold_locales (simp_all add: wf_core_def wf_errors_def)

lemma stable_read_u16:
  assumes "\<And>f g. I g \<Longrightarrow> I (upd f g)"
  shows "stable I (read_u16 wd upd) E"
  unfolding read_u16_def by (intro stable_block stable_bnd stable_uart stable_modg assms)

lemma wf_core_header [simp]:
  "wf_core (image_update (img_width_update f) g) = wf_core g" "wf_core (image_update (img_height_update f) g) = wf_core g"
  "wf_core (cnn_update c g) = wf_core g" "wf_core (upd_iter_cnt f g) = wf_core g"
  by (simp_all add: wf_core_def wf_errors_def upd_iter_cnt_def)

lemma wf_set_shift: "wf_core g \<Longrightarrow> wf_image g \<Longrightarrow> wf_state (set_shift g)"
  by (simp add: wf_defs wf_errors_def set_shift_def)

lemma valid_header_read:
  "valid (\<lambda>s. wf_core (fst s)) (header_read wd) (\<lambda>_ s. wf_state (fst s)) {NullDeref}"
proof -
  have tail: "valid (\<lambda>s. wf_core (fst s)) (block [image_alloc wd, modg set_shift, uart_write wd 1]) (\<lambda>_ s. wf_state (fst s)) {NullDeref}"
    by (rule valid_block_Cons [OF core_frame.valid_image_alloc], rule valid_block_Cons [OF valid_modg [where Q = "\<lambda>_ s. wf_state (fst s)"]],
        simp add: wf_set_shift, rule valid_block_Cons [OF stable_uart(2) valid_block_Nil])
  show ?thesis unfolding header_read_def
    by (intro valid_block_Cons [OF stable_command] valid_block_Cons [OF stable_read_u16] valid_block_Cons [OF stable_modg]
        valid_block_Cons [OF stable_bnd [OF stable_getg stable_command]] tail) simp_all
qed

definition request_faults :: "u8 \<Rightarrow> bool \<Rightarrow> fault set" where
  "request_faults request pixels =
     (if request = 0 then {NullDeref}
      else if request = 1 \<or> request = 3 then {NullDeref, OutOfBounds}
      else if request = 2 then {NullDeref, OutOfBounds} \<union> error_faults pixels
      else if request = 4 then error_faults pixels
      else if request = 5 then {OutOfBounds}
      else {})"

lemma valid_dispatch:
  "valid (\<lambda>s. wf_nz z (fst s)) (dispatch wd request) (\<lambda>_ s. wf_state (fst s)) (request_faults request z)"
proof -
  have w: "valid (\<lambda>s. wf_nz z (fst s)) m (\<lambda>_ s. wf_state (fst s)) E" if "stable (wf_nz z) m E" for m :: "(globals, unit) fw" and E
    using that by (rule valid_weaken) (auto simp: wf_nz_def)
  have h: "valid (\<lambda>s. wf_nz z (fst s)) (header_read wd) (\<lambda>_ s. wf_state (fst s)) {NullDeref}"
    by (rule valid_weaken [OF valid_header_read]) (auto intro: wf_nz_core)
  show ?thesis unfolding dispatch_def
    by (intro valid_if)
      (auto simp: request_faults_def intro!: h w stable_image_read stable_algorithm_run [simplified] stable_image_send
        stable_error_send stable_template_send stable_ret)
qed

section \<open>Initialisation\<close>

definition pre_core :: "globals \<Rightarrow> bool" where
  "pre_core g \<longleftrightarrow> img_count (image g) = 20 \<and> length (templates g) = 15 \<and> (\<forall>t \<in> set (templates g). wf_template t)
     \<and> wf_errors g \<and> wf_shift g"

interpretation pre_frame: stack_frame pre_core
  by unfold_locales (simp_all add: pre_core_def wf_errors_def wf_shift_def)

lemma wf_template_tmpl:
  "wf_template (tmpl [[a, b, c], [d, e, f], [g, h, i]] [[j, k, l], [m, n, p], [q, r, s]] I x u)"
  by (simp add: wf_template_def tmpl_def shaped_def)

lemma reset_templates: "length template_init = 15" "t \<in> set template_init \<Longrightarrow> wf_template t"
  by (auto simp: template_init_def wf_template_tmpl)

lemma valid_init:
  "valid (\<lambda>s. fst s = globals_at_reset) (init_system wd) (\<lambda>_ s. wf_state (fst s)) {NullDeref}"
proof -
  let ?P = "\<lambda>s :: globals \<times> event list. pre_core (fst s) \<and> wf_image (fst s)"
  have general: "valid (\<lambda>s. fst s = globals_at_reset) init_general
      (\<lambda>_ s. templates (fst s) = template_init \<and> wf_errors (fst s)) {NullDeref}"
    unfolding init_general_def
    by (intro valid_block_Cons [OF valid_modg [where Q = "\<lambda>_ s. templates (fst s) = template_init \<and> wf_errors (fst s)"]] valid_block_Nil)
      (auto simp: globals_at_reset_def wf_errors_def zero_patch_def)
  have img: "valid (\<lambda>s. templates (fst s) = template_init \<and> wf_errors (fst s)) (init_image wd) (\<lambda>_. ?P) {NullDeref}"
    unfolding init_image_def
    by (rule valid_block_Cons, rule valid_modg [where Q = "\<lambda>_ s. templates (fst s) = template_init \<and> wf_errors (fst s) \<and> img_count (image (fst s)) = 20"],
        simp add: wf_errors_def, rule valid_block_Cons, rule valid_modg [where Q = "\<lambda>_ s. pre_core (fst s)"],
        simp add: pre_core_def set_shift_def wf_errors_def wf_shift_def reset_templates,
        rule valid_block_Cons [OF pre_frame.valid_image_alloc valid_block_Nil])
  have cnn: "valid ?P init_cnn (\<lambda>_. ?P) {NullDeref}"
    unfolding init_cnn_def by (rule valid_modg) (simp add: pre_core_def wf_errors_def wf_shift_def wf_image_def)
  have ptr: "valid ?P (block [init_uart, init_gpio, init_l2cache, command CMD_STATE_RST 1]) (\<lambda>_ s. wf_state (fst s)) {NullDeref}"
  proof -
    let ?Q = "\<lambda>s :: globals \<times> event list. \<exists>g. fst s = store_pointers uart_table g \<and> pre_core g \<and> wf_image g"
    have l2: "stable wf_state init_l2cache {NullDeref}"
      unfolding init_l2cache_def l2cache_setdimensions_def by (intro valid_if stable_block stable_command stable_ret)
    have full: "wf_state (store_pointers gpio_table (store_pointers uart_table g))" if "pre_core g" "wf_image g" for g
    proof -
      have "pointers_ok (store_pointers gpio_table (store_pointers uart_table g))" by (rule store_pointers_init)
      then show ?thesis using that
        by (simp add: wf_defs pre_core_def wf_errors_def) (simp add: store_pointers_def)
    qed
    have uart: "valid ?P init_uart (\<lambda>_. ?Q) {NullDeref}" unfolding init_uart_def by (rule valid_modg) auto
    have gpio: "valid ?Q init_gpio (\<lambda>_ s. wf_state (fst s)) {NullDeref}"
      unfolding init_gpio_def by (rule valid_modg) (use full in auto)
    show ?thesis
      by (rule valid_block_Cons [OF uart valid_block_Cons [OF gpio valid_block_Cons [OF l2 valid_block_Cons [OF stable_command valid_block_Nil]]]])
  qed
  show ?thesis unfolding init_system_def
    by (rule valid_block_Cons [OF general valid_block_Cons [OF img valid_block_Cons [OF cnn ptr]]])
qed

theorem reachable_wf: "reachable wd s \<Longrightarrow> wf_state (fst s)"
proof (induction rule: reachable.induct)
  case (boot s)
  then show ?case using validD(1) [OF valid_init, of "(globals_at_reset, [])"] by simp
next
  case (step s s')
  have "valid (\<lambda>s. wf_nz False (fst s)) (main_body wd) (\<lambda>_ s. wf_state (fst s)) UNIV"
    unfolding main_body_def
    by (rule valid_bnd [OF stable_uart(1)], rule valid_weaken [OF valid_dispatch]) auto
  moreover have "wf_nz False (fst s)" using step by (simp add: wf_nz_def)
  ultimately show ?case using step validD(1) by (auto simp: main_step_iff)
qed

end
