(* ===== verification/Board.thy ===== *)
theory Board
  imports Firmware
begin

text \<open>
  A board: a concrete world that meets the contracts of the UART, the CNN processor and the error
  registers, for every input of the host, every function \<open>net\<close> the network may compute and every
  error \<open>err\<close> it may report. It answers from the history of accesses, as the device registers do: an octet
  is in the receive register only when the status has announced it, the ready flag stays down for two polls after
  a start, and until a poll has found it up the result cache shows no result.
  The contracts are interpreted on it, so their hypotheses can be met.
\<close>

section \<open>The devices' answers\<close>

text \<open>The accesses before the last start of the network.\<close>

definition before_start :: "event list \<Rightarrow> event list" where
  "before_start q = tl (dropWhile (\<lambda>e. e \<noteq> cmd CMD_STATE_RST 0) q)"

fun shown_address :: "event list \<Rightarrow> u16" where
  "shown_address (Wr w a v # q) = ucast v"
| "shown_address q = 0"

text \<open>Since the last start: how often the ready flag was polled, and whether a poll has found it up.\<close>

definition polls :: "event list \<Rightarrow> nat" where
  "polls h = length (filter (\<lambda>e. case e of Rd w a v \<Rightarrow> a = feedback_a | Wr w a v \<Rightarrow> False)
     (takeWhile (\<lambda>e. e \<noteq> cmd CMD_STATE_RST 0) h))"

definition shown_ready :: "event list \<Rightarrow> bool" where
  "shown_ready q \<longleftrightarrow> ready_seen \<in> set (takeWhile (\<lambda>e. e \<noteq> cmd CMD_STATE_RST 0) q)"

definition board_answer ::
  "u8 list \<Rightarrow> (event list \<Rightarrow> u16 \<Rightarrow> u16) \<Rightarrow> (event list \<Rightarrow> mpu_reg \<Rightarrow> u32) \<Rightarrow> event list \<Rightarrow> u32 \<Rightarrow> u32" where
  "board_answer inp net err h a =
     (let q = quiet h; n = rx_count q in
      if a = uart_status_a then (if n < length inp then 1 else 0)
      else if a = uart_rx_a then (if rx_valid h \<and> n < length inp then ucast (inp ! n) else 0)
      else if a = feedback_a then (if 2 \<le> polls h then 1 else 0)
      else if a = reg_addr (R_data_out Cache_x) then (if shown_ready q then ucast (net (before_start q) (shown_address q)) else 0)
      else (case find (\<lambda>r. reg_addr r = a) error_regs of
              Some r \<Rightarrow> err (before_start q) r
            | None \<Rightarrow> 0))"

definition board :: "u8 list \<Rightarrow> (event list \<Rightarrow> u16 \<Rightarrow> u16) \<Rightarrow> (event list \<Rightarrow> mpu_reg \<Rightarrow> u32) \<Rightarrow> world" where
  "board inp net err = \<lparr>bus_in = board_answer inp net err, heap_fits = (\<lambda>_ _. True)\<rparr>"

lemma board_simps [simp]:
  "bus_in (board inp net err) = board_answer inp net err" "heap_fits (board inp net err) l n = True"
  by (simp_all add: board_def)

lemma board_fits [simp]: "fits_upto (board inp net err) B"
  by (simp add: fits_upto_def)

lemma board_answer_simps:
  "board_answer inp net err h uart_status_a = (if rx_count (quiet h) < length inp then 1 else 0)"
  "board_answer inp net err h uart_rx_a = (if rx_valid h \<and> rx_count (quiet h) < length inp then ucast (inp ! rx_count (quiet h)) else 0)"
  "board_answer inp net err h feedback_a = (if 2 \<le> polls h then 1 else 0)"
  "board_answer inp net err h (reg_addr (R_data_out Cache_x)) =
     (if shown_ready (quiet h) then ucast (net (before_start (quiet h)) (shown_address (quiet h))) else 0)"
  by (simp_all add: board_answer_def Let_def iomodule_neq [symmetric])

lemma before_start_append:
  assumes "cmd CMD_STATE_RST 0 \<notin> set es"
  shows "before_start (es @ cmd CMD_STATE_RST 0 # q) = q"
proof -
  have "dropWhile (\<lambda>e. e \<noteq> cmd CMD_STATE_RST 0) (es @ cmd CMD_STATE_RST 0 # q) = cmd CMD_STATE_RST 0 # q"
    using assms by (subst dropWhile_append2) auto
  then show ?thesis by (simp add: before_start_def)
qed

lemma fetch_not_start [simp]: "cmd c v \<noteq> fetch_addr a" "cmd c v \<noteq> fetch_data d" "cmd c v \<noteq> error_read raw r"
  by (simp_all add: fetch_addr_def fetch_data_def cmd_def error_read_def)

section \<open>The contracts hold of the board\<close>

interpretation board_uart: uart_env "board inp net err" inp for inp net err
proof
  fix h
  show "rx_count (quiet h) < length inp \<Longrightarrow>
      \<exists>n. bus_in (board inp net err) (polled (board inp net err) W8 uart_status_a n h) uart_status_a AND 1 \<noteq> 0"
    by (intro exI [of _ 0]) (simp add: board_answer_simps)
  show "rx_valid h \<Longrightarrow> rx_count (quiet h) < length inp \<Longrightarrow>
      ucast (bus_in (board inp net err) h uart_rx_a) = inp ! rx_count (quiet h)"
    by (simp add: board_answer_simps)
  show "\<exists>n. bus_in (board inp net err) (polled (board inp net err) W8 uart_status_a n h) uart_status_a AND 8 = 0"
    by (intro exI [of _ 0]) (simp add: board_answer_simps)
qed

lemma ready_not_start [simp]: "ready_seen \<noteq> cmd c v" "ready_seen \<noteq> fetch_addr a" "cmd c v \<noteq> ready_seen"
  by (simp_all add: ready_seen_def cmd_def fetch_addr_def)

lemma polls_twice: "2 \<le> polls (polled wd w feedback_a 2 h)"
proof -
  have "polled wd w feedback_a 2 h = polled wd w feedback_a (Suc (Suc 0)) h" by (simp only: numeral_2_eq_2)
  then show ?thesis by (simp add: polls_def cmd_def)
qed

lemma shown_readyI:
  assumes "cmd CMD_STATE_RST 0 \<notin> set es"
  shows "shown_ready (es @ ready_seen # q)"
  using assms by (subst shown_ready_def, subst takeWhile_append2) auto

interpretation board_cnn: cnn_env "board inp net err" inp net for inp net err
proof
  fix h a es q
  show "\<exists>n. bus_in (board inp net err) (polled (board inp net err) W32 feedback_a n h) feedback_a AND 1 \<noteq> 0"
    by (intro exI [of _ 2]) (simp add: board_answer_simps polls_twice del: polled.simps)
  assume h: "quiet h = fetch_addr a # es @ ready_seen # cmd CMD_STATE_RST 0 # q"
    and es: "set es \<subseteq> range fetch_addr \<union> range fetch_data"
  have "cmd CMD_STATE_RST 0 \<notin> set (fetch_addr a # es @ [ready_seen])"
    using es by auto
  from before_start_append [OF this, of q] have "before_start (quiet h) = q" by (simp add: h)
  moreover have "cmd CMD_STATE_RST 0 \<notin> set (fetch_addr a # es)" using es by auto
  from shown_readyI [OF this, of "cmd CMD_STATE_RST 0 # q"] have "shown_ready (quiet h)" by (simp add: h)
  ultimately show "ucast (bus_in (board inp net err) h (reg_addr (R_data_out Cache_x))) = net q a"
    by (simp add: board_answer_simps h fetch_addr_def)
qed

lemma find_reg: "r \<in> set rs \<Longrightarrow> find (\<lambda>r'. reg_addr r' = reg_addr r) rs = Some r"
  by (induction rs) auto

lemma error_answer:
  assumes "r \<in> set error_regs"
  shows "board_answer inp net err h (reg_addr r) = err (before_start (quiet h)) r"
proof -
  have "r \<noteq> R_uart_status" "r \<noteq> R_uart_rx" "r \<noteq> R_feedback" "r \<noteq> R_data_out Cache_x"
    using assms by (auto simp: error_regs_def patch_def)
  then show ?thesis using find_reg [OF assms] by (simp add: board_answer_def Let_def)
qed

interpretation board_learn: learn_env "board inp net err" inp net err for inp net err
proof
  fix q0 wid hei
  show "holds_errors (board inp net err) (run_trace (net q0) wid hei q0) (err q0)"
    unfolding holds_errors_def
  proof (intro allI impI)
    fix h rs r
    assume h: "quiet h = map (error_read (err q0)) rs @ run_trace (net q0) wid hei q0" and r: "r \<in> set error_regs"
    let ?es = "map (error_read (err q0)) rs @ rev (pixel_trace (unat hei) (unat wid) (fetch_events (net q0) (unat wid))) @ [ready_seen]"
    have "cmd CMD_STATE_RST 0 \<notin> set ?es"
      by (auto simp: pixel_trace_def mat_def fetch_events_def)
    from before_start_append [OF this, of q0] r
    show "bus_in (board inp net err) h (reg_addr r) = err q0 r"
      by (simp add: error_answer h run_trace_def)
  qed
qed

lemma board_is_uart: "uart_env (board inp net err) inp"
  by (rule board_uart.uart_env_axioms)

lemma board_is_cnn: "cnn_env (board inp net err) inp net"
  by (rule board_cnn.cnn_env_axioms)

lemma board_is_learn: "learn_env (board inp net err) inp net err"
  by (rule board_learn.learn_env_axioms)

section \<open>A state to run from\<close>

text \<open>A booted firmware with an image of \<open>w\<close> by \<open>h\<close> pixels, all planes zero.\<close>

definition demo :: "u16 \<Rightarrow> u16 \<Rightarrow> globals" where
  "demo w h = globals_at_reset\<lparr>
     image := \<lparr>img_data = planes (zero_planes 20 (unat h) (unat w)), img_width = w, img_height = h, img_count = 20,
               img_shift = ucast w * ucast h\<rparr>,
     cnn := \<lparr>cnn_Ts = 102, cnn_iter_cnt = 3, cnn_template_no = 0, cnn_learn_loop = 2, cnn_learn_rate = 10\<rparr>,
     mpu := (mpu globals_at_reset)\<lparr>mpu_regs := reg_addr\<rparr>\<rparr>"

lemma demo_simps [simp]:
  "img_data (image (demo w h)) = planes (zero_planes 20 (unat h) (unat w))" "img_width (image (demo w h)) = w"
  "img_height (image (demo w h)) = h" "img_count (image (demo w h)) = 20"
  "img_shift (image (demo w h)) = ucast w * ucast h" "templates (demo w h) = template_init"
  "pointers_ok (demo w h)" "errors (demo w h) = \<lparr>e_u = zero_patch, e_x = zero_patch, e_i = 0\<rparr>"
  "heap_live (demo w h) = 0" "wf_errors (demo w h)"
  "cnn (demo w h) = \<lparr>cnn_Ts = 102, cnn_iter_cnt = 3, cnn_template_no = 0, cnn_learn_loop = 2, cnn_learn_rate = 10\<rparr>"
  by (simp_all add: demo_def globals_at_reset_def pointers_ok_def wf_errors_def zero_patch_def)

lemma length_zero_planes [simp]: "length (zero_planes n h w) = n"
  by (simp add: zero_planes_def)

lemma zero_planes_shaped: "M \<in> set (zero_planes n h w) \<Longrightarrow> shaped h w M"
  by (auto simp: zero_planes_def)

lemma demo_templates: "n < 15 \<Longrightarrow> wf_template (template_init ! n)"
  by (simp add: reset_templates)

lemma demo_runnable [simp]: "runnable (demo w h)"
  unfolding runnable_def
  using zero_planes_shaped reset_templates by (auto intro!: exI [of _ "zero_planes 20 (unat h) (unat w)"])

end
