(* ===== verification/Results.thy ===== *)
theory Results
  imports Board
begin

text \<open>
  Consequences of the components' contracts that the properties of the program rest on: how often a
  learning loop starts the network, what the two templates of the multilayer loop become, which
  addresses the pixels take, and what a sequence of headers costs.
\<close>

section \<open>Starts of the network\<close>

definition starts :: "event list \<Rightarrow> nat" where
  "starts q = length (filter (\<lambda>e. e = cmd CMD_STATE_RST 0) q)"

lemma starts_append [simp]: "starts (p @ q) = starts p + starts q"
  by (simp add: starts_def)

lemma starts_rev [simp]: "starts (rev q) = starts q"
  by (simp add: starts_def rev_filter [symmetric])

lemma starts_0: "cmd CMD_STATE_RST 0 \<notin> set q \<Longrightarrow> starts q = 0"
  by (auto simp: starts_def filter_empty_conv)

lemma cmd_eq: "cmd c v = cmd c' v' \<longleftrightarrow> command_code c = command_code c' \<and> v = v'"
proof -
  have bits: "ucast (drop_bit 16 (push_bit 16 (ucast a) OR ucast b :: u32)) = a"
    "ucast (push_bit 16 (ucast a) OR ucast b :: u32) = b" for a b :: u16
    by (rule bit_word_eqI; use bit_imp_le_length in \<open>fastforce simp: bit_simps\<close>)+
  show ?thesis unfolding cmd_def using bits by (metis event.inject(2))
qed

lemma starts_Cons [simp]:
  "starts [] = 0" "starts (put b # q) = starts q" "starts (got b # q) = starts q"
  "starts (cmd c v # q) = (if command_code c = 6 \<and> v = 0 then Suc (starts q) else starts q)"
  "starts (error_read raw r # q) = starts q" "starts (ready_seen # q) = starts q"
  by (auto simp: starts_def put_def got_def cmd_eq error_read_def) (simp_all add: cmd_def)

lemma starts_upload: "starts (pixel_trace h w (upload_events Ms u x d w)) = 0"
  by (rule starts_0) (auto simp: pixel_trace_def mat_def upload_events_def cache_store_def cmd_def)

lemma starts_coeffs: "starts (map (coeff_write t) rs) = 0"
  by (rule starts_0) (auto simp: coeff_write_def cmd_def)

lemma starts_fetch: "starts (pixel_trace h w (fetch_events f w)) = 0"
  by (rule starts_0) (auto simp: pixel_trace_def mat_def fetch_events_def)

lemma starts_errors: "starts (map (error_read raw) rs) = 0"
  by (rule starts_0) auto

lemma starts_driven [simp]: "starts (snd (driven net no u x d iter Ts s)) = Suc (starts (snd s))"
  by (simp add: driven_def Let_def run_trace_def start_of_def start_trace_def starts_upload starts_coeffs
      starts_fetch)

lemma starts_learn_run [simp]: "starts (snd (learn_run net no s)) = Suc (starts (snd s))"
  by (simp add: learn_run_def)

lemma starts_fetch_errors [simp]: "starts (snd (fetch raw s)) = starts (snd s)"
  by (simp add: fetch_def starts_errors)

lemma starts_on_globals [simp]: "snd (on_globals f s) = snd s" "snd (next_k s) = snd s"
  by (simp_all add: on_globals_def next_k_def)

lemma starts_epochs:
  assumes "\<And>s. starts (snd (ep s)) = c + starts (snd s)"
  shows "starts (snd (epochs ep g q)) = c * unat (cnn_learn_loop (cnn g)) + starts q"
proof -
  have "starts (snd (((next_k \<circ> ep) ^^ n) s)) = c * n + starts (snd s)" for n s
    by (induction n) (simp_all add: assms)
  then show ?thesis by (simp add: epochs_def)
qed

section \<open>The multilayer loop\<close>

lemma templates_on_globals: "templates (fst (next_k s)) = templates (fst s)"
  by (simp add: next_k_def on_globals_def set_k_def)

lemma templates_epoch_1d:
  "templates (fst (epoch_1d net err s)) = (templates (fst s))[1 :=
     learned (\<lambda>i. i = 1) (errors (fst (epoch_1d net err s))) (templates (fst s) ! 1)]"
  by (simp add: epoch_1d_def on_globals_def updated_def Let_def) (simp add: with_template_def)

lemma epoch_multi_templates:
  assumes "length (templates (fst s)) = 15"
  shows "templates (fst (epoch_multi net err s)) =
    (let e = errors (fst (epoch_multi net err s)) in
     (templates (fst s))[1 := learned (\<lambda>i. i = 1) e (templates (fst s) ! 1),
                         2 := learned (\<lambda>i. i = 1) e (templates (fst s) ! 2)])"
proof -
  let ?s = "epoch_1d net err s"
  have "templates (fst (epoch_multi net err s))
      = (templates (fst ?s))[2 := learned (\<lambda>i. i = 1) (errors (fst ?s)) (templates (fst ?s) ! 2)]"
    by (simp add: epoch_multi_def on_globals_def updated_def Let_def) (simp add: with_template_def)
  moreover have "errors (fst (epoch_multi net err s)) = errors (fst ?s)"
    by (simp add: epoch_multi_def on_globals_def)
  ultimately show ?thesis using assms by (simp add: templates_epoch_1d Let_def)
qed

lemma epochs_multi_equal:
  assumes g: "learner g" and eq: "templates g ! 1 = templates g ! 2"
  shows "templates (fst (epochs (epoch_multi net err) g q)) ! 1 = templates (fst (epochs (epoch_multi net err) g q)) ! 2"
proof -
  define S where "S n = ((next_k \<circ> epoch_multi net err) ^^ n) (set_k 0 g, q)" for n
  have S0: "S 0 = (set_k 0 g, q)" and SS: "S (Suc n) = next_k (epoch_multi net err (S n))" for n
    by (simp_all add: S_def)
  have "learner (fst (S n)) \<and> templates (fst (S n)) ! 1 = templates (fst (S n)) ! 2" for n
  proof (induction n)
    case 0
    show ?case using g eq learner_created(2) [OF g] by (simp add: S0 set_k_def)
  next
    case (Suc n)
    let ?s = "S n"
    have l: "learner (fst ?s)" using Suc by simp
    then have len: "length (templates (fst ?s)) = 15" by (simp add: learner_def runnable_def)
    have "learner (fst (next_k (epoch_multi net err ?s)))"
      using epoch_multi_keeps [OF l] learner_created(2) by (simp add: next_k_def on_globals_def)
    then show ?case using Suc len by (simp add: SS templates_on_globals epoch_multi_templates [OF len] Let_def)
  qed
  then show ?thesis by (simp add: epochs_def S_def)
qed

section \<open>Pixel addresses\<close>

lemma u16_at_inj_iff:
  assumes "0 < w"
  shows "inj_on (\<lambda>(i, j). u16_at w i j) ({..<h} \<times> {..<w}) \<longleftrightarrow> w * h \<le> 65536"
proof
  assume le: "w * h \<le> 65536"
  show "inj_on (\<lambda>(i, j). u16_at w i j) ({..<h} \<times> {..<w})"
  proof (rule inj_onI, clarsimp)
    fix i j i' j' assume ij: "i < h" "j < w" "i' < h" "j' < w" and eq: "u16_at w i j = u16_at w i' j'"
    have lt: "i * w + j < 65536" "i' * w + j' < 65536"
      using pixel_index_less [OF ij(1,2)] pixel_index_less [OF ij(3,4)] le by (simp_all add: mult.commute)
    have "unat (of_nat n :: u16) = n mod 65536" for n
      by (simp add: unat_of_nat take_bit_eq_mod)
    then have val: "unat (u16_at w i j) = (i * w + j) mod 65536" for i j
      by (simp only: u16_at_def add.commute [of j])
    from arg_cong [OF eq, of unat] have "i * w + j = i' * w + j'"
      unfolding val mod_less [OF lt(1)] mod_less [OF lt(2)] .
    then have "(i * w + j) div w = (i' * w + j') div w" "(i * w + j) mod w = (i' * w + j') mod w" by simp_all
    then show "i = i' \<and> j = j'" using ij by simp
  qed
next
  assume inj: "inj_on (\<lambda>(i, j). u16_at w i j) ({..<h} \<times> {..<w})"
  have "card ({..<h} \<times> {..<w}) \<le> card (UNIV :: u16 set)"
    by (rule card_inj_on_le [OF inj]) auto
  then show "w * h \<le> 65536" by (simp add: card_word mult.commute)
qed

section \<open>Start-up\<close>

definition booted :: globals where
  "booted = (store_pointers gpio_table (store_pointers uart_table
     ((alloc_state (globals_at_reset\<lparr>image := \<lparr>img_data = None, img_width = 128, img_height = 128, img_count = 20,
                                          img_shift = 16384\<rparr>\<rparr>)
         20 128 (planes (zero_planes 20 128 128)) (stack_bytes 128 128))
      \<lparr>cnn := \<lparr>cnn_Ts = 1, cnn_iter_cnt = 3, cnn_template_no = 0, cnn_learn_loop = 100, cnn_learn_rate = 10\<rparr>\<rparr>)))"

lemma exec_init_system:
  assumes fit: "fits_upto wd (stack_bytes 128 128)"
  shows "exec (init_system wd) globals_at_reset [] () booted [cmd CMD_STATE_RST 1]"
proof -
  let ?g0 = "globals_at_reset\<lparr>image := \<lparr>img_data = None, img_width = 128, img_height = 128, img_count = 20, img_shift = 16384\<rparr>\<rparr>"
  let ?g1 = "alloc_state ?g0 20 128 (planes (zero_planes 20 128 128)) (stack_bytes 128 128)"
  have gen: "exec init_general globals_at_reset [] () globals_at_reset []"
  proof -
    have z: "set_i 0 globals_at_reset = globals_at_reset" "set_j 0 globals_at_reset = globals_at_reset"
      "set_k 0 globals_at_reset = globals_at_reset"
      by (simp_all add: globals_at_reset_def set_i_def set_j_def set_k_def)
    note m = exec_modg [where g = globals_at_reset and q = "[]"]
    show ?thesis unfolding init_general_def
      by (rule exec_block_Cons [OF m [of "set_i 0", unfolded z] exec_block_Cons [OF m [of "set_j 0", unfolded z]
          exec_block_Cons [OF m [of "set_k 0", unfolded z] exec_block_Nil]]])
  qed
  have live: "heap_live (free_image ?g0) = 0" by (simp add: free_image_def globals_at_reset_def)
  have alloc: "exec (image_alloc wd) ?g0 [] () ?g1 []"
    by (rule exec_conv [OF exec_image_alloc]) (simp_all add: live fit)
  have img: "exec (init_image wd) globals_at_reset [] () ?g1 []"
    unfolding init_image_def
    by (rule exec_block_Cons [OF exec_modg exec_block_Cons [OF exec_modgI exec_block_Cons [OF alloc exec_block_Nil]]])
      (simp add: globals_at_reset_def set_shift_def)
  have ptr: "pointers_ok booted" unfolding booted_def by (rule store_pointers_init)
  have l2: "exec init_l2cache booted [] () booted []"
    by (simp add: init_l2cache_def l2cache_setdimensions_def package_defs exec_ret)
  show ?thesis unfolding init_system_def
    by (rule exec_block_Cons [OF gen exec_block_Cons [OF img exec_block_Cons [OF _ exec_block_Cons [OF _ exec_block_Cons [OF _
          exec_block_Cons [OF l2 exec_block_Cons [OF exec_command [OF ptr] exec_block_Nil]]]]]]])
      (auto simp: init_cnn_def init_uart_def init_gpio_def booted_def intro: exec_modgI)
qed

lemma booted_reachable:
  assumes "fits_upto wd (stack_bytes 128 128)"
  shows "\<exists>h. quiet h = [cmd CMD_STATE_RST 1] \<and> reachable wd (booted, h)"
proof -
  have "quiet [] = []" by simp
  from execD [OF exec_init_system [OF assms] this] show ?thesis using reachable.boot by metis
qed

lemma store_pointers_simps [simp]:
  "image (store_pointers t g) = image g" "templates (store_pointers t g) = templates g"
  "errors (store_pointers t g) = errors g" "cnn (store_pointers t g) = cnn g"
  by (simp_all add: store_pointers_def)

lemma booted_simps [simp]:
  "pointers_ok booted" "templates booted = template_init" "img_data (image booted) = planes (zero_planes 20 128 128)"
  "img_width (image booted) = 128" "img_height (image booted) = 128" "img_count (image booted) = 20"
  "img_shift (image booted) = 16384" "wf_errors booted"
proof -
  show "pointers_ok booted" unfolding booted_def by (rule store_pointers_init)
qed (simp_all add: booted_def wf_errors_def globals_at_reset_def zero_patch_def)

lemma booted_live: "heap_live booted = stack_bytes 128 128"
  by (simp add: booted_def store_pointers_def)

lemma booted_learner: "learner booted"
  unfolding learner_def runnable_def
  using zero_planes_shaped reset_templates by (auto intro!: exI [of _ "zero_planes 20 128 128"])

section \<open>Faults\<close>

text \<open>\<open>faults m g q e\<close>: from \<open>g\<close>, after accesses \<open>q\<close> (up to polling), \<open>m\<close> stops with the fault \<open>e\<close>.\<close>

definition faults :: "(globals, 'a) fw \<Rightarrow> globals \<Rightarrow> event list \<Rightarrow> fault \<Rightarrow> bool" where
  "faults m g q e \<longleftrightarrow> (\<forall>h. quiet h = q \<longrightarrow> m (g, h) = Some (Inl e))"

lemma faults_bnd: "exec m g q a g' q' \<Longrightarrow> faults (f a) g' q' e \<Longrightarrow> faults (bnd m f) g q e"
  unfolding faults_def exec_def by (metis bnd_Some)

lemma faults_bnd_first: "faults m g q e \<Longrightarrow> faults (bnd m f) g q e"
  unfolding faults_def by (simp add: bnd_Inl)

lemma faults_gete: "f g = Inl e \<Longrightarrow> faults (gete f) g q e"
  by (simp add: faults_def gete_def)

lemma faults_mode: "f g = Inl e \<Longrightarrow> faults (mode f) g q e"
  by (simp add: faults_def mode_def)

lemma faults_while: "c g \<Longrightarrow> faults b g q e \<Longrightarrow> faults (while_loop (getg c) b) g q e"
  unfolding faults_def by (subst while_loop.simps) (simp add: getg_def)

lemma faults_block: "faults m g q e \<Longrightarrow> faults (block (m # ms)) g q e"
  by (simp add: faults_bnd_first)

lemma faults_block_Cons: "exec m g q () g' q' \<Longrightarrow> faults (block ms) g' q' e \<Longrightarrow> faults (block (m # ms)) g q e"
  by (simp add: faults_bnd)

lemma template_send_faults:
  assumes uart: "uart_env wd inp" and ptr: "pointers_ok g" and len: "Suc (rx_count q) < length inp"
    and no: "length (templates g) \<le> unat (be16 (inp ! rx_count q) (inp ! Suc (rx_count q)))"
  shows "faults (template_send wd) g q OutOfBounds"
proof -
  let ?n = "rx_count q"
  let ?no = "be16 (inp ! ?n) (inp ! Suc ?n)"
  have r1: "exec (uart_read wd) g q (inp ! ?n) g (got (inp ! ?n) # q)"
    using uart_env.exec_uart_read [OF uart ptr, of q] len by (simp add: got_def)
  have r2: "exec (uart_read wd) g (got (inp ! ?n) # q) (inp ! Suc ?n) g (got (inp ! Suc ?n) # got (inp ! ?n) # q)"
    using uart_env.exec_uart_read [OF uart ptr, of "got (inp ! ?n) # q"] len by (simp add: got_def)
  have get: "template_get ?no f g' = Inl OutOfBounds" if "templates g' = templates g" for f :: "template_struct \<Rightarrow> fault + s16" and g'
    using no that by (simp add: template_get_def nth_chk_def)
  have send: "faults (for_patch (send_coefficient wd (\<lambda>g. template_get ?no (\<lambda>t. mat_get (t_A t) (gi g) (gj g)) g))) g q OutOfBounds" for q
  proof -
    have "faults (send_coefficient wd (\<lambda>g. template_get ?no (\<lambda>t. mat_get (t_A t) (gi g) (gj g)) g)) (set_j 0 (set_i 0 g)) q OutOfBounds"
      unfolding send_coefficient_def by (intro faults_block faults_bnd_first faults_gete get) simp
    then have "faults (for_j (\<lambda>g. gj g \<le> patchTop) (send_coefficient wd (\<lambda>g. template_get ?no (\<lambda>t. mat_get (t_A t) (gi g) (gj g)) g))) (set_i 0 g) q OutOfBounds"
      unfolding for_j_def
      by (intro faults_block_Cons [OF exec_modg] faults_block faults_while) (simp_all add: package_defs)
    then show ?thesis unfolding for_patch_def for_i_def
      by (intro faults_block_Cons [OF exec_modg] faults_block faults_while) (simp_all add: package_defs)
  qed
  show ?thesis unfolding template_send_def Let_def
    by (rule faults_bnd [OF r1], rule faults_bnd [OF r2], rule faults_block [OF send])
qed

lemma image_alloc_faults:
  assumes "\<not> heap_fits wd (heap_live (free_image g)) (unat (img_count (image g)) * 4)"
  shows "faults (image_alloc wd) g q NullDeref"
proof -
  let ?g = "set_img_data None (free_image g)"
  have same: "image (free_image g) = image g" by (simp add: free_image_def split: option.split)
  have top: "exec (alloc_top wd) (free_image g) q () ?g q"
  proof -
    have "exec (c_malloc wd (unat (img_count (image g)) * 4)) (free_image g) q False (free_image g) q"
      unfolding c_malloc_def exec_bnd_getg using assms by (simp add: exec_ret)
    then have "exec (bnd (c_malloc wd (unat (img_count (image g)) * 4)) (\<lambda>ok. modg (set_img_data (if ok then Some (replicate (unat (img_count (image g))) None) else None))))
        (free_image g) q () ?g q"
      by (rule exec_bnd) (rule exec_modgI, simp)
    then show ?thesis unfolding alloc_top_def exec_bnd_getg same .
  qed
  have plane: "faults (alloc_plane wd) (set_i 0 ?g) q NullDeref"
  proof -
    have "store_plane pl G = Inl NullDeref" if "img_data (image G) = None" for pl G
      using that by (simp add: store_plane_def)
    moreover have "\<exists>ok G. exec (c_malloc wd n) (set_i 0 ?g) q ok G q \<and> img_data (image G) = None" for n
      unfolding c_malloc_def exec_bnd_getg
      by (cases "heap_fits wd (heap_live (set_i 0 ?g)) n") (auto intro!: exI exec_ret exec_bnd exec_modg)
    ultimately have "faults (bnd (c_malloc wd n) (\<lambda>ok. mode (store_plane (P ok)))) (set_i 0 ?g) q NullDeref" for n P
      by (metis faults_bnd faults_mode)
    then show ?thesis unfolding alloc_plane_def by (intro faults_bnd [OF exec_getg])
  qed
  show ?thesis unfolding image_alloc_def for_i_def
    by (intro faults_block_Cons [OF exec_modg] faults_block_Cons [OF top] faults_block faults_while plane) simp
qed

section \<open>Headers\<close>

lemma header_state_fields:
  assumes "img_count (image g) = 20"
  shows "image (header_state bs g) = \<lparr>img_data = planes (zero_planes 20 (unat (word_at bs 1)) (unat (word_at bs 0))),
      img_width = word_at bs 0, img_height = word_at bs 1, img_count = 20,
      img_shift = of_nat (unat (word_at bs 0) * unat (word_at bs 1))\<rparr>"
    and "cnn (header_state bs g) = \<lparr>cnn_Ts = word_at bs 2, cnn_iter_cnt = word_at bs 3 - 1, cnn_template_no = word_at bs 4,
      cnn_learn_loop = word_at bs 5, cnn_learn_rate = word_at bs 6\<rparr>"
    and "templates (header_state bs g) = templates g" "errors (header_state bs g) = errors g"
  using assms by (simp_all add: header_state_def Let_def with_header_def set_shift_def alloc_state_def)

lemma header_trace_fields:
  assumes "length bs = 14"
  shows "rx_count (header_trace bs @ q) = rx_count q + 14" "tx_octets (header_trace bs @ q) = tx_octets q @ [1]"
    "commands (header_trace bs @ q) = commands q @ [push_bit 16 6 OR 1, push_bit 16 1 OR ucast (word_at bs 0),
        push_bit 16 2 OR ucast (word_at bs 1), push_bit 16 3 OR ucast (word_at bs 2),
        push_bit 16 4 OR ucast (word_at bs 3 - 1)]"
  using assms by (simp_all add: header_trace_def)

lemma header_state_live:
  "heap_live (header_state bs g) = heap_live (free_image g) + stack_bytes (unat (word_at bs 0)) (unat (word_at bs 1))"
  by (simp add: header_state_def Let_def set_shift_def)

section \<open>Updates\<close>

lemma sint_add_16:
  fixes v e :: s16
  shows "sint (v + e) = (if sint v + sint e > busMax then sint v + sint e - 65536
      else if sint v + sint e < busMin then sint v + sint e + 65536 else sint v + sint e)"
proof -
  define x where "x = sint v + sint e"
  have range: "- 65536 \<le> x" "x < 65536"
    using sint_16_range [of v] sint_16_range [of e] by (simp_all add: x_def)
  have "sint (v + e) = signed_take_bit 15 x" by (simp add: sint_word_ariths x_def)
  also have "\<dots> = (x + 32768) mod 65536 - 32768"
    by (simp only: signed_take_bit_eq_take_bit_shift take_bit_eq_mod) simp
  also have "\<dots> = (if x > 32767 then x - 65536 else if x < - 32768 then x + 65536 else x)"
  proof -
    consider "x > 32767" | "x < - 32768" | "- 32768 \<le> x" "x \<le> 32767" by linarith
    then show ?thesis
    proof cases
      case 1
      have e: "x + 32768 = x - 32768 + 65536" by simp
      have "(x + 32768) mod 65536 = x - 32768"
        unfolding e mod_add_self2 using 1 range by (intro mod_pos_pos_trivial) simp_all
      then show ?thesis using 1 by simp
    next
      case 2
      have e: "x + 32768 = x + 98304 - 65536" by simp
      have "(x + 32768) mod 65536 = x + 98304"
        unfolding e minus_mod_self2 using 2 range by (intro mod_pos_pos_trivial) simp_all
      then show ?thesis using 2 by simp
    next
      case 3
      then show ?thesis by (simp add: mod_pos_pos_trivial)
    qed
  qed
  finally show ?thesis by (simp add: x_def package_defs)
qed

lemma shaped_rows:
  assumes "shaped 3 3 M"
  shows "M = [M ! 0, M ! 1, M ! 2]" "length (M ! 0) = 3" "length (M ! 1) = 3" "length (M ! 2) = 3"
proof -
  from assms obtain a b c where "M = [a, b, c]" "length a = 3" "length b = 3" "length c = 3"
    by (auto simp: shaped_def length_Suc_conv numeral_3_eq_3)
  then show "M = [M ! 0, M ! 1, M ! 2]" "length (M ! 0) = 3" "length (M ! 1) = 3" "length (M ! 2) = 3"
    by simp_all
qed

lemma add_rows_middle:
  assumes "shaped 3 3 M" "shaped 3 3 E"
  shows "add_rows (\<lambda>i. i = 1) 9 M E = [M ! 0, map2 (+) (M ! 1) (E ! 1), M ! 2]"
proof (rule nth_equalityI)
  fix a assume "a < length (add_rows (\<lambda>i. i = 1) 9 M E)"
  then have a: "a < 3" by (simp add: add_rows_def)
  show "add_rows (\<lambda>i. i = 1) 9 M E ! a = [M ! 0, map2 (+) (M ! 1) (E ! 1), M ! 2] ! a"
    using less3 [OF a] shaped_rows [OF assms(1)] shaped_rows [OF assms(2)]
    by (auto simp: add_rows_def intro!: nth_equalityI)
qed (simp add: add_rows_def)

lemma exec_update_runnable_1d:
  assumes "runnable g" "unat no < 15"
  shows "exec (template_update_1d no) g q () (updated (\<lambda>i. i = 1) no g) q"
  using exec_update_1d [of no g q] runnableD [OF assms(1)] assms(2) by simp

lemma updated_fields:
  "templates (updated R no g) = (templates g)[unat no := learned R (errors g) (templates g ! unat no)]"
  "image (updated R no g) = image g" "cnn (updated R no g) = cnn g" "errors (updated R no g) = errors g"
  by (simp_all add: updated_def Let_def) (simp add: with_template_def)

section \<open>Decoding what is sent\<close>

fun decode16 :: "u8 list \<Rightarrow> u16 list" where
  "decode16 (a # b # bs) = be16 a b # decode16 bs"
| "decode16 bs = []"

fun decode32 :: "u8 list \<Rightarrow> u32 list" where
  "decode32 (a # b # c # d # bs) = be32 a b c d # decode32 bs"
| "decode32 bs = []"

lemma decode16_pixels: "decode16 (concat (map pixel_octets vs)) = vs"
  by (induction vs) (simp_all add: pixel_octets_def be16_octets)

lemma decode32_errors: "decode32 (concat (map error_octets vs)) = map scast vs"
proof (induction vs)
  case (Cons v vs)
  obtain a b c d where "error_octets v = [a, b, c, d]" "be32 a b c d = scast v"
    using error_octets_decode [of v] by blast
  then show ?case using Cons by simp
qed simp

lemma tx_error_reads [simp]: "tx_octets (rev (map (error_read raw) rs) @ q) = tx_octets q"
  by (induction rs arbitrary: q) (simp_all add: error_read_def)

lemma template_regs_all:
  "distinct (map reg_addr template_regs) \<and> length template_regs = 21
    \<and> set template_regs = range (\<lambda>(a, b). R_template_A a b) \<union> range (\<lambda>(a, b). R_template_B a b)
        \<union> {R_template_I, R_template_xbnd, R_template_ubnd}"
proof -
  have "distinct template_regs" by (simp add: template_regs_def patch_def)
  then have "distinct (map reg_addr template_regs)" by (simp add: distinct_map inj_on_def)
  moreover have "set template_regs = range (\<lambda>(a, b). R_template_A a b) \<union> range (\<lambda>(a, b). R_template_B a b)
        \<union> {R_template_I, R_template_xbnd, R_template_ubnd}"
  proof -
    have "R_template_A a b \<in> set template_regs" "R_template_B a b \<in> set template_regs" for a b
      by (cases a; cases b; simp add: template_regs_def patch_def)+
    moreover have "set template_regs \<subseteq> range (\<lambda>(a, b). R_template_A a b) \<union> range (\<lambda>(a, b). R_template_B a b)
        \<union> {R_template_I, R_template_xbnd, R_template_ubnd}"
      by (auto simp: template_regs_def)
    moreover have "{R_template_I, R_template_xbnd, R_template_ubnd} \<subseteq> set template_regs" by (simp add: template_regs_def)
    ultimately show ?thesis by (auto 0 3)
  qed
  ultimately show ?thesis by (simp add: template_regs_def)
qed

section \<open>Fixed point\<close>

lemma float_to_fixed_spec:
  "float_to_fixed x = (if - 1 < 1024 * x \<and> x < 64 then Inr (of_nat (nat \<lfloor>1024 * x\<rfloor>)) else Inl BadConversion)"
proof -
  let ?v = "1024 * x"
  have v: "x * 2 ^ busF = ?v" by (simp add: busF_def)
  consider "?v \<le> - 1" | "- 1 < ?v" "?v < 0" | "0 \<le> ?v" "x < 64" | "64 \<le> x" by linarith
  then show ?thesis
  proof cases
    case 1
    then have "\<lceil>?v\<rceil> \<le> - 1" by (simp add: ceiling_le_iff)
    then show ?thesis unfolding float_to_fixed_def v Let_def using 1 by auto
  next
    case 2
    then have "\<lceil>?v\<rceil> = 0" "\<lfloor>?v\<rfloor> = - 1" by (simp_all add: ceiling_eq_iff floor_eq_iff)
    then show ?thesis unfolding float_to_fixed_def v Let_def using 2 by auto
  next
    case 3
    then have "0 \<le> \<lfloor>?v\<rfloor>" "\<lfloor>?v\<rfloor> < 65536" by (simp_all add: floor_less_iff)
    then show ?thesis unfolding float_to_fixed_def v Let_def using 3 by auto
  next
    case 4
    then have "65536 \<le> \<lfloor>?v\<rfloor>" by (simp add: le_floor_iff)
    then show ?thesis unfolding float_to_fixed_def v Let_def using 4 by auto
  qed
qed

end
