(* ===== verification/Lwip_Def.thy ===== *)
theory Lwip_Def
  imports Prelude
begin

text \<open>
  The byte order functions of lwIP (\<open>core/def.c\<close>) on the little-endian processor the board is
  configured with, the octets of machine words as they lie in its memory, and packet buffers.
\<close>

section \<open>Byte order\<close>

definition lwip_htons :: "u16 \<Rightarrow> u16" where
  "lwip_htons n = push_bit 8 (n AND 0xFF) OR drop_bit 8 (n AND 0xFF00)"

definition lwip_ntohs :: "u16 \<Rightarrow> u16" where
  "lwip_ntohs n = push_bit 8 (n AND 0xFF) OR drop_bit 8 (n AND 0xFF00)"

definition lwip_htonl :: "u32 \<Rightarrow> u32" where
  "lwip_htonl n = push_bit 24 (n AND 0xFF) OR push_bit 8 (n AND 0xFF00)
     OR drop_bit 8 (n AND 0xFF0000) OR drop_bit 24 (n AND 0xFF000000)"

definition lwip_ntohl :: "u32 \<Rightarrow> u32" where
  "lwip_ntohl n = push_bit 24 (n AND 0xFF) OR push_bit 8 (n AND 0xFF00)
     OR drop_bit 8 (n AND 0xFF0000) OR drop_bit 24 (n AND 0xFF000000)"

text \<open>The octets at a pointer, read as an integer of the little-endian processor.\<close>

definition le16 :: "u8 \<Rightarrow> u8 \<Rightarrow> u16" where
  "le16 a b = ucast a OR push_bit 8 (ucast b)"

definition le32 :: "u8 \<Rightarrow> u8 \<Rightarrow> u8 \<Rightarrow> u8 \<Rightarrow> u32" where
  "le32 a b c d = ucast a OR push_bit 8 (ucast b) OR push_bit 16 (ucast c) OR push_bit 24 (ucast d)"

text \<open>The octets of a word as it lies in memory.\<close>

definition octets16 :: "u16 \<Rightarrow> u8 list" where
  "octets16 w = [ucast w, ucast (drop_bit 8 w)]"

definition octets32 :: "u32 \<Rightarrow> u8 list" where
  "octets32 w = [ucast w, ucast (drop_bit 8 w), ucast (drop_bit 16 w), ucast (drop_bit 24 w)]"

section \<open>Error codes\<close>

datatype err_t = ERR_OK | ERR_MEM | ERR_BUF | ERR_TIMEOUT | ERR_RTE | ERR_INPROGRESS | ERR_VAL | ERR_WOULDBLOCK
  | ERR_USE | ERR_ISCONN | ERR_ABRT | ERR_RST | ERR_CLSD | ERR_CONN | ERR_ARG | ERR_IF

section \<open>Packet buffers\<close>

text \<open>
  A chain of packet buffers is the list of its buffers, each with the address of its payload and the
  octets there; its \<open>len\<close> is their number.
\<close>

record pbuf =
  pb_payload :: u32
  pb_octets :: "u8 list"

abbreviation chain_octets :: "pbuf list \<Rightarrow> u8 list" where
  "chain_octets p \<equiv> concat (map pb_octets p)"

section \<open>The values of words from their octets\<close>

lemma unat_octet [simp]: "unat (ucast w :: u8) = unat w mod 256" for w :: "'a::len word"
  by (simp add: unsigned_ucast_eq take_bit_eq_mod)

lemma unat_le16: "unat (le16 a b) = unat a + 256 * unat b"
proof -
  have "le16 a b = ucast a + push_bit 8 (ucast b)"
    unfolding le16_def by (rule or_plus) (auto simp: bit_simps dest: bit_imp_le_length)
  moreover have "unat (push_bit 8 (ucast b) :: u16) = unat b * 256"
    using unat_u8_lt [of b] by (subst unat_shift) simp_all
  ultimately show ?thesis using unat_u8_lt [of a] unat_u8_lt [of b]
    by (simp add: unat_plus del: unat_u8_lt)
qed

lemma unat_be16: "unat (push_bit 8 (ucast (a :: u8)) OR ucast (b :: u8) :: u16) = 256 * unat a + unat b"
  using unat_le16 [of b a] by (simp add: le16_def or.commute)

lemma unat_le32: "unat (le32 a b c d) = unat a + 256 * unat b + 65536 * unat c + 16777216 * unat d"
proof -
  let ?b = "push_bit 8 (ucast b) :: u32" and ?c = "push_bit 16 (ucast c) :: u32" and ?d = "push_bit 24 (ucast d) :: u32"
  have bits: "bit (ucast x :: u32) n \<Longrightarrow> n < 8" for x :: u8 and n by (auto simp: bit_simps dest: bit_imp_le_length)
  have "?c OR ?d = ?c + ?d" by (rule or_plus) (use bits in \<open>force simp: bit_push_bit_iff\<close>)
  moreover have "?b OR (?c OR ?d) = ?b + (?c OR ?d)"
    by (rule or_plus) (use bits in \<open>force simp: bit_push_bit_iff bit_or_iff\<close>)
  moreover have "ucast a OR (?b OR (?c OR ?d)) = ucast a + (?b OR (?c OR ?d))"
    by (rule or_plus) (use bits in \<open>force simp: bit_push_bit_iff bit_or_iff\<close>)
  ultimately have sum: "le32 a b c d = ucast a + (?b + (?c + ?d))" by (simp only: le32_def or.assoc)
  have "unat ?b = unat b * 2 ^ 8" using unat_u8_lt [of b] by (subst unat_shift) (simp_all del: unat_u8_lt)
  moreover have "unat ?c = unat c * 2 ^ 16" using unat_u8_lt [of c] by (subst unat_shift) (simp_all del: unat_u8_lt)
  moreover have "unat ?d = unat d * 2 ^ 24" using unat_u8_lt [of d] by (subst unat_shift) (simp_all del: unat_u8_lt)
  ultimately show ?thesis
    using unat_u8_lt [of a] unat_u8_lt [of b] unat_u8_lt [of c] unat_u8_lt [of d] by (simp add: sum unat_plus del: unat_u8_lt)
qed

lemma unat_low_half [simp]: "unat (u AND 0xFFFF) = unat u mod 65536" for u :: u32
  using unat_mask [of u 16] by (simp add: mask_eq_exp_minus_1)

lemma unat_low_octet [simp]: "unat (u AND 0xFF) = unat u mod 256" for u :: u32
  using unat_mask [of u 8] by (simp add: mask_eq_exp_minus_1)

lemma unat_htons: "unat (lwip_htons n) = 256 * (unat n mod 256) + unat n div 256"
proof -
  have m: "(0xFF :: u16) = mask 8" by (simp add: mask_eq_exp_minus_1)
  have "drop_bit 8 (n AND 0xFF00) = drop_bit 8 n AND mask 8" by (simp add: drop_bit_and flip: m)
  then have "drop_bit 8 (n AND 0xFF00) = drop_bit 8 n"
    by (simp only:) (rule bit_word_eqI, auto simp: bit_simps dest: bit_imp_le_length)
  then have "lwip_htons n = push_bit 8 (n AND mask 8) OR drop_bit 8 n"
    by (simp only: lwip_htons_def m)
  also have "\<dots> = push_bit 8 (n AND mask 8) + drop_bit 8 n"
    by (rule or_plus) (auto simp: bit_simps dest: bit_imp_le_length)
  finally have "lwip_htons n = push_bit 8 (n AND mask 8) + drop_bit 8 n" .
  moreover have "unat (push_bit 8 (n AND mask 8)) = unat n mod 256 * 256"
    using unat_mask [of n 8] by (subst unat_shift) simp_all
  moreover have "unat n div 256 < 256" using unat_u16_lt [of n] by (simp del: unat_u16_lt)
  ultimately show ?thesis by (simp add: unat_plus unat_drop)
qed

text \<open>Every word is read back from its octets, and \<open>lwip_htonl\<close> reverses them.\<close>

lemma le16_octets: "octets16 w = [a, b] \<Longrightarrow> le16 a b = w"
  using mult_div_mod_eq [of 256 "unat w"] unat_u16_lt [of w]
  by (auto simp: octets16_def word_unat_eq_iff unat_le16 unat_drop simp del: unat_u16_lt)

lemma octets_value: "n mod 256 + 256 * (n div 256 mod 256 + 256 * (n div 65536 mod 256 + 256 * (n div 16777216))) = (n :: nat)"
  using mult_div_mod_eq [of 256 n] mult_div_mod_eq [of 256 "n div 256"] mult_div_mod_eq [of 256 "n div 65536"]
  by (simp add: div_mult2_eq [symmetric] algebra_simps)

lemma le32_octets: "le32 (ucast w) (ucast (drop_bit 8 w)) (ucast (drop_bit 16 w)) (ucast (drop_bit 24 w)) = w" for w :: u32
  using octets_value [of "unat w"] unat_u32_lt [of w]
  by (simp add: word_unat_eq_iff unat_le32 unat_drop algebra_simps del: unat_u32_lt)

lemma bit_le32:
  "bit (le32 a b c d) n \<longleftrightarrow>
     (if n < 8 then bit a n else if n < 16 then bit b (n - 8) else if n < 24 then bit c (n - 16) else n < 32 \<and> bit d (n - 24))"
  unfolding le32_def by (auto simp: bit_simps dest: bit_imp_le_length)

lemma byte_masks:
  "(0xFF :: u32) = mask 8" "(0xFF00 :: u32) = push_bit 8 (mask 8)"
  "(0xFF0000 :: u32) = push_bit 16 (mask 8)" "(0xFF000000 :: u32) = push_bit 24 (mask 8)"
  by (simp_all add: mask_eq_exp_minus_1)

lemma htonl_le32: "lwip_htonl (le32 a b c d) = le32 d c b a"
  unfolding lwip_htonl_def byte_masks
  by (rule bit_word_eqI) (auto simp: bit_le32 bit_and_iff bit_or_iff bit_push_bit_iff bit_drop_bit_eq bit_mask_iff
      dest: bit_imp_le_length)

lemma ntohl_htonl: "lwip_ntohl (lwip_htonl w) = w"
proof -
  have "lwip_ntohl = lwip_htonl" by (simp add: fun_eq_iff lwip_ntohl_def lwip_htonl_def)
  then show ?thesis using htonl_le32 le32_octets by metis
qed

lemma ntohs_htons: "lwip_ntohs (lwip_htons w) = w"
proof -
  have "lwip_ntohs = lwip_htons" by (simp add: fun_eq_iff lwip_ntohs_def lwip_htons_def)
  moreover have "n div 256 < 256 \<Longrightarrow> 256 * ((256 * (n mod 256) + n div 256) mod 256) + (256 * (n mod 256) + n div 256) div 256 = n" for n :: nat
    using mult_div_mod_eq [of 256 n] by simp
  moreover have "unat w div 256 < 256" using unat_u16_lt [of w] by (simp del: unat_u16_lt)
  ultimately show ?thesis by (simp add: word_unat_eq_iff unat_htons)
qed

end
