(* ===== verification/Inet_Chksum.thy ===== *)
theory Inet_Chksum
  imports Lwip_Def
begin

text \<open>
  The Internet checksum of lwIP (\<open>core/ipv4/inet_chksum.c\<close>), on the little-endian processor the
  board is configured with: the three versions of
  \<open>lwip_standard_chksum\<close>, the checksums over chains of packet buffers with and without the pseudo
  header, and their specification, the sum of RFC 1071 with end-around carry. The octets a function
  may read are a list, and the address of the first one is a parameter, as two versions depend on its
  alignment.
\<close>

section \<open>The checksum of a buffer\<close>

definition FOLD_U32T :: "u32 \<Rightarrow> u32" where
  "FOLD_U32T u = drop_bit 16 u + (u AND 0x0000FFFF)"

definition SWAP_BYTES_IN_WORD :: "u32 \<Rightarrow> u32" where
  "SWAP_BYTES_IN_WORD w = push_bit 8 (w AND 0xFF) OR drop_bit 8 (w AND 0xFF00)"

text \<open>Version 1: the loop over octet pairs in network order, with the remaining octet.\<close>

fun chksum1_loop :: "u32 \<Rightarrow> u8 list \<Rightarrow> u32" where
  "chksum1_loop acc (a # b # rest) = chksum1_loop (acc + ucast (push_bit 8 (ucast a) OR ucast b :: u16)) rest"
| "chksum1_loop acc [a] = acc + ucast (push_bit 8 (ucast a) :: u16)"
| "chksum1_loop acc [] = acc"

definition lwip_standard_chksum1 :: "u8 list \<Rightarrow> u16" where
  "lwip_standard_chksum1 bs =
     (let acc = chksum1_loop 0 bs;
          acc = drop_bit 16 acc + (acc AND 0x0000FFFF);
          acc = (if acc AND 0xFFFF0000 \<noteq> 0 then drop_bit 16 acc + (acc AND 0x0000FFFF) else acc)
      in lwip_htons (ucast acc))"

text \<open>The loop over aligned 16-bit words that versions 2 and 3 share: the sum and what is left.\<close>

fun halfwords :: "u32 \<Rightarrow> u8 list \<Rightarrow> u32 \<times> u8 list" where
  "halfwords s (a # b # rest) = halfwords (s + ucast (le16 a b)) rest"
| "halfwords s rest = (s, rest)"

text \<open>
  The variable \<open>t\<close> collects the two end octets, the first one at its second octet when the buffer
  starts at an odd address, the last one at its first octet.
\<close>

definition head_octet :: "bool \<Rightarrow> u8 list \<Rightarrow> u16 \<times> u8 list" where
  "head_octet od bs = (case bs of b # rest \<Rightarrow> if od then (le16 0 b, rest) else (0, bs) | [] \<Rightarrow> (0, bs))"

definition tail_octet :: "u16 \<Rightarrow> u8 list \<Rightarrow> u16" where
  "tail_octet t rest = (case rest of b # _ \<Rightarrow> (t AND 0xFF00) OR ucast b | [] \<Rightarrow> t)"

definition chksum_end :: "bool \<Rightarrow> u32 \<Rightarrow> u16" where
  "chksum_end od s =
     (let sum = FOLD_U32T (FOLD_U32T s) in ucast (if od then SWAP_BYTES_IN_WORD sum else sum))"

definition lwip_standard_chksum2 :: "u32 \<Rightarrow> u8 list \<Rightarrow> u16" where
  "lwip_standard_chksum2 addr bs =
     (let odd = addr AND 1 \<noteq> 0;
          (t, bs) = head_octet odd bs;
          (sum, rest) = halfwords 0 bs
      in chksum_end odd (sum + ucast (tail_octet t rest)))"

text \<open>Version 3: one halfword up to the word boundary, then eight octets at a time.\<close>

definition align_word :: "u32 \<Rightarrow> u8 list \<Rightarrow> u32 \<times> u8 list" where
  "align_word ps bs = (case bs of a # b # rest \<Rightarrow> if ps AND 3 \<noteq> 0 then (ucast (le16 a b), rest) else (0, bs) | _ \<Rightarrow> (0, bs))"

text \<open>Addition with the carry added back.\<close>

definition add_back :: "u32 \<Rightarrow> u32 \<Rightarrow> u32" where
  "add_back s w = (let tmp = s + w in if tmp < s then tmp + 1 else tmp)"

fun octowords :: "u32 \<Rightarrow> u8 list \<Rightarrow> u32 \<times> u8 list" where
  "octowords s (a # b # c # d # e # f # g # h # rest) =
     octowords (add_back (add_back s (le32 a b c d)) (le32 e f g h)) rest"
| "octowords s rest = (s, rest)"

definition lwip_standard_chksum :: "u32 \<Rightarrow> u8 list \<Rightarrow> u16" where
  "lwip_standard_chksum addr bs =
     (let odd = addr AND 1 \<noteq> 0;
          ps = (if odd \<and> bs \<noteq> [] then addr + 1 else addr);
          (t, bs) = head_octet odd bs;
          (sum, bs) = align_word ps bs;
          (sum, bs) = octowords sum bs;
          (sum, rest) = halfwords (FOLD_U32T sum) bs
      in chksum_end odd (sum + ucast (tail_octet t rest)))"

definition inet_chksum :: "u32 \<Rightarrow> u8 list \<Rightarrow> u16" where
  "inet_chksum addr bs = NOT (lwip_standard_chksum addr bs)"

text \<open>\<open>MEMCPY\<close>, then the checksum of the copy: what the destination holds, and the sum.\<close>

definition lwip_chksum_copy :: "u32 \<Rightarrow> u8 list \<Rightarrow> u8 list \<times> u16" where
  "lwip_chksum_copy dst src = (src, lwip_standard_chksum dst src)"

section \<open>Checksums over chains of packet buffers\<close>

text \<open>One buffer of the chain: the running sum, and whether it is swapped.\<close>

definition chksum_step :: "u32 \<times> bool \<Rightarrow> u16 \<Rightarrow> nat \<Rightarrow> u32 \<times> bool" where
  "chksum_step s c len =
     (case s of (acc, swapped) \<Rightarrow>
        let acc = FOLD_U32T (acc + ucast c) in
        if len mod 2 \<noteq> 0 then (SWAP_BYTES_IN_WORD acc, \<not> swapped) else (acc, swapped))"

primrec chksum_chain :: "u32 \<times> bool \<Rightarrow> pbuf list \<Rightarrow> u32 \<times> bool" where
  "chksum_chain s [] = s"
| "chksum_chain s (q # qs) =
     chksum_chain (chksum_step s (lwip_standard_chksum (pb_payload q) (pb_octets q)) (length (pb_octets q))) qs"

definition unswapped :: "u32 \<times> bool \<Rightarrow> u32" where
  "unswapped s = (if snd s then SWAP_BYTES_IN_WORD (fst s) else fst s)"

definition inet_chksum_pbuf :: "pbuf list \<Rightarrow> u16" where
  "inet_chksum_pbuf p = NOT (ucast (unswapped (chksum_chain (0, False) p) AND 0xFFFF))"

definition pseudo_header :: "u32 \<Rightarrow> u32 \<Rightarrow> u32 \<Rightarrow> u8 \<Rightarrow> u16 \<Rightarrow> u16" where
  "pseudo_header acc src dest proto proto_len =
     (let acc = acc + (src AND 0xFFFF);
          acc = acc + (drop_bit 16 src AND 0xFFFF);
          acc = acc + (dest AND 0xFFFF);
          acc = acc + (drop_bit 16 dest AND 0xFFFF);
          acc = acc + ucast (lwip_htons (ucast proto));
          acc = acc + ucast (lwip_htons proto_len)
      in NOT (ucast (FOLD_U32T (FOLD_U32T acc) AND 0xFFFF)))"

definition inet_chksum_pseudo :: "pbuf list \<Rightarrow> u32 \<Rightarrow> u32 \<Rightarrow> u8 \<Rightarrow> u16 \<Rightarrow> u16" where
  "inet_chksum_pseudo p src dest proto proto_len =
     pseudo_header (unswapped (chksum_chain (0, False) p)) src dest proto proto_len"

text \<open>The loop of the partial checksum, which stops when \<open>chksum_len\<close> octets are summed.\<close>

primrec chksum_partial :: "u32 \<times> bool \<Rightarrow> u16 \<Rightarrow> pbuf list \<Rightarrow> u32 \<times> bool" where
  "chksum_partial s chksum_len [] = s"
| "chksum_partial s chksum_len (q # qs) =
     (if chksum_len > 0 then
        let len = length (pb_octets q);
            chklen = (if len > unat chksum_len then unat chksum_len else len)
        in chksum_partial (chksum_step s (lwip_standard_chksum (pb_payload q) (take chklen (pb_octets q))) len)
             (chksum_len - of_nat chklen) qs
      else s)"

definition inet_chksum_pseudo_partial :: "pbuf list \<Rightarrow> u32 \<Rightarrow> u32 \<Rightarrow> u8 \<Rightarrow> u16 \<Rightarrow> u16 \<Rightarrow> u16" where
  "inet_chksum_pseudo_partial p src dest proto proto_len chksum_len =
     pseudo_header (unswapped (chksum_partial (0, False) chksum_len p)) src dest proto proto_len"


section \<open>The values of the folding and swapping macros\<close>

lemma unat_FOLD: "unat (FOLD_U32T u) = unat u div 65536 + unat u mod 65536"
  unfolding FOLD_U32T_def by (subst unat_plus) (simp_all only: unat_drop unat_low_half, use unat_u32_lt [of u] in \<open>simp_all del: unat_u32_lt\<close>)

lemma second_octet: "drop_bit 8 (w AND 0xFF00) = drop_bit 8 w AND 0xFF" for w :: u32
  by (simp add: drop_bit_and)

lemma unat_SWAP: "unat (SWAP_BYTES_IN_WORD w) = 256 * (unat w mod 256) + unat w div 256 mod 256"
proof -
  have m: "(0xFF :: u32) = mask 8" by (simp add: mask_eq_exp_minus_1)
  have "SWAP_BYTES_IN_WORD w = push_bit 8 (w AND mask 8) + (drop_bit 8 w AND mask 8)"
    unfolding SWAP_BYTES_IN_WORD_def second_octet m by (rule or_plus) (simp add: bit_simps)
  moreover have "unat (push_bit 8 (w AND mask 8)) = unat w mod 256 * 256"
    using unat_mask [of w 8] by (subst unat_shift) simp_all
  moreover have "unat (drop_bit 8 w AND mask 8) = unat w div 256 mod 256" by (simp add: unat_mask unat_drop)
  ultimately show ?thesis by (simp add: unat_plus)
qed

section \<open>Sums up to end-around carry\<close>

text \<open>
  Two sums agree when they are congruent modulo 65535 and vanish together: the sums of RFC 1071
  keep this relation, and below 65536 it is equality.
\<close>

definition same :: "nat \<Rightarrow> nat \<Rightarrow> bool" where
  "same n m \<longleftrightarrow> n mod 65535 = m mod 65535 \<and> (n = 0 \<longleftrightarrow> m = 0)"

lemma same_refl [simp, intro]: "same n n" by (simp add: same_def)
lemma same_sym: "same n m \<Longrightarrow> same m n" by (simp add: same_def)
lemma same_trans [trans]: "same n m \<Longrightarrow> same m k \<Longrightarrow> same n k" by (simp add: same_def)
lemma same_add: "same a b \<Longrightarrow> same c d \<Longrightarrow> same (a + c) (b + d)"
  by (auto simp: same_def intro: mod_add_cong)
lemma same_mult: "same a b \<Longrightarrow> k \<noteq> 0 \<Longrightarrow> same (k * a) (k * b)"
  by (auto simp: same_def intro: mod_mult_cong)
lemma same_eq: "same n m \<Longrightarrow> n < 65536 \<Longrightarrow> m < 65536 \<Longrightarrow> n = m"
  unfolding same_def by (cases "n = 65535"; cases "m = 65535") auto
lemma same_65536: "same (65536 * n + k) (n + k)"
proof -
  have "65536 * n + k = (n + k) + 65535 * n" by simp
  then show ?thesis unfolding same_def by (metis add_is_0 mod_mult_self2 mult_is_0 zero_neq_numeral)
qed

lemma same_fold: "same (unat (FOLD_U32T u)) (unat u)"
  using same_sym [OF same_65536 [of "unat u div 65536" "unat u mod 65536"]] by (simp add: unat_FOLD)

lemma same_swap: "unat w < 65536 \<Longrightarrow> same (unat (SWAP_BYTES_IN_WORD w)) (256 * unat w)"
proof -
  assume "unat w < 65536"
  then have "unat w div 256 mod 256 = unat w div 256" by simp
  then have "256 * unat w = 65536 * (unat w div 256) + 256 * (unat w mod 256)"
    using mult_div_mod_eq [of 256 "unat w"] by linarith
  then show ?thesis using same_65536 [of "unat w div 256" "256 * (unat w mod 256)"] \<open>unat w div 256 mod 256 = _\<close>
    by (simp add: unat_SWAP same_sym add.commute)
qed

lemma same_htons: "same (unat (lwip_htons n)) (256 * unat n)"
proof -
  have "256 * unat n = 65536 * (unat n div 256) + 256 * (unat n mod 256)"
    using mult_div_mod_eq [of 256 "unat n"] by linarith
  then show ?thesis using same_65536 [of "unat n div 256" "256 * (unat n mod 256)"]
    by (simp add: unat_htons same_sym add.commute)
qed

lemma same_wrap: "same (n + 1 - 4294967296) n" if n: "4294967296 \<le> n"
proof -
  define m where "m = n + 1 - 4294967296"
  have "n = m + 65535 * 65537" "0 < m" using n by (simp_all add: m_def)
  then have "n mod 65535 = m mod 65535" "0 < n" by (simp_all only: mod_mult_self2)
  then show ?thesis using \<open>0 < m\<close> by (simp add: same_def m_def)
qed

lemma same_add_back: "same (unat (add_back s w)) (unat s + unat w)"
proof (cases "unat s + unat w < 4294967296")
  case True
  then show ?thesis by (simp add: add_back_def Let_def unat_plus word_less_nat_alt)
next
  case False
  have "unat (s + w) = unat s + unat w - 4294967296"
    using False unat_u32_lt [of s] unat_u32_lt [of w] by (simp add: unat_word_ariths mod_if del: unat_u32_lt)
  moreover from this have "unat (s + w + 1) = unat s + unat w + 1 - 4294967296"
    using False unat_u32_lt [of s] unat_u32_lt [of w] by (subst unat_plus) (simp_all del: unat_u32_lt)
  moreover have "s + w < s"
    using False unat_u32_lt [of w] calculation(1) by (simp add: word_less_nat_alt del: unat_u32_lt)
  ultimately show ?thesis
    using False same_wrap [of "unat s + unat w"] by (simp add: add_back_def Let_def)
qed


section \<open>What the loops compute\<close>

text \<open>The octets as one little-endian number: modulo 65535 it is the sum of the halfwords.\<close>

primrec lev :: "u8 list \<Rightarrow> nat" where
  "lev [] = 0"
| "lev (b # bs) = unat b + 256 * lev bs"

lemma lev_append: "same (lev (xs @ ys)) (lev xs + (if even (length xs) then 1 else 256) * lev ys)"
proof (induction xs)
  case (Cons x xs)
  show ?case
  proof (cases "even (length xs)")
    case True
    then have "same (lev (xs @ ys)) (lev xs + lev ys)" using Cons by simp
    from same_add [OF same_refl [of "unat x"] same_mult [OF this, of 256]] True show ?thesis by (simp add: distrib_left add.assoc)
  next
    case False
    then have "same (lev (xs @ ys)) (lev xs + 256 * lev ys)" using Cons by simp
    from same_add [OF same_refl [of "unat x"] same_mult [OF this, of 256]]
    have "same (lev ((x # xs) @ ys)) (65536 * lev ys + lev (x # xs))" by (simp add: algebra_simps)
    from same_trans [OF this same_65536] False show ?thesis by (simp add: algebra_simps)
  qed
qed simp

lemma lev_pair: "same (unat (le16 a b) + lev rest) (lev (a # b # rest))"
  using same_sym [OF same_65536 [of "lev rest" "unat a + 256 * unat b"]] by (simp add: unat_le16 algebra_simps)

lemma halfwords_spec:
  assumes "unat s + 65535 * (length bs div 2) < 4294967296"
  shows "same (unat (fst (halfwords s bs)) + lev (snd (halfwords s bs))) (unat s + lev bs)
    \<and> unat (fst (halfwords s bs)) \<le> unat s + 65535 * (length bs div 2)
    \<and> length (snd (halfwords s bs)) = length bs mod 2"
  using assms
proof (induction s bs rule: halfwords.induct)
  case (1 s a b rest)
  have w: "unat (le16 a b) \<le> 65535" using unat_u16_lt [of "le16 a b"] by (simp del: unat_u16_lt)
  then have s: "unat (s + ucast (le16 a b)) = unat s + unat (le16 a b)" using 1(2) by (simp add: unat_plus)
  have "unat (s + ucast (le16 a b)) + 65535 * (length rest div 2) < 4294967296" using 1(2) w s by simp
  note IH = 1(1) [OF this]
  have "same (unat s + unat (le16 a b) + lev rest) (unat s + lev (a # b # rest))"
    using same_add [OF same_refl [of "unat s"] lev_pair [of a b rest]] by (simp add: add.assoc)
  with IH w s show ?case by (auto simp del: lev.simps intro: same_trans)
qed simp_all

lemma octowords_spec:
  "same (unat (fst (octowords s bs)) + lev (snd (octowords s bs))) (unat s + lev bs) \<and> length (snd (octowords s bs)) < 8"
proof (induction s bs rule: octowords.induct)
  case (1 s a b c d e f g h rest)
  have quad: "same (unat (le32 i j k l) + lev xs) (lev (i # j # k # l # xs))" for i j k l xs
  proof -
    have "lev (i # j # k # l # xs) = 65536 * (65536 * lev xs) + unat (le32 i j k l)" by (simp add: unat_le32)
    then show ?thesis
      using same_trans [OF same_65536 [of "65536 * lev xs" "unat (le32 i j k l)"] same_65536 [of "lev xs" "unat (le32 i j k l)"]]
      by (simp add: same_sym add.commute del: lev.simps)
  qed
  have "same (unat (add_back (add_back s (le32 a b c d)) (le32 e f g h)) + lev rest)
      (unat (add_back s (le32 a b c d)) + unat (le32 e f g h) + lev rest)"
    by (rule same_add [OF same_add_back same_refl])
  also have "same \<dots> (unat (add_back s (le32 a b c d)) + lev (e # f # g # h # rest))"
    unfolding add.assoc by (rule same_add [OF same_refl quad])
  also have "same \<dots> (unat s + unat (le32 a b c d) + lev (e # f # g # h # rest))"
    by (rule same_add [OF same_add_back same_refl])
  also have "same \<dots> (unat s + lev (a # b # c # d # e # f # g # h # rest))"
    unfolding add.assoc by (rule same_add [OF same_refl quad])
  finally have step: "same (unat (add_back (add_back s (le32 a b c d)) (le32 e f g h)) + lev rest)
      (unat s + lev (a # b # c # d # e # f # g # h # rest))" .
  from same_trans [OF conjunct1 [OF 1] this] 1 show ?case by (simp del: lev.simps)
qed simp_all

lemma align_word_spec:
  "same (unat (fst (align_word ps bs)) + lev (snd (align_word ps bs))) (lev bs)"
  by (auto simp: align_word_def lev_pair simp del: lev.simps(2) split: list.split)

lemma chksum1_loop_spec:
  assumes "unat s + 65535 * ((length bs + 1) div 2) < 4294967296"
  shows "same (unat (chksum1_loop s bs)) (unat s + 256 * lev bs)"
  using assms
proof (induction s bs rule: chksum1_loop.induct)
  case (1 s a b rest)
  let ?w = "push_bit 8 (ucast a) OR ucast b :: u16"
  have w: "unat ?w = 256 * unat a + unat b" by (rule unat_be16)
  have "unat ?w \<le> 65535" using unat_u16_lt [of ?w] by (simp del: unat_u16_lt)
  then have s: "unat (s + ucast ?w) = unat s + unat ?w" using 1(2) by (simp add: unat_plus)
  have "same (unat (chksum1_loop (s + ucast ?w) rest)) (unat s + unat ?w + 256 * lev rest)"
    using 1 \<open>unat ?w \<le> 65535\<close> s by simp
  also have "same \<dots> (65536 * (unat b + 256 * lev rest) + (unat s + 256 * unat a))"
    using same_sym [OF same_65536 [of "unat b + 256 * lev rest" "unat s + 256 * unat a"]] by (simp add: w algebra_simps)
  finally show ?case by (simp add: algebra_simps)
next
  case (2 s a)
  have "unat (push_bit 8 (ucast a) :: u16) = 256 * unat a" using unat_be16 [of a 0] by simp
  then show ?case using 2 unat_u8_lt [of a] by (simp add: unat_plus del: unat_u8_lt)
qed simp


section \<open>The specification\<close>

text \<open>
  RFC 1071: the octets in pairs, most significant first, the last one padded with a zero octet,
  added with end-around carry.
\<close>

definition carry_add :: "u16 \<Rightarrow> u16 \<Rightarrow> u16" where
  "carry_add x y = (let t = unat x + unat y in of_nat (if t \<ge> 65536 then t - 65535 else t))"

fun ones_sum :: "u8 list \<Rightarrow> u16" where
  "ones_sum (a # b # rest) = carry_add (be16 a b) (ones_sum rest)"
| "ones_sum [a] = be16 a 0"
| "ones_sum [] = 0"

lemma same_carry_add: "same (unat (carry_add x y)) (unat x + unat y)"
proof (cases "unat x + unat y < 65536")
  case True
  then show ?thesis by (simp add: carry_add_def Let_def unat_plus)
next
  case False
  obtain k where k: "unat x + unat y = k + 65536" using False by (metis add.commute le_Suc_ex not_less)
  have "k + 1 < 65536" using k unat_u16_lt [of x] unat_u16_lt [of y] by (simp del: unat_u16_lt)
  moreover have "carry_add x y = of_nat (k + 1)" using k by (simp add: carry_add_def Let_def del: of_nat_Suc of_nat_add)
  ultimately have "unat (carry_add x y) = k + 1" by (simp add: unat_of_nat take_bit_nat_eq_self del: of_nat_Suc of_nat_add)
  then show ?thesis using same_sym [OF same_65536 [of 1 k]] k by (simp add: add.commute)
qed

lemma ones_sum_spec: "same (unat (ones_sum bs)) (256 * lev bs)"
proof (induction bs rule: ones_sum.induct)
  case (1 a b rest)
  have "same (unat (ones_sum (a # b # rest))) (unat (be16 a b) + 256 * lev rest)"
    using same_trans [OF same_carry_add same_add [OF same_refl 1]] by simp
  also have "same \<dots> (65536 * (unat b + 256 * lev rest) + 256 * unat a)"
    using same_sym [OF same_65536 [of "unat b + 256 * lev rest" "256 * unat a"]] by (simp add: be16_def unat_be16 algebra_simps)
  finally show ?case by (simp add: algebra_simps)
qed (use unat_be16 [of _ 0] in \<open>simp_all add: be16_def\<close>)

lemma same_word: "same (unat x) (unat y) \<Longrightarrow> x = y" for x y :: u16
  using same_eq [of "unat x" "unat y"] by (simp add: word_unat_eq_iff)

lemma htons_ones_sum: "same (unat (lwip_htons (ones_sum bs))) (lev bs)"
proof -
  have "same (unat (lwip_htons (ones_sum bs))) (65536 * lev bs + 0)"
    using same_trans [OF same_htons same_mult [OF ones_sum_spec, of 256]] by (simp add: mult.assoc)
  from same_trans [OF this same_65536] show ?thesis by simp
qed

text \<open>A 16-bit word that represents the sum of the octets is the one of the specification.\<close>

lemma is_ones_sum: "same (unat c) (lev bs) \<Longrightarrow> c = lwip_htons (ones_sum bs)"
  by (rule same_word) (rule same_trans [OF _ same_sym [OF htons_ones_sum]])

section \<open>The three versions\<close>

lemma fold_twice_less: "unat (FOLD_U32T (FOLD_U32T u)) < 65536"
proof -
  have "unat (FOLD_U32T u) \<le> 131070" using unat_u32_lt [of u] unfolding unat_FOLD by (simp del: unat_u32_lt)
  moreover have "n div 65536 + n mod 65536 < 65536" if "n \<le> 131070" for n :: nat
  proof (cases "n < 65536")
    case False
    then obtain k where "n = 65536 + k" using le_Suc_ex [of 65536 n] by auto
    then show ?thesis using that by simp
  qed simp
  ultimately show ?thesis unfolding unat_FOLD [of "FOLD_U32T u"] by blast
qed

lemma unat_ucast_low: "unat w < 65536 \<Longrightarrow> unat (ucast w :: u16) = unat w" for w :: u32
  by (simp add: unsigned_ucast_eq take_bit_nat_eq_self)

lemma chksum_end_spec: "same (unat (chksum_end od s)) ((if od then 256 else 1) * unat s)"
proof -
  let ?f = "FOLD_U32T (FOLD_U32T s)"
  have f: "same (unat ?f) (unat s)" by (rule same_trans [OF same_fold same_fold])
  have "unat (SWAP_BYTES_IN_WORD ?f) < 65536" unfolding unat_SWAP by linarith
  then show ?thesis
    using f same_trans [OF same_swap [OF fold_twice_less] same_mult [OF f, of 256]]
    by (simp add: chksum_end_def Let_def unat_ucast_low fold_twice_less)
qed

lemma le16_zero: "le16 0 0 = 0" by (simp add: le16_def)

lemma tail_octet_spec: "length rest \<le> 1 \<Longrightarrow> unat (tail_octet (le16 0 x) rest) = unat (le16 0 x) + lev rest"
proof (cases rest)
  case (Cons b bs)
  assume "length rest \<le> 1"
  have m: "(0xFF00 :: u16) = push_bit 8 (mask 8)" by (simp add: mask_eq_exp_minus_1)
  have "le16 0 x AND 0xFF00 = push_bit 8 (ucast x)"
    unfolding le16_def m by (rule bit_word_eqI) (auto simp: bit_simps dest: bit_imp_le_length)
  then have "tail_octet (le16 0 x) rest = le16 b x" by (simp add: Cons tail_octet_def le16_def or.commute)
  then show ?thesis using Cons \<open>length rest \<le> 1\<close> by (simp add: unat_le16)
qed (simp add: tail_octet_def)

text \<open>The head octet weighs 256 in the sum of a buffer at an odd address, as the rest is one octet off.\<close>

lemma head_octet_spec:
  obtains x r where "head_octet od bs = (le16 0 x, r)" and "length r \<le> length bs"
    and "od \<Longrightarrow> r = [] \<or> length r < length bs" and "\<not> od \<Longrightarrow> x = 0"
    and "same ((if od then 256 else 1) * (unat (le16 0 x) + lev r)) (lev bs)"
proof (cases "od \<and> bs \<noteq> []")
  case True
  then obtain b r where bs: "bs = b # r" by (cases bs) auto
  have "256 * (unat (le16 0 b) + lev r) = 65536 * unat b + 256 * lev r" by (simp add: unat_le16)
  then have "same (256 * (unat (le16 0 b) + lev r)) (lev bs)"
    using same_65536 [of "unat b" "256 * lev r"] by (simp add: bs)
  then show ?thesis using True by (intro that [of b r]) (auto simp: bs head_octet_def)
next
  case False
  then show ?thesis by (intro that [of 0 bs]) (auto simp: head_octet_def le16_zero split: list.split)
qed

lemma chksum2_spec:
  assumes "length bs \<le> 0x20000"
  shows "same (unat (lwip_standard_chksum2 addr bs)) (lev bs)"
proof -
  define od where "od \<longleftrightarrow> addr AND 1 \<noteq> 0"
  obtain x r where hd: "head_octet od bs = (le16 0 x, r)" and len: "length r \<le> length bs"
    and odd: "od \<Longrightarrow> r = [] \<or> length r < length bs" and even: "\<not> od \<Longrightarrow> x = 0"
    and hs: "same ((if od then 256 else 1) * (unat (le16 0 x) + lev r)) (lev bs)" by (rule head_octet_spec [of od bs]) blast
  obtain s rest where hw: "halfwords 0 r = (s, rest)" by (cases "halfwords 0 r") auto
  have lr: "length r \<le> 131072" using len assms by simp
  have h: "same (unat s + lev rest) (lev r)" "unat s \<le> 65535 * (length r div 2)" "length rest = length r mod 2"
    using halfwords_spec [of 0 r] lr by (simp_all add: hw)
  have "length rest \<le> 1" using h(3) by simp
  note t = tail_octet_spec [OF this, of x]
  let ?t = "tail_octet (le16 0 x) rest"
  have "unat s + unat ?t < 4294967296"
  proof (cases "length r = 131072")
    case True
    then have "x = 0" "rest = []" using odd even len assms h(3) by fastforce+
    then show ?thesis using h(2) True by (simp add: t [unfolded \<open>x = 0\<close> \<open>rest = []\<close>] le16_zero tail_octet_def)
  next
    case False
    then have "length r div 2 \<le> 65535" using lr by linarith
    then have "unat s \<le> 65535 * 65535" using h(2) by linarith
    then show ?thesis using unat_u16_lt [of ?t] by (simp del: unat_u16_lt)
  qed
  then have "unat (s + ucast ?t) = unat (le16 0 x) + (unat s + lev rest)" by (simp add: unat_plus t)
  then have "same (unat (s + ucast ?t)) (unat (le16 0 x) + lev r)" using same_add [OF same_refl h(1)] by simp
  from same_trans [OF same_trans [OF chksum_end_spec same_mult [OF this]] hs] show ?thesis
    by (simp add: lwip_standard_chksum2_def hd hw Let_def flip: od_def split: if_splits)
qed

lemma chksum3_spec: "same (unat (lwip_standard_chksum addr bs)) (lev bs)"
proof -
  define od where "od \<longleftrightarrow> addr AND 1 \<noteq> 0"
  define ps where "ps = (if od \<and> bs \<noteq> [] then addr + 1 else addr)"
  obtain x r where hd: "head_octet od bs = (le16 0 x, r)"
    and hs: "same ((if od then 256 else 1) * (unat (le16 0 x) + lev r)) (lev bs)" by (rule head_octet_spec [of od bs])
  obtain s1 r1 where al: "align_word ps r = (s1, r1)" by (cases "align_word ps r") auto
  obtain s2 r2 where oc: "octowords s1 r1 = (s2, r2)" by (cases "octowords s1 r1") auto
  obtain s rest where hw: "halfwords (FOLD_U32T s2) r2 = (s, rest)" by (cases "halfwords (FOLD_U32T s2) r2") auto
  have o: "same (unat s2 + lev r2) (unat s1 + lev r1)" "length r2 < 8" using octowords_spec [of s1 r1] by (simp_all add: oc)
  have f: "unat (FOLD_U32T s2) \<le> 131070" using unat_u32_lt [of s2] unfolding unat_FOLD by (simp del: unat_u32_lt)
  then have "unat (FOLD_U32T s2) + 65535 * (length r2 div 2) < 4294967296" using o(2) by simp
  from halfwords_spec [OF this]
  have h: "same (unat s + lev rest) (unat (FOLD_U32T s2) + lev r2)" "unat s \<le> unat (FOLD_U32T s2) + 65535 * (length r2 div 2)"
      "length rest = length r2 mod 2"
    by (simp_all add: hw)
  have "length rest \<le> 1" using h(3) by simp
  note t = tail_octet_spec [OF this, of x]
  let ?t = "tail_octet (le16 0 x) rest"
  have "same (unat s + lev rest) (lev r)"
    using same_trans [OF h(1) same_trans [OF same_add [OF same_fold same_refl] same_trans [OF o(1)]]] align_word_spec [of ps r]
    by (simp add: al)
  moreover have "unat (s + ucast ?t) = unat (le16 0 x) + (unat s + lev rest)"
    using h(2) f o(2) unat_u16_lt [of ?t] by (subst unat_plus) (simp_all add: t del: unat_u16_lt)
  ultimately have "same (unat (s + ucast ?t)) (unat (le16 0 x) + lev r)" using same_add [OF same_refl] by simp
  from same_trans [OF same_trans [OF chksum_end_spec same_mult [OF this]] hs] show ?thesis
    by (simp add: lwip_standard_chksum_def hd hw al oc Let_def flip: od_def ps_def split: if_splits)
qed

lemma chksum1_spec:
  assumes "length bs < 65536"
  shows "same (unat (lwip_standard_chksum1 bs)) (lev bs)"
proof -
  define acc where "acc = chksum1_loop 0 bs"
  have acc: "same (unat acc) (256 * lev bs)" using chksum1_loop_spec [of 0 bs] assms by (simp add: acc_def)
  have m: "(0xFFFF0000 :: u32) = push_bit 16 (mask 16)" by (simp add: mask_eq_exp_minus_1)
  define hi where "hi = FOLD_U32T acc"
  have "hi AND 0xFFFF0000 = push_bit 16 (drop_bit 16 hi)"
    unfolding m by (rule bit_word_eqI) (auto simp: bit_simps dest: bit_imp_le_length)
  moreover have "unat (push_bit 16 (drop_bit 16 hi)) = unat hi div 65536 * 65536"
    using unat_u32_lt [of hi] by (subst unat_shift) (simp_all add: unat_drop del: unat_u32_lt)
  ultimately have z: "hi AND 0xFFFF0000 = 0 \<longleftrightarrow> unat hi < 65536" by (simp add: div_eq_0_iff flip: unat_eq_zero)
  define r where "r = (if hi AND 0xFFFF0000 \<noteq> 0 then FOLD_U32T hi else hi)"
  have "unat r < 65536" using fold_twice_less [of acc] z by (simp add: r_def hi_def)
  moreover have "same (unat r) (256 * lev bs)"
    using acc same_fold same_trans by (simp add: r_def hi_def) blast
  ultimately have "same (unat (lwip_htons (ucast r))) (256 * (256 * lev bs))"
    using same_trans [OF same_htons same_mult] by (metis unat_ucast_low zero_neq_numeral)
  moreover have "same (256 * (256 * lev bs)) (lev bs)" using same_65536 [of "lev bs" 0] by simp
  moreover have "lwip_standard_chksum1 bs = lwip_htons (ucast r)"
    by (simp add: lwip_standard_chksum1_def Let_def r_def hi_def acc_def FOLD_U32T_def)
  ultimately show ?thesis using same_trans by metis
qed


section \<open>Chains of packet buffers\<close>

abbreviation weight :: "nat \<Rightarrow> nat" where "weight n \<equiv> (if even n then 1 else 256)"

text \<open>After \<open>n\<close> octets with the sum \<open>l\<close>: the accumulator is swapped when \<open>n\<close> is odd.\<close>

definition chain_inv :: "u32 \<times> bool \<Rightarrow> nat \<Rightarrow> nat \<Rightarrow> bool" where
  "chain_inv s n l \<longleftrightarrow> unat (fst s) < 65536 \<and> snd s = odd n \<and> same (unat (fst s)) (weight n * l)"

lemma chain_inv_same: "chain_inv s n l \<Longrightarrow> same l l' \<Longrightarrow> chain_inv s n l'"
  unfolding chain_inv_def using same_trans [OF _ same_mult [of l l' "weight n"]] by simp

lemma same_256_256: "same (256 * (256 * n)) n"
  using same_65536 [of n 0] by simp

lemma chain_inv_start: "chain_inv (0, False) 0 0" by (simp add: chain_inv_def)

lemma unswapped_spec: "chain_inv s n l \<Longrightarrow> unat (unswapped s) < 65536 \<and> same (unat (unswapped s)) l"
proof -
  assume inv: "chain_inv s n l"
  have "unat (SWAP_BYTES_IN_WORD w) < 65536" for w unfolding unat_SWAP by linarith
  moreover have "same (unat (SWAP_BYTES_IN_WORD (fst s))) l" if "odd n"
    using inv that same_trans [OF same_swap same_trans [OF same_mult same_256_256]] by (auto simp: chain_inv_def)
  ultimately show ?thesis using inv by (auto simp: chain_inv_def unswapped_def split: if_splits)
qed

lemma chksum_step_spec:
  assumes inv: "chain_inv s n l" and c: "same (unat c) x"
  shows "chain_inv (chksum_step s c len) (n + len) (l + weight n * x)"
proof -
  obtain acc sw where s: "s = (acc, sw)" by (cases s)
  define acc' where "acc' = FOLD_U32T (acc + ucast c)"
  have le: "unat acc < 65536" and sw: "sw = odd n" and acc: "same (unat acc) (weight n * l)" using inv by (auto simp: chain_inv_def s)
  have plus: "unat (acc + ucast c) = unat acc + unat c" using le unat_u16_lt [of c] by (simp add: unat_plus del: unat_u16_lt)
  have "unat (acc + ucast c) \<le> 131070" using plus le unat_u16_lt [of c] by (simp del: unat_u16_lt)
  then have lt: "unat acc' < 65536"
    unfolding acc'_def unat_FOLD by (cases "unat (acc + ucast c) < 65536") (auto simp: div_eq_0_iff mod_if le_div_geq)
  have "same (weight n * l + x) (weight n * (l + weight n * x))"
  proof (cases "even n")
    case False
    then show ?thesis using same_add [OF same_refl same_sym [OF same_256_256 [of x]], of "256 * l"] by (simp add: distrib_left)
  qed simp
  with same_trans [OF same_fold [of "acc + ucast c"]] have sum: "same (unat acc') (weight n * (l + weight n * x))"
    unfolding acc'_def plus using same_add [OF acc c] same_trans by blast
  show ?thesis
  proof (cases "even len")
    case True
    then have "chksum_step s c len = (acc', sw)" by (simp add: chksum_step_def s acc'_def Let_def even_iff_mod_2_eq_zero)
    then show ?thesis using lt sum sw True by (simp add: chain_inv_def)
  next
    case False
    then have step: "chksum_step s c len = (SWAP_BYTES_IN_WORD acc', \<not> sw)"
      by (simp add: chksum_step_def s acc'_def Let_def even_iff_mod_2_eq_zero)
    have "same (unat (SWAP_BYTES_IN_WORD acc')) (256 * (weight n * (l + weight n * x)))"
      using same_trans [OF same_swap [OF lt] same_mult [OF sum]] by simp
    also have "same \<dots> (weight (n + len) * (l + weight n * x))"
      using False same_256_256 [of "l + 256 * x"] by (cases "even n") auto
    finally have "same (unat (SWAP_BYTES_IN_WORD acc')) (weight (n + len) * (l + weight n * x))" .
    moreover have "unat (SWAP_BYTES_IN_WORD acc') < 65536" unfolding unat_SWAP by linarith
    ultimately show ?thesis using False sw by (simp add: chain_inv_def step)
  qed
qed

lemma weight_append: "same (weight n * lev (xs @ ys)) (weight n * lev xs + weight (n + length xs) * lev ys)"
proof -
  have "same (weight n * lev (xs @ ys)) (weight n * (lev xs + weight (length xs) * lev ys))"
    by (rule same_mult [OF lev_append]) simp
  also have "same \<dots> (weight n * lev xs + weight (n + length xs) * lev ys)"
    using same_add [OF same_refl same_256_256 [of "lev ys"], of "256 * lev xs"] by (auto simp: distrib_left)
  finally show ?thesis .
qed

lemma chksum_chain_spec:
  "chain_inv s n l \<Longrightarrow>
     chain_inv (chksum_chain s qs) (n + length (chain_octets qs)) (l + weight n * lev (chain_octets qs))"
proof (induction qs arbitrary: s n l)
  case (Cons q qs)
  from Cons.IH [OF chksum_step_spec [OF Cons.prems chksum3_spec [of "pb_payload q" "pb_octets q"]], of "length (pb_octets q)"]
    same_add [OF same_refl [of l] same_sym [OF weight_append [of n "pb_octets q" "chain_octets qs"]]]
  show ?case by (auto simp: add.assoc intro: chain_inv_same)
qed simp

lemma chksum_partial_spec:
  "chain_inv s n l \<Longrightarrow> \<exists>m. chain_inv (chksum_partial s k qs) m (l + weight n * lev (take (unat k) (chain_octets qs)))"
proof (induction qs arbitrary: s n l k)
  case (Cons q qs)
  show ?case
  proof (cases "k = 0")
    case True
    then show ?thesis using Cons.prems by auto
  next
    case False
    let ?len = "length (pb_octets q)"
    define chk where "chk = (if ?len > unat k then unat k else ?len)"
    have "chk \<le> unat k" by (simp add: chk_def)
    then have k: "unat (k - of_nat chk) = unat k - chk"
      using unat_u16_lt [of k] by (subst unat_sub) (simp_all add: word_le_nat_alt unat_of_nat take_bit_nat_eq_self del: unat_u16_lt)
    note step = chksum_step_spec [OF Cons.prems chksum3_spec [of "pb_payload q" "take chk (pb_octets q)"], of ?len]
    from Cons.IH [OF step, of "k - of_nat chk"] obtain m where
      m: "chain_inv (chksum_partial s k (q # qs)) m (l + weight n * lev (take chk (pb_octets q))
        + weight (n + ?len) * lev (take (unat k - chk) (chain_octets qs)))"
      using False by (auto simp: k chk_def [symmetric] word_gt_0)
    have cat: "take (unat k) (chain_octets (q # qs)) = take chk (pb_octets q) @ take (unat k - chk) (chain_octets qs)"
      by (auto simp: chk_def)
    have len: "weight (n + ?len) * lev (take (unat k - chk) (chain_octets qs))
        = weight (n + length (take chk (pb_octets q))) * lev (take (unat k - chk) (chain_octets qs))"
      by (simp add: chk_def)
    have "same (l + weight n * lev (take chk (pb_octets q)) + weight (n + ?len) * lev (take (unat k - chk) (chain_octets qs)))
        (l + weight n * lev (take (unat k) (chain_octets (q # qs))))"
      unfolding len cat add.assoc by (rule same_add [OF same_refl same_sym [OF weight_append]])
    from chain_inv_same [OF m this] show ?thesis by blast
  qed
qed auto


section \<open>The sums of a chain and of the pseudo header\<close>

lemma chain_sum:
  "unat (unswapped (chksum_chain (0, False) p)) < 65536 \<and> same (unat (unswapped (chksum_chain (0, False) p))) (lev (chain_octets p))"
  using unswapped_spec [OF chksum_chain_spec [OF chain_inv_start, of p]] by simp

lemma partial_sum:
  "unat (unswapped (chksum_partial (0, False) k p)) < 65536
    \<and> same (unat (unswapped (chksum_partial (0, False) k p))) (lev (take (unat k) (chain_octets p)))"
  using chksum_partial_spec [OF chain_inv_start, of k p] unswapped_spec by fastforce

lemma low_ucast: "ucast (w AND 0xFFFF) = (ucast w :: u16)" for w :: u32
proof -
  have "w AND 0xFFFF = take_bit 16 w" by (simp add: take_bit_eq_mask mask_eq_exp_minus_1)
  moreover have "ucast (take_bit 16 w) = (ucast w :: u16)" by (rule bit_word_eqI) (auto simp: bit_simps)
  ultimately show ?thesis by simp
qed

text \<open>The twelve octets of the pseudo header: both addresses, zero, the protocol, the length.\<close>

definition pseudo_octets :: "u32 \<Rightarrow> u32 \<Rightarrow> u8 \<Rightarrow> u16 \<Rightarrow> u8 list" where
  "pseudo_octets src dest proto proto_len =
     octets32 src @ octets32 dest @ [0, proto] @ [ucast (drop_bit 8 proto_len), ucast proto_len]"

lemma lev_octets16: "lev (octets16 w) = unat w"
  using mult_div_mod_eq [of 256 "unat w"] unat_u16_lt [of w] by (simp add: octets16_def unat_drop del: unat_u16_lt)

lemma lev_octets32: "lev (octets32 w) = unat w"
  using octets_value [of "unat w"] unat_u32_lt [of w] by (simp add: octets32_def unat_drop del: unat_u32_lt)

lemma lev_even_append: "even (length xs) \<Longrightarrow> same n (lev xs) \<Longrightarrow> same m (lev ys) \<Longrightarrow> same (n + m) (lev (xs @ ys))"
  using same_trans [OF same_add same_sym [OF lev_append]] by fastforce

lemma pseudo_octets_lev:
  assumes "same l (lev bs)"
  shows "same (unat src + (unat dest + (unat (lwip_htons (ucast proto)) + (unat (lwip_htons proto_len) + l))))
     (lev (pseudo_octets src dest proto proto_len @ bs))"
proof -
  have "unat (lwip_htons (ucast proto)) = lev [0, proto]"
    using unat_u8_lt [of proto] by (simp add: unat_htons del: unat_u8_lt)
  moreover have "unat (lwip_htons proto_len) = lev [ucast (drop_bit 8 proto_len), ucast proto_len]"
    using unat_u16_lt [of proto_len] by (simp add: unat_htons unat_drop del: unat_u16_lt)
  ultimately show ?thesis unfolding pseudo_octets_def append_assoc
    by (intro lev_even_append assms) (simp_all add: lev_octets32 octets32_def [THEN arg_cong [of _ _ length]])
qed

lemma unat_sum7:
  fixes a :: u32
  assumes "unat a < 65536" "unat b < 65536" "unat c < 65536" "unat d < 65536" "unat e < 65536" "unat f < 65536" "unat g < 65536"
  shows "unat (a + b + c + d + e + f + g) = unat a + unat b + unat c + unat d + unat e + unat f + unat g"
  using assms by (simp add: unat_plus)

lemma pseudo_header_spec:
  assumes "unat acc < 65536" and "same (unat acc) (lev bs)"
  shows "pseudo_header acc src dest proto proto_len = NOT (lwip_htons (ones_sum (pseudo_octets src dest proto proto_len @ bs)))"
proof -
  let ?s = "unat acc + unat (src AND 0xFFFF) + unat (drop_bit 16 src AND 0xFFFF) + unat (dest AND 0xFFFF)
    + unat (drop_bit 16 dest AND 0xFFFF) + unat (lwip_htons (ucast proto)) + unat (lwip_htons proto_len)"
  define w where "w = acc + (src AND 0xFFFF) + (drop_bit 16 src AND 0xFFFF) + (dest AND 0xFFFF)
    + (drop_bit 16 dest AND 0xFFFF) + ucast (lwip_htons (ucast proto)) + ucast (lwip_htons proto_len)"
  have w: "unat w = ?s"
    using assms(1) unat_u16_lt [of "lwip_htons (ucast proto)"] unat_u16_lt [of "lwip_htons proto_len"]
    unfolding w_def by (subst unat_sum7) (simp_all del: unat_u16_lt)
  have half: "same (unat (a AND 0xFFFF) + unat (drop_bit 16 a AND 0xFFFF)) (unat a)" for a :: u32
    using same_sym [OF same_65536 [of "unat a div 65536" "unat a mod 65536"]] unat_u32_lt [of a]
    by (simp add: unat_drop add.commute [of "unat a mod 65536"] del: unat_u32_lt)
  have "same (unat w) (unat src + (unat dest + (unat (lwip_htons (ucast proto)) + (unat (lwip_htons proto_len) + unat acc))))"
    unfolding w using same_add [OF same_add [OF half [of src] half [of dest]] same_refl, of "unat (lwip_htons (ucast proto)) + (unat (lwip_htons proto_len) + unat acc)"] by (simp add: ac_simps)
  from same_trans [OF this pseudo_octets_lev [OF assms(2)]]
  have "same (unat (FOLD_U32T (FOLD_U32T w))) (lev (pseudo_octets src dest proto proto_len @ bs))"
    using same_trans [OF same_fold same_trans [OF same_fold]] by blast
  then have "ucast (FOLD_U32T (FOLD_U32T w)) = lwip_htons (ones_sum (pseudo_octets src dest proto proto_len @ bs))"
    by (intro is_ones_sum) (simp add: unat_ucast_low fold_twice_less)
  then show ?thesis unfolding pseudo_header_def Let_def low_ucast by (simp only: w_def)
qed

lemma unat_ones: "unat (- 1 :: u16) = 65535"
  by (simp add: unsigned_minus_1_eq_mask mask_eq_exp_minus_1)

text \<open>A receiver that sums a packet with its checksum stored at an even offset gets all ones.\<close>

lemma checksum_accepted:
  assumes "even (length pre)" and c: "c = inet_chksum addr (pre @ [0, 0] @ post)"
  shows "inet_chksum addr' (pre @ octets16 c @ post) = 0"
proof -
  define x where "x = lwip_standard_chksum addr (pre @ [0, 0] @ post)"
  have lev: "same (lev pre + (unat w + lev post)) (lev (pre @ octets16 w @ post))" for w
    by (intro lev_even_append assms(1) same_refl) (simp_all add: lev_octets16, simp add: octets16_def)
  have "octets16 0 = [0, 0]" by (simp add: octets16_def)
  then have x: "same (unat x) (lev pre + lev post)"
    using same_trans [OF chksum3_spec same_sym [OF lev [of 0]]] by (simp add: x_def)
  have "c = - 1 - x" using c by (simp add: inet_chksum_def x_def not_eq_complement)
  moreover have "unat (- 1 - x) = unat (- 1 :: u16) - unat x" by (rule unat_sub) simp
  moreover note unat_ones
  ultimately have "unat c = 65535 - unat x" by (simp only:)
  moreover have "unat x \<le> 65535" using unat_u16_lt [of x] by (simp del: unat_u16_lt)
  ultimately have "same (lev pre + (unat c + lev post)) 65535"
    using same_add [OF same_sym [OF x] same_refl [of "unat c"]] by (simp add: ac_simps)
  from same_trans [OF chksum3_spec same_trans [OF same_sym [OF lev [of c]] this]]
  have "same (unat (lwip_standard_chksum addr' (pre @ octets16 c @ post))) (unat (- 1 :: u16))" by (simp only: unat_ones)
  from same_word [OF this] show ?thesis by (simp add: inet_chksum_def)
qed

end
