(* ===== verification/Ip_Addr.thy ===== *)
theory Ip_Addr
  imports Lwip_Def
begin

text \<open>
  The IPv4 address functions of lwIP (\<open>core/ipv4/ip_addr.c\<close>): broadcast and netmask tests, and the
  conversions between an address and its text. A C string is the list of its octets up to the
  terminating zero, and reading at its end gives that zero; an address is the word in network order
  as the code keeps it.
\<close>

section \<open>Broadcast addresses and netmasks\<close>

definition IPADDR_ANY :: u32 where "IPADDR_ANY = 0x00000000"
definition IPADDR_BROADCAST :: u32 where "IPADDR_BROADCAST = 0xFFFFFFFF"
definition IPADDR_NONE :: u32 where "IPADDR_NONE = 0xFFFFFFFF"
definition NETIF_FLAG_BROADCAST :: u8 where "NETIF_FLAG_BROADCAST = 0x02"

record netif =
  nif_ip_addr :: u32
  nif_netmask :: u32
  nif_flags :: u8

definition ip_addr_netcmp :: "u32 \<Rightarrow> u32 \<Rightarrow> u32 \<Rightarrow> bool" where
  "ip_addr_netcmp addr1 addr2 nm = (addr1 AND nm = addr2 AND nm)"

definition ip4_addr_isbroadcast :: "u32 \<Rightarrow> netif \<Rightarrow> bool" where
  "ip4_addr_isbroadcast addr netif =
     (if NOT addr = IPADDR_ANY \<or> addr = IPADDR_ANY then True
      else if nif_flags netif AND NETIF_FLAG_BROADCAST = 0 then False
      else if addr = nif_ip_addr netif then False
      else if ip_addr_netcmp addr (nif_ip_addr netif) (nif_netmask netif)
           \<and> addr AND NOT (nif_netmask netif) = IPADDR_BROADCAST AND NOT (nif_netmask netif) then True
      else False)"

text \<open>The two loops over \<open>mask\<close>: the first zero from the top, then no one below it.\<close>

lemma mask_shrinks: "m \<noteq> 0 \<Longrightarrow> unat (drop_bit (Suc 0) m) < unat m" for m :: u32
  by (simp add: unat_drop unat_gt_0)

function first_zero :: "u32 \<Rightarrow> u32 \<Rightarrow> u32" where
  "first_zero nm m = (if m \<noteq> 0 then if nm AND m = 0 then m else first_zero nm (drop_bit 1 m) else m)"
  by auto
termination by (relation "measure (\<lambda>(nm, m). unat m)") (auto intro: mask_shrinks)

function no_one :: "u32 \<Rightarrow> u32 \<Rightarrow> bool" where
  "no_one nm m = (if m \<noteq> 0 then if nm AND m \<noteq> 0 then False else no_one nm (drop_bit 1 m) else True)"
  by auto
termination by (relation "measure (\<lambda>(nm, m). unat m)") (auto intro: mask_shrinks)

declare first_zero.simps [simp del] no_one.simps [simp del]

definition ip4_addr_netmask_valid :: "u32 \<Rightarrow> bool" where
  "ip4_addr_netmask_valid netmask =
     (let nm_hostorder = lwip_htonl netmask in no_one nm_hostorder (first_zero nm_hostorder (push_bit 31 1)))"

section \<open>Reading an address\<close>

definition in_range :: "u8 \<Rightarrow> u8 \<Rightarrow> u8 \<Rightarrow> bool" where
  "in_range c lo up \<longleftrightarrow> lo \<le> c \<and> c \<le> up"

definition isdigit :: "u8 \<Rightarrow> bool" where "isdigit c = in_range c 0x30 0x39"
definition isxdigit :: "u8 \<Rightarrow> bool" where
  "isxdigit c \<longleftrightarrow> isdigit c \<or> in_range c 0x61 0x66 \<or> in_range c 0x41 0x46"
definition islower :: "u8 \<Rightarrow> bool" where "islower c = in_range c 0x61 0x7A"
definition isspace :: "u8 \<Rightarrow> bool" where
  "isspace c \<longleftrightarrow> c = 0x20 \<or> c = 0x0C \<or> c = 0x0A \<or> c = 0x0D \<or> c = 0x09 \<or> c = 0x0B"

definition peek :: "u8 list \<Rightarrow> u8" where
  "peek cp = (case cp of [] \<Rightarrow> 0 | c # _ \<Rightarrow> c)"

text \<open>The digits of one number in the given base.\<close>

fun scan_digits :: "u32 \<Rightarrow> u32 \<Rightarrow> u8 list \<Rightarrow> u32 \<times> u8 list" where
  "scan_digits base val [] = (val, [])"
| "scan_digits base val (c # cp) =
     (if isdigit c then scan_digits base (val * base + ucast (c - 0x30)) cp
      else if base = 16 \<and> isxdigit c
        then scan_digits base (push_bit 4 val OR (ucast c + 10 - (if islower c then 0x61 else 0x41))) cp
      else (val, c # cp))"

definition scan_number :: "u8 list \<Rightarrow> (u32 \<times> u8 list) option" where
  "scan_number cp =
     (if \<not> isdigit (peek cp) then None
      else if peek cp = 0x30 then
        let cp = tl cp in
        if peek cp = 0x78 \<or> peek cp = 0x58 then Some (scan_digits 16 0 (tl cp)) else Some (scan_digits 8 0 cp)
      else Some (scan_digits 10 0 cp))"

text \<open>The parts separated by dots, at most three before the last one.\<close>

function scan_parts :: "u32 list \<Rightarrow> u8 list \<Rightarrow> (u32 list \<times> u32 \<times> u8 list) option" where
  "scan_parts parts cp =
     (case scan_number cp of
        None \<Rightarrow> None
      | Some (val, cp) \<Rightarrow>
          if peek cp = 0x2E then
            if length parts \<ge> 3 then None else scan_parts (parts @ [val]) (tl cp)
          else Some (parts, val, cp))"
  by pat_completeness auto
termination by (relation "measure (\<lambda>(parts, cp). 3 - length parts)") auto

declare scan_parts.simps [simp del]

definition ipaddr_aton :: "u8 list \<Rightarrow> u32 option" where
  "ipaddr_aton cp =
     (case scan_parts [] cp of
        None \<Rightarrow> None
      | Some (parts, val, cp) \<Rightarrow>
          if peek cp \<noteq> 0 \<and> \<not> isspace (peek cp) then None
          else if length parts + 1 = 1 then Some (lwip_htonl val)
          else if length parts + 1 = 2 then
            if val > 0xFFFFFF then None else Some (lwip_htonl (val OR push_bit 24 (parts ! 0)))
          else if length parts + 1 = 3 then
            if val > 0xFFFF then None
            else Some (lwip_htonl (val OR (push_bit 24 (parts ! 0) OR push_bit 16 (parts ! 1))))
          else
            if val > 0xFF then None
            else Some (lwip_htonl (val OR (push_bit 24 (parts ! 0) OR push_bit 16 (parts ! 1) OR push_bit 8 (parts ! 2)))))"

definition ipaddr_addr :: "u8 list \<Rightarrow> u32" where
  "ipaddr_addr cp = (case ipaddr_aton cp of Some val \<Rightarrow> val | None \<Rightarrow> IPADDR_NONE)"

section \<open>Writing an address\<close>

text \<open>The digits of an octet as the first inner loop leaves them in \<open>inv\<close>, the last one first.\<close>

function inv_digits :: "u8 \<Rightarrow> u8 list" where
  "inv_digits n = (0x30 + n mod 10) # (if n div 10 \<noteq> 0 then inv_digits (n div 10) else [])"
  by auto
termination
proof (relation "measure unat")
  fix n :: u8
  assume "n div 10 \<noteq> 0"
  then have "0 < unat (n div 10)" by (simp add: unat_gt_0)
  then show "(n div 10, n) \<in> measure unat" by (simp add: unat_div_distrib)
qed simp

declare inv_digits.simps [simp del]

text \<open>One character into the buffer, unless it is full (the function returns \<open>NULL\<close>).\<close>

definition put_char :: "int \<Rightarrow> u8 \<Rightarrow> u8 list \<Rightarrow> u8 list option" where
  "put_char buflen c out = (if int (length out) \<ge> buflen then None else Some (out @ [c]))"

primrec put_chars :: "int \<Rightarrow> u8 list \<Rightarrow> u8 list \<Rightarrow> u8 list option" where
  "put_chars buflen [] out = Some out"
| "put_chars buflen (c # cs) out =
     (case put_char buflen c out of None \<Rightarrow> None | Some out \<Rightarrow> put_chars buflen cs out)"

primrec put_octets :: "int \<Rightarrow> u8 list \<Rightarrow> u8 list \<Rightarrow> u8 list option" where
  "put_octets buflen [] out = Some out"
| "put_octets buflen (n # ns) out =
     (case put_chars buflen (rev (inv_digits n)) out of
        None \<Rightarrow> None
      | Some out \<Rightarrow>
          (case put_char buflen 0x2E out of None \<Rightarrow> None | Some out \<Rightarrow> put_octets buflen ns out))"

text \<open>The contents of the buffer with the terminating zero, which replaces the last dot.\<close>

definition ipaddr_ntoa_r :: "u32 \<Rightarrow> int \<Rightarrow> u8 list option" where
  "ipaddr_ntoa_r addr buflen =
     (case put_octets buflen (octets32 addr) [] of None \<Rightarrow> None | Some out \<Rightarrow> Some (butlast out @ [0]))"

definition ipaddr_ntoa :: "u32 \<Rightarrow> u8 list option" where
  "ipaddr_ntoa addr = ipaddr_ntoa_r addr 16"


section \<open>Netmasks and broadcast addresses\<close>

lemma shifted_one: "k < 31 \<Longrightarrow> drop_bit (Suc 0) (2 ^ Suc k :: u32) = 2 ^ k"
  by (rule bit_word_eqI) (auto simp: bit_drop_bit_eq bit_exp_iff simp del: power_Suc)

lemma power_nonzero: "k < 32 \<Longrightarrow> (2 ^ k :: u32) \<noteq> 0"
  by simp

lemma no_one_iff: "k < 32 \<Longrightarrow> no_one x (2 ^ k) \<longleftrightarrow> (\<forall>i\<le>k. \<not> bit x i)"
proof (induction k)
  case 0
  then show ?case by (subst no_one.simps) (simp add: no_one.simps [of _ 0] and_one_eq odd_iff_mod_2_eq_one bit_0 drop_bit_eq_div)
next
  case (Suc k)
  then show ?case
    by (subst no_one.simps) (auto simp: shifted_one and_exp_eq_0_iff_not_bit le_Suc_eq simp del: power_Suc)
qed

lemma netmask_loops_iff:
  "k < 32 \<Longrightarrow> no_one x (first_zero x (2 ^ k)) \<longleftrightarrow> (\<forall>i j. i < j \<longrightarrow> j \<le> k \<longrightarrow> bit x i \<longrightarrow> bit x j)"
proof (induction k)
  case 0
  show ?case by (subst first_zero.simps) (simp add: first_zero.simps [of _ 0] no_one.simps [of _ 0] no_one.simps [of _ 1])
next
  case (Suc k)
  show ?case
  proof (cases "bit x (Suc k)")
    case True
    then have "first_zero x (2 ^ Suc k) = first_zero x (2 ^ k)"
      using Suc.prems by (subst first_zero.simps) (simp add: shifted_one and_exp_eq_0_iff_not_bit del: power_Suc)
    then show ?thesis using Suc True by (auto simp: le_Suc_eq)
  next
    case False
    then have "first_zero x (2 ^ Suc k) = 2 ^ Suc k"
      using Suc.prems by (subst first_zero.simps) (simp add: and_exp_eq_0_iff_not_bit del: power_Suc)
    then have "no_one x (first_zero x (2 ^ Suc k)) \<longleftrightarrow> (\<forall>i\<le>Suc k. \<not> bit x i)"
      using Suc.prems no_one_iff [of "Suc k" x] by simp
    moreover have "\<not> bit x i" if "\<forall>i j. i < j \<longrightarrow> j \<le> Suc k \<longrightarrow> bit x i \<longrightarrow> bit x j" and "i \<le> Suc k" for i
      using that False by (cases "i = Suc k") (auto simp: less_le)
    moreover have "bit x j" if "\<forall>i\<le>Suc k. \<not> bit x i" and "i < j" and "j \<le> Suc k" and "bit x i" for i j
      using that by auto
    ultimately show ?thesis by blast
  qed
qed

lemma ones_then_zeros:
  "(\<forall>i j. i < j \<longrightarrow> j \<le> 31 \<longrightarrow> bit x i \<longrightarrow> bit x j) \<longleftrightarrow> (\<exists>n\<le>32. x = NOT (mask (32 - n)))" for x :: u32
proof
  assume up: "\<forall>i j. i < j \<longrightarrow> j \<le> 31 \<longrightarrow> bit x i \<longrightarrow> bit x j"
  define m where "m = (if \<exists>i<32. bit x i then LEAST i. bit x i else 32)"
  have "m \<le> 32" unfolding m_def by (auto intro: Least_le le_trans less_imp_le)
  moreover have "x = NOT (mask m)"
  proof (rule bit_word_eqI)
    fix j assume "j < LENGTH(32)"
    then have j: "j < 32" by simp
    show "bit x j \<longleftrightarrow> bit (NOT (mask m) :: u32) j"
    proof (cases "\<exists>i<32. bit x i")
      case True
      then have "bit x m" "\<And>i. i < m \<Longrightarrow> \<not> bit x i" by (auto simp: m_def intro: LeastI dest: not_less_Least)
      moreover have "j \<le> 31" using j by simp
      ultimately have "bit x j \<longleftrightarrow> m \<le> j" using up by (metis leI le_neq_implies_less)
      then show ?thesis using j by (simp add: bit_not_iff bit_mask_iff not_less)
    qed (use j in \<open>auto simp: m_def bit_not_iff bit_mask_iff\<close>)
  qed
  ultimately show "\<exists>n\<le>32. x = NOT (mask (32 - n))" by (intro exI [of _ "32 - m"]) auto
qed (auto simp: bit_not_iff bit_mask_iff)

lemma broadcast_of_net: "a AND nm = ip AND nm \<and> a AND NOT nm = NOT nm \<longleftrightarrow> a = (ip AND nm) OR NOT nm" for a :: u32
proof
  assume *: "a AND nm = ip AND nm \<and> a AND NOT nm = NOT nm"
  have "a = (a AND nm) OR (a AND NOT nm)" by (rule bit_word_eqI) (auto simp: bit_simps)
  then show "a = (ip AND nm) OR NOT nm" using * by simp
next
  assume "a = (ip AND nm) OR NOT nm"
  then show "a AND nm = ip AND nm \<and> a AND NOT nm = NOT nm"
    by (auto intro!: bit_word_eqI simp: bit_simps)
qed

section \<open>Numbers in text\<close>

definition digits_value :: "u8 list \<Rightarrow> nat" where
  "digits_value ds = foldl (\<lambda>v c. v * 10 + (unat c - 48)) 0 ds"

lemma digit_range: "isdigit c \<longleftrightarrow> 48 \<le> unat c \<and> unat c \<le> 57"
  by (simp add: isdigit_def in_range_def word_le_nat_alt)

lemma digit_value: "isdigit c \<Longrightarrow> (ucast (c - 0x30) :: u32) = of_nat (unat c - 48)"
  by (simp add: digit_range word_unat_eq_iff unat_sub word_le_nat_alt)

lemma scan_digits_append:
  "list_all isdigit ds \<Longrightarrow>
     scan_digits 10 (of_nat v) (ds @ r) = scan_digits 10 (of_nat (foldl (\<lambda>v c. v * 10 + (unat c - 48)) v ds)) r"
proof (induction ds arbitrary: v)
  case (Cons c ds)
  then have "of_nat v * 10 + ucast (c - 0x30) = (of_nat (v * 10 + (unat c - 48)) :: u32)" by (simp add: digit_value)
  then show ?case using Cons by (simp del: of_nat_add of_nat_mult)
qed simp

lemma scan_digits_stops: "\<not> isdigit (peek r) \<Longrightarrow> scan_digits 10 v r = (v, r)"
  by (cases r) (auto simp: peek_def)

lemma scan_decimal:
  assumes "list_all isdigit ds" and "ds \<noteq> []" and "hd ds \<noteq> 0x30" and "\<not> isdigit (peek r)"
  shows "scan_number (ds @ r) = Some (of_nat (digits_value ds), r)"
proof -
  have "peek (ds @ r) = hd ds" "isdigit (hd ds)" using assms(1,2) by (cases ds; simp add: peek_def)+
  then show ?thesis
    using assms scan_digits_append [OF assms(1), of 0 r] by (simp add: scan_number_def scan_digits_stops digits_value_def)
qed

lemma inv_digits_digits: "list_all isdigit (inv_digits n)"
proof (induction n rule: inv_digits.induct)
  case (1 n)
  have "unat (0x30 + n mod 10) = 48 + unat n mod 10" by (subst unat_plus) (simp_all add: unat_mod_distrib)
  then have "isdigit (0x30 + n mod 10)" by (simp add: digit_range)
  with 1 show ?case by (subst inv_digits.simps) simp
qed

lemma inv_digits_value: "digits_value (rev (inv_digits n)) = unat n"
proof (induction n rule: inv_digits.induct)
  case (1 n)
  have d: "unat (0x30 + n mod 10) - 48 = unat n mod 10" by (subst unat_plus) (simp_all add: unat_mod_distrib)
  show ?case
  proof (cases "n div 10 = 0")
    case True
    then have "unat n div 10 = 0" using unat_div_distrib [of n 10] by (simp flip: unat_eq_zero)
    then have "unat n mod 10 = unat n" by simp
    then show ?thesis using True d by (subst inv_digits.simps) (simp add: digits_value_def)
  next
    case False
    then show ?thesis
      using 1 d by (subst inv_digits.simps) (simp add: digits_value_def unat_div_distrib)
  qed
qed

lemma inv_digits_last: "n \<noteq> 0 \<Longrightarrow> last (inv_digits n) \<noteq> 0x30"
proof (induction n rule: inv_digits.induct)
  case (1 n)
  show ?case
  proof (cases "n div 10 = 0")
    case True
    then have "unat n div 10 = 0" using unat_div_distrib [of n 10] by (simp flip: unat_eq_zero)
    moreover have "unat n \<noteq> 0" using 1(2) by (simp add: unat_eq_zero)
    ultimately have "unat n mod 10 \<noteq> 0" by simp
    then have "unat (n mod 10) \<noteq> 0" by (simp add: unat_mod_distrib)
    then have "n mod 10 \<noteq> 0" by (metis unsigned_0)
    then show ?thesis using True by (subst inv_digits.simps) simp
  next
    case False
    moreover have "inv_digits m \<noteq> []" for m by (subst inv_digits.simps) simp
    ultimately show ?thesis using 1 by (subst inv_digits.simps) simp
  qed
qed


section \<open>Addresses in text\<close>

text \<open>The dotted decimal text of four octets.\<close>

definition dec :: "u8 \<Rightarrow> u8 list" where "dec n = rev (inv_digits n)"

definition dotted :: "u8 list \<Rightarrow> u8 list" where
  "dotted ns = butlast (concat (map (\<lambda>n. dec n @ [0x2E]) ns))"

lemma dec_nonempty [simp]: "dec n \<noteq> []"
  unfolding dec_def by (subst inv_digits.simps) simp

lemma put_chars_eq:
  "put_chars b cs out = (if cs = [] \<or> int (length (out @ cs)) \<le> b then Some (out @ cs) else None)"
  by (induction cs arbitrary: out) (auto simp: put_char_def)

lemma put_octets_eq:
  "put_octets b ns out =
     (if ns = [] \<or> int (length (out @ concat (map (\<lambda>n. dec n @ [0x2E]) ns))) \<le> b
      then Some (out @ concat (map (\<lambda>n. dec n @ [0x2E]) ns)) else None)"
proof (induction ns arbitrary: out)
  case (Cons n ns)
  have "rev (inv_digits n) = dec n" by (simp add: dec_def)
  then show ?case using Cons dec_nonempty [of n] by (auto simp: put_chars_eq put_char_def simp del: dec_nonempty)
qed simp

lemma dotted_snoc: "ns \<noteq> [] \<Longrightarrow> concat (map (\<lambda>n. dec n @ [0x2E]) ns) = dotted ns @ [0x2E]"
  unfolding dotted_def by (induction ns rule: rev_induct) (simp_all flip: append_assoc add: butlast_append)

lemma dotted_4: "dotted [a, b, c, d] = dec a @ 0x2E # dec b @ 0x2E # dec c @ 0x2E # dec d"
  unfolding dotted_def by (simp add: butlast_append)

lemma ntoa_r_eq:
  "ipaddr_ntoa_r addr b = (if int (length (dotted (octets32 addr))) < b then Some (dotted (octets32 addr) @ [0]) else None)"
proof -
  have "octets32 addr \<noteq> []" by (simp add: octets32_def)
  then show ?thesis by (auto simp: ipaddr_ntoa_r_def put_octets_eq dotted_snoc)
qed

lemma length_dec: "length (dec n) \<le> 3"
proof -
  have "inv_digits m = [0x30 + m mod 10]" if "unat m < 10" for m
    using that by (subst inv_digits.simps) (simp add: word_unat_eq_iff unat_div_distrib)
  then have "length (inv_digits m) = 1" if "unat m < 10" for m using that by simp
  then have "length (inv_digits m) \<le> 2" if "unat m < 100" for m
    using that by (subst inv_digits.simps) (simp add: unat_div_distrib less_mult_imp_div_less)
  moreover have "unat n div 10 < 100" using unat_u8_lt [of n] by (simp del: unat_u8_lt)
  ultimately have "length (inv_digits n) \<le> 3"
    by (subst inv_digits.simps) (simp add: unat_div_distrib)
  then show ?thesis by (simp add: dec_def)
qed

lemma isdigit_dec: "list_all isdigit (dec n)"
  using inv_digits_digits [of n] by (simp add: dec_def list_all_iff)

lemma scan_dec: "r = [] \<or> hd r = 0x2E \<Longrightarrow> scan_number (dec n @ r) = Some (ucast n, r)"
proof (cases "n = 0")
  case True
  assume "r = [] \<or> hd r = 0x2E"
  moreover have "dec 0 = [0x30]" unfolding dec_def by (subst inv_digits.simps) simp
  ultimately show ?thesis using True
    by (cases r) (simp_all add: scan_number_def peek_def isdigit_def in_range_def)
next
  case False
  assume "r = [] \<or> hd r = 0x2E"
  then have "\<not> isdigit (peek r)" by (cases r) (auto simp: peek_def isdigit_def in_range_def)
  moreover have "hd (dec n) \<noteq> 0x30" using inv_digits_last [OF False] by (simp add: dec_def hd_rev)
  moreover have "of_nat (digits_value (dec n)) = (ucast n :: u32)" by (simp add: dec_def inv_digits_value)
  ultimately show ?thesis using scan_decimal [OF isdigit_dec dec_nonempty] by simp
qed

lemma peek_dec: "peek (dec n @ r) \<noteq> 0x2E"
  using isdigit_dec [of n] dec_nonempty [of n] by (cases "dec n") (auto simp: peek_def isdigit_def in_range_def)

lemma ucast_of_nat_octet: "ucast (of_nat n :: u32) = (of_nat n :: u8)"
  by (simp add: word_unat_eq_iff unat_of_nat take_bit_eq_mod mod_mod_cancel)

text \<open>Three numbers after a first one that was read to \<open>v\<close>.\<close>

lemma aton_after_first:
  assumes "scan_number cp = Some (v, 0x2E # dec b @ 0x2E # dec c @ 0x2E # dec d)"
  shows "ipaddr_aton cp = Some (le32 (ucast v) b c d)"
proof -
  have "scan_parts [] cp = Some ([v, ucast b, ucast c], ucast d, [])"
    using assms scan_dec [of "0x2E # dec c @ 0x2E # dec d" b] scan_dec [of "0x2E # dec d" c] scan_dec [of "[]" d]
    by (simp add: scan_parts.simps peek_def)
  moreover have "(ucast d :: u32) \<le> 0xFF" using unat_u8_lt [of d] by (simp add: word_le_nat_alt del: unat_u8_lt)
  moreover have "ucast d OR (push_bit 24 v OR push_bit 16 (ucast b) OR push_bit 8 (ucast c)) = le32 d c b (ucast v)"
    by (rule bit_word_eqI) (auto simp: bit_le32 bit_simps dest: bit_imp_le_length)
  ultimately show ?thesis by (simp add: ipaddr_aton_def peek_def htonl_le32 not_less numeral_2_eq_2 numeral_3_eq_3)
qed

end
