(* ===== verification/Asn1.thy ===== *)
theory Asn1
  imports Lwip_Def
begin

text \<open>
  The ASN.1 coder of lwIP's SNMP agent (\<open>core/snmp/asn1_enc.c\<close>, \<open>core/snmp/asn1_dec.c\<close>). Both sides
  walk a chain of packet buffers with a message pointer; every read or write through the pointer is
  checked against the buffer it points into, and the encoders keep what they wrote before an error.
\<close>

section \<open>The message pointer\<close>

text \<open>The locals \<open>ofs\<close>, \<open>plen\<close>, \<open>p\<close> (its position in the chain) and \<open>msg_ptr\<close> (relative to the payload).\<close>

record cursor =
  cu_ofs :: u16
  cu_plen :: u16
  cu_pbuf :: nat
  cu_ptr :: int

text \<open>The loop over the chain that all the functions start with.\<close>

primrec locate :: "u16 \<Rightarrow> u16 \<Rightarrow> nat \<Rightarrow> pbuf list \<Rightarrow> cursor option" where
  "locate ofs plen i [] = None"
| "locate ofs plen i (q # qs) =
     (let base = plen; plen = plen + of_nat (length (pb_octets q)) in
      if ofs < plen then Some \<lparr>cu_ofs = ofs, cu_plen = plen, cu_pbuf = i, cu_ptr = uint ofs - uint base\<rparr>
      else locate ofs plen (Suc i) qs)"

text \<open>To the next octet, in this buffer or the next one.\<close>

definition next_octet :: "pbuf list \<Rightarrow> cursor \<Rightarrow> cursor option" where
  "next_octet p c =
     (let ofs = cu_ofs c + 1 in
      if ofs \<ge> cu_plen c then
        if Suc (cu_pbuf c) \<ge> length p then None
        else Some \<lparr>cu_ofs = ofs, cu_plen = cu_plen c + of_nat (length (pb_octets (p ! Suc (cu_pbuf c)))),
                   cu_pbuf = Suc (cu_pbuf c), cu_ptr = 0\<rparr>
      else Some (c\<lparr>cu_ofs := ofs, cu_ptr := cu_ptr c + 1\<rparr>))"

type_synonym 'a msg = "(pbuf list, 'a) prog"

definition in_payload :: "pbuf list \<Rightarrow> cursor \<Rightarrow> bool" where
  "in_payload p c \<longleftrightarrow> cu_pbuf c < length p \<and> 0 \<le> cu_ptr c \<and> cu_ptr c < int (length (pb_octets (p ! cu_pbuf c)))"

definition get_octet :: "cursor \<Rightarrow> u8 msg" where
  "get_octet c p = (if in_payload p c then ret (pb_octets (p ! cu_pbuf c) ! nat (cu_ptr c)) p else fail OutOfBounds p)"

definition put_octet :: "cursor \<Rightarrow> u8 \<Rightarrow> unit msg" where
  "put_octet c b p =
     (if in_payload p c
      then ret () (p[cu_pbuf c := (p ! cu_pbuf c)\<lparr>pb_octets := (pb_octets (p ! cu_pbuf c))[nat (cu_ptr c) := b]\<rparr>])
      else fail OutOfBounds p)"

text \<open>What a function does once its offset is found, and after an advance; \<open>e\<close> is what it returns otherwise.\<close>

definition at_offset :: "u16 \<Rightarrow> 'a \<Rightarrow> (cursor \<Rightarrow> 'a msg) \<Rightarrow> 'a msg" where
  "at_offset ofs e f p = (case locate ofs 0 0 p of None \<Rightarrow> ret e p | Some c \<Rightarrow> f c p)"

definition advance :: "cursor \<Rightarrow> 'a \<Rightarrow> (cursor \<Rightarrow> 'a msg) \<Rightarrow> 'a msg" where
  "advance c e f p = (case next_octet p c of None \<Rightarrow> ret e p | Some c' \<Rightarrow> f c' p)"

section \<open>Lengths of codes\<close>

definition snmp_asn1_enc_length_cnt :: "u16 \<Rightarrow> u8" where
  "snmp_asn1_enc_length_cnt len = (if len < 0x80 then 1 else if len < 0x100 then 2 else 3)"

definition snmp_asn1_enc_u32t_cnt :: "u32 \<Rightarrow> u16" where
  "snmp_asn1_enc_u32t_cnt value =
     (if value < 0x80 then 1 else if value < 0x8000 then 2 else if value < 0x800000 then 3
      else if value < 0x80000000 then 4 else 5)"

definition snmp_asn1_enc_s32t_cnt :: "s32 \<Rightarrow> u16" where
  "snmp_asn1_enc_s32t_cnt value =
     (let value = (if sint value < 0 then NOT value else value) in
      if sint value < 0x80 then 1 else if sint value < 0x8000 then 2 else if sint value < 0x800000 then 3 else 4)"

text \<open>The octets of a sub-identifier: the inner loop counts the groups of seven bits above the first.\<close>

function sub_id_cnt :: "s32 \<Rightarrow> u8 \<Rightarrow> u8" where
  "sub_id_cnt sub_id cnt = (if sint sub_id > 0 then sub_id_cnt (signed_drop_bit 7 sub_id) (cnt + 1) else cnt)"
  by auto
termination
proof (relation "measure (\<lambda>(s, cnt). nat (sint s))")
  fix s :: s32 and cnt :: u8
  assume "sint s > 0"
  then show "((signed_drop_bit 7 s, cnt + 1), s, cnt) \<in> measure (\<lambda>(s, cnt). nat (sint s))"
    by (simp add: sint_signed_drop_bit_eq drop_bit_eq_div)
qed simp

declare sub_id_cnt.simps [simp del]

definition snmp_asn1_enc_oid_cnt :: "s32 list \<Rightarrow> u16" where
  "snmp_asn1_enc_oid_cnt ident =
     (let (cnt, rest) = (if length ident > 1 then (1, drop 2 ident) else (0, ident)) in
      ucast (foldl (\<lambda>cnt sub_id. sub_id_cnt (signed_drop_bit 7 sub_id) (cnt + 1)) cnt rest))"

section \<open>Encoders\<close>

definition snmp_asn1_enc_type :: "u16 \<Rightarrow> u8 \<Rightarrow> err_t msg" where
  "snmp_asn1_enc_type ofs ty = at_offset ofs ERR_ARG (\<lambda>c. bnd (put_octet c ty) (\<lambda>_. ret ERR_OK))"

text \<open>The loop \<open>while (i > 0)\<close> over the two length octets.\<close>

primrec put_length :: "nat \<Rightarrow> u16 \<Rightarrow> cursor \<Rightarrow> err_t msg" where
  "put_length 0 len c = ret ERR_OK"
| "put_length (Suc i) len c = advance c ERR_ARG (\<lambda>c.
     bnd (put_octet c (if i = 0 then ucast len else ucast (drop_bit 8 len))) (\<lambda>_. put_length i len c))"

definition snmp_asn1_enc_length :: "u16 \<Rightarrow> u16 \<Rightarrow> err_t msg" where
  "snmp_asn1_enc_length ofs len = at_offset ofs ERR_ARG (\<lambda>c.
     if len < 0x80 then bnd (put_octet c (ucast len)) (\<lambda>_. ret ERR_OK)
     else if len < 0x100 then
       bnd (put_octet c 0x81) (\<lambda>_. advance c ERR_ARG (\<lambda>c. bnd (put_octet c (ucast len)) (\<lambda>_. ret ERR_OK)))
     else bnd (put_octet c 0x82) (\<lambda>_. put_length 2 len c))"

text \<open>The loops that write an integer, most significant octet first; a shift at its width is the caller's.\<close>

primrec put_octets_u :: "nat \<Rightarrow> u32 \<Rightarrow> cursor \<Rightarrow> err_t msg" where
  "put_octets_u 0 value c = bnd (put_octet c (ucast value)) (\<lambda>_. ret ERR_OK)"
| "put_octets_u (Suc n) value c =
     bnd (put_octet c (ucast (drop_bit (8 * Suc n) value))) (\<lambda>_. advance c ERR_ARG (put_octets_u n value))"

definition snmp_asn1_enc_u32t :: "u16 \<Rightarrow> u16 \<Rightarrow> u32 \<Rightarrow> err_t msg" where
  "snmp_asn1_enc_u32t ofs octets_needed value = at_offset ofs ERR_ARG (\<lambda>c.
     if octets_needed = 5
     then bnd (put_octet c 0) (\<lambda>_. advance c ERR_ARG (put_octets_u 3 value))
     else put_octets_u (unat octets_needed - 1) value c)"

primrec put_octets_s :: "nat \<Rightarrow> s32 \<Rightarrow> cursor \<Rightarrow> err_t msg" where
  "put_octets_s 0 value c = bnd (put_octet c (ucast value)) (\<lambda>_. ret ERR_OK)"
| "put_octets_s (Suc n) value c =
     bnd (put_octet c (ucast (signed_drop_bit (8 * Suc n) value))) (\<lambda>_. advance c ERR_ARG (put_octets_s n value))"

definition snmp_asn1_enc_s32t :: "u16 \<Rightarrow> u16 \<Rightarrow> s32 \<Rightarrow> err_t msg" where
  "snmp_asn1_enc_s32t ofs octets_needed value = at_offset ofs ERR_ARG (put_octets_s (unat octets_needed - 1) value)"

text \<open>The groups of seven bits of a sub-identifier above the last one; \<open>shift\<close> is seven times the counter.\<close>

primrec put_groups :: "nat \<Rightarrow> bool \<Rightarrow> s32 \<Rightarrow> cursor \<Rightarrow> (cursor \<Rightarrow> err_t msg) \<Rightarrow> err_t msg" where
  "put_groups 0 tail sub_id c k = k c"
| "put_groups (Suc n) tail sub_id c k =
     (let code = ucast (signed_drop_bit (7 * Suc n) sub_id) :: u8 in
      if code \<noteq> 0 \<or> tail
      then bnd (put_octet c (code OR 0x80)) (\<lambda>_. advance c ERR_ARG (\<lambda>c. put_groups n True sub_id c k))
      else put_groups n tail sub_id c k)"

primrec put_sub_ids :: "s32 list \<Rightarrow> cursor \<Rightarrow> err_t msg" where
  "put_sub_ids [] c = ret ERR_OK"
| "put_sub_ids (sub_id # ident) c = put_groups 4 False sub_id c (\<lambda>c.
     bnd (put_octet c (ucast sub_id AND 0x7F)) (\<lambda>_.
       if ident \<noteq> [] then advance c ERR_ARG (put_sub_ids ident) else ret ERR_OK))"

definition snmp_asn1_enc_oid :: "u16 \<Rightarrow> s32 list \<Rightarrow> err_t msg" where
  "snmp_asn1_enc_oid ofs ident = at_offset ofs ERR_ARG (\<lambda>c.
     if length ident > 1 then
       bnd (put_octet c (if ident ! 0 = 1 \<and> ident ! 1 = 3 then 0x2B else ucast (ident ! 0 * 40 + ident ! 1))) (\<lambda>_.
         advance c ERR_ARG (put_sub_ids (drop 2 ident)))
     else ret ERR_ARG)"

primrec put_raw :: "u8 list \<Rightarrow> cursor \<Rightarrow> err_t msg" where
  "put_raw [] c = ret ERR_OK"
| "put_raw (b # raw) c =
     bnd (put_octet c b) (\<lambda>_. if raw \<noteq> [] then advance c ERR_ARG (put_raw raw) else ret ERR_OK)"

definition snmp_asn1_enc_raw :: "u16 \<Rightarrow> u8 list \<Rightarrow> err_t msg" where
  "snmp_asn1_enc_raw ofs raw = at_offset ofs ERR_ARG (put_raw raw)"


section \<open>Decoders\<close>

text \<open>
  A decoder returns its error code with the contents of its result variables, which it may have
  changed before an error; their contents before the call are parameters.
\<close>

definition snmp_asn1_dec_type :: "u16 \<Rightarrow> u8 \<Rightarrow> (err_t \<times> u8) msg" where
  "snmp_asn1_dec_type ofs ty = at_offset ofs (ERR_ARG, ty) (\<lambda>c. bnd (get_octet c) (\<lambda>b. ret (ERR_OK, b)))"

text \<open>
  The indefinite form counts the octets up to two zero octets in a row. (The counter \<open>i\<close> of the code
  only ends its inner loop, which the outer one enters again until \<open>zeros\<close> is two.)
\<close>

partial_function (option) indefinite :: "u8 \<Rightarrow> u8 \<Rightarrow> u16 \<Rightarrow> cursor \<Rightarrow> (err_t \<times> u8 \<times> u16) msg" where
  "indefinite used zeros len c p =
     (if zeros = 2 then ret (ERR_OK, 1, len) p
      else case next_octet p c of
        None \<Rightarrow> ret (ERR_ARG, used, len + 1) p
      | Some c \<Rightarrow> (case get_octet c p of
            None \<Rightarrow> None
          | Some (Inl e) \<Rightarrow> Some (Inl e)
          | Some (Inr (b, p)) \<Rightarrow> indefinite used (if b = 0 then zeros + 1 else 0) (len + 1) c p))"

definition snmp_asn1_dec_length :: "u16 \<Rightarrow> u8 \<Rightarrow> u16 \<Rightarrow> (err_t \<times> u8 \<times> u16) msg" where
  "snmp_asn1_dec_length ofs octets_used len = at_offset ofs (ERR_ARG, octets_used, len) (\<lambda>c. bnd (get_octet c) (\<lambda>b.
     if b < 0x80 then ret (ERR_OK, 1, ucast b)
     else if b = 0x80 then indefinite octets_used 0 0 c
     else if b = 0x81 then
       advance c (ERR_ARG, octets_used, len) (\<lambda>c. bnd (get_octet c) (\<lambda>b. ret (ERR_OK, 2, ucast b)))
     else if b = 0x82 then
       advance c (ERR_ARG, octets_used, len) (\<lambda>c. bnd (get_octet c) (\<lambda>hi. let len = push_bit 8 (ucast hi) in
         advance c (ERR_ARG, octets_used, len) (\<lambda>c. bnd (get_octet c) (\<lambda>lo. ret (ERR_OK, 3, len OR ucast lo)))))
     else ret (ERR_ARG, 1 + (b AND 0x7F), len)))"

primrec get_octets_u :: "nat \<Rightarrow> u32 \<Rightarrow> cursor \<Rightarrow> (err_t \<times> u32) msg" where
  "get_octets_u 0 value c = bnd (get_octet c) (\<lambda>b. ret (ERR_OK, value OR ucast b))"
| "get_octets_u (Suc n) value c = bnd (get_octet c) (\<lambda>b.
     let value = push_bit 8 (value OR ucast b) in advance c (ERR_ARG, value) (get_octets_u n value))"

definition snmp_asn1_dec_u32t :: "u16 \<Rightarrow> u16 \<Rightarrow> u32 \<Rightarrow> (err_t \<times> u32) msg" where
  "snmp_asn1_dec_u32t ofs len value = at_offset ofs (ERR_ARG, value) (\<lambda>c.
     if 0 < len \<and> len < 6 then bnd (get_octet c) (\<lambda>b.
       if b AND 0x80 \<noteq> 0 then ret (ERR_ARG, 0)
       else if len > 1 \<and> b = 0 then advance c (ERR_ARG, 0) (get_octets_u (unat len - 2) 0)
       else get_octets_u (unat len - 1) 0 c)
     else ret (ERR_ARG, value))"

text \<open>The least significant octet of the value, masked or set through \<open>lsb_ptr\<close>.\<close>

definition and_lsb :: "s32 \<Rightarrow> u8 \<Rightarrow> s32" where
  "and_lsb value b = value AND (0xFFFFFF00 OR ucast b)"

definition or_lsb :: "s32 \<Rightarrow> u8 \<Rightarrow> s32" where
  "or_lsb value b = value OR ucast b"

primrec get_octets_s :: "bool \<Rightarrow> nat \<Rightarrow> s32 \<Rightarrow> cursor \<Rightarrow> (err_t \<times> s32) msg" where
  "get_octets_s neg 0 value c = bnd (get_octet c) (\<lambda>b. ret (ERR_OK, if neg then and_lsb value b else or_lsb value b))"
| "get_octets_s neg (Suc n) value c = bnd (get_octet c) (\<lambda>b.
     let value = (if neg then or_lsb (push_bit 8 (and_lsb value b)) 255 else push_bit 8 (or_lsb value b)) in
     advance c (ERR_ARG, value) (get_octets_s neg n value))"

definition snmp_asn1_dec_s32t :: "u16 \<Rightarrow> u16 \<Rightarrow> s32 \<Rightarrow> (err_t \<times> s32) msg" where
  "snmp_asn1_dec_s32t ofs len value = at_offset ofs (ERR_ARG, value) (\<lambda>c.
     if 0 < len \<and> len < 5 then bnd (get_octet c) (\<lambda>b.
       let neg = (b AND 0x80 \<noteq> 0) in get_octets_s neg (unat len - 1) (if neg then - 1 else 0) c)
     else ret (ERR_ARG, value))"

definition LWIP_SNMP_OBJ_ID_LEN :: nat where "LWIP_SNMP_OBJ_ID_LEN = 32"

record snmp_obj_id =
  oid_len :: nat
  oid_id :: "s32 list"

text \<open>A store through \<open>oid_ptr\<close>, which runs over the array; a store outside of it faults.\<close>

definition store_at :: "nat \<Rightarrow> s32 \<Rightarrow> snmp_obj_id \<Rightarrow> snmp_obj_id msg" where
  "store_at i v oid =
     (if i < length (oid_id oid) then ret (oid\<lparr>oid_id := (oid_id oid)[i := v]\<rparr>) else fail OutOfBounds)"

definition store_id :: "s32 \<Rightarrow> snmp_obj_id \<Rightarrow> snmp_obj_id msg" where
  "store_id v oid = store_at (oid_len oid) v oid"

text \<open>The inner loop: octets with the continuation bit, while more than one octet is left.\<close>

primrec get_cont :: "nat \<Rightarrow> s32 \<Rightarrow> cursor \<Rightarrow> 'a \<Rightarrow> (nat \<Rightarrow> s32 \<Rightarrow> cursor \<Rightarrow> 'a msg) \<Rightarrow> 'a msg" where
  "get_cont 0 sub_id c e k = k 0 sub_id c"
| "get_cont (Suc n) sub_id c e k = bnd (get_octet c) (\<lambda>b.
     if b AND 0x80 \<noteq> 0 \<and> n > 0
     then advance c e (\<lambda>c. get_cont n (push_bit 7 sub_id + ucast (b AND NOT 0x80)) c e k)
     else k (Suc n) sub_id c)"

lemma mono_advance [partial_function_mono]:
  "(\<And>c p. mono_option (\<lambda>f. F f c p)) \<Longrightarrow> mono_option (\<lambda>f. advance c e (F f) p)"
  by (cases "next_octet p c") (simp_all add: advance_def option.const_mono)

lemma mono_get_cont [partial_function_mono]:
  assumes "\<And>len sub_id c p. mono_option (\<lambda>f. K f len sub_id c p)"
  shows "mono_option (\<lambda>f. get_cont n sub_id c e (K f) p)"
proof (induction n arbitrary: sub_id c p)
  case 0
  show ?case using assms by simp
next
  case (Suc n)
  show ?case unfolding get_cont.simps
    by (rule mono_bnd, rule option.const_mono, intro mono_if_state mono_advance Suc assms)
qed

text \<open>The end of a turn: to the next octet, if one is left, and on with \<open>go\<close>.\<close>

definition next_id ::
  "(nat \<Rightarrow> snmp_obj_id \<Rightarrow> cursor \<Rightarrow> (err_t \<times> snmp_obj_id) msg) \<Rightarrow> nat \<Rightarrow> snmp_obj_id \<Rightarrow> cursor \<Rightarrow> (err_t \<times> snmp_obj_id) msg" where
  "next_id go len oid c =
     (let oid' = oid\<lparr>oid_len := oid_len oid + 1\<rparr> in
      if len > 0 then advance c (ERR_ARG, oid) (go len oid') else go len oid' c)"

lemma mono_next_id [partial_function_mono]:
  "(\<And>len oid c p. mono_option (\<lambda>f. F f len oid c p)) \<Longrightarrow> mono_option (\<lambda>f. next_id (F f) len oid c p)"
  unfolding next_id_def Let_def by (intro mono_if_state mono_advance) simp_all

text \<open>
  The loop over sub-identifiers: while octets of the identifier are left (\<open>len\<close>) and the array has room. The code
  advances \<open>oid_ptr\<close> and \<open>oid->len\<close> together, whether it has stored a part or not.
\<close>

partial_function (option) get_sub_ids :: "nat \<Rightarrow> snmp_obj_id \<Rightarrow> cursor \<Rightarrow> (err_t \<times> snmp_obj_id) msg" where
  "get_sub_ids len oid c p =
     (if len > 0 \<and> oid_len oid < LWIP_SNMP_OBJ_ID_LEN
      then bnd (get_octet c) (\<lambda>b.
        if b AND 0x80 \<noteq> 0 then get_cont len 0 c (ERR_ARG, oid) (\<lambda>len sub_id c. bnd (get_octet c) (\<lambda>b.
          if b AND 0x80 = 0 \<and> len > 0
          then bnd (store_id (push_bit 7 sub_id + ucast b) oid) (\<lambda>oid. next_id get_sub_ids (len - 1) oid c)
          else next_id get_sub_ids len oid c))
        else bnd (store_id (ucast b) oid) (\<lambda>oid. next_id get_sub_ids (len - 1) oid c))
      else ret (if len = 0 then ERR_OK else ERR_ARG, oid)) p"

definition first_ids :: "u8 \<Rightarrow> s32 \<times> s32" where
  "first_ids b = (if b = 0x2B then (1, 3) else if b < 40 then (0, ucast b)
     else if b < 80 then (1, ucast b - 40) else (2, ucast b - 80))"

definition snmp_asn1_dec_oid :: "u16 \<Rightarrow> u16 \<Rightarrow> snmp_obj_id \<Rightarrow> (err_t \<times> snmp_obj_id) msg" where
  "snmp_asn1_dec_oid ofs len oid = at_offset ofs (ERR_ARG, oid) (\<lambda>c.
     if len > 0 then bnd (get_octet c) (\<lambda>b.
       bnd (store_at 0 (fst (first_ids b)) (oid\<lparr>oid_len := 0\<rparr>)) (\<lambda>oid.
       bnd (store_at 1 (snd (first_ids b)) oid) (\<lambda>oid. let oid = oid\<lparr>oid_len := 2\<rparr> in
         if len - 1 > 0 then advance c (ERR_ARG, oid) (get_sub_ids (unat len - 1) oid)
         else get_sub_ids (unat len - 1) oid c)))
     else ret (ERR_OK, oid\<lparr>oid_len := 0\<rparr>))"

text \<open>The octets stored through \<open>raw\<close>, in order, into a buffer of \<open>room\<close> octets.\<close>

definition store_raw :: "nat \<Rightarrow> u8 list \<Rightarrow> u8 \<Rightarrow> u8 list msg" where
  "store_raw room raw b = (if length raw < room then ret (raw @ [b]) else fail OutOfBounds)"

primrec get_raw :: "nat \<Rightarrow> nat \<Rightarrow> u8 list \<Rightarrow> cursor \<Rightarrow> (err_t \<times> u8 list) msg" where
  "get_raw room 0 raw c = bnd (get_octet c) (\<lambda>b. bnd (store_raw room raw b) (\<lambda>raw. ret (ERR_OK, raw)))"
| "get_raw room (Suc n) raw c = bnd (get_octet c) (\<lambda>b. bnd (store_raw room raw b) (\<lambda>raw.
     advance c (ERR_ARG, raw) (get_raw room n raw)))"

definition snmp_asn1_dec_raw :: "u16 \<Rightarrow> u16 \<Rightarrow> u16 \<Rightarrow> (err_t \<times> u8 list) msg" where
  "snmp_asn1_dec_raw ofs len raw_len =
     (if len > 0 then at_offset ofs (ERR_ARG, []) (\<lambda>c.
        if raw_len \<ge> len then get_raw (unat raw_len) (unat len - 1) [] c else ret (ERR_ARG, []))
      else ret (ERR_OK, []))"


section \<open>Cursors and the octets of the chain\<close>

text \<open>
  A chain without empty buffers, short enough for the 16-bit offsets: its cursors are its offsets.
\<close>

definition chain_ok :: "pbuf list \<Rightarrow> bool" where
  "chain_ok p \<longleftrightarrow> (\<forall>q\<in>set p. pb_octets q \<noteq> []) \<and> length (chain_octets p) < 65536"

abbreviation total :: "pbuf list \<Rightarrow> nat" where "total p \<equiv> length (chain_octets p)"

definition cursor_at :: "pbuf list \<Rightarrow> nat \<Rightarrow> cursor \<Rightarrow> bool" where
  "cursor_at p n c \<longleftrightarrow> in_payload p c \<and> n = total (take (cu_pbuf c) p) + nat (cu_ptr c)
     \<and> unat (cu_ofs c) = n \<and> unat (cu_plen c) = total (take (Suc (cu_pbuf c)) p)"

definition cursor_of :: "pbuf list \<Rightarrow> nat \<Rightarrow> cursor" where
  "cursor_of p n = the (locate (of_nat n) 0 0 p)"

primrec poke :: "nat \<Rightarrow> u8 \<Rightarrow> pbuf list \<Rightarrow> pbuf list" where
  "poke n b [] = []"
| "poke n b (q # qs) =
     (if n < length (pb_octets q) then q\<lparr>pb_octets := (pb_octets q)[n := b]\<rparr> # qs
      else q # poke (n - length (pb_octets q)) b qs)"

lemma total_take_le: "total (take i p) \<le> total p"
  by (induction p arbitrary: i) (auto simp: take_Cons' )

lemma total_take_Suc: "i < length p \<Longrightarrow> total (take (Suc i) p) = total (take i p) + length (pb_octets (p ! i))"
  by (simp add: take_Suc_conv_app_nth)

lemma total_take_mono: "i \<le> j \<Longrightarrow> total (take i p) \<le> total (take j p)"
  using total_take_le [of i "take j p"] by (simp add: min_def)

lemma nth_flat: "i < length p \<Longrightarrow> k < length (pb_octets (p ! i)) \<Longrightarrow> chain_octets p ! (total (take i p) + k) = pb_octets (p ! i) ! k"
proof (induction p arbitrary: i)
  case (Cons q qs)
  then show ?case by (cases i) (auto simp: nth_append add.assoc)
qed simp

lemma poke_at: "i < length p \<Longrightarrow> k < length (pb_octets (p ! i)) \<Longrightarrow>
    poke (total (take i p) + k) b p = p[i := (p ! i)\<lparr>pb_octets := (pb_octets (p ! i))[k := b]\<rparr>]"
proof (induction p arbitrary: i)
  case (Cons q qs)
  then show ?case by (cases i) (auto simp: add.assoc)
qed simp

lemma flat_poke [simp]: "chain_octets (poke n b p) = (chain_octets p)[n := b]"
  by (induction p arbitrary: n) (auto simp: list_update_append)

lemma sizes_poke [simp]: "map (\<lambda>q. length (pb_octets q)) (poke n b p) = map (\<lambda>q. length (pb_octets q)) p"
  by (induction p arbitrary: n) auto

lemma locate_sizes: "map (\<lambda>q. length (pb_octets q)) p = map (\<lambda>q. length (pb_octets q)) p' \<Longrightarrow> locate ofs plen i p = locate ofs plen i p'"
proof (induction p arbitrary: p' plen i)
  case (Cons q qs)
  show ?case
  proof (cases p')
    case p': (Cons q' qs')
    then show ?thesis using Cons.prems Cons.IH [of qs'] by (simp add: Let_def)
  qed (use Cons.prems in simp)
qed auto

lemma cursor_of_poke [simp]: "cursor_of (poke n b p) = cursor_of p"
  using locate_sizes [OF sizes_poke] by (auto simp: cursor_of_def fun_eq_iff)

lemma chain_ok_poke [simp]: "chain_ok (poke n b p) = chain_ok p"
proof -
  have "(\<forall>q\<in>set p. pb_octets q \<noteq> []) \<longleftrightarrow> 0 \<notin> set (map (\<lambda>q. length (pb_octets q)) p)" for p by auto
  then show ?thesis unfolding chain_ok_def by (metis flat_poke length_list_update sizes_poke)
qed

lemma cursor_unique: "cursor_at p n c \<Longrightarrow> cursor_at p n c' \<Longrightarrow> c = c'"
proof -
  assume c: "cursor_at p n c" and c': "cursor_at p n c'"
  have order: False if "cursor_at p n c" "cursor_at p n c'" "cu_pbuf c < cu_pbuf c'" for c c'
  proof -
    have "n < total (take (Suc (cu_pbuf c)) p)"
      using that(1) by (auto simp: cursor_at_def in_payload_def total_take_Suc)
    also have "\<dots> \<le> total (take (cu_pbuf c') p)" using that(3) by (intro total_take_mono) simp
    finally show False using that(2) by (simp add: cursor_at_def)
  qed
  then have "cu_pbuf c = cu_pbuf c'" using c c' by (metis nat_neq_iff)
  with c c' show ?thesis
    by (intro cursor.equality) (auto simp: cursor_at_def in_payload_def word_unat_eq_iff)
qed

lemma locate_cursor:
  assumes "chain_ok (pre @ p)" and "total pre \<le> unat ofs"
  shows "case locate ofs (of_nat (total pre)) (length pre) p of
      None \<Rightarrow> total (pre @ p) \<le> unat ofs | Some c \<Rightarrow> unat ofs < total (pre @ p) \<and> cursor_at (pre @ p) (unat ofs) c"
  using assms
proof (induction p arbitrary: pre)
  case (Cons q qs)
  let ?n = "length (pb_octets q)"
  have lt: "total pre + ?n < 65536" using Cons.prems(1) by (simp add: chain_ok_def)
  have sum: "of_nat (total pre) + of_nat ?n = (of_nat (total (pre @ [q])) :: u16)" by simp
  have u: "unat (of_nat (total (pre @ [q])) :: u16) = total pre + ?n" "unat (of_nat (total pre) :: u16) = total pre"
    using lt by (simp_all add: unat_of_nat take_bit_nat_eq_self del: of_nat_add)
  show ?case
  proof (cases "unat ofs < total pre + ?n")
    case True
    then have lt': "ofs < of_nat (total (pre @ [q]))" by (simp only: word_less_nat_alt u)
    let ?c = "\<lparr>cu_ofs = ofs, cu_plen = of_nat (total (pre @ [q])), cu_pbuf = length pre, cu_ptr = uint ofs - uint (of_nat (total pre) :: u16)\<rparr>"
    have found: "locate ofs (of_nat (total pre)) (length pre) (q # qs) = Some ?c"
      by (simp only: locate.simps Let_def sum lt' if_True)
    obtain n where n: "uint ofs = int n" "unat ofs = n" by (metis of_nat_unat)
    have "cursor_at (pre @ q # qs) n ?c"
      using True Cons.prems(2) u(1) u(2) [THEN arg_cong [of _ _ int]] n
      by (simp add: cursor_at_def in_payload_def del: of_nat_add of_nat_sum)
    then show ?thesis unfolding found using True n by simp
  next
    case False
    then have "\<not> ofs < of_nat (total (pre @ [q]))" by (simp only: word_less_nat_alt u not_False_eq_True)
    then show ?thesis
      using Cons.IH [of "pre @ [q]", unfolded append_assoc append_Cons append_Nil] Cons.prems False
      by (simp add: Let_def sum del: of_nat_add of_nat_sum)
  qed
qed simp


lemma locate_eq: "chain_ok p \<Longrightarrow> locate ofs 0 0 p = (if unat ofs < total p then Some (cursor_of p (unat ofs)) else None)"
  and cursor_of_at: "chain_ok p \<Longrightarrow> n < total p \<Longrightarrow> cursor_at p n (cursor_of p n)"
proof -
  assume ok: "chain_ok p"
  note loc = locate_cursor [of "[]" p, simplified, OF ok]
  show "locate ofs 0 0 p = (if unat ofs < total p then Some (cursor_of p (unat ofs)) else None)"
    using loc [of ofs] by (auto simp: cursor_of_def split: option.splits)
  assume n: "n < total p"
  then have "unat (of_nat n :: u16) = n" using ok by (simp add: chain_ok_def unat_of_nat take_bit_nat_eq_self)
  then show "cursor_at p n (cursor_of p n)"
    using loc [of "of_nat n"] n by (auto simp: cursor_of_def split: option.splits)
qed

lemma at_offset_eq [simp]:
  "chain_ok p \<Longrightarrow> at_offset ofs e f p = (if unat ofs < total p then f (cursor_of p (unat ofs)) p else ret e p)"
  by (simp add: at_offset_def locate_eq)

lemma get_octet_eq [simp]: "chain_ok p \<Longrightarrow> n < total p \<Longrightarrow> get_octet (cursor_of p n) p = ret (chain_octets p ! n) p"
  using cursor_of_at [of p n] nth_flat [of "cu_pbuf (cursor_of p n)" p "nat (cu_ptr (cursor_of p n))"]
  by (auto simp: get_octet_def cursor_at_def in_payload_def)

lemma put_octet_eq [simp]: "chain_ok p \<Longrightarrow> n < total p \<Longrightarrow> put_octet (cursor_of p n) b p = ret () (poke n b p)"
  using cursor_of_at [of p n] poke_at [of "cu_pbuf (cursor_of p n)" p "nat (cu_ptr (cursor_of p n))" b]
  by (auto simp: put_octet_def cursor_at_def in_payload_def)

lemma next_octet_eq:
  assumes ok: "chain_ok p" and n: "n < total p"
  shows "next_octet p (cursor_of p n) = (if Suc n < total p then Some (cursor_of p (Suc n)) else None)"
proof -
  define c where "c = cursor_of p n"
  have c: "cursor_at p n c" using cursor_of_at [OF ok n] by (simp add: c_def)
  let ?i = "cu_pbuf c"
  have i: "?i < length p" and ptr: "0 \<le> cu_ptr c" "cu_ptr c < int (length (pb_octets (p ! ?i)))"
    and at: "n = total (take ?i p) + nat (cu_ptr c)" and ofs: "unat (cu_ofs c) = n"
    and plen: "unat (cu_plen c) = total (take (Suc ?i) p)"
    using c by (auto simp: cursor_at_def in_payload_def)
  have lt: "total p < 65536" using ok by (simp add: chain_ok_def)
  have ofs': "unat (cu_ofs c + 1) = Suc n" using ofs n lt by (subst unat_plus) simp_all
  have ge: "cu_ofs c + 1 \<ge> cu_plen c \<longleftrightarrow> total (take (Suc ?i) p) \<le> Suc n" by (simp add: word_le_nat_alt ofs' plen)
  have suc: "Suc n \<le> total (take (Suc ?i) p)" using i ptr at by (simp add: total_take_Suc nat_less_iff)
  consider (within) "Suc n < total (take (Suc ?i) p)" | (next_buf) "Suc n = total (take (Suc ?i) p)" "Suc ?i < length p"
    | (at_end) "Suc n = total (take (Suc ?i) p)" "\<not> Suc ?i < length p" using suc by linarith
  then show ?thesis
  proof cases
    case within
    then have "cursor_at p (Suc n) (c\<lparr>cu_ofs := cu_ofs c + 1, cu_ptr := cu_ptr c + 1\<rparr>)"
      using i ptr at plen ofs' by (auto simp: cursor_at_def in_payload_def total_take_Suc nat_add_distrib)
    moreover have "Suc n < total p" using within total_take_le [of "Suc ?i" p] by simp
    ultimately show ?thesis using within ge cursor_unique cursor_of_at [OF ok, of "Suc n"]
      by (simp add: next_octet_def Let_def flip: c_def)
  next
    case next_buf
    let ?m = "length (pb_octets (p ! Suc ?i))"
    let ?c = "\<lparr>cu_ofs = cu_ofs c + 1, cu_plen = cu_plen c + of_nat ?m, cu_pbuf = Suc ?i, cu_ptr = 0\<rparr>"
    have m: "0 < ?m" using ok next_buf(2) by (auto simp: chain_ok_def)
    have le: "total (take (Suc (Suc ?i)) p) = Suc n + ?m" using next_buf by (subst total_take_Suc) simp_all
    then have "Suc n + ?m \<le> total p" using total_take_le [of "Suc (Suc ?i)" p] by simp
    then have "Suc n < total p" "Suc n + ?m < 65536" using lt m by linarith+
    then have mm: "unat (of_nat ?m :: u16) = ?m" "Suc n < total p" "Suc n + ?m < 65536" by (simp_all add: unat_of_nat take_bit_nat_eq_self)
    have "unat (cu_plen c + of_nat ?m) = Suc n + ?m" using plen mm next_buf(1) by (subst unat_plus) simp_all
    then have "cursor_at p (Suc n) ?c" using next_buf m le ofs' by (simp add: cursor_at_def in_payload_def)
    then show ?thesis using next_buf ge mm(2) cursor_unique cursor_of_at [OF ok, of "Suc n"]
      by (simp add: next_octet_def Let_def flip: c_def)
  next
    case at_end
    then have "total (take (Suc ?i) p) = total p" by simp
    then show ?thesis using at_end ge by (simp add: next_octet_def Let_def flip: c_def)
  qed
qed

lemma advance_eq [simp]:
  "chain_ok p \<Longrightarrow> n < total p \<Longrightarrow>
     advance (cursor_of p n) e f p = (if Suc n < total p then f (cursor_of p (Suc n)) p else ret e p)"
  by (simp add: advance_def next_octet_eq)


lemma advance_poke [simp]:
  "chain_ok p \<Longrightarrow> n < total p \<Longrightarrow>
     advance (cursor_of p n) e f (poke m b p) = (if Suc n < total p then f (cursor_of p (Suc n)) (poke m b p) else ret e (poke m b p))"
  using advance_eq [of "poke m b p" n e f] by simp

section \<open>Writing and reading octet strings\<close>

primrec overwrite :: "nat \<Rightarrow> u8 list \<Rightarrow> pbuf list \<Rightarrow> pbuf list" where
  "overwrite n [] p = p"
| "overwrite n (b # bs) p = overwrite (Suc n) bs (poke n b p)"

lemma overwrite_simps [simp]:
  "chain_ok (overwrite n bs p) = chain_ok p" "cursor_of (overwrite n bs p) = cursor_of p"
  "total (overwrite n bs p) = total p"
  by (induction bs arbitrary: n p) auto

lemma flat_overwrite:
  "n + length bs \<le> total p \<Longrightarrow> chain_octets (overwrite n bs p) = take n (chain_octets p) @ bs @ drop (n + length bs) (chain_octets p)"
proof (induction bs arbitrary: n p)
  case (Cons b bs)
  then show ?case by (simp add: take_Suc_conv_app_nth)
qed simp

text \<open>The octets \<open>bs\<close> at offset \<open>n\<close> of the chain.\<close>

primrec holds :: "pbuf list \<Rightarrow> nat \<Rightarrow> u8 list \<Rightarrow> bool" where
  "holds p n [] \<longleftrightarrow> True"
| "holds p n (b # bs) \<longleftrightarrow> n < total p \<and> chain_octets p ! n = b \<and> holds p (Suc n) bs"

lemma holds_iff: "holds p n bs \<longleftrightarrow> n + length bs \<le> total p \<and> take (length bs) (drop n (chain_octets p)) = bs \<or> bs = []"
proof (induction bs arbitrary: n)
  case (Cons b bs)
  show ?case
  proof (cases "n < total p")
    case True
    then have "drop n (chain_octets p) = chain_octets p ! n # drop (Suc n) (chain_octets p)"
      by (rule Cons_nth_drop_Suc [symmetric])
    then show ?thesis using Cons True by auto
  qed auto
qed simp

lemma holds_overwrite: "n + length bs \<le> total p \<Longrightarrow> holds (overwrite n bs p) n bs"
  by (simp add: holds_iff flat_overwrite)

text \<open>Every encoder writes an octet string; when the chain ends first, the part that fits is written.\<close>

lemma put_raw_eq:
  "chain_ok p \<Longrightarrow> n < total p \<Longrightarrow>
     put_raw bs (cursor_of p n) p
       = ret (if n + length bs \<le> total p then ERR_OK else ERR_ARG) (overwrite n (take (total p - n) bs) p)"
proof (induction bs arbitrary: n p)
  case (Cons b bs)
  have [simp]: "bnd (\<lambda>_. ret () p') f p = f () p'" for p' and f :: "unit \<Rightarrow> 'b msg" by (simp add: bnd_def ret_def)
  obtain m where m: "total p - n = Suc m" using Cons.prems(2) by (metis Suc_diff_Suc)
  have m': "total p - Suc n = m" using m by simp
  have "put_raw (b # bs) (cursor_of p n) p
      = (if bs \<noteq> [] then advance (cursor_of p n) ERR_ARG (put_raw bs) else ret ERR_OK) (poke n b p)"
    using Cons.prems by (simp add: bnd_def ret_def)
  also have "\<dots> = ret (if n + length (b # bs) \<le> total p then ERR_OK else ERR_ARG) (overwrite n (take (total p - n) (b # bs)) p)"
  proof (cases "bs \<noteq> [] \<and> Suc n < total p")
    case True
    then show ?thesis using Cons.IH [of "poke n b p" "Suc n"] Cons.prems m m' by simp
  next
    case False
    then show ?thesis using Cons.prems m m' by (cases bs) auto
  qed
  finally show ?case .
qed simp


lemma put_raw_fits:
  "chain_ok p \<Longrightarrow> n < total p \<Longrightarrow> n + length bs \<le> total p \<Longrightarrow> put_raw bs (cursor_of p n) p = ret ERR_OK (overwrite n bs p)"
  by (simp add: put_raw_eq)

section \<open>The octets of integers\<close>

primrec octets_u :: "nat \<Rightarrow> u32 \<Rightarrow> u8 list" where
  "octets_u 0 v = [ucast v]"
| "octets_u (Suc n) v = ucast (drop_bit (8 * Suc n) v) # octets_u n v"

primrec octets_s :: "nat \<Rightarrow> s32 \<Rightarrow> u8 list" where
  "octets_s 0 v = [ucast v]"
| "octets_s (Suc n) v = ucast (signed_drop_bit (8 * Suc n) v) # octets_s n v"

lemma length_octets_u [simp]: "length (octets_u n v) = Suc n" by (induction n) auto
lemma length_octets_s [simp]: "length (octets_s n v) = Suc n" by (induction n) auto
lemma octets_nonempty [simp]: "octets_u n v \<noteq> []" "octets_s n v \<noteq> []" by (cases n; simp)+

lemma put_raw_fun:
  "put_raw (b # bs) = (\<lambda>c. bnd (put_octet c b) (\<lambda>_. if bs \<noteq> [] then advance c ERR_ARG (put_raw bs) else ret ERR_OK))"
  by (rule ext) simp

lemma put_octets_u_raw: "put_octets_u n v = put_raw (octets_u n v)"
proof (induction n)
  case (Suc n)
  show ?case by (rule ext) (simp add: Suc)
qed (simp add: fun_eq_iff)

lemma put_octets_s_raw: "put_octets_s n v = put_raw (octets_s n v)"
proof (induction n)
  case (Suc n)
  show ?case by (rule ext) (simp add: Suc)
qed (simp add: fun_eq_iff)

lemma put_length_raw: "put_length 2 v c = advance c ERR_ARG (put_raw [ucast (drop_bit 8 v), ucast v])"
  by (simp add: numeral_2_eq_2 put_raw_fun)

text \<open>The octets an integer is written as, in the length announced for it.\<close>

definition code_u32t :: "u32 \<Rightarrow> u8 list" where
  "code_u32t v = (if snmp_asn1_enc_u32t_cnt v = 5 then 0 # octets_u 3 v else octets_u (unat (snmp_asn1_enc_u32t_cnt v) - 1) v)"

definition code_s32t :: "s32 \<Rightarrow> u8 list" where
  "code_s32t v = octets_s (unat (snmp_asn1_enc_s32t_cnt v) - 1) v"

definition code_length :: "u16 \<Rightarrow> u8 list" where
  "code_length v = (if v < 0x80 then [ucast v] else if v < 0x100 then [0x81, ucast v]
     else [0x82, ucast (drop_bit 8 v), ucast v])"

lemma enc_u32t_raw: "snmp_asn1_enc_u32t ofs (snmp_asn1_enc_u32t_cnt v) v = at_offset ofs ERR_ARG (put_raw (code_u32t v))"
  by (simp add: snmp_asn1_enc_u32t_def code_u32t_def put_octets_u_raw put_raw_fun del: put_raw.simps)

lemma enc_s32t_raw: "snmp_asn1_enc_s32t ofs (snmp_asn1_enc_s32t_cnt v) v = at_offset ofs ERR_ARG (put_raw (code_s32t v))"
  by (simp add: snmp_asn1_enc_s32t_def code_s32t_def put_octets_s_raw)

lemma enc_length_raw: "snmp_asn1_enc_length ofs v = at_offset ofs ERR_ARG (put_raw (code_length v))"
proof -
  have "(\<lambda>c. bnd (put_octet c 0x82) (\<lambda>_. put_length 2 v c)) = put_raw [0x82, ucast (drop_bit 8 v), ucast v]"
    by (simp add: put_raw_fun put_length_raw)
  then show ?thesis by (simp add: snmp_asn1_enc_length_def code_length_def put_raw_fun)
qed

section \<open>Reading integers back\<close>

primrec value_u :: "u32 \<Rightarrow> u8 list \<Rightarrow> u32" where
  "value_u v [] = v"
| "value_u v (b # bs) = (if bs = [] then v OR ucast b else value_u (push_bit 8 (v OR ucast b)) bs)"

lemma get_octets_u_eq:
  "chain_ok p \<Longrightarrow> holds p n bs \<Longrightarrow> length bs = Suc k \<Longrightarrow> get_octets_u k v (cursor_of p n) p = ret (ERR_OK, value_u v bs) p"
proof (induction k arbitrary: n bs v)
  case 0
  then show ?case by (auto simp: length_Suc_conv bnd_def ret_def)
next
  case (Suc k)
  then obtain b bs' where bs: "bs = b # bs'" "length bs' = Suc k" by (auto simp: length_Suc_conv)
  then have "Suc n < total p" "bs' \<noteq> []" using Suc.prems by (cases bs'; simp)+
  then show ?case using Suc bs by (simp add: bnd_def ret_def Let_def)
qed

lemma join_octet: "push_bit 8 (drop_bit 8 w) OR ucast (ucast w :: u8) = w" for w :: u32
  by (rule bit_word_eqI) (auto simp: bit_simps not_le)

lemma value_octets_u: "value_u (push_bit 8 (drop_bit (8 * Suc n) v)) (octets_u n v) = v"
proof (induction n)
  case 0
  show ?case using join_octet [of v] by simp
next
  case (Suc n)
  have "push_bit 8 (drop_bit (8 * Suc (Suc n)) v) OR ucast (ucast (drop_bit (8 * Suc n) v) :: u8) = drop_bit (8 * Suc n) v"
    using join_octet [of "drop_bit (8 * Suc n) v"] by simp
  then show ?case using Suc by (simp only: octets_u.simps value_u.simps octets_nonempty if_False)
qed


lemma drop_small: "unat v < 2 ^ n \<Longrightarrow> drop_bit n v = 0" for v :: "'a::len word"
  by (simp add: unat_drop flip: unat_eq_zero)

lemma octet_sign: "(b AND 0x80 \<noteq> 0) = bit b 7" for b :: u8
  using and_exp_eq_0_iff_not_bit [of b 7] by simp

lemma hd_octets_u: "octets_u n v = ucast (drop_bit (8 * n) v) # (case n of 0 \<Rightarrow> [] | Suc m \<Rightarrow> octets_u m v)"
  by (cases n) simp_all

text \<open>Decoding \<open>Suc n\<close> octets of a value whose top bit is clear, with or without a leading zero octet.\<close>

lemma dec_u32t_octets:
  assumes ok: "chain_ok p" and h: "holds p (unat ofs) (octets_u n v)" and n: "n < 4" and v: "unat v < 2 ^ (8 * n + 7)"
  shows "snmp_asn1_dec_u32t ofs (of_nat (Suc n)) v0 p = ret (ERR_OK, v) p"
proof -
  let ?b = "ucast (drop_bit (8 * n) v) :: u8"
  have len: "unat (of_nat (Suc n) :: u16) = Suc n" using n by (simp add: unat_of_nat take_bit_nat_eq_self del: of_nat_Suc)
  then have range: "0 < (of_nat (Suc n) :: u16)" "(of_nat (Suc n) :: u16) < 6" "(1 < (of_nat (Suc n) :: u16)) = (0 < n)"
    using n by (simp_all add: word_less_nat_alt del: of_nat_Suc)
  have b: "unat ofs < total p" "chain_octets p ! unat ofs = ?b" using h by (subst (asm) hd_octets_u; simp)+
  have drop: "drop_bit (8 * Suc n) v = 0" using v by (intro drop_small) (auto intro: less_le_trans)
  have "\<not> bit v (8 * n + 7)"
    using drop_small [OF v] bit_drop_bit_eq [of "8 * n + 7" v] by (simp add: fun_eq_iff) (metis add_0_right)
  then have sign: "?b AND 0x80 = 0" using octet_sign [of ?b] by (simp add: bit_simps add.commute)
  show ?thesis
  proof (cases "0 < n \<and> ?b = 0")
    case True
    then obtain m where m: "n = Suc m" by (cases n) auto
    have "drop_bit (8 * Suc m) v = push_bit 8 (drop_bit (8 * Suc n) v) OR ucast ?b"
      using join_octet [of "drop_bit (8 * n) v"] by (simp add: m)
    then have z: "drop_bit (8 * Suc m) v = 0" using drop True by simp
    have h': "holds p (Suc (unat ofs)) (octets_u m v)" using h m by simp
    then have "Suc (unat ofs) < total p" by (subst (asm) hd_octets_u) simp
    with b sign True range len m show ?thesis
      using get_octets_u_eq [OF ok h', of m 0] value_octets_u [of m v] z ok
      by (simp add: snmp_asn1_dec_u32t_def bnd_def ret_def del: of_nat_Suc)
  next
    case False
    with b sign range len show ?thesis
      using get_octets_u_eq [OF ok h, of n 0] value_octets_u [of n v] drop ok
      by (auto simp: snmp_asn1_dec_u32t_def bnd_def ret_def simp del: of_nat_Suc)
  qed
qed

lemma dec_u32t_code:
  assumes ok: "chain_ok p" and h: "holds p (unat ofs) (code_u32t v)"
  shows "snmp_asn1_dec_u32t ofs (snmp_asn1_enc_u32t_cnt v) v0 p = ret (ERR_OK, v) p"
proof (cases "v < 0x80000000")
  case True
  then have "\<exists>n<4. snmp_asn1_enc_u32t_cnt v = of_nat (Suc n) \<and> unat v < 2 ^ (8 * n + 7)"
    unfolding snmp_asn1_enc_u32t_cnt_def word_less_nat_alt
    by (auto intro: exI [of _ 0] exI [of _ 1] exI [of _ 2] exI [of _ 3])
  then obtain n where n: "n < 4" "snmp_asn1_enc_u32t_cnt v = of_nat (Suc n)" "unat v < 2 ^ (8 * n + 7)" by blast
  have "unat (of_nat (Suc n) :: u16) = Suc n" using n by (simp add: unat_of_nat take_bit_nat_eq_self del: of_nat_Suc)
  moreover have "of_nat (Suc n) \<noteq> (5 :: u16)"
  proof
    assume "of_nat (Suc n) = (5 :: u16)"
    then have "Suc n = unat (5 :: u16)" using \<open>unat (of_nat (Suc n) :: u16) = Suc n\<close> by simp
    then show False using n(1) by simp
  qed
  ultimately have "code_u32t v = octets_u n v" using n by (simp add: code_u32t_def del: of_nat_Suc)
  then show ?thesis using dec_u32t_octets [OF ok _ n(1,3)] h n(2) by simp
next
  case False
  then have cnt: "snmp_asn1_enc_u32t_cnt v = 5" by (auto simp: snmp_asn1_enc_u32t_cnt_def word_less_nat_alt)
  have "holds p (Suc (unat ofs)) (octets_u 3 v)" and b: "unat ofs < total p" "chain_octets p ! unat ofs = 0"
    using h cnt by (simp_all add: code_u32t_def)
  moreover from this have "Suc (unat ofs) < total p" by (subst (asm) hd_octets_u) simp
  moreover have "drop_bit 32 v = 0" by (rule drop_small) simp
  ultimately show ?thesis
    using get_octets_u_eq [OF ok, of "Suc (unat ofs)" "octets_u 3 v" 3 0] value_octets_u [of 3 v] ok
    by (simp add: cnt snmp_asn1_dec_u32t_def bnd_def ret_def)
qed


text \<open>Signed integers, read octet by octet into a value that starts from the sign.\<close>

definition join_s :: "bool \<Rightarrow> s32 \<Rightarrow> u8 \<Rightarrow> s32" where
  "join_s neg v b = (if neg then and_lsb v b else or_lsb v b)"

definition shift_s :: "bool \<Rightarrow> s32 \<Rightarrow> s32" where
  "shift_s neg v = (if neg then or_lsb (push_bit 8 v) 255 else push_bit 8 v)"

primrec value_s :: "bool \<Rightarrow> s32 \<Rightarrow> u8 list \<Rightarrow> s32" where
  "value_s neg v [] = v"
| "value_s neg v (b # bs) = (if bs = [] then join_s neg v b else value_s neg (shift_s neg (join_s neg v b)) bs)"

lemma get_octets_s_eq:
  "chain_ok p \<Longrightarrow> holds p n bs \<Longrightarrow> length bs = Suc k \<Longrightarrow> get_octets_s neg k v (cursor_of p n) p = ret (ERR_OK, value_s neg v bs) p"
proof (induction k arbitrary: n bs v)
  case 0
  then show ?case by (auto simp: length_Suc_conv bnd_def ret_def join_s_def)
next
  case (Suc k)
  then obtain b bs' where bs: "bs = b # bs'" "length bs' = Suc k" by (auto simp: length_Suc_conv)
  then have "Suc n < total p" "bs' \<noteq> []" using Suc.prems by (cases bs'; simp)+
  then show ?case using Suc bs by (cases neg) (simp_all add: bnd_def ret_def Let_def join_s_def shift_s_def)
qed

lemma byte_constants: "(0xFFFFFF00 :: u32) = NOT (mask 8)" "(255 :: u8) = mask 8"
  by (simp_all add: mask_eq_exp_minus_1)

lemma join_shift_s: "join_s neg (shift_s neg (signed_drop_bit 8 w)) (ucast w) = w"
  unfolding join_s_def shift_s_def and_lsb_def or_lsb_def byte_constants
  by (rule bit_word_eqI) (auto simp: bit_simps)

lemma value_octets_s: "value_s neg (shift_s neg (signed_drop_bit (8 * Suc n) v)) (octets_s n v) = v"
proof (induction n)
  case 0
  show ?case using join_shift_s [of neg v] by simp
next
  case (Suc n)
  have "join_s neg (shift_s neg (signed_drop_bit (8 * Suc (Suc n)) v)) (ucast (signed_drop_bit (8 * Suc n) v)) = signed_drop_bit (8 * Suc n) v"
    using join_shift_s [of neg "signed_drop_bit (8 * Suc n) v"] by simp
  then show ?case using Suc by (simp only: octets_s.simps value_s.simps octets_nonempty if_False)
qed

lemma shift_s_sign: "shift_s True (- 1) = - 1" "shift_s False 0 = 0"
  unfolding shift_s_def or_lsb_def byte_constants by (auto intro!: bit_word_eqI simp: bit_simps)

lemma hd_octets_s: "octets_s n v = ucast (signed_drop_bit (8 * n) v) # (case n of 0 \<Rightarrow> [] | Suc m \<Rightarrow> octets_s m v)"
  by (cases n) simp_all

lemma enc_s32t_cnt_fits:
  obtains n where "n < 4" and "snmp_asn1_enc_s32t_cnt v = of_nat (Suc n)" and "\<And>i. 8 * n + 7 \<le> i \<Longrightarrow> i < 32 \<Longrightarrow> bit v i = bit v 31"
proof -
  define w where "w = (if sint v < 0 then NOT v else v)"
  have sign: "sint v < 0 \<longleftrightarrow> bit v 31" using bit_last_iff [of v] by simp
  have "\<not> bit w 31" by (simp add: w_def sign bit_not_iff)
  then have "take_bit 31 w = w"
    by (intro bit_word_eqI) (auto simp: bit_take_bit_iff less_Suc_eq numeral_eq_Suc)
  then have "unat w < 2 ^ 31" by (metis unsigned_take_bit_eq take_bit_nat_less_exp)
  then obtain m where m: "unat w = m" "m < 2 ^ 31" by blast
  then have "sint w = int m" by (simp add: sint_uint uint_nat signed_take_bit_int_eq_self del: of_nat_unat)
  define n where "n = (if m < 0x80 then 0 else if m < 0x8000 then 1 else if m < 0x800000 then 2 else 3 :: nat)"
  have n: "n < 4" "snmp_asn1_enc_s32t_cnt v = of_nat (Suc n)" "unat w < 2 ^ (8 * n + 7)"
    using m \<open>sint w = int m\<close> by (auto simp: n_def snmp_asn1_enc_s32t_cnt_def Let_def simp flip: w_def)
  have "bit v i = bit v 31" if "8 * n + 7 \<le> i" "i < 32" for i
  proof -
    have "\<not> bit w i" using drop_small [OF n(3)] that bit_drop_bit_eq [of "8 * n + 7" w]
      by (simp add: fun_eq_iff) (metis le_add_diff_inverse)
    then show ?thesis using that by (auto simp: w_def sign bit_not_iff split: if_splits)
  qed
  with n that show thesis by blast
qed

lemma if_cases_bit: "(c \<Longrightarrow> bit v a = x) \<Longrightarrow> (\<not> c \<Longrightarrow> bit v b = x) \<Longrightarrow> bit v (if c then a else b) = x"
  by simp

lemma dec_s32t_code:
  assumes ok: "chain_ok p" and h: "holds p (unat ofs) (code_s32t v)"
  shows "snmp_asn1_dec_s32t ofs (snmp_asn1_enc_s32t_cnt v) v0 p = ret (ERR_OK, v) p"
proof -
  obtain n where n: "n < 4" "snmp_asn1_enc_s32t_cnt v = of_nat (Suc n)"
    and bits: "\<And>i. 8 * n + 7 \<le> i \<Longrightarrow> i < 32 \<Longrightarrow> bit v i = bit v 31" by (rule enc_s32t_cnt_fits [of v]) blast
  have len: "unat (of_nat (Suc n) :: u16) = Suc n" using n by (simp add: unat_of_nat take_bit_nat_eq_self del: of_nat_Suc)
  then have range: "0 < (of_nat (Suc n) :: u16)" "(of_nat (Suc n) :: u16) < 5"
    using n by (simp_all add: word_less_nat_alt del: of_nat_Suc)
  define neg where "neg = bit v 31"
  let ?b = "ucast (signed_drop_bit (8 * n) v) :: u8"
  have h': "holds p (unat ofs) (octets_s n v)" using h n len by (simp add: code_s32t_def del: of_nat_Suc)
  then have b: "unat ofs < total p" "chain_octets p ! unat ofs = ?b" by (subst (asm) hd_octets_s; simp)+
  have "\<not> (32 - 8 * n \<le> 7)" using n(1) by linarith
  then have "bit (signed_drop_bit (8 * n) v) 7 = bit v (8 * n + 7)" by (simp add: bit_signed_drop_bit_iff)
  then have "bit ?b 7 = neg" using bits [of "8 * n + 7"] n(1) by (simp add: bit_unsigned_iff neg_def)
  then have sign: "(?b AND 0x80 \<noteq> 0) = neg" by (simp only: octet_sign)
  have "signed_drop_bit (8 * Suc n) v = (if neg then - 1 else 0)"
  proof (rule bit_word_eqI)
    fix i assume "i < LENGTH(32)"
    then have i: "i < 32" by simp
    have "bit (signed_drop_bit (8 * Suc n) v) i = bit v (if 32 - 8 * Suc n \<le> i then 31 else 8 * Suc n + i)"
      using i by (simp add: bit_signed_drop_bit_iff)
    also have "\<dots> = neg" unfolding neg_def by (rule if_cases_bit) (rule refl, rule bits, use i in simp_all)
    finally show "bit (signed_drop_bit (8 * Suc n) v) i = bit (if neg then - 1 else 0 :: s32) i" using i by simp
  qed
  then have "value_s neg (if neg then - 1 else 0) (octets_s n v) = v"
    using value_octets_s [of neg n v] by (simp add: shift_s_sign split: if_splits)
  then show ?thesis
    using get_octets_s_eq [OF ok h', of n neg "if neg then - 1 else 0"] b range ok len
    by (simp add: n(2) snmp_asn1_dec_s32t_def bnd_def ret_def Let_def sign del: of_nat_Suc)
qed


section \<open>Lengths and raw data\<close>

lemma split_u16: "push_bit 8 (ucast (ucast (drop_bit 8 v) :: u8)) OR ucast (ucast v :: u8) = v" for v :: u16
  by (rule bit_word_eqI) (auto simp: bit_simps not_le)

lemma low_u16: "v < 0x100 \<Longrightarrow> ucast (ucast v :: u8) = v" for v :: u16
proof -
  assume "v < 0x100"
  then have "unat v < 256" by (simp add: word_less_nat_alt)
  then show ?thesis by (simp add: word_unat_eq_iff)
qed

lemma dec_length_code:
  assumes ok: "chain_ok p" and h: "holds p (unat ofs) (code_length v)"
  shows "snmp_asn1_dec_length ofs u l p = ret (ERR_OK, snmp_asn1_enc_length_cnt v, v) p"
proof -
  consider (short) "v < 0x80" | (one) "\<not> v < 0x80" "v < 0x100" | (two) "\<not> v < 0x100" by blast
  then show ?thesis
  proof cases
    case short
    then have "unat v < 128" by (simp add: word_less_nat_alt)
    then have "(ucast v :: u8) < 0x80" by (simp add: word_less_nat_alt)
    moreover have "v < 0x100" using short by (rule less_trans) simp
    ultimately show ?thesis using short h ok low_u16 [of v]
      by (simp add: snmp_asn1_dec_length_def code_length_def snmp_asn1_enc_length_cnt_def bnd_def ret_def)
  next
    case one
    then show ?thesis using h ok low_u16 [of v]
      by (simp add: snmp_asn1_dec_length_def code_length_def snmp_asn1_enc_length_cnt_def bnd_def ret_def)
  next
    case two
    moreover from two have "\<not> v < 0x80" by (auto simp: word_less_nat_alt)
    ultimately show ?thesis using h ok split_u16 [of v]
      by (simp add: snmp_asn1_dec_length_def code_length_def snmp_asn1_enc_length_cnt_def bnd_def ret_def Let_def)
  qed
qed

lemma get_raw_eq:
  "chain_ok p \<Longrightarrow> holds p n bs \<Longrightarrow> length bs = Suc k \<Longrightarrow> length raw + length bs \<le> room \<Longrightarrow>
     get_raw room k raw (cursor_of p n) p = ret (ERR_OK, raw @ bs) p"
proof (induction k arbitrary: n bs raw)
  case 0
  then show ?case by (auto simp: length_Suc_conv bnd_def ret_def store_raw_def)
next
  case (Suc k)
  then obtain b bs' where bs: "bs = b # bs'" "length bs' = Suc k" by (auto simp: length_Suc_conv)
  then have "Suc n < total p" using Suc.prems by (cases bs') auto
  then show ?case using Suc.IH [of "Suc n" bs' "raw @ [b]"] Suc.prems bs by (simp add: bnd_def ret_def store_raw_def)
qed

lemma dec_raw_code:
  assumes ok: "chain_ok p" and h: "holds p (unat ofs) bs" and len: "unat len = length bs" and room: "len \<le> raw_len"
  shows "snmp_asn1_dec_raw ofs len raw_len p = ret (ERR_OK, bs) p"
proof (cases bs)
  case Nil
  then have "len = 0" using len by (simp add: unat_eq_zero)
  then show ?thesis using Nil by (simp add: snmp_asn1_dec_raw_def)
next
  case (Cons b bs')
  then have "0 < len" "unat ofs < total p" using len h by (simp_all add: word_less_nat_alt)
  then show ?thesis using get_raw_eq [OF ok h, of "unat len - 1" "[]" "unat raw_len"] len room ok Cons
    by (simp add: snmp_asn1_dec_raw_def word_le_nat_alt)
qed

text \<open>Written and read back.\<close>

lemma put_code_runs:
  assumes "chain_ok p" and "bs \<noteq> []" and "unat ofs + length bs \<le> total p"
  shows "at_offset ofs ERR_ARG (put_raw bs) p = ret ERR_OK (overwrite (unat ofs) bs p)"
proof -
  have "0 < length bs" using assms(2) by simp
  then have "unat ofs < total p" using assms(3) by linarith
  then show ?thesis using assms by (simp add: put_raw_fits)
qed

lemma length_code_u32t: "length (code_u32t v) \<le> 5"
  by (simp add: code_u32t_def snmp_asn1_enc_u32t_cnt_def)

lemma length_code_s32t: "length (code_s32t v) \<le> 5"
  by (simp add: code_s32t_def snmp_asn1_enc_s32t_cnt_def Let_def)

lemma length_code_length: "length (code_length v) \<le> 5"
  by (simp add: code_length_def)

lemma u32t_roundtrip:
  assumes "chain_ok p" and "unat ofs + length (code_u32t v) \<le> total p"
  shows "\<exists>p'. snmp_asn1_enc_u32t ofs (snmp_asn1_enc_u32t_cnt v) v p = ret ERR_OK p'
    \<and> snmp_asn1_dec_u32t ofs (snmp_asn1_enc_u32t_cnt v) v0 p' = ret (ERR_OK, v) p'"
proof -
  have "code_u32t v \<noteq> []" by (simp add: code_u32t_def)
  then show ?thesis using assms dec_u32t_code [of "overwrite (unat ofs) (code_u32t v) p" ofs v v0]
    by (intro exI [of _ "overwrite (unat ofs) (code_u32t v) p"]) (simp add: enc_u32t_raw put_code_runs holds_overwrite del: at_offset_eq)
qed

lemma s32t_roundtrip:
  assumes "chain_ok p" and "unat ofs + length (code_s32t v) \<le> total p"
  shows "\<exists>p'. snmp_asn1_enc_s32t ofs (snmp_asn1_enc_s32t_cnt v) v p = ret ERR_OK p'
    \<and> snmp_asn1_dec_s32t ofs (snmp_asn1_enc_s32t_cnt v) v0 p' = ret (ERR_OK, v) p'"
proof -
  have "code_s32t v \<noteq> []" by (simp add: code_s32t_def)
  then show ?thesis using assms dec_s32t_code [of "overwrite (unat ofs) (code_s32t v) p" ofs v v0]
    by (intro exI [of _ "overwrite (unat ofs) (code_s32t v) p"]) (simp add: enc_s32t_raw put_code_runs holds_overwrite del: at_offset_eq)
qed

lemma length_roundtrip:
  assumes "chain_ok p" and "unat ofs + length (code_length v) \<le> total p"
  shows "\<exists>p'. snmp_asn1_enc_length ofs v p = ret ERR_OK p'
    \<and> snmp_asn1_dec_length ofs k l p' = ret (ERR_OK, snmp_asn1_enc_length_cnt v, v) p'"
proof -
  have "code_length v \<noteq> []" by (simp add: code_length_def)
  then show ?thesis using assms dec_length_code [of "overwrite (unat ofs) (code_length v) p" ofs v k l]
    by (intro exI [of _ "overwrite (unat ofs) (code_length v) p"]) (simp add: enc_length_raw put_code_runs holds_overwrite del: at_offset_eq)
qed

section \<open>Object identifiers\<close>

primrec groups :: "nat \<Rightarrow> bool \<Rightarrow> s32 \<Rightarrow> u8 list" where
  "groups 0 tail v = []"
| "groups (Suc n) tail v =
     (let code = ucast (signed_drop_bit (7 * Suc n) v) :: u8 in
      if code \<noteq> 0 \<or> tail then (code OR 0x80) # groups n True v else groups n tail v)"

definition sub_octets :: "s32 \<Rightarrow> u8 list" where
  "sub_octets v = groups 4 False v @ [ucast v AND 0x7F]"

definition code_oid :: "s32 list \<Rightarrow> u8 list" where
  "code_oid ident = (if ident ! 0 = 1 \<and> ident ! 1 = 3 then 0x2B else ucast (ident ! 0 * 40 + ident ! 1)) # concat (map sub_octets (drop 2 ident))"

lemma put_groups_raw: "put_groups n tail v c (put_raw (b # bs)) = put_raw (groups n tail v @ b # bs) c"
proof (induction n arbitrary: tail c)
  case (Suc n)
  have "(\<lambda>c. put_groups n True v c (put_raw (b # bs))) = put_raw (groups n True v @ b # bs)" by (rule ext) (rule Suc)
  then show ?case using Suc by (simp add: Let_def)
qed simp

lemma put_sub_ids_raw: "put_sub_ids ident = put_raw (concat (map sub_octets ident))"
proof (induction ident)
  case (Cons v ident)
  have ne: "concat (map sub_octets ident) \<noteq> [] \<longleftrightarrow> ident \<noteq> []" by (cases ident) (auto simp: sub_octets_def)
  have "(\<lambda>c. bnd (put_octet c (ucast v AND 0x7F)) (\<lambda>_. if ident \<noteq> [] then advance c ERR_ARG (put_sub_ids ident) else ret ERR_OK))
      = put_raw ((ucast v AND 0x7F) # concat (map sub_octets ident))"
    unfolding put_raw_fun ne Cons by simp
  then have "put_sub_ids (v # ident) c = put_raw (groups 4 False v @ (ucast v AND 0x7F) # concat (map sub_octets ident)) c" for c
    by (simp only: put_sub_ids.simps put_groups_raw)
  then show ?case by (intro ext) (simp add: sub_octets_def [of v])
qed (simp add: fun_eq_iff)

lemma enc_oid_raw:
  "length ident > 2 \<Longrightarrow> snmp_asn1_enc_oid ofs ident = at_offset ofs ERR_ARG (put_raw (code_oid ident))"
proof -
  assume len: "length ident > 2"
  then have "concat (map sub_octets (drop 2 ident)) \<noteq> []"
    by (cases "drop 2 ident") (auto simp: sub_octets_def)
  then show ?thesis using len unfolding snmp_asn1_enc_oid_def code_oid_def put_raw_fun put_sub_ids_raw by simp
qed


text \<open>What the decoder makes of the octets above the last one of a sub-identifier.\<close>

definition add_group :: "s32 \<Rightarrow> u8 \<Rightarrow> s32" where
  "add_group v b = push_bit 7 v + ucast (b AND NOT 0x80)"

lemma add_group_or: "add_group w (c OR 0x80) = push_bit 7 w OR ucast (c AND mask 7)"
proof -
  have "(c OR m) AND NOT m = c AND NOT m" for m by (rule bit_word_eqI) (auto simp: bit_simps)
  moreover have "NOT 0x80 = (mask 7 :: u8)" by (simp add: mask_eq_exp_minus_1)
  ultimately have "(c OR 0x80) AND NOT 0x80 = c AND mask 7" by metis
  then show ?thesis unfolding add_group_def
    by (simp only:) (rule or_plus [symmetric], auto simp: bit_simps)
qed

lemma groups_bit: "b \<in> set (groups n tail v) \<Longrightarrow> b AND 0x80 \<noteq> 0"
proof (induction n arbitrary: tail)
  case (Suc n)
  have "bit (x OR 0x80) 7" for x :: u8 by (simp add: bit_or_iff)
  then have "(x OR 0x80) AND 0x80 \<noteq> 0" for x :: u8 by (simp only: octet_sign)
  with Suc show ?case by (simp only: groups.simps Let_def split: if_split_asm) auto
qed simp

lemma groups_step:
  fixes v w :: s32
  assumes "push_bit (7 * Suc (Suc n)) w = v AND NOT (mask (7 * Suc (Suc n)))"
  shows "push_bit (7 * Suc n) (push_bit 7 w OR ucast ((ucast (signed_drop_bit (7 * Suc n) v) :: u8) AND mask 7))
    = v AND NOT (mask (7 * Suc n))" (is "?l = ?r")
proof (rule bit_word_eqI)
  fix i assume "i < LENGTH(32)"
  then have i: "i < 32" by simp
  have w: "bit w (i - (14 + 7 * n)) = bit v i" if "14 + 7 * n \<le> i"
    using arg_cong [OF assms, of "\<lambda>w. bit w i"] that i by (auto simp: bit_push_bit_iff bit_and_iff bit_not_iff bit_mask_iff)
  consider "i < 7 * Suc n" | "7 * Suc n \<le> i" "i < 14 + 7 * n" | "14 + 7 * n \<le> i" by linarith
  then show "bit ?l i = bit ?r i"
  proof cases
    case 3
    then have "i - 7 * Suc n - 7 = i - (14 + 7 * n)" by simp
    moreover have "\<not> i - (7 + 7 * n) < 7" "7 \<le> i - (7 + 7 * n)" using 3 by linarith+
    ultimately show ?thesis using 3 w i by (simp add: bit_simps)
  qed (use i in \<open>auto simp: bit_simps\<close>)
qed

lemma groups_value:
  assumes "push_bit (7 * Suc n) w = v AND NOT (mask (7 * Suc n))" and "\<not> tail \<Longrightarrow> w = 0"
  shows "push_bit 7 (foldl add_group w (groups n tail v)) = v AND NOT (mask 7)"
  using assms
proof (induction n arbitrary: w tail)
  case (Suc n)
  let ?code = "ucast (signed_drop_bit (7 * Suc n) v) :: u8"
  note step = groups_step [OF Suc.prems(1)]
  show ?case
  proof (cases "?code \<noteq> 0 \<or> tail")
    case True
    then show ?thesis using Suc.IH [OF step, of True] by (simp only: groups.simps Let_def if_True foldl_Cons add_group_or simp_thms)
  next
    case False
    then have "w = 0" using Suc.prems(2) by simp
    with step False have "push_bit (7 * Suc n) 0 = v AND NOT (mask (7 * Suc n))" by simp
    with False \<open>w = 0\<close> show ?thesis using Suc.IH [of 0 False] by simp
  qed
qed simp

lemma sub_value:
  "push_bit 7 (foldl add_group 0 (groups 4 False v)) + ucast ((ucast v :: u8) AND 0x7F) = v"
proof -
  have "push_bit (7 * Suc 4) 0 = v AND NOT (mask (7 * Suc 4))"
    by (rule bit_word_eqI) (auto simp: bit_simps)
  then have "push_bit 7 (foldl add_group 0 (groups 4 False v)) = v AND NOT (mask 7)" by (rule groups_value) simp
  moreover have m: "(0x7F :: u8) = mask 7" by (simp add: mask_eq_exp_minus_1)
  moreover have "(v AND NOT (mask 7)) OR ucast ((ucast v :: u8) AND mask 7) = v"
    by (rule bit_word_eqI) (auto simp: bit_simps)
  moreover have "(v AND NOT (mask 7)) OR ucast ((ucast v :: u8) AND mask 7) = (v AND NOT (mask 7)) + ucast ((ucast v :: u8) AND mask 7)"
    by (rule or_plus) (auto simp: bit_simps)
  ultimately show ?thesis by simp
qed

lemma holds_append: "holds p n (xs @ ys) \<longleftrightarrow> holds p n xs \<and> holds p (n + length xs) ys"
  by (induction xs arbitrary: n) auto

lemma get_cont_Suc:
  "chain_ok p \<Longrightarrow> m < total p \<Longrightarrow> get_cont (Suc n) w (cursor_of p m) e k p =
     (if chain_octets p ! m AND 0x80 \<noteq> 0 \<and> n > 0
      then advance (cursor_of p m) e (\<lambda>c. get_cont n (add_group w (chain_octets p ! m)) c e k) p
      else k (Suc n) w (cursor_of p m) p)"
  by (simp add: bnd_def ret_def add_group_def)

lemma get_cont_eq:
  "chain_ok p \<Longrightarrow> holds p n (gs @ [b]) \<Longrightarrow> \<forall>g\<in>set gs. g AND 0x80 \<noteq> 0 \<Longrightarrow> b AND 0x80 = 0 \<Longrightarrow>
     get_cont (length gs + Suc r) w (cursor_of p n) e k p
       = k (Suc r) (foldl add_group w gs) (cursor_of p (n + length gs)) p"
proof (induction gs arbitrary: n w)
  case Nil
  then show ?case using get_cont_Suc [of p n r w e k] by (simp del: get_cont.simps)
next
  case (Cons g gs)
  then have "n < total p" "chain_octets p ! n = g" "Suc n < total p" by (cases gs; simp)+
  then show ?case using Cons get_cont_Suc [of p n "length gs + Suc r" w e k] by (simp del: get_cont.simps)
qed

definition store_next :: "snmp_obj_id \<Rightarrow> s32 \<Rightarrow> snmp_obj_id" where
  "store_next oid v = oid\<lparr>oid_id := (oid_id oid)[oid_len oid := v], oid_len := oid_len oid + 1\<rparr>"

lemma store_id_runs:
  "oid_len oid < length (oid_id oid) \<Longrightarrow> bnd (store_id v oid) f p = f (oid\<lparr>oid_id := (oid_id oid)[oid_len oid := v]\<rparr>) p"
  by (simp add: store_id_def store_at_def bnd_def ret_def)

lemma last_octet: "(ucast v AND 0x7F) AND 0x80 = (0 :: u8)" for v :: s32
  using octet_sign [of "ucast v AND 0x7F"] by (simp add: bit_and_iff mask_eq_exp_minus_1 flip: and.assoc)

lemma get_sub_ids_eq:
  "chain_ok p \<Longrightarrow> holds p n (concat (map sub_octets ident)) \<Longrightarrow> oid_len oid + length ident \<le> LWIP_SNMP_OBJ_ID_LEN \<Longrightarrow>
   length (oid_id oid) = LWIP_SNMP_OBJ_ID_LEN \<Longrightarrow> ident \<noteq> [] \<Longrightarrow>
     get_sub_ids (length (concat (map sub_octets ident))) oid (cursor_of p n) p
       = ret (ERR_OK, foldl store_next oid ident) p"
proof (induction ident arbitrary: n oid)
  case (Cons v ident)
  let ?gs = "groups 4 False v" and ?b = "ucast v AND 0x7F :: u8" and ?rest = "concat (map sub_octets ident)"
  let ?stored = "oid\<lparr>oid_id := (oid_id oid)[oid_len oid := v]\<rparr>"
  have h: "holds p n (?gs @ [?b])" "holds p (n + length ?gs + 1) ?rest"
    using Cons.prems(2) sub_octets_def [of v] by (simp_all add: holds_append)
  then have lt: "n + length ?gs < total p" "chain_octets p ! (n + length ?gs) = ?b" by (simp_all add: holds_append)
  have len: "length (concat (map sub_octets (v # ident))) = length ?gs + Suc (length ?rest)" by (simp add: sub_octets_def [of v])
  have room: "oid_len oid < LWIP_SNMP_OBJ_ID_LEN" "oid_len oid < length (oid_id oid)" using Cons.prems(3,4) by simp_all
  have nxt: "next_id get_sub_ids (length ?rest) ?stored (cursor_of p (n + length ?gs)) p = ret (ERR_OK, foldl store_next oid (v # ident)) p"
  proof -
    have next_oid: "?stored\<lparr>oid_len := oid_len ?stored + 1\<rparr> = store_next oid v" by (simp add: store_next_def)
    show ?thesis
    proof (cases ident)
      case Nil
      then show ?thesis unfolding next_id_def Let_def next_oid by (simp add: get_sub_ids.simps)
    next
      case (Cons w ws)
      then have ne: "?rest \<noteq> []" by (simp add: sub_octets_def)
      then have "n + length ?gs + 1 < total p" using h(2) by (cases ?rest) auto
      moreover have "get_sub_ids (length ?rest) (store_next oid v) (cursor_of p (n + length ?gs + 1)) p
          = ret (ERR_OK, foldl store_next (store_next oid v) ident) p"
        using Cons.prems(3,4) by (intro Cons.IH [OF Cons.prems(1) h(2)]) (simp_all add: store_next_def \<open>ident = w # ws\<close>)
      ultimately show ?thesis unfolding next_id_def Let_def next_oid using ne lt(1) Cons.prems(1) by simp
    qed
  qed
  have unfold: "get_sub_ids (length ?gs + Suc (length ?rest)) oid (cursor_of p n) p = bnd (get_octet (cursor_of p n)) (\<lambda>b.
      if b AND 0x80 \<noteq> 0 then get_cont (length ?gs + Suc (length ?rest)) 0 (cursor_of p n) (ERR_ARG, oid)
        (\<lambda>len sub_id c. bnd (get_octet c) (\<lambda>b. if b AND 0x80 = 0 \<and> len > 0
           then bnd (store_id (push_bit 7 sub_id + ucast b) oid) (\<lambda>oid. next_id get_sub_ids (len - 1) oid c)
           else next_id get_sub_ids len oid c))
      else bnd (store_id (ucast b) oid) (\<lambda>oid. next_id get_sub_ids (length ?gs + Suc (length ?rest) - 1) oid (cursor_of p n))) p"
    using room(1) by (subst get_sub_ids.simps) simp
  show ?case
  proof (cases ?gs)
    case Nil
    then have "ucast ?b = v" using sub_value [of v] by simp
    with Nil nxt lt show ?thesis unfolding len unfold using last_octet [of v] Cons.prems(1) room(2)
      by (simp add: bnd_Some ret_def store_id_runs)
  next
    case (Cons g gs')
    then have "n < total p" "chain_octets p ! n = g" "g AND 0x80 \<noteq> 0" "\<forall>g\<in>set ?gs. g AND 0x80 \<noteq> 0"
      using h(1) groups_bit [of _ 4 False v] by (auto simp del: groups.simps)
    with nxt lt show ?thesis
      unfolding len unfold using last_octet [of v] sub_value [of v] Cons.prems(1) room(2)
        get_cont_eq [OF Cons.prems(1) h(1), of "length ?rest" 0 "(ERR_ARG, oid)"]
      by (simp add: bnd_Some ret_def store_id_runs del: get_cont.simps add_Suc_right)
  qed
qed simp

text \<open>The first octet holds two identifiers.\<close>

definition prefix_ok :: "s32 \<Rightarrow> s32 \<Rightarrow> bool" where
  "prefix_ok a b \<longleftrightarrow> (a = 0 \<or> a = 1) \<and> b < 40 \<or> a = 2 \<and> b < 176"

lemma first_ids_one: "40 \<le> unat x \<Longrightarrow> unat x < 80 \<Longrightarrow> x \<noteq> 0x2B \<Longrightarrow> first_ids x = (1, ucast x - 40)"
  by (simp add: first_ids_def word_less_nat_alt)

lemma first_ids_code:
  assumes "prefix_ok a b"
  shows "first_ids (if a = 1 \<and> b = 3 then 0x2B else ucast (a * 40 + b)) = (a, b)"
proof -
  let ?x = "ucast (a * 40 + b) :: u8"
  have iso: "?x \<noteq> 0x2B" if "unat ?x \<noteq> 43" using that by (rule contrapos_nn) (simp only:, simp)
  consider "a = 0" "unat b < 40" | "a = 1" "unat b < 40" | "a = 2" "unat b < 176"
    using assms by (auto simp: prefix_ok_def word_less_nat_alt)
  then show ?thesis
  proof cases
    case 1
    then have x: "unat ?x = unat b" by simp
    with 1 iso have "?x \<noteq> 0x2B" by linarith
    with 1 x show ?thesis by (simp add: first_ids_def word_less_nat_alt word_unat_eq_iff)
  next
    case 2
    then have x: "unat ?x = 40 + unat b" by (simp add: unat_word_ariths)
    have sub: "ucast ?x - 40 = b" using 2 x by (simp add: word_unat_eq_iff unat_sub_if_size word_size)
    show ?thesis
    proof (cases "b = 3")
      case True
      with 2(1) show ?thesis by (simp add: first_ids_def)
    next
      case False
      then have "unat b \<noteq> 3" by (simp add: word_unat_eq_iff)
      then have "unat ?x \<noteq> 43" using x by simp
      with iso have "?x \<noteq> 0x2B" .
      moreover have "40 \<le> unat ?x" "unat ?x < 80" using 2(2) x by linarith+
      ultimately have "first_ids ?x = (1, b)" using first_ids_one sub by metis
      with 2(1) False show ?thesis by (simp only: simp_thms if_False)
    qed
  next
    case 3
    then have x: "unat ?x = 80 + unat b" by (simp add: unat_word_ariths)
    moreover have "ucast ?x - 80 = b" using 3 x by (simp add: word_unat_eq_iff unat_sub_if_size word_size)
    moreover have "?x \<noteq> 0x2B" using x iso by linarith
    ultimately show ?thesis using 3 by (simp add: first_ids_def word_less_nat_alt)
  qed
qed

lemma foldl_store:
  "oid_len oid + length ident \<le> length (oid_id oid) \<Longrightarrow>
     foldl store_next oid ident = oid\<lparr>oid_len := oid_len oid + length ident,
       oid_id := take (oid_len oid) (oid_id oid) @ ident @ drop (oid_len oid + length ident) (oid_id oid)\<rparr>"
proof (induction ident arbitrary: oid)
  case (Cons v ident)
  have lt: "oid_len oid < length (oid_id oid)" using Cons.prems by simp
  have eq: "take (Suc (oid_len oid)) ((oid_id oid)[oid_len oid := v]) = take (oid_len oid) (oid_id oid) @ [v]"
    using lt by (simp add: take_Suc_conv_app_nth)
  show ?case using Cons.IH [of "store_next oid v"] Cons.prems eq
    by (simp add: store_next_def)
qed simp

lemma dec_oid_code:
  assumes ok: "chain_ok p" and h: "holds p (unat ofs) (code_oid ident)" and len: "unat len = length (code_oid ident)"
    and n: "3 \<le> length ident" "length ident \<le> LWIP_SNMP_OBJ_ID_LEN" "length (oid_id oid) = LWIP_SNMP_OBJ_ID_LEN"
    and prefix: "prefix_ok (ident ! 0) (ident ! 1)"
  shows "snmp_asn1_dec_oid ofs len oid p
    = ret (ERR_OK, oid\<lparr>oid_len := length ident, oid_id := ident @ drop (length ident) (oid_id oid)\<rparr>) p"
proof -
  obtain a b v rest where ident: "ident = a # b # v # rest"
    using n(1) by (metis One_nat_def Suc_le_length_iff numeral_3_eq_3)
  obtain x y ids where id: "oid_id oid = x # y # ids" using n(2,3) ident by (metis length_Cons Suc_le_length_iff nat_le_linear le_trans)
  let ?c = "if a = 1 \<and> b = 3 then 0x2B else ucast (a * 40 + b) :: u8"
  let ?bs = "concat (map sub_octets (v # rest))"
  have code: "code_oid ident = ?c # ?bs" by (simp add: code_oid_def ident)
  have first: "first_ids ?c = (a, b)" using first_ids_code prefix ident by simp
  have ne: "?bs \<noteq> []" by (simp add: sub_octets_def)
  have c: "unat ofs < total p" "chain_octets p ! unat ofs = ?c" and h': "holds p (Suc (unat ofs)) ?bs"
    using h by (simp_all only: code holds.simps simp_thms)
  have room: "Suc (unat ofs) < total p" using h' ne by (cases ?bs) auto
  have pos: "len > 0" "len - 1 > 0" "unat len - 1 = length ?bs"
    using len ne unat_u16_lt [of len] by (auto simp: code word_less_nat_alt unat_sub_if_size simp del: unat_u16_lt)
  let ?oid = "oid\<lparr>oid_id := (oid_id oid)[0 := a, 1 := b], oid_len := 2\<rparr>"
  have "snmp_asn1_dec_oid ofs len oid p = get_sub_ids (length ?bs) ?oid (cursor_of p (Suc (unat ofs))) p"
    using ok c room pos first id by (simp add: snmp_asn1_dec_oid_def store_at_def bnd_def ret_def Let_def)
  also have "\<dots> = ret (ERR_OK, foldl store_next ?oid (v # rest)) p"
    using get_sub_ids_eq [OF ok h', of ?oid] n(2,3) ident by simp
  finally show ?thesis using foldl_store [of ?oid "v # rest"] n ident id by simp
qed


text \<open>The length announced for an identifier without negative parts is that of its code.\<close>

lemma sdrop_nonneg: "sint v \<ge> 0 \<Longrightarrow> signed_drop_bit n v = drop_bit n v" for v :: s32
  by (rule bit_word_eqI) (use bit_last_iff [of v] in \<open>auto simp: bit_simps not_less dest: bit_imp_le_length\<close>)

lemma sint_nonneg: "unat v < 2 ^ 31 \<Longrightarrow> sint v = int (unat v)" for v :: s32
proof -
  assume "unat v < 2 ^ 31"
  then obtain m where m: "unat v = m" "m < 2 ^ 31" by blast
  then have "uint v = int m" by (metis uint_nat)
  then show ?thesis using m by (simp add: sint_uint signed_take_bit_int_eq_self)
qed

lemma sub_id_cnt_range:
  "unat v < 2 ^ 31 \<Longrightarrow> 2 ^ (7 * n) \<le> unat v \<Longrightarrow> unat v < 2 ^ (7 * Suc n) \<Longrightarrow> sub_id_cnt v c = c + of_nat (Suc n)"
proof (induction n arbitrary: v c)
  case 0
  have "sint v = int (unat v)" using 0 by (intro sint_nonneg) simp
  moreover have "0 < unat v" using 0 by simp
  ultimately have "sint v > 0" by linarith
  moreover have "signed_drop_bit 7 v = 0" using 0
    by (simp add: sint_nonneg sdrop_nonneg word_unat_eq_iff unat_drop)
  ultimately show ?case by (subst sub_id_cnt.simps) (simp add: sub_id_cnt.simps)
next
  case (Suc n)
  have d: "unat (signed_drop_bit 7 v) = unat v div 128"
    using Suc.prems(1) by (simp add: sdrop_nonneg sint_nonneg unat_drop)
  have p: "(2 :: nat) ^ (7 * Suc k) = 128 * 2 ^ (7 * k)" for k by (simp add: power_add)
  have "0 < (2 :: nat) ^ (7 * n)" by simp
  then have "0 < unat v" using Suc.prems(2) by (simp only: p)
  moreover have "sint v = int (unat v)" using Suc.prems(1) by (rule sint_nonneg)
  ultimately have "sint v > 0" by linarith
  moreover have "sub_id_cnt (signed_drop_bit 7 v) (c + 1) = c + 1 + of_nat (Suc n)"
  proof (rule Suc.IH)
    show "unat (signed_drop_bit 7 v) < 2 ^ 31" using Suc.prems(1) d by linarith
    show "2 ^ (7 * n) \<le> unat (signed_drop_bit 7 v)"
      using Suc.prems(2) unfolding d p [of n] by (simp add: less_eq_div_iff_mult_less_eq ac_simps)
    show "unat (signed_drop_bit 7 v) < 2 ^ (7 * Suc n)"
      using Suc.prems(3) unfolding d p [of "Suc n"] by (simp add: div_less_iff_less_mult ac_simps)
  qed
  ultimately show ?case by (subst sub_id_cnt.simps) (simp add: ac_simps)
qed

lemma length_groups_tail [simp]: "length (groups n True v) = n" by (induction n) (simp_all add: Let_def)

lemma sub_id_cnt_groups:
  "unat v < 2 ^ 31 \<Longrightarrow> unat v < 2 ^ (7 * Suc n) \<Longrightarrow>
     sub_id_cnt (signed_drop_bit 7 v) c = c + of_nat (length (groups n False v))"
proof (induction n)
  case 0
  then have "signed_drop_bit 7 v = 0" by (simp add: sdrop_nonneg sint_nonneg word_unat_eq_iff unat_drop)
  then show ?case by (simp add: sub_id_cnt.simps)
next
  case (Suc n)
  have sdrop: "unat (signed_drop_bit k v) = unat v div 2 ^ k" for k
    using Suc.prems(1) by (simp add: sdrop_nonneg sint_nonneg unat_drop)
  have p: "(2 :: nat) ^ (7 * Suc (Suc n)) = 2 ^ (7 * Suc n) * 128" by (simp add: power_add)
  have code: "unat (signed_drop_bit (7 * Suc n) v) < 128"
    using Suc.prems(2) unfolding sdrop p by (simp add: less_mult_imp_div_less mult.commute)
  show ?case
  proof (cases "unat v < 2 ^ (7 * Suc n)")
    case True
    then have "signed_drop_bit (7 * Suc n) v = 0" by (simp only: word_unat_eq_iff sdrop) simp
    then show ?thesis using Suc.IH [OF Suc.prems(1) True] by simp
  next
    case False
    have "unat v div 2 ^ (7 * Suc n) \<noteq> 0" using False by (simp add: div_eq_0_iff)
    then have "unat (ucast (signed_drop_bit (7 * Suc n) v) :: u8) \<noteq> 0" using code by (simp add: sdrop)
    then have "(ucast (signed_drop_bit (7 * Suc n) v) :: u8) \<noteq> 0" by (metis unsigned_0)
    then have len: "length (groups (Suc n) False v) = Suc n" by (simp del: mult_Suc_right)
    have p': "(2 :: nat) ^ (7 * Suc n) = 128 * 2 ^ (7 * n)" "(2 :: nat) ^ (7 * Suc (Suc n)) = 128 * 2 ^ (7 * Suc n)" by (simp_all add: power_add)
    have d: "unat (signed_drop_bit 7 v) = unat v div 128" using sdrop [of 7] by simp
    have "sub_id_cnt (signed_drop_bit 7 v) c = c + of_nat (Suc n)"
    proof (rule sub_id_cnt_range)
      show "unat (signed_drop_bit 7 v) < 2 ^ 31" using Suc.prems(1) d by linarith
      show "2 ^ (7 * n) \<le> unat (signed_drop_bit 7 v)"
        using False unfolding d p' by (simp add: less_eq_div_iff_mult_less_eq ac_simps)
      show "unat (signed_drop_bit 7 v) < 2 ^ (7 * Suc n)"
        using Suc.prems(2) unfolding d p'(2) by (simp add: div_less_iff_less_mult ac_simps)
    qed
    then show ?thesis by (simp only: len)
  qed
qed

lemma length_sub_octets: "length (sub_octets v) = Suc (length (groups 4 False v))" "length (groups n tail v) \<le> n"
proof -
  show "length (groups n tail v) \<le> n" by (induction n arbitrary: tail) (auto simp: Let_def le_SucI)
qed (simp add: sub_octets_def)

lemma sub_id_cnt_fold:
  "\<forall>v\<in>set ident. unat v < 2 ^ 31 \<Longrightarrow>
     foldl (\<lambda>cnt v. sub_id_cnt (signed_drop_bit 7 v) (cnt + 1)) c ident = c + of_nat (length (concat (map sub_octets ident)))"
proof (induction ident arbitrary: c)
  case (Cons v ident)
  have "unat v < 2 ^ (7 * Suc 4)" by (rule less_trans [OF unat_u32_lt]) simp
  then show ?case using Cons sub_id_cnt_groups [of v 4 "c + 1"] length_sub_octets(1) [of v]
    by (simp only: foldl_Cons list.set concat.simps list.map length_append) (simp add: ac_simps)
qed simp

lemma length_code_oid: "length (code_oid ident) \<le> 1 + 5 * (length ident - 2)"
proof -
  have "length (concat (map sub_octets xs)) \<le> 5 * length xs" for xs
  proof (induction xs)
    case (Cons v xs)
    then show ?case using length_sub_octets(2) [of 4 False v] by (simp add: length_sub_octets(1))
  qed simp
  from this [of "drop 2 ident"] show ?thesis by (simp add: code_oid_def)
qed

lemma enc_oid_cnt:
  assumes "\<forall>v\<in>set ident. 0 \<le> sint v" and "2 \<le> length ident" and "length ident \<le> LWIP_SNMP_OBJ_ID_LEN"
  shows "unat (snmp_asn1_enc_oid_cnt ident) = length (code_oid ident)"
proof -
  have nonneg: "unat v < 2 ^ 31" if "0 \<le> sint v" for v :: s32
  proof -
    have "\<not> bit v 31" using that bit_last_iff [of v] by simp
    then have "take_bit 31 v = v"
      by (intro bit_word_eqI) (auto simp: bit_take_bit_iff less_Suc_eq numeral_eq_Suc)
    then show ?thesis by (metis unsigned_take_bit_eq take_bit_nat_less_exp)
  qed
  have rest: "\<forall>v\<in>set (drop 2 ident). unat v < 2 ^ 31" using assms(1) nonneg by (meson in_set_dropD)
  have "length (code_oid ident) < 256" using length_code_oid [of ident] assms(3) by (simp add: LWIP_SNMP_OBJ_ID_LEN_def)
  moreover have "snmp_asn1_enc_oid_cnt ident = ucast (of_nat (length (code_oid ident)) :: u8)"
    using sub_id_cnt_fold [OF rest, of 1] assms(2) by (simp add: snmp_asn1_enc_oid_cnt_def code_oid_def)
  ultimately show ?thesis by (simp add: unat_of_nat take_bit_nat_eq_self)
qed


section \<open>Decoding arbitrary messages\<close>

text \<open>
  From every offset of the chain \<open>f\<close> returns a result with \<open>Q\<close>, having read octets of the chain only and written
  none; it has made no access outside of the buffers or of its result variables, which would be a fault.
\<close>

definition returns :: "pbuf list \<Rightarrow> ('a \<Rightarrow> bool) \<Rightarrow> (cursor \<Rightarrow> 'a msg) \<Rightarrow> bool" where
  "returns p Q f \<longleftrightarrow> (\<forall>n<total p. \<exists>r. f (cursor_of p n) p = ret r p \<and> Q r)"

named_theorems returns_intro

lemma returns_ret [returns_intro]: "Q r \<Longrightarrow> returns p Q (\<lambda>c. ret r)"
  by (auto simp: returns_def)

lemma returns_get [returns_intro]: "chain_ok p \<Longrightarrow> (\<And>b. returns p Q (\<lambda>c. f b c)) \<Longrightarrow> returns p Q (\<lambda>c. bnd (get_octet c) (\<lambda>b. f b c))"
  by (fastforce simp: returns_def bnd_def ret_def)

lemma returns_advance [returns_intro]: "chain_ok p \<Longrightarrow> Q e \<Longrightarrow> returns p Q f \<Longrightarrow> returns p Q (\<lambda>c. advance c e f)"
  by (auto simp: returns_def)

lemma returns_if [returns_intro]: "(b \<Longrightarrow> returns p Q f) \<Longrightarrow> (\<not> b \<Longrightarrow> returns p Q g) \<Longrightarrow> returns p Q (\<lambda>c. if b then f c else g c)"
  by (auto simp: returns_def)

lemma returns_at: "chain_ok p \<Longrightarrow> Q e \<Longrightarrow> returns p Q f \<Longrightarrow> \<exists>r. at_offset ofs e f p = ret r p \<and> Q r"
  by (auto simp: returns_def)

lemma returns_store [returns_intro]:
  "i < length (oid_id oid) \<Longrightarrow> returns p Q (\<lambda>c. k (oid\<lparr>oid_id := (oid_id oid)[i := v]\<rparr>) c)
   \<Longrightarrow> returns p Q (\<lambda>c. bnd (store_at i v oid) (\<lambda>oid. k oid c))"
  by (auto simp: returns_def store_at_def bnd_def ret_def)

lemma returns_indefinite [returns_intro]: "chain_ok p \<Longrightarrow> returns p (\<lambda>_. True) (indefinite used zeros len)"
proof -
  assume ok: "chain_ok p"
  have "\<exists>r. indefinite used zeros len (cursor_of p n) p = ret r p" if "n < total p" for n
    using that
  proof (induction "total p - n" arbitrary: n zeros len rule: less_induct)
    case less
    show ?case
    proof (cases "zeros = 2 \<or> \<not> Suc n < total p")
      case True
      then show ?thesis using less.prems ok by (subst indefinite.simps) (auto simp: next_octet_eq)
    next
      case False
      then have "\<exists>r. indefinite used z l (cursor_of p (Suc n)) p = ret r p" for z l
        using less.prems by (intro less.hyps) (simp_all add: diff_less_mono2)
      then show ?thesis using False less.prems ok by (subst indefinite.simps) (simp add: next_octet_eq ret_def)
    qed
  qed
  then show ?thesis by (simp add: returns_def)
qed

lemma returns_get_octets [returns_intro]:
  "chain_ok p \<Longrightarrow> returns p (\<lambda>_. True) (get_octets_u n v)" "chain_ok p \<Longrightarrow> returns p (\<lambda>_. True) (get_octets_s neg n w)"
proof -
  assume ok: "chain_ok p"
  have u: "get_octets_u (Suc n) v = (\<lambda>c. bnd (get_octet c) (\<lambda>b. advance c (ERR_ARG, push_bit 8 (v OR ucast b)) (get_octets_u n (push_bit 8 (v OR ucast b)))))"
    and s: "get_octets_s neg (Suc n) w = (\<lambda>c. bnd (get_octet c) (\<lambda>b. advance c
      (ERR_ARG, if neg then or_lsb (push_bit 8 (and_lsb w b)) 255 else push_bit 8 (or_lsb w b))
      (get_octets_s neg n (if neg then or_lsb (push_bit 8 (and_lsb w b)) 255 else push_bit 8 (or_lsb w b)))))" for n v w
    by (simp_all add: fun_eq_iff Let_def)
  show "returns p (\<lambda>_. True) (get_octets_u n v)"
  proof (induction n arbitrary: v)
    case 0
    show ?case unfolding get_octets_u.simps by (intro returns_intro ok TrueI)
  next
    case (Suc n)
    show ?case unfolding u by (intro returns_intro ok Suc TrueI)
  qed
  show "returns p (\<lambda>_. True) (get_octets_s neg n w)"
  proof (induction n arbitrary: w)
    case 0
    show ?case unfolding get_octets_s.simps by (intro returns_intro ok TrueI)
  next
    case (Suc n)
    show ?case unfolding s by (intro returns_intro ok Suc TrueI)
  qed
qed

lemma returns_get_raw [returns_intro]:
  "chain_ok p \<Longrightarrow> length raw + Suc n \<le> room \<Longrightarrow> returns p (\<lambda>r. length (snd r) \<le> room) (get_raw room n raw)"
proof (induction n arbitrary: raw)
  case 0
  then have "returns p (\<lambda>r. length (snd r) \<le> room) (\<lambda>c. bnd (get_octet c) (\<lambda>b. ret (ERR_OK, raw @ [b])))"
    by (intro returns_intro) simp_all
  moreover have "get_raw room 0 raw = (\<lambda>c. bnd (get_octet c) (\<lambda>b. ret (ERR_OK, raw @ [b])))"
    using 0 by (intro ext) (simp add: store_raw_def)
  ultimately show ?case by simp
next
  case (Suc n)
  then have "returns p (\<lambda>r. length (snd r) \<le> room) (\<lambda>c. bnd (get_octet c) (\<lambda>b. advance c (ERR_ARG, raw @ [b]) (get_raw room n (raw @ [b]))))"
    by (intro returns_intro) simp_all
  moreover have "get_raw room (Suc n) raw = (\<lambda>c. bnd (get_octet c) (\<lambda>b. advance c (ERR_ARG, raw @ [b]) (get_raw room n (raw @ [b]))))"
    using Suc.prems by (intro ext) (simp add: store_raw_def)
  ultimately show ?case by simp
qed

lemma returns_get_cont [returns_intro]:
  "chain_ok p \<Longrightarrow> Q e \<Longrightarrow> (\<And>len w. returns p Q (k len w)) \<Longrightarrow> returns p Q (\<lambda>c. get_cont n w c e k)"
proof (induction n arbitrary: w)
  case (Suc n)
  then have "returns p Q (\<lambda>c. bnd (get_octet c) (\<lambda>b. if b AND 0x80 \<noteq> 0 \<and> n > 0
      then advance c e (\<lambda>c. get_cont n (push_bit 7 w + ucast (b AND NOT 0x80)) c e k) else k (Suc n) w c))"
    by (intro returns_intro Suc.IH Suc.prems)
  then show ?case by simp
qed simp

text \<open>The array of an identifier keeps its size, and no more of it is said to be used than there is.\<close>

definition oid_ok :: "snmp_obj_id \<Rightarrow> bool" where
  "oid_ok oid \<longleftrightarrow> length (oid_id oid) = LWIP_SNMP_OBJ_ID_LEN \<and> oid_len oid \<le> LWIP_SNMP_OBJ_ID_LEN"

lemma returns_get_sub_ids [returns_intro]:
  "chain_ok p \<Longrightarrow> oid_ok oid \<Longrightarrow> returns p (\<lambda>r. oid_ok (snd r)) (get_sub_ids len oid)"
proof (induction "LWIP_SNMP_OBJ_ID_LEN - oid_len oid" arbitrary: len oid rule: less_induct)
  case less
  show ?case
  proof (cases "len > 0 \<and> oid_len oid < LWIP_SNMP_OBJ_ID_LEN")
    case False
    then have "get_sub_ids len oid = (\<lambda>c. ret (if len = 0 then ERR_OK else ERR_ARG, oid))"
      by (auto simp: fun_eq_iff get_sub_ids.simps [of len oid])
    then show ?thesis using less.prems by (simp add: returns_ret)
  next
    case True
    let ?Q = "\<lambda>r :: err_t \<times> snmp_obj_id. oid_ok (snd r)"
    have nxt: "returns p ?Q (next_id get_sub_ids len' oid')"
      if "length (oid_id oid') = LWIP_SNMP_OBJ_ID_LEN" "oid_len oid' = oid_len oid" for len' oid'
    proof -
      have "oid_ok oid'" "oid_ok (oid'\<lparr>oid_len := oid_len oid' + 1\<rparr>)" using that True by (simp_all add: oid_ok_def)
      moreover have "LWIP_SNMP_OBJ_ID_LEN - oid_len (oid'\<lparr>oid_len := oid_len oid' + 1\<rparr>) < LWIP_SNMP_OBJ_ID_LEN - oid_len oid"
        using that True by (simp add: diff_less_mono2)
      ultimately show ?thesis unfolding next_id_def Let_def using less.prems(1) by (intro returns_intro less.hyps) simp_all
    qed
    have id: "length (oid_id oid) = LWIP_SNMP_OBJ_ID_LEN" "oid_ok oid" using less.prems(2) by (simp_all add: oid_ok_def)
    have store: "returns p ?Q (\<lambda>c. bnd (store_id v oid) (\<lambda>oid. next_id get_sub_ids len' oid c))" for v len'
      unfolding store_id_def using id True by (intro returns_store nxt) simp_all
    have eq: "get_sub_ids len oid = (\<lambda>c. bnd (get_octet c) (\<lambda>b.
        if b AND 0x80 \<noteq> 0 then get_cont len 0 c (ERR_ARG, oid) (\<lambda>len sub_id c. bnd (get_octet c) (\<lambda>b.
          if b AND 0x80 = 0 \<and> len > 0 then bnd (store_id (push_bit 7 sub_id + ucast b) oid) (\<lambda>oid. next_id get_sub_ids (len - 1) oid c)
          else next_id get_sub_ids len oid c))
        else bnd (store_id (ucast b) oid) (\<lambda>oid. next_id get_sub_ids (len - 1) oid c)))"
      using True by (intro ext, subst get_sub_ids.simps) simp
    show ?thesis unfolding eq using less.prems(1) id by (intro returns_intro store nxt) simp_all
  qed
qed

lemma decoders_return:
  assumes ok: "chain_ok p"
  shows "\<exists>r. snmp_asn1_dec_type ofs ty p = ret r p" "\<exists>r. snmp_asn1_dec_length ofs used l p = ret r p"
    "\<exists>r. snmp_asn1_dec_u32t ofs len u p = ret r p" "\<exists>r. snmp_asn1_dec_s32t ofs len i p = ret r p"
    "oid_ok oid \<Longrightarrow> \<exists>r. snmp_asn1_dec_oid ofs len oid p = ret r p \<and> oid_ok (snd r)"
    "\<exists>r. snmp_asn1_dec_raw ofs len raw_len p = ret r p \<and> length (snd r) \<le> unat raw_len"
proof -
  have at: "returns p (\<lambda>_. True) f \<Longrightarrow> \<exists>r. at_offset ofs e f p = ret r p" for f :: "cursor \<Rightarrow> 'a msg" and e
    using returns_at [OF ok, of "\<lambda>_. True"] by simp
  show "\<exists>r. snmp_asn1_dec_type ofs ty p = ret r p" "\<exists>r. snmp_asn1_dec_length ofs used l p = ret r p"
    "\<exists>r. snmp_asn1_dec_u32t ofs len u p = ret r p" "\<exists>r. snmp_asn1_dec_s32t ofs len i p = ret r p"
    unfolding snmp_asn1_dec_type_def snmp_asn1_dec_length_def snmp_asn1_dec_u32t_def snmp_asn1_dec_s32t_def Let_def
    by (rule at, intro returns_intro ok TrueI)+
  show "\<exists>r. snmp_asn1_dec_oid ofs len oid p = ret r p \<and> oid_ok (snd r)" if "oid_ok oid"
    unfolding snmp_asn1_dec_oid_def Let_def
    by (intro returns_at returns_intro ok) (use that in \<open>simp_all add: oid_ok_def LWIP_SNMP_OBJ_ID_LEN_def\<close>)
  have "len > 0 \<Longrightarrow> \<exists>r. at_offset ofs (ERR_ARG, []) (\<lambda>c. if raw_len \<ge> len then get_raw (unat raw_len) (unat len - 1) [] c
      else ret (ERR_ARG, [])) p = ret r p \<and> length (snd r) \<le> unat raw_len"
    by (intro returns_at returns_intro ok) (auto simp: word_less_nat_alt word_le_nat_alt)
  then show "\<exists>r. snmp_asn1_dec_raw ofs len raw_len p = ret r p \<and> length (snd r) \<le> unat raw_len"
    by (cases "len > 0") (auto simp: snmp_asn1_dec_raw_def ret_def simp del: at_offset_eq)
qed

end
