(* ===== verification/Lwip_Mem.thy ===== *)
theory Lwip_Mem
  imports Lwip_Def
begin

text \<open>
  The heap of lwIP (\<open>core/mem.c\<close>), configured as the board does: alignment 64, 131072 octets, 32-bit
  sizes, statistics on, assertions that do nothing and no frees from interrupts. The headers lie in
  the memory they manage; the heap is a map from addresses to the headers written there.
\<close>

section \<open>The heap\<close>

record mem =
  mem_next :: u32
  mem_prev :: u32
  mem_used :: u8

record stats_mem =
  st_avail :: u32
  st_used :: u32
  st_max :: u32
  st_err :: u16
  st_illegal :: u16

text \<open>
  \<open>structs\<close> is where a header was written and not overwritten since; reading a header elsewhere reads
  octets the allocator did not write, and is a fault.
\<close>

record heap =
  ram :: u32
  ram_end :: u32
  lfree :: u32
  structs :: "u32 \<rightharpoonup> mem"
  mem_stats :: stats_mem

type_synonym 'a hp = "(heap, 'a) prog"

definition MEM_ALIGNMENT :: u32 where "MEM_ALIGNMENT = 64"

definition LWIP_MEM_ALIGN_SIZE :: "u32 \<Rightarrow> u32" where
  "LWIP_MEM_ALIGN_SIZE sz = (sz + MEM_ALIGNMENT - 1) AND NOT (MEM_ALIGNMENT - 1)"

definition LWIP_MEM_ALIGN :: "u32 \<Rightarrow> u32" where
  "LWIP_MEM_ALIGN addr = (addr + MEM_ALIGNMENT - 1) AND NOT (MEM_ALIGNMENT - 1)"

definition MIN_SIZE_ALIGNED :: u32 where "MIN_SIZE_ALIGNED = LWIP_MEM_ALIGN_SIZE 12"
definition SIZEOF_STRUCT_MEM :: u32 where "SIZEOF_STRUCT_MEM = LWIP_MEM_ALIGN_SIZE 12"
definition MEM_SIZE_ALIGNED :: u32 where "MEM_SIZE_ALIGNED = LWIP_MEM_ALIGN_SIZE 131072"

definition get_mem :: "u32 \<Rightarrow> mem hp" where
  "get_mem a h = (case structs h a of None \<Rightarrow> fail OutOfBounds h | Some m \<Rightarrow> ret m h)"

definition put_mem :: "u32 \<Rightarrow> mem \<Rightarrow> unit hp" where
  "put_mem a m h = ret () (h\<lparr>structs := (structs h)(a \<mapsto> m)\<rparr>)"

text \<open>An assignment to one field of a header.\<close>

definition upd_mem :: "u32 \<Rightarrow> (mem \<Rightarrow> mem) \<Rightarrow> unit hp" where
  "upd_mem a f = bnd (get_mem a) (\<lambda>m. put_mem a (f m))"

definition modify :: "(heap \<Rightarrow> heap) \<Rightarrow> unit hp" where
  "modify f h = ret () (f h)"

section \<open>Statistics\<close>

definition stats :: "(stats_mem \<Rightarrow> stats_mem) \<Rightarrow> unit hp" where
  "stats f = modify (\<lambda>h. h\<lparr>mem_stats := f (mem_stats h)\<rparr>)"

definition inc_used :: "u32 \<Rightarrow> stats_mem \<Rightarrow> stats_mem" where
  "inc_used y s = (let s = s\<lparr>st_used := st_used s + y\<rparr> in
     if st_max s < st_used s then s\<lparr>st_max := st_used s\<rparr> else s)"

definition dec_used :: "u32 \<Rightarrow> stats_mem \<Rightarrow> stats_mem" where
  "dec_used y s = s\<lparr>st_used := st_used s - y\<rparr>"

definition inc_err :: "stats_mem \<Rightarrow> stats_mem" where
  "inc_err s = s\<lparr>st_err := st_err s + 1\<rparr>"

definition inc_illegal :: "stats_mem \<Rightarrow> stats_mem" where
  "inc_illegal s = s\<lparr>st_illegal := st_illegal s + 1\<rparr>"

section \<open>Operations\<close>

definition plug_forward :: "u32 \<Rightarrow> unit hp" where
  "plug_forward mem h = bnd (get_mem mem) (\<lambda>m.
     let nmem = ram h + mem_next m in bnd (get_mem nmem) (\<lambda>n.
       if mem \<noteq> nmem \<and> mem_used n = 0 \<and> nmem \<noteq> ram_end h then block [
         modify (\<lambda>h. if lfree h = nmem then h\<lparr>lfree := mem\<rparr> else h),
         upd_mem mem (mem_next_update (\<lambda>_. mem_next n)),
         upd_mem (ram h + mem_next n) (mem_prev_update (\<lambda>_. mem - ram h))]
       else ret ())) h"

definition plug_backward :: "u32 \<Rightarrow> unit hp" where
  "plug_backward mem h = bnd (get_mem mem) (\<lambda>m.
     let pmem = ram h + mem_prev m in bnd (get_mem pmem) (\<lambda>p.
       if pmem \<noteq> mem \<and> mem_used p = 0 then block [
         modify (\<lambda>h. if lfree h = mem then h\<lparr>lfree := pmem\<rparr> else h),
         upd_mem pmem (mem_next_update (\<lambda>_. mem_next m)),
         upd_mem (ram h + mem_next m) (mem_prev_update (\<lambda>_. pmem - ram h))]
       else ret ())) h"

definition plug_holes :: "u32 \<Rightarrow> unit hp" where
  "plug_holes mem = block [plug_forward mem, plug_backward mem]"

text \<open>\<open>heap_pointer\<close> is the address of the array \<open>ram_heap\<close>.\<close>

definition mem_init :: "u32 \<Rightarrow> unit hp" where
  "mem_init heap_pointer = (let ram = LWIP_MEM_ALIGN heap_pointer; ram_end = ram + MEM_SIZE_ALIGNED in block [
     put_mem ram \<lparr>mem_next = MEM_SIZE_ALIGNED, mem_prev = 0, mem_used = 0\<rparr>,
     put_mem ram_end \<lparr>mem_next = MEM_SIZE_ALIGNED, mem_prev = MEM_SIZE_ALIGNED, mem_used = 1\<rparr>,
     modify (\<lambda>h. h\<lparr>ram := ram, ram_end := ram_end, lfree := ram\<rparr>),
     stats (\<lambda>s. s\<lparr>st_avail := MEM_SIZE_ALIGNED\<rparr>)])"

definition mem_free :: "u32 \<Rightarrow> unit hp" where
  "mem_free rmem h =
     (if rmem = 0 then ret ()
      else if rmem < ram h \<or> rmem \<ge> ram_end h then stats inc_illegal
      else let mem = rmem - SIZEOF_STRUCT_MEM in block [
        upd_mem mem (mem_used_update (\<lambda>_. 0)),
        modify (\<lambda>h. if mem < lfree h then h\<lparr>lfree := mem\<rparr> else h),
        bnd (get_mem mem) (\<lambda>m. stats (dec_used (mem_next m - (mem - ram h)))),
        plug_holes mem]) h"

text \<open>The header after a shrunk or split block, and the link back to it unless the heap ends there.\<close>

definition link_back :: "u32 \<Rightarrow> u32 \<Rightarrow> unit hp" where
  "link_back next ptr2 h = (if next \<noteq> MEM_SIZE_ALIGNED then upd_mem (ram h + next) (mem_prev_update (\<lambda>_. ptr2)) else ret ()) h"

text \<open>The block \<open>mem\<close> shrunk to \<open>newsize\<close> octets, a size rounded by the caller.\<close>

definition trim_block :: "u32 \<Rightarrow> u32 \<Rightarrow> u32 hp" where
  "trim_block rmem newsize h = (let mem = rmem - SIZEOF_STRUCT_MEM; ptr = mem - ram h in bnd (get_mem mem) (\<lambda>m.
     let sz = mem_next m - ptr - SIZEOF_STRUCT_MEM; ptr2 = ptr + SIZEOF_STRUCT_MEM + newsize in
     if newsize > sz then ret 0
     else if newsize = sz then ret rmem
     else bnd (get_mem (ram h + mem_next m)) (\<lambda>m2.
       if mem_used m2 = 0 then bnd (block [
         modify (\<lambda>h'. if lfree h' = ram h + mem_next m then h'\<lparr>lfree := ram h + ptr2\<rparr> else h'),
         put_mem (ram h + ptr2) \<lparr>mem_next = mem_next m2, mem_prev = ptr, mem_used = 0\<rparr>,
         upd_mem mem (mem_next_update (\<lambda>_. ptr2)),
         link_back (mem_next m2) ptr2,
         stats (dec_used (sz - newsize))]) (\<lambda>_. ret rmem)
       else if newsize + SIZEOF_STRUCT_MEM + MIN_SIZE_ALIGNED \<le> sz then bnd (block [
         modify (\<lambda>h'. if ram h + ptr2 < lfree h' then h'\<lparr>lfree := ram h + ptr2\<rparr> else h'),
         put_mem (ram h + ptr2) \<lparr>mem_next = mem_next m, mem_prev = ptr, mem_used = 0\<rparr>,
         upd_mem mem (mem_next_update (\<lambda>_. ptr2)),
         link_back (mem_next m) ptr2,
         stats (dec_used (sz - newsize))]) (\<lambda>_. ret rmem)
       else ret rmem))) h"

definition mem_trim :: "u32 \<Rightarrow> u32 \<Rightarrow> u32 hp" where
  "mem_trim rmem newsize h =
     (let newsize = LWIP_MEM_ALIGN_SIZE newsize;
          newsize = (if newsize < MIN_SIZE_ALIGNED then MIN_SIZE_ALIGNED else newsize) in
      if newsize > MEM_SIZE_ALIGNED then ret 0
      else if rmem < ram h \<or> rmem \<ge> ram_end h then bnd (stats inc_illegal) (\<lambda>_. ret rmem)
      else trim_block rmem newsize) h"

text \<open>\<open>while (lfree->used && lfree != ram_end)\<close>\<close>

partial_function (option) next_free :: "unit hp" where
  "next_free h = (case structs h (lfree h) of
     None \<Rightarrow> fail OutOfBounds h
   | Some m \<Rightarrow> if mem_used m \<noteq> 0 \<and> lfree h \<noteq> ram_end h then next_free (h\<lparr>lfree := ram h + mem_next m\<rparr>)
             else ret () h)"

text \<open>The block that was found is split or given whole.\<close>

definition take_block :: "u32 \<Rightarrow> u32 \<Rightarrow> u32 hp" where
  "take_block sz ptr h = (let mem = ram h + ptr in bnd (get_mem mem) (\<lambda>m. bnd (block [
     if mem_next m - (ptr + SIZEOF_STRUCT_MEM) \<ge> sz + SIZEOF_STRUCT_MEM + MIN_SIZE_ALIGNED
     then let ptr2 = ptr + SIZEOF_STRUCT_MEM + sz in block [
       put_mem (ram h + ptr2) \<lparr>mem_next = mem_next m, mem_prev = ptr, mem_used = 0\<rparr>,
       upd_mem mem (mem_next_update (\<lambda>_. ptr2)),
       upd_mem mem (mem_used_update (\<lambda>_. 1)),
       link_back (mem_next m) ptr2,
       stats (inc_used (sz + SIZEOF_STRUCT_MEM))]
     else block [
       upd_mem mem (mem_used_update (\<lambda>_. 1)),
       stats (inc_used (mem_next m - (mem - ram h)))],
     \<lambda>h. (if mem = lfree h then next_free else ret ()) h]) (\<lambda>_. ret (mem + SIZEOF_STRUCT_MEM)))) h"

text \<open>The search for a block that fits.\<close>

partial_function (option) search :: "u32 \<Rightarrow> u32 \<Rightarrow> u32 hp" where
  "search sz ptr h =
     (if ptr < MEM_SIZE_ALIGNED - sz then
        case structs h (ram h + ptr) of
          None \<Rightarrow> fail OutOfBounds h
        | Some m \<Rightarrow> if mem_used m = 0 \<and> mem_next m - (ptr + SIZEOF_STRUCT_MEM) \<ge> sz then take_block sz ptr h
                  else search sz (mem_next m) h
      else bnd (stats inc_err) (\<lambda>_. ret 0) h)"

definition mem_malloc :: "u32 \<Rightarrow> u32 hp" where
  "mem_malloc sz h =
     (if sz = 0 then ret 0
      else let sz = LWIP_MEM_ALIGN_SIZE sz;
               sz = (if sz < MIN_SIZE_ALIGNED then MIN_SIZE_ALIGNED else sz) in
      if sz > MEM_SIZE_ALIGNED then ret 0
      else search sz (lfree h - ram h)) h"

text \<open>Octets the client or \<open>memset\<close> writes overwrite the headers that were there.\<close>

definition write_area :: "u32 \<Rightarrow> u32 \<Rightarrow> unit hp" where
  "write_area p n = modify (\<lambda>h. h\<lparr>structs := (\<lambda>a. if a - p < n then None else structs h a)\<rparr>)"

definition mem_calloc :: "u32 \<Rightarrow> u32 \<Rightarrow> u32 hp" where
  "mem_calloc count sz = bnd (mem_malloc (count * sz)) (\<lambda>p.
     bnd (if p \<noteq> 0 then write_area p (count * sz) else ret ()) (\<lambda>_. ret p))"

section \<open>Blocks\<close>

text \<open>
  The abstract heap: its blocks in order, each with its size (header included) and whether it is used.
\<close>

type_synonym blocks = "(nat \<times> bool) list"

abbreviation extent :: "blocks \<Rightarrow> nat" where "extent bs \<equiv> sum_list (map fst bs)"

definition used_size :: "blocks \<Rightarrow> nat" where "used_size bs = extent (filter snd bs)"

text \<open>First fit, splitting the block when the rest can hold data.\<close>

primrec first_fit :: "nat \<Rightarrow> blocks \<Rightarrow> (nat \<times> blocks) option" where
  "first_fit n [] = None"
| "first_fit n (b # bs) =
     (if \<not> snd b \<and> n + 64 \<le> fst b
      then Some (0, (if n + 192 \<le> fst b then [(n + 64, True), (fst b - (n + 64), False)] else [(fst b, True)]) @ bs)
      else map_option (\<lambda>(off, bs'). (fst b + off, b # bs')) (first_fit n bs))"

text \<open>Adjacent free blocks merged.\<close>

fun coalesce :: "blocks \<Rightarrow> blocks" where
  "coalesce ((m, False) # (n, False) # bs) = coalesce ((m + n, False) # bs)"
| "coalesce (b # bs) = b # coalesce bs"
| "coalesce [] = []"

lemmas coalesce_induct = coalesce.induct [case_names merge used single keep none]

primrec first_free :: "nat \<Rightarrow> blocks \<Rightarrow> nat" where
  "first_free off [] = off"
| "first_free off (b # bs) = (if snd b then first_free (off + fst b) bs else off)"

definition no_adjacent :: "blocks \<Rightarrow> bool" where
  "no_adjacent bs \<longleftrightarrow> successively (\<lambda>a b. snd a \<or> snd b) bs"

definition sizes_ok :: "blocks \<Rightarrow> bool" where
  "sizes_ok bs \<longleftrightarrow> extent bs = 131072 \<and> (\<forall>b\<in>set bs. 128 \<le> fst b \<and> 64 dvd fst b)"

text \<open>The headers of consecutive blocks from offset \<open>off\<close>; \<open>prev\<close> is the offset of the block before.\<close>

primrec seg :: "(u32 \<rightharpoonup> mem) \<Rightarrow> u32 \<Rightarrow> nat \<Rightarrow> nat \<Rightarrow> blocks \<Rightarrow> bool" where
  "seg s r prev off [] \<longleftrightarrow> True"
| "seg s r prev off (b # bs) \<longleftrightarrow>
     s (r + of_nat off) = Some \<lparr>mem_next = of_nat (off + fst b), mem_prev = of_nat prev, mem_used = of_bool (snd b)\<rparr>
     \<and> seg s r off (off + fst b) bs"

text \<open>The heap \<open>h\<close> implements the blocks \<open>bs\<close>, all but the rule that no two free blocks are adjacent.\<close>

definition linked :: "heap \<Rightarrow> blocks \<Rightarrow> bool" where
  "linked h bs \<longleftrightarrow> seg (structs h) (ram h) 0 0 bs \<and> sizes_ok bs \<and> unat (ram h) + 131136 \<le> 2 ^ 32
     \<and> ram_end h = ram h + of_nat 131072
     \<and> (\<exists>p. structs h (ram_end h) = Some \<lparr>mem_next = of_nat 131072, mem_prev = p, mem_used = 1\<rparr>)
     \<and> lfree h = ram h + of_nat (first_free 0 bs) \<and> st_used (mem_stats h) = of_nat (used_size bs)"

definition implements :: "heap \<Rightarrow> blocks \<Rightarrow> bool" where
  "implements h bs \<longleftrightarrow> linked h bs \<and> no_adjacent bs \<and> 64 dvd unat (ram h)"


section \<open>Addresses and headers\<close>

lemma heap_constants [simp]: "MEM_SIZE_ALIGNED = 131072" "SIZEOF_STRUCT_MEM = 64" "MIN_SIZE_ALIGNED = 64"
  by (simp_all add: MEM_SIZE_ALIGNED_def SIZEOF_STRUCT_MEM_def MIN_SIZE_ALIGNED_def LWIP_MEM_ALIGN_SIZE_def MEM_ALIGNMENT_def)

lemma addr_inj [simp]: "j < 2 ^ 32 \<Longrightarrow> k < 2 ^ 32 \<Longrightarrow> (of_nat j :: u32) = of_nat k \<longleftrightarrow> j = k"
  by (metis unat_of_nat32)

lemma addr_end [simp]:
  "k < 2 ^ 32 \<Longrightarrow> (of_nat k :: u32) = 131072 \<longleftrightarrow> k = 131072" "k < 2 ^ 32 \<Longrightarrow> (131072 :: u32) = of_nat k \<longleftrightarrow> k = 131072"
  using addr_inj [of k 131072] by auto

lemma addr_less: "j < 2 ^ 32 \<Longrightarrow> k < 2 ^ 32 \<Longrightarrow> (of_nat j :: u32) < of_nat k \<longleftrightarrow> j < k"
  by (simp add: word_less_nat_alt)

lemma addr_le: "j < 2 ^ 32 \<Longrightarrow> k < 2 ^ 32 \<Longrightarrow> (of_nat j :: u32) \<le> of_nat k \<longleftrightarrow> j \<le> k"
  by (simp add: word_le_nat_alt)

lemma addr_diff: "k \<le> j \<Longrightarrow> (of_nat j :: u32) - of_nat k = of_nat (j - k)"
  by (simp add: of_nat_diff)

lemma base_less:
  "unat r + j < 2 ^ 32 \<Longrightarrow> unat r + k < 2 ^ 32 \<Longrightarrow> r + of_nat j < r + of_nat k \<longleftrightarrow> j < k" for r :: u32
  by (simp add: word_less_nat_alt unat_plus)

lemma seg_cong:
  "seg s r p off bs \<Longrightarrow> \<forall>b\<in>set bs. 0 < fst b \<Longrightarrow>
     (\<And>k. off \<le> k \<Longrightarrow> k < off + extent bs \<Longrightarrow> s' (r + of_nat k) = s (r + of_nat k)) \<Longrightarrow> seg s' r p off bs"
  by (induction bs arbitrary: p off) (simp_all del: of_nat_add)

definition last_off :: "nat \<Rightarrow> nat \<Rightarrow> blocks \<Rightarrow> nat" where
  "last_off prev off bs = (if bs = [] then prev else off + extent (butlast bs))"

lemma last_off_simps [simp]:
  "last_off p off [] = p" "last_off p off (b # bs) = last_off off (off + fst b) bs"
  by (simp_all add: last_off_def add.assoc)

lemma last_off_snoc [simp]: "last_off p off (xs @ [b]) = off + extent xs"
  by (simp add: last_off_def)

lemma seg_append:
  "seg s r p off (xs @ ys) \<longleftrightarrow> seg s r p off xs \<and> seg s r (last_off p off xs) (off + extent xs) ys"
  by (induction xs arbitrary: p off) (simp_all add: add.assoc del: of_nat_add)

lemma first_free_append:
  "first_free off (xs @ ys) = (if \<forall>b\<in>set xs. snd b then first_free (off + extent xs) ys else first_free off xs)"
  by (induction xs arbitrary: off) (auto simp: add.assoc)

lemma first_free_bound: "off \<le> first_free off bs \<and> first_free off bs \<le> off + extent bs"
proof (induction bs arbitrary: off)
  case (Cons b bs)
  have "off + fst b \<le> first_free (off + fst b) bs" "first_free (off + fst b) bs \<le> off + fst b + extent bs" using Cons by blast+
  then show ?case by (simp add: add.assoc)
qed simp

lemma first_free_pre: "\<forall>b\<in>set bs. 0 < fst b \<Longrightarrow> \<not> (\<forall>b\<in>set bs. snd b) \<Longrightarrow> first_free off bs < off + extent bs"
proof (induction bs arbitrary: off)
  case (Cons b bs)
  then show ?case using Cons.IH [of "off + fst b"] by (auto simp: add.assoc)
qed simp

lemma first_free_or:
  "\<forall>b\<in>set pre. 0 < fst b \<Longrightarrow> first_free 0 (pre @ bs) < extent pre \<or> first_free 0 (pre @ bs) = first_free (extent pre) bs"
  using first_free_pre [of pre 0] by (cases "\<forall>b\<in>set pre. snd b") (simp_all add: first_free_append)

lemma used_size_append [simp]: "used_size (xs @ ys) = used_size xs + used_size ys"
  by (simp add: used_size_def)

lemma used_size_simps [simp]: "used_size [] = 0" "used_size (b # bs) = (if snd b then fst b else 0) + used_size bs"
  by (simp_all add: used_size_def)

lemma linkedD:
  assumes "linked h (pre @ (n, u) # post)"
  shows "extent pre + n \<le> 131072" and "128 \<le> n" and "64 dvd n" and "unat (ram h) + 131136 \<le> 2 ^ 32"
    and "structs h (ram h + of_nat (extent pre))
      = Some \<lparr>mem_next = of_nat (extent pre + n), mem_prev = of_nat (last_off 0 0 pre), mem_used = of_bool u\<rparr>"
    and "\<exists>p. structs h (ram h + of_nat (extent pre + n)) = Some (case post of
        [] \<Rightarrow> \<lparr>mem_next = of_nat 131072, mem_prev = p, mem_used = 1\<rparr>
      | b # _ \<Rightarrow> \<lparr>mem_next = of_nat (extent pre + n + fst b), mem_prev = of_nat (extent pre), mem_used = of_bool (snd b)\<rparr>)"
    and "post = [] \<longleftrightarrow> extent pre + n = 131072"
proof -
  note l = assms [unfolded linked_def sizes_ok_def]
  have seg: "seg (structs h) (ram h) 0 0 (pre @ (n, u) # post)" using l by blast
  show "extent pre + n \<le> 131072" "128 \<le> n" "64 dvd n" "unat (ram h) + 131136 \<le> 2 ^ 32" using l by auto
  show head: "structs h (ram h + of_nat (extent pre))
      = Some \<lparr>mem_next = of_nat (extent pre + n), mem_prev = of_nat (last_off 0 0 pre), mem_used = of_bool u\<rparr>"
    using seg by (simp add: seg_append del: of_nat_add)
  show nil: "post = [] \<longleftrightarrow> extent pre + n = 131072"
  proof
    assume "extent pre + n = 131072"
    moreover have "extent pre + n + extent post = 131072" using l by (simp add: add.assoc)
    ultimately have "extent post = 0" by linarith
    moreover have "\<forall>b\<in>set post. 128 \<le> fst b" using l by auto
    ultimately show "post = []" by (cases post) auto
  qed (use l in simp)
  show "\<exists>p. structs h (ram h + of_nat (extent pre + n)) = Some (case post of
        [] \<Rightarrow> \<lparr>mem_next = of_nat 131072, mem_prev = p, mem_used = 1\<rparr>
      | b # _ \<Rightarrow> \<lparr>mem_next = of_nat (extent pre + n + fst b), mem_prev = of_nat (extent pre), mem_used = of_bool (snd b)\<rparr>)"
  proof (cases post)
    case Nil
    moreover have "\<exists>p. structs h (ram_end h) = Some \<lparr>mem_next = of_nat 131072, mem_prev = p, mem_used = 1\<rparr>"
      and "ram_end h = ram h + of_nat 131072" using l by blast+
    ultimately show ?thesis using nil by (simp del: of_nat_add)
  next
    case (Cons b bs)
    then show ?thesis using seg by (simp add: seg_append del: of_nat_add)
  qed
qed

lemma linked_pos: "linked h bs \<Longrightarrow> b \<in> set bs \<Longrightarrow> 0 < fst b"
  by (meson less_le_trans linked_def sizes_ok_def zero_less_numeral)

text \<open>Replacing consecutive blocks by others of the same extent.\<close>

lemma linked_replace:
  assumes l: "linked h (pre @ mid @ post)" and ne: "mid' \<noteq> []"
    and same: "ram h' = ram h" "ram_end h' = ram_end h"
    and agree: "\<And>k. k \<le> 131072 \<Longrightarrow> k < extent pre \<or> extent (pre @ mid) < k \<Longrightarrow> structs h' (ram h + of_nat k) = structs h (ram h + of_nat k)"
    and seg: "seg (structs h') (ram h) (last_off 0 0 pre) (extent pre) mid'"
    and ext: "extent mid' = extent mid" "\<forall>b\<in>set mid'. 128 \<le> fst b \<and> 64 dvd fst b"
    and link: "structs h' (ram h + of_nat (extent (pre @ mid))) = map_option (\<lambda>m. m\<lparr>mem_prev := q\<rparr>) (structs h (ram h + of_nat (extent (pre @ mid))))"
    and q: "extent (pre @ mid) < 131072 \<Longrightarrow> q = of_nat (last_off 0 (extent pre) mid')"
    and free: "lfree h' = ram h + of_nat (first_free 0 (pre @ mid' @ post))"
    and used: "st_used (mem_stats h') = of_nat (used_size (pre @ mid' @ post))"
  shows "linked h' (pre @ mid' @ post)"
proof -
  note l' = l [unfolded linked_def sizes_ok_def]
  have sum: "extent pre + extent mid + extent post = 131072" using l' by (simp add: add.assoc)
  have pos: "\<forall>b\<in>set (pre @ mid @ post). 0 < fst b" using l' by (meson less_le_trans zero_less_numeral)
  have s: "seg (structs h) (ram h) 0 0 (pre @ mid @ post)" using l' by blast
  have "seg (structs h') (ram h) 0 0 pre"
    by (rule seg_cong [of "structs h"]) (use s pos agree sum in \<open>auto simp: seg_append\<close>)
  moreover have "seg (structs h') (ram h) (last_off 0 (extent pre) mid') (extent (pre @ mid)) post"
  proof (cases post)
    case (Cons b bs)
    then have "0 < fst b" using pos by simp
    then have lt: "extent (pre @ mid) < 131072" using sum Cons by simp
    have sb: "seg (structs h) (ram h) (last_off (last_off 0 0 pre) (extent pre) mid) (extent (pre @ mid)) (b # bs)"
      using s Cons by (simp add: seg_append)
    have "seg (structs h') (ram h) (extent (pre @ mid)) (extent (pre @ mid) + fst b) bs"
      by (rule seg_cong [of "structs h"]) (use sb pos Cons agree sum \<open>0 < fst b\<close> in \<open>auto simp del: of_nat_add\<close>)
    moreover have "structs h' (ram h + of_nat (extent (pre @ mid)))
        = Some \<lparr>mem_next = of_nat (extent (pre @ mid) + fst b), mem_prev = of_nat (last_off 0 (extent pre) mid'), mem_used = of_bool (snd b)\<rparr>"
      using link q [OF lt] sb by (simp del: of_nat_add)
    ultimately show ?thesis using Cons by simp
  qed simp
  moreover have "last_off 0 (extent pre) mid' = last_off (last_off 0 0 pre) (extent pre) mid'"
    using ne by (simp add: last_off_def)
  ultimately have "seg (structs h') (ram h) 0 0 (pre @ mid' @ post)" using seg ext by (simp add: seg_append)
  moreover have "sizes_ok (pre @ mid' @ post)" using l' ext by (auto simp: sizes_ok_def)
  moreover have "\<exists>p. structs h' (ram_end h) = Some \<lparr>mem_next = of_nat 131072, mem_prev = p, mem_used = 1\<rparr>"
  proof (cases "extent (pre @ mid) = 131072")
    case True
    then show ?thesis using link l' by auto
  next
    case False
    then have "extent (pre @ mid) < 131072" using sum by simp
    then show ?thesis using agree [of 131072] l' by auto
  qed
  ultimately show ?thesis using l' same free used by (simp add: linked_def)
qed


section \<open>Freeing\<close>

text \<open>The pointer handed out for a block.\<close>

lemma user_pointer:
  assumes l: "linked h (pre @ (n, u) # post)"
  shows "ram h + of_nat (extent pre + 64) - 64 = ram h + of_nat (extent pre)" "ram h + of_nat (extent pre) - ram h = of_nat (extent pre)"
    "ram h + of_nat (extent pre + 64) \<noteq> 0" "\<not> ram h + of_nat (extent pre + 64) < ram h"
    "\<not> ram_end h \<le> ram h + of_nat (extent pre + 64)"
proof -
  note d = linkedD [OF l]
  have "unat (ram h) + (extent pre + 64) < 2 ^ 32" using d(1,2,4) by simp
  then have "unat (ram h + of_nat (extent pre + 64)) = unat (ram h) + (extent pre + 64)"
    by (subst unat_plus) (simp_all del: of_nat_add)
  then show "ram h + of_nat (extent pre + 64) \<noteq> 0" "\<not> ram h + of_nat (extent pre + 64) < ram h"
    by (auto simp: word_less_nat_alt simp del: of_nat_add)
  have "ram h + of_nat (extent pre + 64) < ram h + of_nat 131072" by (subst base_less) (use d(1,2,4) in simp_all)
  then show "\<not> ram_end h \<le> ram h + of_nat (extent pre + 64)" using l by (simp add: linked_def del: of_nat_add)
qed simp_all

lemmas heap_ops = get_mem_def put_mem_def upd_mem_def modify_def stats_def bnd_def ret_def

text \<open>Two free blocks in a row become one by a new link over the second.\<close>

lemma merge_linked:
  assumes l: "linked h (pre @ (n, False) # (m, False) # bs)"
  obtains M where "structs h (ram h + of_nat (extent pre + n + m)) = Some M"
    and "ram h + of_nat (extent pre) \<noteq> ram h + of_nat (extent pre + n)"
    and "ram h + of_nat (extent pre + n + m) \<noteq> ram h + of_nat (extent pre)"
    and "ram h + of_nat (extent pre + n) \<noteq> ram_end h"
    and "lfree h \<noteq> ram h + of_nat (extent pre + n)"
    and "structs h (ram h + of_nat (extent pre + n))
      = Some \<lparr>mem_next = of_nat (extent pre + n + m), mem_prev = of_nat (extent pre), mem_used = 0\<rparr>"
    and "linked (h\<lparr>structs := (structs h)
        (ram h + of_nat (extent pre) \<mapsto> \<lparr>mem_next = of_nat (extent pre + n + m), mem_prev = of_nat (last_off 0 0 pre), mem_used = 0\<rparr>,
         ram h + of_nat (extent pre + n + m) \<mapsto> M\<lparr>mem_prev := of_nat (extent pre)\<rparr>)\<rparr>) (pre @ (n + m, False) # bs)"
proof -
  let ?t = "extent pre" and ?r = "ram h"
  note d = linkedD [OF l]
  have l2: "linked h ((pre @ [(n, False)]) @ (m, False) # bs)" using l by simp
  note d2 = linkedD [OF l2, simplified sum_list_append list.map map_append sum_list.Cons sum_list.Nil fst_conv add_0_right]
  have sum: "?t + n + m \<le> 131072" "128 \<le> m" "64 dvd m" using d2(1-3) by auto
  have lt: "?t < 2 ^ 32" "?t + n < 2 ^ 32" "?t + n + m < 2 ^ 32" using sum(1) by simp_all
  have free: "lfree h = ?r + of_nat (first_free 0 (pre @ [(n, False), (m, False)] @ bs))"
    using l by (simp add: linked_def)
  have bound: "first_free 0 (pre @ [(n, False), (m, False)] @ bs) \<le> ?t"
    using first_free_bound [of 0 pre] by (simp add: first_free_append)
  have nl: "lfree h \<noteq> ?r + of_nat (?t + n)" using bound d(2) lt by (simp add: free del: of_nat_add)
  obtain M where M: "structs h (?r + of_nat (?t + n + m)) = Some M" using d2(6) by blast
  have ne: "?r + of_nat ?t \<noteq> ?r + of_nat (?t + n)" "?r + of_nat (?t + n + m) \<noteq> ?r + of_nat ?t"
    using d(2) lt by (simp_all del: of_nat_add)
  have not_end: "?r + of_nat (?t + n) \<noteq> ram_end h"
    using l sum lt by (simp add: linked_def del: of_nat_add of_nat_numeral)
  let ?s = "(structs h)(?r + of_nat ?t \<mapsto> \<lparr>mem_next = of_nat (?t + n + m), mem_prev = of_nat (last_off 0 0 pre), mem_used = 0\<rparr>,
    ?r + of_nat (?t + n + m) \<mapsto> M\<lparr>mem_prev := of_nat ?t\<rparr>)"
  have "linked (h\<lparr>structs := ?s\<rparr>) (pre @ [(n + m, False)] @ bs)"
  proof (rule linked_replace [where mid = "[(n, False), (m, False)]" and q = "of_nat ?t"])
    show "linked h (pre @ [(n, False), (m, False)] @ bs)" using l by simp
    show "lfree (h\<lparr>structs := ?s\<rparr>) = ?r + of_nat (first_free 0 (pre @ [(n + m, False)] @ bs))"
      using free by (simp add: first_free_append)
    show "st_used (mem_stats (h\<lparr>structs := ?s\<rparr>)) = of_nat (used_size (pre @ [(n + m, False)] @ bs))"
      using l by (simp add: linked_def)
    fix k assume "k \<le> 131072" "k < extent pre \<or> extent (pre @ [(n, False), (m, False)]) < k"
    then show "structs (h\<lparr>structs := ?s\<rparr>) (ram h + of_nat k) = structs h (ram h + of_nat k)"
      using lt by (auto simp: add.assoc simp del: of_nat_add)
  qed (use M ne sum d(2,3) in \<open>simp_all add: add.assoc [symmetric] del: of_nat_add\<close>)
  then show thesis using M ne not_end nl d2(5) by (intro that) simp_all
qed

definition forward :: "nat \<Rightarrow> blocks \<Rightarrow> blocks" where
  "forward n post = (case post of (m, False) # bs \<Rightarrow> (n + m, False) # bs | _ \<Rightarrow> (n, False) # post)"

lemma plug_forward_linked:
  assumes l: "linked h (pre @ (n, False) # post)"
  shows "\<exists>h'. plug_forward (ram h + of_nat (extent pre)) h = ret () h' \<and> ram h' = ram h \<and> linked h' (pre @ forward n post)"
proof (cases "\<exists>m bs. post = (m, False) # bs")
  case True
  then obtain m bs where post: "post = (m, False) # bs" by blast
  obtain M where M: "structs h (ram h + of_nat (extent pre + n + m)) = Some M"
      "ram h + of_nat (extent pre) \<noteq> ram h + of_nat (extent pre + n)"
      "ram h + of_nat (extent pre + n + m) \<noteq> ram h + of_nat (extent pre)"
      "ram h + of_nat (extent pre + n) \<noteq> ram_end h" "lfree h \<noteq> ram h + of_nat (extent pre + n)"
      "structs h (ram h + of_nat (extent pre + n))
        = Some \<lparr>mem_next = of_nat (extent pre + n + m), mem_prev = of_nat (extent pre), mem_used = 0\<rparr>"
    and linked: "linked (h\<lparr>structs := (structs h)
        (ram h + of_nat (extent pre) \<mapsto> \<lparr>mem_next = of_nat (extent pre + n + m), mem_prev = of_nat (last_off 0 0 pre), mem_used = 0\<rparr>,
         ram h + of_nat (extent pre + n + m) \<mapsto> M\<lparr>mem_prev := of_nat (extent pre)\<rparr>)\<rparr>) (pre @ (n + m, False) # bs)"
    using merge_linked [of h pre n m bs] l post by blast
  have "plug_forward (ram h + of_nat (extent pre)) h = ret () (h\<lparr>structs := (structs h)
        (ram h + of_nat (extent pre) \<mapsto> \<lparr>mem_next = of_nat (extent pre + n + m), mem_prev = of_nat (last_off 0 0 pre), mem_used = 0\<rparr>,
         ram h + of_nat (extent pre + n + m) \<mapsto> M\<lparr>mem_prev := of_nat (extent pre)\<rparr>)\<rparr>)"
    using linkedD(5) [OF l] M by (simp add: plug_forward_def heap_ops post Let_def del: of_nat_add)
  then show ?thesis using linked by (auto simp: forward_def post)
next
  case False
  then have "forward n post = (n, False) # post"
    by (auto simp: forward_def split: list.splits bool.splits)
  moreover from False obtain M where "structs h (ram h + of_nat (extent pre + n)) = Some M" "mem_used M = 1"
    using linkedD(6) [OF l] by (cases post) auto
  ultimately show ?thesis using linkedD(5) [OF l] l by (simp add: plug_forward_def heap_ops Let_def del: of_nat_add)
qed

lemma plug_backward_merges:
  assumes l: "linked h (pre @ (m, False) # (n, False) # post)"
  shows "\<exists>h'. plug_backward (ram h + of_nat (extent pre + m)) h = ret () h' \<and> ram h' = ram h \<and> linked h' (pre @ (m + n, False) # post)"
proof -
  obtain M where M: "structs h (ram h + of_nat (extent pre + m + n)) = Some M"
      "ram h + of_nat (extent pre) \<noteq> ram h + of_nat (extent pre + m)"
      "ram h + of_nat (extent pre + m + n) \<noteq> ram h + of_nat (extent pre)"
      "ram h + of_nat (extent pre + m) \<noteq> ram_end h" "lfree h \<noteq> ram h + of_nat (extent pre + m)"
      "structs h (ram h + of_nat (extent pre + m))
        = Some \<lparr>mem_next = of_nat (extent pre + m + n), mem_prev = of_nat (extent pre), mem_used = 0\<rparr>"
    and linked: "linked (h\<lparr>structs := (structs h)
        (ram h + of_nat (extent pre) \<mapsto> \<lparr>mem_next = of_nat (extent pre + m + n), mem_prev = of_nat (last_off 0 0 pre), mem_used = 0\<rparr>,
         ram h + of_nat (extent pre + m + n) \<mapsto> M\<lparr>mem_prev := of_nat (extent pre)\<rparr>)\<rparr>) (pre @ (m + n, False) # post)"
    by (rule merge_linked [OF l])
  have "plug_backward (ram h + of_nat (extent pre + m)) h = ret () (h\<lparr>structs := (structs h)
        (ram h + of_nat (extent pre) \<mapsto> \<lparr>mem_next = of_nat (extent pre + m + n), mem_prev = of_nat (last_off 0 0 pre), mem_used = 0\<rparr>,
         ram h + of_nat (extent pre + m + n) \<mapsto> M\<lparr>mem_prev := of_nat (extent pre)\<rparr>)\<rparr>)"
    using linkedD(5) [OF l] M by (simp add: plug_backward_def heap_ops Let_def del: of_nat_add)
  then show ?thesis using linked by auto
qed

lemma plug_backward_stays:
  assumes l: "linked h (pre @ (n, False) # post)" and pre: "pre = [] \<or> snd (last pre)"
  shows "plug_backward (ram h + of_nat (extent pre)) h = ret () h"
proof (cases pre rule: rev_cases)
  case Nil
  then show ?thesis using linkedD(5) [OF l] by (simp add: plug_backward_def heap_ops Let_def del: of_nat_add)
next
  case (snoc pre' b)
  then have "linked h (pre' @ (fst b, True) # (n, False) # post)" using l pre by (cases b) auto
  then show ?thesis using linkedD(5) [OF l] linkedD(5) [of h pre' "fst b" True] snoc
    by (simp add: plug_backward_def heap_ops Let_def last_off_def butlast_append del: of_nat_add)
qed

text \<open>Merging all adjacent free blocks, when only the given block may have free neighbours.\<close>

lemma no_adjacent_simps [simp]:
  "no_adjacent []" "no_adjacent [b]" "no_adjacent (a # b # bs) \<longleftrightarrow> (snd a \<or> snd b) \<and> no_adjacent (b # bs)"
  by (auto simp: no_adjacent_def)

lemma no_adjacent_tl: "no_adjacent (b # bs) \<Longrightarrow> no_adjacent bs" by (cases bs) auto

lemma coalesce_id: "no_adjacent bs \<Longrightarrow> coalesce bs = bs"
  by (induction bs rule: coalesce.induct) (auto dest: no_adjacent_tl)

lemma coalesce_used: "snd b \<Longrightarrow> coalesce (xs @ b # ys) = coalesce xs @ b # coalesce ys"
proof (induction xs rule: coalesce_induct)
  case (single m)
  then show ?case by (cases b) auto
qed (cases b; auto)+


lemma coalesce_prefix: "no_adjacent pre \<Longrightarrow> pre = [] \<or> snd (last pre) \<Longrightarrow> coalesce (pre @ ys) = pre @ coalesce ys"
proof (cases pre rule: rev_cases)
  case (snoc xs b)
  assume "no_adjacent pre" "pre = [] \<or> snd (last pre)"
  moreover from this have "no_adjacent xs" using snoc by (simp add: no_adjacent_def successively_append_iff)
  ultimately show ?thesis using snoc coalesce_used [of b xs ys] by (simp add: coalesce_id)
qed simp

lemma coalesce_forward: "no_adjacent post \<Longrightarrow> coalesce ((n, False) # post) = forward n post"
proof -
  assume post: "no_adjacent post"
  consider "post = []" | m bs where "post = (m, True) # bs" | m bs where "post = (m, False) # bs"
    by (metis list.exhaust prod.exhaust)
  then show ?thesis
  proof cases
    case 3
    then have "no_adjacent ((n + m, False) # bs)" using post by (cases bs) auto
    then show ?thesis using 3 by (simp add: forward_def coalesce_id)
  next
    case 2
    then show ?thesis using post coalesce_id [of post] by (simp add: forward_def)
  qed (simp add: forward_def)
qed

lemma no_adjacent_coalesce: "no_adjacent (coalesce bs)"
proof -
  have "coalesce bs = [] \<longleftrightarrow> bs = []" for bs by (induction bs rule: coalesce.induct) auto
  moreover have "bs \<noteq> [] \<Longrightarrow> snd (hd bs) \<Longrightarrow> snd (hd (coalesce bs))" for bs
    by (induction bs rule: coalesce.induct) auto
  ultimately show ?thesis
  proof (induction bs rule: coalesce_induct)
    case (used m bs)
    then show ?case by (cases "coalesce bs") auto
  next
    case (keep b m bs)
    then show ?case by (cases "coalesce ((m, True) # bs)") force+
  qed auto
qed

lemma no_adjacent_append:
  "no_adjacent (xs @ ys) \<longleftrightarrow> no_adjacent xs \<and> no_adjacent ys \<and> (xs = [] \<or> ys = [] \<or> snd (last xs) \<or> snd (hd ys))"
  by (auto simp: no_adjacent_def successively_append_iff)

lemma plug_holes_linked:
  assumes l: "linked h (pre @ (n, False) # post)" and ok: "no_adjacent pre" "no_adjacent post"
  shows "\<exists>h'. plug_holes (ram h + of_nat (extent pre)) h = ret () h' \<and> ram h' = ram h
    \<and> linked h' (coalesce (pre @ (n, False) # post))"
proof -
  obtain h1 where h1: "plug_forward (ram h + of_nat (extent pre)) h = ret () h1" "ram h1 = ram h" "linked h1 (pre @ forward n post)"
    using plug_forward_linked [OF l] by blast
  have "\<exists>n' post'. forward n post = (n', False) # post'"
    by (auto simp: forward_def split: list.splits bool.splits)
  then obtain n' post' where fwd: "forward n post = (n', False) # post'" by blast
  have plug: "plug_holes a h = plug_backward a h1" if "plug_forward a h = ret () h1" for a
    using that by (simp add: plug_holes_def bnd_def ret_def split: option.splits sum.splits)
  show ?thesis
  proof (cases "pre = [] \<or> snd (last pre)")
    case True
    then show ?thesis using plug [OF h1(1)] h1 fwd plug_backward_stays [of h1 pre n' post']
      by (auto simp: coalesce_prefix ok coalesce_forward)
  next
    case False
    then obtain pre' m where pre: "pre = pre' @ [(m, False)]" by (metis append_butlast_last_id prod.collapse)
    have "linked h1 (pre' @ (m, False) # (n', False) # post')" using h1(3) fwd pre by simp
    from plug_backward_merges [OF this] obtain h2 where h2:
      "plug_backward (ram h + of_nat (extent pre)) h1 = ret () h2" "ram h2 = ram h" "linked h2 (pre' @ (m + n', False) # post')"
      using h1(2) pre by auto
    have "no_adjacent pre'" "pre' = [] \<or> snd (last pre')" using ok(1) pre by (auto simp: no_adjacent_append)
    then have "coalesce (pre @ (n, False) # post) = pre' @ coalesce ((m + n, False) # post)" by (simp add: pre coalesce_prefix)
    also have "coalesce ((m + n, False) # post) = (m + n', False) # post'"
      using fwd ok(2) by (auto simp: coalesce_forward forward_def split: list.splits bool.splits)
    finally show ?thesis using h2 plug [OF h1(1)] by auto
  qed
qed

lemma mem_free_implements:
  assumes h: "implements h (pre @ (n, True) # post)"
  shows "\<exists>h'. mem_free (ram h + of_nat (extent pre + 64)) h = ret () h' \<and> ram h' = ram h
    \<and> implements h' (coalesce (pre @ (n, False) # post))"
proof -
  let ?t = "extent pre" and ?r = "ram h"
  have l: "linked h (pre @ [(n, True)] @ post)" using h by (simp add: implements_def)
  note d = linkedD [of h pre n True post, OF l [simplified]]
  obtain M where M: "structs h (?r + of_nat (?t + n)) = Some M" "?t + n < 131072 \<Longrightarrow> mem_prev M = of_nat ?t"
    using d(6,7) by (cases post) auto
  have lt: "?t < 2 ^ 32" "?t + n < 2 ^ 32" "unat ?r + (?t + 64) < 2 ^ 32" using d(1,2,4) by simp_all
  let ?h = "h\<lparr>structs := (structs h)(?r + of_nat ?t \<mapsto> \<lparr>mem_next = of_nat (?t + n), mem_prev = of_nat (last_off 0 0 pre), mem_used = 0\<rparr>),
      lfree := if ?r + of_nat ?t < lfree h then ?r + of_nat ?t else lfree h,
      mem_stats := dec_used (of_nat n) (mem_stats h)\<rparr>"
  have free: "lfree h = ?r + of_nat (first_free 0 (pre @ (n, True) # post))" using l by (simp add: linked_def)
  have fb: "first_free 0 (pre @ (n, True) # post) \<le> 131072"
    using first_free_bound [of 0 "pre @ (n, True) # post"] l by (simp add: linked_def sizes_ok_def)
  have "linked ?h (pre @ [(n, False)] @ post)"
  proof (rule linked_replace [where mid = "[(n, True)]" and q = "mem_prev M"])
    show "linked h (pre @ [(n, True)] @ post)" by (rule l)
    have "?r + of_nat ?t < lfree h \<longleftrightarrow> ?t < first_free 0 (pre @ (n, True) # post)"
      unfolding free by (rule base_less) (use d(1,4) fb in simp_all)
    moreover have "first_free 0 (pre @ (n, True) # post) \<le> ?t \<and> first_free 0 (pre @ [(n, False)] @ post) = first_free 0 (pre @ (n, True) # post)
        \<or> ?t < first_free 0 (pre @ (n, True) # post) \<and> first_free 0 (pre @ [(n, False)] @ post) = ?t"
      using first_free_bound [of 0 pre] first_free_bound [of "?t + n" post] d(2) by (auto simp: first_free_append)
    ultimately show "lfree ?h = ?r + of_nat (first_free 0 (pre @ [(n, False)] @ post))" using free by auto
    show "st_used (mem_stats ?h) = of_nat (used_size (pre @ [(n, False)] @ post))"
      using l by (simp add: linked_def dec_used_def)
    fix k assume "k \<le> 131072" "k < extent pre \<or> extent (pre @ [(n, True)]) < k"
    then show "structs ?h (ram h + of_nat k) = structs h (ram h + of_nat k)"
      using lt by (auto simp del: of_nat_add)
  qed (use M d(1-3) lt in \<open>simp_all del: of_nat_add\<close>)
  moreover have "no_adjacent pre" "no_adjacent post" using h by (auto simp: implements_def no_adjacent_append dest: no_adjacent_tl)
  ultimately obtain h' where h': "plug_holes (?r + of_nat ?t) ?h = ret () h'" "ram h' = ?r" "linked h' (coalesce (pre @ (n, False) # post))"
    using plug_holes_linked [of ?h pre n post] by auto
  note ptr = user_pointer [OF l [simplified]]
  have "of_nat (?t + n) - of_nat ?t = (of_nat n :: u32)" by simp
  then have "mem_free (?r + of_nat (?t + 64)) h = plug_holes (?r + of_nat ?t) ?h"
    unfolding mem_free_def heap_constants ptr(1) using d(5) ptr
    by (simp add: heap_ops Let_def del: of_nat_add split: option.splits sum.splits)
  with h'(1) have "mem_free (?r + of_nat (?t + 64)) h = ret () h'" by simp
  then show ?thesis using h' h no_adjacent_coalesce by (auto simp: implements_def)
qed


section \<open>Allocation\<close>

lemma next_free_seg:
  "seg (structs h) (ram h) p off bs \<Longrightarrow> \<forall>b\<in>set bs. 0 < fst b \<Longrightarrow> off + extent bs < 2 ^ 32 \<Longrightarrow>
     lfree h = ram h + of_nat off \<Longrightarrow> ram_end h = ram h + of_nat (off + extent bs) \<Longrightarrow> structs h (ram_end h) \<noteq> None \<Longrightarrow>
     next_free h = ret () (h\<lparr>lfree := ram h + of_nat (first_free off bs)\<rparr>)"
proof (induction bs arbitrary: h p off)
  case Nil
  then show ?case by (subst next_free.simps) (auto simp: ret_def)
next
  case (Cons b bs)
  have ne: "ram h + of_nat off \<noteq> ram_end h" using Cons.prems by (simp del: of_nat_add)
  let ?h = "h\<lparr>lfree := ram h + of_nat (off + fst b)\<rparr>"
  have "next_free ?h = ret () (?h\<lparr>lfree := ram h + of_nat (first_free (off + fst b) bs)\<rparr>)" if "snd b"
    using Cons.IH [of ?h off "off + fst b"] Cons.prems by (simp add: add.assoc del: of_nat_add)
  then show ?case using Cons.prems ne by (subst next_free.simps) (simp add: ret_def del: of_nat_add)
qed

lemma first_fit_split:
  "first_fit n bs = Some (off, bs') \<Longrightarrow> \<exists>pre m post. bs = pre @ (m, False) # post \<and> off = extent pre \<and> n + 64 \<le> m
     \<and> bs' = pre @ (if n + 192 \<le> m then [(n + 64, True), (m - (n + 64), False)] else [(m, True)]) @ post"
proof (induction bs arbitrary: off bs')
  case (Cons b bs)
  show ?case
  proof (cases "\<not> snd b \<and> n + 64 \<le> fst b")
    case True
    then show ?thesis using Cons.prems by (intro exI [of _ "[]"] exI [of _ "fst b"] exI [of _ bs]) (cases b; auto)
  next
    case False
    then obtain off1 bs1 where 1: "first_fit n bs = Some (off1, bs1)" "off = fst b + off1" "bs' = b # bs1"
      using Cons.prems by (auto split: if_splits)
    obtain pre m post where "bs = pre @ (m, False) # post" "off1 = extent pre" "n + 64 \<le> m"
        "bs1 = pre @ (if n + 192 \<le> m then [(n + 64, True), (m - (n + 64), False)] else [(m, True)]) @ post"
      using Cons.IH [OF 1(1)] by blast
    then show ?thesis using 1 by (intro exI [of _ "b # pre"] exI [of _ m] exI [of _ post]) simp
  qed
qed simp

lemma first_fit_None: "extent bs < n + 64 \<Longrightarrow> first_fit n bs = None"
  by (induction bs) auto

lemma first_fit_used: "\<forall>b\<in>set pre. snd b \<Longrightarrow>
    first_fit n (pre @ bs) = map_option (\<lambda>(off, bs'). (extent pre + off, pre @ bs')) (first_fit n bs)"
proof (induction pre)
  case Nil
  show ?case by (cases "first_fit n bs") auto
next
  case (Cons b pre)
  then show ?case by (cases "first_fit n bs") auto
qed

text \<open>The test of a header at offset \<open>t\<close>: are \<open>n\<close> octets behind it?\<close>

lemma user_le:
  assumes "t + m \<le> 131072" "128 \<le> m" "n < 2 ^ 32"
  shows "of_nat n \<le> (of_nat (t + m) :: u32) - (of_nat t + 64) \<longleftrightarrow> n + 64 \<le> m"
proof -
  have "(of_nat (t + m) :: u32) - (of_nat t + 64) = of_nat (t + m) - of_nat (t + 64)" by simp
  also have "\<dots> = of_nat (m - 64)" using assms(2) by (subst addr_diff) simp_all
  finally have eq: "(of_nat (t + m) :: u32) - (of_nat t + 64) = of_nat (m - 64)" .
  have "of_nat n \<le> (of_nat (m - 64) :: u32) \<longleftrightarrow> n \<le> m - 64" by (rule addr_le) (use assms in simp_all)
  then show ?thesis unfolding eq using assms(2) by auto
qed

lemma search_first_fit:
  assumes n: "n \<le> 131072"
  shows "linked h (pre @ bs) \<Longrightarrow> search (of_nat n) (of_nat (extent pre)) h = (case first_fit n bs of
      None \<Rightarrow> bnd (stats inc_err) (\<lambda>_. ret 0) h
    | Some (off, _) \<Rightarrow> take_block (of_nat n) (of_nat (extent pre + off)) h)"
proof (induction bs arbitrary: pre)
  case Nil
  then have "extent pre = 131072" by (simp add: linked_def sizes_ok_def)
  moreover have "(131072 :: u32) - of_nat n = of_nat (131072 - n)" using n by (simp add: of_nat_diff)
  moreover have "\<not> of_nat 131072 < (of_nat (131072 - n) :: u32)" by (subst addr_less) simp_all
  ultimately show ?case by (subst search.simps) simp
next
  case (Cons b bs)
  obtain m u where b: "b = (m, u)" by (cases b)
  note d = linkedD [OF Cons.prems [unfolded b]]
  have ext: "extent pre + extent (b # bs) = 131072" using Cons.prems by (simp add: linked_def sizes_ok_def)
  have "(131072 :: u32) - of_nat n = of_nat (131072 - n)" using n by (simp add: of_nat_diff)
  then have test: "of_nat (extent pre) < (131072 :: u32) - of_nat n \<longleftrightarrow> extent pre < 131072 - n"
    using d(1) by (simp only:) (subst addr_less; simp)
  note fits = user_le [OF d(1,2), of n]
  show ?case
  proof (cases "extent pre < 131072 - n")
    case False
    then have "first_fit n (b # bs) = None" using ext by (intro first_fit_None) simp
    then show ?thesis using False test by (subst search.simps) (simp del: first_fit.simps)
  next
    case True
    have "search (of_nat n) (of_nat (extent pre + m)) h = (case first_fit n bs of
        None \<Rightarrow> bnd (stats inc_err) (\<lambda>_. ret 0) h
      | Some (off, _) \<Rightarrow> take_block (of_nat n) (of_nat (extent pre + m + off)) h)"
      using Cons.IH [of "pre @ [b]"] Cons.prems b by (simp del: of_nat_add cong: option.case_cong)
    then show ?thesis using True test fits n d(5) b
      by (subst search.simps) (auto simp: add.assoc simp del: of_nat_add split: option.split)
  qed
qed


lemma heap_runs:
  "structs h a = Some m \<Longrightarrow> bnd (get_mem a) f' h = f' m h"
  "bnd (put_mem a m) f h = f () (h\<lparr>structs := (structs h)(a \<mapsto> m)\<rparr>)"
  "structs h a = Some m \<Longrightarrow> bnd (upd_mem a g) f h = f () (h\<lparr>structs := (structs h)(a \<mapsto> g m)\<rparr>)"
  "bnd (modify k) f h = f () (k h)"
  "bnd (stats j) f h = f () (h\<lparr>mem_stats := j (mem_stats h)\<rparr>)"
  "i \<noteq> 131072 \<Longrightarrow> structs h (ram h + i) = Some m \<Longrightarrow>
     bnd (link_back i p) f h = f () (h\<lparr>structs := (structs h)(ram h + i \<mapsto> m\<lparr>mem_prev := p\<rparr>)\<rparr>)"
  "bnd (link_back 131072 p) f h = f () h"
  by (simp_all add: heap_ops link_back_def)

lemma take_block_linked:
  assumes l: "linked h (pre @ (m, False) # post)" and n: "64 \<le> n" "64 dvd n" "n + 64 \<le> m"
  shows "\<exists>h'. take_block (of_nat n) (of_nat (extent pre)) h = ret (ram h + of_nat (extent pre + 64)) h' \<and> ram h' = ram h
    \<and> linked h' (pre @ (if n + 192 \<le> m then [(n + 64, True), (m - (n + 64), False)] else [(m, True)]) @ post)"
proof -
  let ?t = "extent pre" and ?r = "ram h"
  let ?mid = "if n + 192 \<le> m then [(n + 64, True), (m - (n + 64), False)] else [(m, True)]"
  note d = linkedD [OF l]
  have l': "linked h (pre @ [(m, False)] @ post)" using l by simp
  obtain M where M: "structs h (?r + of_nat (?t + m)) = Some M" "?t + m < 131072 \<Longrightarrow> mem_prev M = of_nat ?t"
    using d(6,7) by (cases post) auto
  have lt: "?t < 2 ^ 32" "?t + m < 2 ^ 32" "?t + (n + 64) < 2 ^ 32" using d(1) n by simp_all
  define s where "s = (if n + 192 \<le> m
    then (if ?t + m = 131072 then id else (\<lambda>s. s(?r + of_nat (?t + m) \<mapsto> M\<lparr>mem_prev := of_nat (?t + (n + 64))\<rparr>)))
      ((structs h)(?r + of_nat (?t + (n + 64)) \<mapsto> \<lparr>mem_next = of_nat (?t + m), mem_prev = of_nat ?t, mem_used = 0\<rparr>,
       ?r + of_nat ?t \<mapsto> \<lparr>mem_next = of_nat (?t + (n + 64)), mem_prev = of_nat (last_off 0 0 pre), mem_used = 1\<rparr>))
    else (structs h)(?r + of_nat ?t \<mapsto> \<lparr>mem_next = of_nat (?t + m), mem_prev = of_nat (last_off 0 0 pre), mem_used = 1\<rparr>))"
  define st where "st = inc_used (of_nat (if n + 192 \<le> m then n + 64 else m)) (mem_stats h)"
  let ?h = "h\<lparr>structs := s, mem_stats := st\<rparr>" and ?f = "?r + of_nat (first_free 0 (pre @ ?mid @ post))"
  have linked: "linked (?h\<lparr>lfree := ?f\<rparr>) (pre @ ?mid @ post)"
  proof (rule linked_replace [OF l', where q = "if ?t + m < 131072 then of_nat (last_off 0 ?t ?mid) else mem_prev M"])
    show "st_used (mem_stats (?h\<lparr>lfree := ?f\<rparr>)) = of_nat (used_size (pre @ ?mid @ post))"
      using l by (simp add: st_def linked_def inc_used_def Let_def)
    show "seg (structs (?h\<lparr>lfree := ?f\<rparr>)) ?r (last_off 0 0 pre) ?t ?mid"
      using lt n d(1,2) by (simp add: s_def del: of_nat_add)
    show "\<forall>b\<in>set ?mid. 128 \<le> fst b \<and> 64 dvd fst b" using n d(2,3) by (auto intro: dvd_diff_nat)
    show "structs (?h\<lparr>lfree := ?f\<rparr>) (?r + of_nat (extent (pre @ [(m, False)]))) = map_option
        (\<lambda>k. k\<lparr>mem_prev := if ?t + m < 131072 then of_nat (last_off 0 ?t ?mid) else mem_prev M\<rparr>) (structs h (?r + of_nat (extent (pre @ [(m, False)]))))"
      using M lt n d(1) by (auto simp: s_def simp del: of_nat_add)
    fix k assume "k \<le> 131072" "k < extent pre \<or> extent (pre @ [(m, False)]) < k"
    then show "structs (?h\<lparr>lfree := ?f\<rparr>) (ram h + of_nat k) = structs h (ram h + of_nat k)"
      using lt n by (auto simp: s_def simp del: of_nat_add)
  qed (use n in simp_all)
  have free: "lfree h = ?r + of_nat (first_free 0 (pre @ (m, False) # post))" using l by (simp add: linked_def)
  have search: "(if ?r + of_nat ?t = lfree h then next_free else ret ()) ?h = ret () (?h\<lparr>lfree := ?f\<rparr>)"
  proof (cases "\<forall>b\<in>set pre. snd b")
    case True
    then have at: "lfree h = ?r + of_nat ?t" by (simp add: free first_free_append)
    moreover have "next_free ?h = ret () (?h\<lparr>lfree := ram ?h + of_nat (first_free ?t (?mid @ post))\<rparr>)"
    proof (rule next_free_seg)
      have "seg s ?r 0 0 (pre @ ?mid @ post)" and sizes: "sizes_ok (pre @ ?mid @ post)"
        and e: "ram_end h = ?r + of_nat 131072" "\<exists>p. s (ram_end h) = Some p" using linked by (auto simp: linked_def)
      then show "seg (structs ?h) (ram ?h) (last_off 0 0 pre) ?t (?mid @ post)" by (simp only: seg_append) simp
      have ext: "?t + extent (?mid @ post) = 131072" using sizes by (simp only: sizes_ok_def sum_list_append map_append)
      then show "?t + extent (?mid @ post) < 2 ^ 32" by simp
      show "ram_end ?h = ram ?h + of_nat (?t + extent (?mid @ post))" unfolding ext using e by simp
      show "structs ?h (ram_end ?h) \<noteq> None" using e by auto
      have "\<forall>b\<in>set (?mid @ post). 128 \<le> fst b" using sizes by (simp only: sizes_ok_def set_append) blast
      then show "\<forall>b\<in>set (?mid @ post). 0 < fst b" by (meson less_le_trans zero_less_numeral)
    qed (use at in simp)
    ultimately show ?thesis using True by (simp add: first_free_append del: of_nat_add)
  next
    case False
    then have "first_free 0 (pre @ ?mid @ post) = first_free 0 pre" "first_free 0 (pre @ (m, False) # post) = first_free 0 pre"
      by (simp_all only: first_free_append if_False)
    moreover have "first_free 0 pre < ?t"
    proof -
      obtain xs b ys where "pre = xs @ b # ys" "\<not> snd b" "\<forall>c\<in>set xs. snd c"
        using False split_list_first_prop [of pre "\<lambda>b. \<not> snd b"] by auto
      moreover from this have "0 < fst b" using l by (auto simp: linked_def sizes_ok_def)
      ultimately show ?thesis by (simp add: first_free_append)
    qed
    ultimately show ?thesis using lt free by (auto simp: ret_def simp del: of_nat_add)
  qed
  have split: "of_nat n + 64 + 64 \<le> (of_nat (?t + m) :: u32) - (of_nat ?t + 64) \<longleftrightarrow> n + 192 \<le> m"
    using user_le [OF d(1,2), of "n + 128"] d(1) n by (simp add: add.assoc)
  have "take_block (of_nat n) (of_nat ?t) h = bnd (\<lambda>h. (if ?r + of_nat ?t = lfree h then next_free else ret ()) h) (\<lambda>_. ret (?r + of_nat ?t + 64)) ?h"
  proof (cases "n + 192 \<le> m")
    case True
    then have test: "of_nat n + 64 + 64 \<le> (of_nat (?t + m) :: u32) - (of_nat ?t + 64)" using split by simp
    have ptr2: "of_nat ?t + 64 + of_nat n = (of_nat (?t + (n + 64)) :: u32)" by simp
    have stat: "of_nat n + 64 = (of_nat (n + 64) :: u32)" by simp
    have ne: "?t \<noteq> ?t + (n + 64)" "?t + m \<noteq> ?t" "?t + m \<noteq> ?t + (n + 64)" using n d(2) True by simp_all
    show ?thesis
    proof (cases "?t + m = 131072")
      case last: True
      then have "of_nat (?t + m) = (131072 :: u32)" by simp
      then show ?thesis unfolding take_block_def Let_def heap_constants
        using True test d(5) M lt ne last
        by (simp add: ptr2 heap_runs bnd_assoc s_def st_def stat fun_upd_twist del: of_nat_add)
    next
      case False
      then have "of_nat (?t + m) \<noteq> (131072 :: u32)"
        using addr_inj [of "?t + m" 131072] lt by (simp del: of_nat_add)
      then show ?thesis unfolding take_block_def Let_def heap_constants
        using True test d(5) M lt ne False
        by (simp add: ptr2 heap_runs bnd_assoc s_def st_def stat fun_upd_twist del: of_nat_add)
    qed
  next
    case False
    have "of_nat (?t + m) - (?r + of_nat ?t - ?r) = (of_nat m :: u32)" by simp
    then show ?thesis unfolding take_block_def Let_def heap_constants using False split d(5)
      by (simp add: heap_runs bnd_assoc s_def st_def del: of_nat_add add_diff_cancel_left')
  qed
  then show ?thesis using search linked by (auto simp: bnd_def ret_def algebra_simps)
qed


text \<open>The octets a request is rounded to; within 63 of \<open>2 ^ 32\<close> the rounding wraps.\<close>

definition data_size :: "nat \<Rightarrow> nat" where
  "data_size n = max 64 ((n + 63) mod 2 ^ 32 div 64 * 64)"

lemma unat_align: "unat (LWIP_MEM_ALIGN_SIZE sz) = (unat sz + 63) mod 2 ^ 32 div 64 * 64"
proof -
  have m: "MEM_ALIGNMENT - 1 = mask 6" by (simp add: MEM_ALIGNMENT_def mask_eq_exp_minus_1)
  define x where "x = sz + MEM_ALIGNMENT - 1"
  have x: "unat x = (unat sz + 63) mod 2 ^ 32" by (simp add: x_def MEM_ALIGNMENT_def unat_word_ariths flip: add_diff_eq)
  have "x AND NOT (mask 6) = push_bit 6 (drop_bit 6 x)" by (rule bit_word_eqI) (auto simp: bit_simps)
  also have "unat \<dots> = unat x div 64 * 64"
    using unat_u32_lt [of x] by (subst unat_shift) (simp_all add: unat_drop del: unat_u32_lt)
  finally show ?thesis by (simp only: LWIP_MEM_ALIGN_SIZE_def m flip: x_def) (simp add: x)
qed

lemma rounded:
  "(let s = LWIP_MEM_ALIGN_SIZE sz in if s < MIN_SIZE_ALIGNED then MIN_SIZE_ALIGNED else s) = of_nat (data_size (unat sz))"
proof -
  have "LWIP_MEM_ALIGN_SIZE sz = of_nat ((unat sz + 63) mod 2 ^ 32 div 64 * 64)" by (simp only: unat_align [symmetric]) simp
  moreover have "LWIP_MEM_ALIGN_SIZE sz < 64 \<longleftrightarrow> (unat sz + 63) mod 2 ^ 32 div 64 * 64 < 64"
    by (simp only: word_less_nat_alt unat_align) simp
  ultimately show ?thesis by (auto simp: Let_def data_size_def max_def)
qed

lemma data_size_bounds: "64 \<le> data_size n" "64 dvd data_size n" "data_size n < 4294967296"
proof -
  have "(n + 63) mod 2 ^ 32 div 64 * 64 \<le> (n + 63) mod 2 ^ 32" by simp
  then have "(n + 63) mod 2 ^ 32 div 64 * 64 < 2 ^ 32" by (rule le_less_trans) simp
  then show "data_size n < 4294967296" by (simp add: data_size_def)
qed (auto simp: data_size_def max_def)

definition alloc_blocks :: "nat \<Rightarrow> blocks \<Rightarrow> (nat \<times> blocks) option" where
  "alloc_blocks n bs = (if n = 0 \<or> data_size n > 131072 then None else first_fit (data_size n) bs)"

lemma first_fit_no_adjacent: "no_adjacent bs \<Longrightarrow> first_fit n bs = Some (off, bs') \<Longrightarrow> no_adjacent bs'"
proof -
  assume ok: "no_adjacent bs" and fit: "first_fit n bs = Some (off, bs')"
  obtain pre m post where "bs = pre @ (m, False) # post"
      "bs' = pre @ (if n + 192 \<le> m then [(n + 64, True), (m - (n + 64), False)] else [(m, True)]) @ post"
    using first_fit_split [OF fit] by blast
  then show ?thesis using ok by (cases post) (auto simp: no_adjacent_append)
qed

lemma mem_malloc_implements:
  assumes h: "implements h bs"
  shows "\<exists>h'. mem_malloc sz h = ret (case alloc_blocks (unat sz) bs of None \<Rightarrow> 0 | Some (off, _) \<Rightarrow> ram h + of_nat (off + 64)) h'
    \<and> ram h' = ram h \<and> implements h' (case alloc_blocks (unat sz) bs of None \<Rightarrow> bs | Some (_, bs') \<Rightarrow> bs')"
proof -
  let ?n = "data_size (unat sz)"
  have l: "linked h bs" and ok: "no_adjacent bs" "64 dvd unat (ram h)" using h by (simp_all add: implements_def)
  consider "sz = 0 \<or> 131072 < ?n" | "sz \<noteq> 0" "?n \<le> 131072" by linarith
  then show ?thesis
  proof cases
    case 1
    have "of_nat 131072 < (of_nat ?n :: u32) \<longleftrightarrow> 131072 < ?n" by (rule addr_less) (simp_all add: data_size_bounds)
    then have "mem_malloc sz h = ret 0 h" using 1 rounded [of sz] by (auto simp: mem_malloc_def Let_def)
    moreover have "alloc_blocks (unat sz) bs = None" using 1 by (auto simp: alloc_blocks_def)
    ultimately show ?thesis using h by auto
  next
    case 2
    have nlt: "\<not> of_nat 131072 < (of_nat ?n :: u32)" using 2 by (subst addr_less) (simp_all add: data_size_bounds)
    let ?f = "first_free 0 bs"
    obtain pre rest where split: "bs = pre @ rest" "?f = extent pre" "\<forall>b\<in>set pre. snd b"
    proof (cases "\<forall>b\<in>set bs. snd b")
      case True
      then show thesis using first_free_append [of 0 bs "[]"] by (intro that [of bs "[]"]) simp_all
    next
      case False
      then obtain xs b ys where "bs = xs @ b # ys" "\<not> snd b" "\<forall>c\<in>set xs. snd c"
        using split_list_first_prop [of bs "\<lambda>b. \<not> snd b"] by auto
      then show thesis by (intro that [of xs "b # ys"]) (simp_all add: first_free_append)
    qed
    have lf: "lfree h - ram h = of_nat (extent pre)" using l split by (simp add: linked_def)
    have alloc: "alloc_blocks (unat sz) bs = first_fit ?n bs" using 2 by (simp add: alloc_blocks_def unat_eq_zero)
    have "mem_malloc sz h = search (of_nat ?n) (of_nat (extent pre)) h"
      using 2 nlt rounded [of sz] lf by (simp add: mem_malloc_def Let_def)
    also have "\<dots> = (case first_fit ?n rest of None \<Rightarrow> bnd (stats inc_err) (\<lambda>_. ret 0) h
        | Some (off, _) \<Rightarrow> take_block (of_nat ?n) (of_nat (extent pre + off)) h)"
      using search_first_fit [OF 2(2), of h pre rest] l split by simp
    also have "\<dots> = (case first_fit ?n bs of None \<Rightarrow> bnd (stats inc_err) (\<lambda>_. ret 0) h
        | Some (off, _) \<Rightarrow> take_block (of_nat ?n) (of_nat off) h)"
      using first_fit_used [OF split(3), of ?n rest] split(1) by (cases "first_fit ?n rest") auto
    finally have run: "mem_malloc sz h = \<dots>" .
    show ?thesis
    proof (cases "first_fit ?n bs")
      case None
      have "linked (h\<lparr>mem_stats := inc_err (mem_stats h)\<rparr>) bs" using l by (auto simp: linked_def inc_err_def)
      then show ?thesis using run None alloc ok by (auto simp: heap_runs implements_def ret_def)
    next
      case (Some r)
      then obtain off bs' where r: "first_fit ?n bs = Some (off, bs')" by (cases r) auto
      obtain pre m post where bs: "bs = pre @ (m, False) # post" "off = extent pre" "?n + 64 \<le> m"
          "bs' = pre @ (if ?n + 192 \<le> m then [(?n + 64, True), (m - (?n + 64), False)] else [(m, True)]) @ post"
        using first_fit_split [OF r] by blast
      obtain h' where "take_block (of_nat ?n) (of_nat off) h = ret (ram h + of_nat (off + 64)) h'" "ram h' = ram h" "linked h' bs'"
        using take_block_linked [of h pre m post ?n] l bs data_size_bounds(1,2) by blast
      then show ?thesis using run r alloc ok first_fit_no_adjacent [OF ok(1) r] by (auto simp: implements_def)
    qed
  qed
qed

section \<open>The empty heap\<close>

lemma mem_init_implements:
  assumes "unat heap_pointer + 131263 < 2 ^ 32" and "st_used (mem_stats h) = 0"
  shows "\<exists>h'. mem_init heap_pointer h = ret () h' \<and> ram h' = LWIP_MEM_ALIGN heap_pointer \<and> implements h' [(131072, False)]"
proof -
  have "LWIP_MEM_ALIGN heap_pointer = LWIP_MEM_ALIGN_SIZE heap_pointer" by (simp add: LWIP_MEM_ALIGN_def LWIP_MEM_ALIGN_SIZE_def)
  then have r: "unat (LWIP_MEM_ALIGN heap_pointer) = (unat heap_pointer + 63) div 64 * 64"
    using assms(1) by (simp add: unat_align)
  have "unat (LWIP_MEM_ALIGN heap_pointer) + 131136 \<le> 2 ^ 32" unfolding r using assms(1) div_times_less_eq_dividend [of "unat heap_pointer + 63" 64] by linarith
  moreover have "64 dvd unat (LWIP_MEM_ALIGN heap_pointer)" unfolding r by simp
  ultimately show ?thesis using assms(2)
    by (simp add: mem_init_def Let_def heap_ops implements_def linked_def sizes_ok_def)
qed


section \<open>Trimming\<close>

text \<open>A used block of \<open>m\<close> octets cut to \<open>n\<close> octets of data: the rest joins a free successor, or becomes a block.\<close>

definition trim_blocks :: "nat \<Rightarrow> nat \<Rightarrow> blocks \<Rightarrow> blocks" where
  "trim_blocks n m post = (case post of
     (k, False) # bs \<Rightarrow> (n + 64, True) # (m + k - (n + 64), False) # bs
   | _ \<Rightarrow> (if n + 192 \<le> m then [(n + 64, True), (m - (n + 64), False)] else [(m, True)]) @ post)"

text \<open>A new header at \<open>n + 64\<close> octets behind the header of a used block, whose old successor may be free.\<close>

lemma cut_linked:
  assumes l: "linked h (pre @ ((m, True) # rest) @ post)" and rest: "rest = [] \<or> (\<exists>k. rest = [(k, False)])"
    and n: "64 \<le> n" "64 dvd n" "n + 192 \<le> m + extent rest"
    and e: "e = extent pre + m + extent rest" and M: "structs h (ram h + of_nat e) = Some M"
    and m: "n + 64 \<le> m"
  shows "linked (h\<lparr>lfree := if first_free 0 (pre @ ((m, True) # rest) @ post) < extent pre then lfree h else ram h + of_nat (extent pre + (n + 64)),
       structs := (if e = 131072 then id else (\<lambda>s. s(ram h + of_nat e \<mapsto> M\<lparr>mem_prev := of_nat (extent pre + (n + 64))\<rparr>)))
         ((structs h)(ram h + of_nat (extent pre + (n + 64)) \<mapsto> \<lparr>mem_next = of_nat e, mem_prev = of_nat (extent pre), mem_used = 0\<rparr>,
           ram h + of_nat (extent pre) \<mapsto> \<lparr>mem_next = of_nat (extent pre + (n + 64)), mem_prev = of_nat (last_off 0 0 pre), mem_used = 1\<rparr>)),
       mem_stats := dec_used (of_nat (m - (n + 64))) (mem_stats h)\<rparr>)
     (pre @ [(n + 64, True), (m + extent rest - (n + 64), False)] @ post)" (is "linked ?h (pre @ ?mid @ post)")
proof -
  let ?t = "extent pre"
  have l1: "linked h (pre @ (m, True) # (rest @ post))" using l by simp
  note d = linkedD [OF l1]
  have sizes: "?t + m + extent rest + extent post = 131072" "\<forall>b\<in>set (pre @ (m, True) # rest @ post). 128 \<le> fst b \<and> 64 dvd fst b"
    using l1 by (auto simp: linked_def sizes_ok_def)
  have lt: "?t < 2 ^ 32" "?t + (n + 64) < 2 ^ 32" "e < 2 ^ 32" "e \<le> 131072" using sizes(1) n(3) e by simp_all
  have e': "extent (pre @ (m, True) # rest) = e" by (simp add: e)
  have ne: "e \<noteq> ?t" "e \<noteq> ?t + (n + 64)" using n e d(2) by simp_all
  have M': "e < 131072 \<or> structs h (ram h + of_nat e) = Some (M\<lparr>mem_prev := mem_prev M\<rparr>)" using M by simp
  have "\<forall>b\<in>set pre. 0 < fst b" using linked_pos [OF l] by simp
  then have ff: "first_free 0 (pre @ ((m, True) # rest) @ post) < ?t \<longleftrightarrow> \<not> (\<forall>b\<in>set pre. snd b)"
    using first_free_bound [of ?t "(m, True) # rest @ post"] first_free_pre [of pre 0] sizes
    by (auto simp: first_free_append)
  have "linked ?h (pre @ ?mid @ post)"
  proof (rule linked_replace [OF l, where q = "if e < 131072 then of_nat (?t + (n + 64)) else mem_prev M"])
    show "lfree ?h = ram h + of_nat (first_free 0 (pre @ ?mid @ post))"
      using l ff by (auto simp: linked_def first_free_append)
    have "used_size rest = 0" using rest by auto
    then show "st_used (mem_stats ?h) = of_nat (used_size (pre @ ?mid @ post))"
      using l m by (simp add: linked_def dec_used_def of_nat_diff)
    show "seg (structs ?h) (ram h) (last_off 0 0 pre) ?t ?mid"
      using lt n ne e d(2) by (simp add: add.assoc del: of_nat_add)
    show "\<forall>b\<in>set ?mid. 128 \<le> fst b \<and> 64 dvd fst b"
      using n sizes(2) rest by (auto intro: dvd_diff_nat)
    show "structs ?h (ram h + of_nat (extent (pre @ (m, True) # rest))) = map_option
        (\<lambda>k. k\<lparr>mem_prev := if e < 131072 then of_nat (?t + (n + 64)) else mem_prev M\<rparr>) (structs h (ram h + of_nat (extent (pre @ (m, True) # rest))))"
      unfolding e' using M lt ne by (auto simp del: of_nat_add)
    fix k assume "k \<le> 131072" "k < extent pre \<or> extent (pre @ (m, True) # rest) < k"
    then show "structs ?h (ram h + of_nat k) = structs h (ram h + of_nat k)"
      unfolding e' using lt n ne e by (auto simp del: of_nat_add)
  qed (use n e in \<open>simp_all\<close>)
  then show ?thesis .
qed


lemma mem_trim_implements:
  assumes h: "implements h (pre @ (m, True) # post)" and fits: "data_size (unat sz) + 64 \<le> m"
  shows "\<exists>h'. mem_trim (ram h + of_nat (extent pre + 64)) sz h = ret (ram h + of_nat (extent pre + 64)) h' \<and> ram h' = ram h
    \<and> implements h' (pre @ trim_blocks (data_size (unat sz)) m post)"
proof -
  let ?t = "extent pre" and ?r = "ram h" and ?n = "data_size (unat sz)"
  let ?p = "?r + of_nat (?t + 64)"
  have l: "linked h (pre @ (m, True) # post)" using h by (simp add: implements_def)
  note d = linkedD [OF l] and n = data_size_bounds [of "unat sz"]
  have lt: "?t < 2 ^ 32" "?t + m < 2 ^ 32" "?t + (?n + 64) < 2 ^ 32" "unat ?r + (?t + 64) < 2 ^ 32" using d(1,2,4) fits by simp_all
  note ptr = user_pointer [OF l]
  have sub: "?p - 64 = ?r + of_nat ?t" "?r + of_nat ?t - ?r = of_nat ?t" by simp_all
  have range: "\<not> (?p < ?r \<or> ram_end h \<le> ?p)" using ptr by blast
  have small: "\<not> of_nat 131072 < (of_nat ?n :: u32)" using fits d(1) n by (subst addr_less) simp_all
  have size: "of_nat (?t + m) - of_nat ?t - 64 = (of_nat (m - 64) :: u32)" using d(2) by (simp add: of_nat_diff)
  have "(of_nat (m - 64) :: u32) < of_nat ?n \<longleftrightarrow> m - 64 < ?n" by (rule addr_less) (use d(1) n in simp_all)
  then have cmp1: "((of_nat (m - 64) :: u32) < of_nat ?n) = False" using fits by simp
  have "(of_nat ?n :: u32) = of_nat (m - 64) \<longleftrightarrow> ?n = m - 64" by (rule addr_inj) (use d(1) n in simp_all)
  then have cmp2: "((of_nat ?n :: u32) = of_nat (m - 64)) = (?n + 64 = m)" using fits by auto
  have "(of_nat (?n + 128) :: u32) \<le> of_nat (m - 64) \<longleftrightarrow> ?n + 128 \<le> m - 64" by (rule addr_le) (use d(1) fits in simp_all)
  then have cmp3: "(of_nat ?n + 64 + 64 \<le> (of_nat (m - 64) :: u32)) = (?n + 192 \<le> m)" using fits by (auto simp: add.assoc)
  have ptr2: "of_nat ?t + 64 + of_nat ?n = (of_nat (?t + (?n + 64)) :: u32)" by simp
  have dec: "of_nat (m - 64) - of_nat ?n = (of_nat (m - (?n + 64)) :: u32)" using fits by (simp add: of_nat_diff)
  have "mem_trim ?p sz h = trim_block ?p (of_nat ?n) h"
    unfolding mem_trim_def using rounded [of sz] small range by (simp add: Let_def)
  note head = this [unfolded trim_block_def Let_def heap_constants sub heap_runs(1) [OF d(5)] mem.select_convs size ptr2 dec cmp1 cmp2 cmp3 if_False]
  have sizes: "\<forall>b\<in>set pre. 0 < fst b" using linked_pos [OF l] by simp
  consider (exact) "?n + 64 = m" | (free) "?n + 64 < m" "post \<noteq> [] \<and> \<not> snd (hd post)"
    | (used) "?n + 64 < m" "post = [] \<or> snd (hd post)" using fits by linarith
  then show ?thesis
  proof cases
    case exact
    then have "mem_trim ?p sz h = ret ?p h" unfolding head by simp
    moreover have "trim_blocks ?n m post = (m, True) # post"
      using exact by (auto simp: trim_blocks_def split: list.split bool.split)
    ultimately show ?thesis using h by auto
  next
    case free
    then obtain k bs where post: "post = (k, False) # bs" by (cases post) auto
    have l1: "linked h (pre @ ((m, True) # [(k, False)]) @ bs)" using l post by simp
    have l2: "linked h ((pre @ [(m, True)]) @ (k, False) # bs)" using l post by simp
    note d2 = linkedD [OF l2, simplified sum_list_append list.map map_append sum_list.Cons sum_list.Nil fst_conv add_0_right]
    let ?e = "?t + m + k" and ?ff = "first_free 0 (pre @ (m, True) # (k, False) # bs)"
    obtain M where M: "structs h (?r + of_nat ?e) = Some M" using d2(6) by blast
    have e: "?e < 2 ^ 32" "?e \<le> 131072" "128 \<le> k" "64 dvd k" using d2(1-3) by simp_all
    obtain j where "m = ?n + 64 + j" "64 dvd j" "0 < j"
      using free(1) d(3) n(2) by (metis add.commute dvd_add_right_iff dvd_refl less_imp_add_positive)
    then have room: "?n + 128 \<le> m" by (auto dest: dvd_imp_le)
    have ff: "?ff < ?t \<or> ?ff = ?t + m" "lfree h = ?r + of_nat ?ff"
      using l post first_free_or [OF sizes, of "(m, True) # (k, False) # bs"] by (simp_all add: linked_def)
    have lfree: "(if lfree h = ?r + of_nat (?t + m) then h\<lparr>lfree := L\<rparr> else h) = h\<lparr>lfree := if ?ff < ?t then lfree h else L\<rparr>" for L
      using ff lt by (auto simp del: of_nat_add)
    let ?h = "h\<lparr>lfree := if first_free 0 (pre @ ((m, True) # [(k, False)]) @ bs) < ?t then lfree h else ?r + of_nat (?t + (?n + 64)),
       structs := (if ?e = 131072 then id else (\<lambda>s. s(?r + of_nat ?e \<mapsto> M\<lparr>mem_prev := of_nat (?t + (?n + 64))\<rparr>)))
         ((structs h)(?r + of_nat (?t + (?n + 64)) \<mapsto> \<lparr>mem_next = of_nat ?e, mem_prev = of_nat ?t, mem_used = 0\<rparr>,
           ?r + of_nat ?t \<mapsto> \<lparr>mem_next = of_nat (?t + (?n + 64)), mem_prev = of_nat (last_off 0 0 pre), mem_used = 1\<rparr>)),
       mem_stats := dec_used (of_nat (m - (?n + 64))) (mem_stats h)\<rparr>"
    have "linked ?h (pre @ [(?n + 64, True), (m + extent [(k, False)] - (?n + 64), False)] @ bs)"
      by (rule cut_linked [OF l1 _ n(1,2) _ _ M]) (use room e fits in simp_all)
    moreover have "mem_trim ?p sz h = ret ?p ?h"
      by (cases "?e = 131072") (use d(5) d2(5) free(1) M e lt room in
        \<open>simp_all add: head heap_runs bnd_assoc lfree fun_upd_twist del: of_nat_add of_nat_diff\<close>)
    moreover have "no_adjacent (pre @ (?n + 64, True) # (m + k - (?n + 64), False) # bs)"
      using h post by (cases bs) (auto simp: implements_def no_adjacent_append)
    ultimately show ?thesis using h post by (auto simp: implements_def trim_blocks_def)
  next
    case used
    obtain M where M: "structs h (?r + of_nat (?t + m)) = Some M" "mem_used M = 1"
      using d(6) used(2) by (cases post) auto
    show ?thesis
    proof (cases "?n + 192 \<le> m")
      case False
      then have "mem_trim ?p sz h = ret ?p h" using used(1) M by (simp add: head heap_runs del: of_nat_add)
      moreover have "trim_blocks ?n m post = (m, True) # post"
        using False used(2) by (auto simp: trim_blocks_def split: list.split bool.split)
      ultimately show ?thesis using h by auto
    next
      case True
      have l1: "linked h (pre @ ((m, True) # []) @ post)" using l by simp
      let ?e = "?t + m" and ?ff = "first_free 0 (pre @ (m, True) # post)"
      have ff: "?ff < ?t \<or> ?t + m \<le> ?ff" "lfree h = ?r + of_nat ?ff" "?ff \<le> 131072"
        using l first_free_or [OF sizes, of "(m, True) # post"] first_free_bound [of "?t + m" post] first_free_bound [of 0 "pre @ (m, True) # post"]
        by (simp_all add: linked_def sizes_ok_def) linarith
      have "?r + of_nat (?t + (?n + 64)) < lfree h \<longleftrightarrow> ?t + (?n + 64) < ?ff"
        unfolding ff(2) by (rule base_less) (use d(1,4) ff(3) used(1) in simp_all)
      then have lfree: "(if ?r + of_nat (?t + (?n + 64)) < lfree h then h\<lparr>lfree := L\<rparr> else h) = h\<lparr>lfree := if ?ff < ?t then lfree h else L\<rparr>" for L
        using ff(1) used(1) by auto
      let ?h = "h\<lparr>lfree := if first_free 0 (pre @ ((m, True) # []) @ post) < ?t then lfree h else ?r + of_nat (?t + (?n + 64)),
         structs := (if ?e = 131072 then id else (\<lambda>s. s(?r + of_nat ?e \<mapsto> M\<lparr>mem_prev := of_nat (?t + (?n + 64))\<rparr>)))
           ((structs h)(?r + of_nat (?t + (?n + 64)) \<mapsto> \<lparr>mem_next = of_nat ?e, mem_prev = of_nat ?t, mem_used = 0\<rparr>,
             ?r + of_nat ?t \<mapsto> \<lparr>mem_next = of_nat (?t + (?n + 64)), mem_prev = of_nat (last_off 0 0 pre), mem_used = 1\<rparr>)),
         mem_stats := dec_used (of_nat (m - (?n + 64))) (mem_stats h)\<rparr>"
      have "linked ?h (pre @ [(?n + 64, True), (m + extent [] - (?n + 64), False)] @ post)"
        by (rule cut_linked [OF l1 _ n(1,2) _ _ M(1)]) (use True fits in simp_all)
      moreover have "mem_trim ?p sz h = ret ?p ?h"
        by (cases "?e = 131072") (use d(5) used(1) M d(1,2) lt True in
          \<open>simp_all add: head heap_runs bnd_assoc lfree fun_upd_twist del: of_nat_add of_nat_diff\<close>)
      moreover have "no_adjacent (pre @ (?n + 64, True) # (m - (?n + 64), False) # post)"
        using h used(2) by (cases post) (auto simp: implements_def no_adjacent_append)
      moreover have "trim_blocks ?n m post = (?n + 64, True) # (m - (?n + 64), False) # post"
        using True used(2) by (auto simp: trim_blocks_def split: list.split bool.split)
      ultimately show ?thesis using h by (auto simp: implements_def)
    qed
  qed
qed

lemma mem_trim_refuses:
  assumes h: "implements h (pre @ (m, True) # post)" and fits: "m < data_size (unat sz) + 64"
  shows "mem_trim (ram h + of_nat (extent pre + 64)) sz h = ret 0 h"
proof -
  let ?t = "extent pre" and ?r = "ram h" and ?n = "data_size (unat sz)"
  let ?p = "?r + of_nat (?t + 64)"
  have l: "linked h (pre @ (m, True) # post)" using h by (simp add: implements_def)
  note d = linkedD [OF l] and n = data_size_bounds [of "unat sz"]
  note range = user_pointer [OF l]
  have "of_nat 131072 < (of_nat ?n :: u32) \<longleftrightarrow> 131072 < ?n" by (rule addr_less) (use n in simp_all)
  have "(of_nat (m - 64) :: u32) < of_nat ?n \<longleftrightarrow> m - 64 < ?n" by (rule addr_less) (use d(1) n in simp_all)
  then have cmp: "((of_nat (m - 64) :: u32) < of_nat ?n) = True" using fits d(2) by auto
  have size: "of_nat (?t + m) - of_nat ?t - 64 = (of_nat (m - 64) :: u32)" using d(2) by (simp add: of_nat_diff)
  have "trim_block ?p (of_nat ?n) h = ret 0 h"
    unfolding trim_block_def Let_def heap_constants range(1,2) heap_runs(1) [OF d(5)] mem.select_convs size cmp if_True ..
  then show ?thesis using rounded [of sz] range n addr_less [of 131072 ?n] by (simp add: mem_trim_def Let_def)
qed

end
