(* ===== verification/Allocator.thy ===== *)
theory Allocator
  imports Prelude
begin

text \<open>
  What the packet buffers rely on of the memory they take from the heap and from the pools: the
  interface of an allocator, whose memory in use is known by a map from addresses to sizes. Theory
  \<open>Mem_Clients\<close> interprets it on \<open>core/mem.c\<close>, theory \<open>Lwip_Memp\<close> on \<open>core/memp.c\<close>.
\<close>

locale allocator =
  fixes inv :: "'h \<Rightarrow> (u32 \<rightharpoonup> nat) \<Rightarrow> bool"
    and legal :: "'r \<Rightarrow> bool"
    and room :: "'r \<Rightarrow> nat"
    and get :: "'r \<Rightarrow> ('h, u32) prog"
    and give :: "u32 \<Rightarrow> ('h, unit) prog"
  assumes get_runs: "inv h live \<Longrightarrow> legal r \<Longrightarrow> \<exists>p h'. get r h = ret p h'
      \<and> (if p = 0 then inv h' live else live p = None \<and> inv h' (live(p \<mapsto> room r)))"
    and give_runs: "inv h live \<Longrightarrow> live p = Some n \<Longrightarrow> \<exists>h'. give p h = ret () h' \<and> inv h' (live(p := None))"
    and apart: "inv h live \<Longrightarrow> live p = Some m \<Longrightarrow> live q = Some n \<Longrightarrow> p \<noteq> q \<Longrightarrow>
      unat p + m \<le> unat q \<or> unat q + n \<le> unat p"
    and inside: "inv h live \<Longrightarrow> live p = Some m \<Longrightarrow> p \<noteq> 0 \<and> unat p + m \<le> 2 ^ 32"
begin

text \<open>What is handed out overlaps nothing in use.\<close>

lemma get_apart:
  assumes "inv h live" and "legal r" and run: "get r h = ret p h'" and "p \<noteq> 0" and q: "live q = Some n"
  shows "unat p + room r \<le> unat q \<or> unat q + n \<le> unat p"
proof -
  obtain p' h1 where "get r h = ret p' h1" "if p' = 0 then inv h1 live else live p' = None \<and> inv h1 (live(p' \<mapsto> room r))"
    using get_runs [OF assms(1,2)] by blast
  then have new: "live p = None" "inv h' (live(p \<mapsto> room r))" using run assms(4) by (auto simp: ret_def)
  then have "p \<noteq> q" using q by auto
  then show ?thesis using apart [OF new(2), of p "room r" q n] q by simp
qed

text \<open>Everything in use can be given back, in any order.\<close>

primrec give_all :: "u32 list \<Rightarrow> ('h, unit) prog" where
  "give_all [] = ret ()"
| "give_all (p # ps) = bnd (give p) (\<lambda>_. give_all ps)"

lemma give_all_runs:
  "inv h live \<Longrightarrow> distinct ps \<Longrightarrow> set ps \<subseteq> dom live \<Longrightarrow>
     \<exists>h'. give_all ps h = ret () h' \<and> inv h' (live |` (- set ps))"
proof (induction ps arbitrary: h live)
  case (Cons p ps)
  then obtain n where "live p = Some n" by auto
  then obtain h1 where 1: "give p h = ret () h1" "inv h1 (live(p := None))" using give_runs Cons.prems(1) by blast
  have "set ps \<subseteq> dom (live(p := None))" using Cons.prems by auto
  moreover have "distinct ps" using Cons.prems(2) by simp
  ultimately obtain h2 where 2: "give_all ps h1 = ret () h2" "inv h2 ((live(p := None)) |` (- set ps))"
    using Cons.IH [OF 1(2)] by blast
  have "(live(p := None)) |` (- set ps) = live |` (- set (p # ps))" by (auto simp: restrict_map_def)
  then show ?case using 1(1) 2 by (auto simp: bnd_def ret_def)
qed (auto simp: restrict_map_def)

end

end
