(* ===== verification/Mem_Clients.thy ===== *)
theory Mem_Clients
  imports Lwip_Mem Allocator
begin

text \<open>
  The clients of the lwIP heap: histories of calls from \<open>mem_init\<close> on, in which a client frees and trims
  only pointers it was given, asks for less than \<open>2 ^ 32 - 63\<close> octets and writes only inside the octets
  it asked for. What holds after every such history.
\<close>

section \<open>Used blocks\<close>

text \<open>The offsets and sizes of the used blocks.\<close>

primrec areas :: "nat \<Rightarrow> blocks \<Rightarrow> (nat \<times> nat) list" where
  "areas off [] = []"
| "areas off (b # bs) = (if snd b then [(off, fst b)] else []) @ areas (off + fst b) bs"

lemma areas_append [simp]: "areas off (xs @ ys) = areas off xs @ areas (off + extent xs) ys"
  by (induction xs arbitrary: off) (auto simp: add.assoc)

lemma areas_coalesce [simp]: "areas off (coalesce bs) = areas off bs"
  by (induction bs arbitrary: off rule: coalesce.induct) (simp_all flip: add.assoc)

lemma areas_bounds: "(t, m) \<in> set (areas off bs) \<Longrightarrow> off \<le> t \<and> t + m \<le> off + extent bs"
  by (induction bs arbitrary: off) (fastforce split: if_splits)+

lemma areas_split: "(t, m) \<in> set (areas off bs) \<Longrightarrow> \<exists>pre post. bs = pre @ (m, True) # post \<and> t = off + extent pre"
proof (induction bs arbitrary: off)
  case (Cons b bs)
  show ?case
  proof (cases "snd b \<and> (t, m) = (off, fst b)")
    case True
    then show ?thesis by (intro exI [of _ "[]"] exI [of _ bs]) (cases b; simp)
  next
    case False
    then have "(t, m) \<in> set (areas (off + fst b) bs)" using Cons.prems by (auto split: if_splits)
    then obtain pre post where "bs = pre @ (m, True) # post" "t = off + fst b + extent pre" using Cons.IH by blast
    then show ?thesis by (intro exI [of _ "b # pre"] exI [of _ post]) simp
  qed
qed simp

lemma areas_disjoint:
  "(s, m) \<in> set (areas off bs) \<Longrightarrow> (t, n) \<in> set (areas off bs) \<Longrightarrow> \<forall>b\<in>set bs. 0 < fst b \<Longrightarrow>
     s = t \<and> m = n \<or> s + m \<le> t \<or> t + n \<le> s"
proof (induction bs arbitrary: off)
  case (Cons b bs)
  then show ?case using areas_bounds [of _ _ "off + fst b" bs] by (fastforce split: if_splits)
qed simp

lemma areas_first_fit:
  assumes "first_fit n bs = Some (off, bs')"
  shows "set (areas 0 bs) \<subseteq> set (areas 0 bs')" and "\<exists>m. (off, m) \<in> set (areas 0 bs') \<and> n + 64 \<le> m"
proof -
  obtain pre m post where bs: "bs = pre @ (m, False) # post" "off = extent pre" "n + 64 \<le> m"
      "bs' = pre @ (if n + 192 \<le> m then [(n + 64, True), (m - (n + 64), False)] else [(m, True)]) @ post"
    using first_fit_split [OF assms] by blast
  then show "set (areas 0 bs) \<subseteq> set (areas 0 bs')" "\<exists>m. (off, m) \<in> set (areas 0 bs') \<and> n + 64 \<le> m" by auto
qed

section \<open>Writes of the clients\<close>

lemma write_area_implements:
  assumes h: "implements h bs" and area: "(t, m) \<in> set (areas 0 bs)" and i: "i + unat n + 64 \<le> m"
  shows "\<exists>h'. write_area (ram h + of_nat (t + 64 + i)) n h = ret () h' \<and> ram h' = ram h \<and> implements h' bs"
proof -
  let ?p = "ram h + of_nat (t + 64 + i)"
  define s where "s = (\<lambda>a. if a - ?p < n then None else structs h a)"
  obtain pre post where bs: "bs = pre @ (m, True) # post" "t = extent pre" using areas_split [OF area] by auto
  have l: "linked h (pre @ (m, True) # post)" using h bs by (simp add: implements_def)
  note d = linkedD [OF l]
  have ext: "t + m + extent post = 131072" using l bs by (simp add: linked_def sizes_ok_def)
  have keep: "s (ram h + of_nat k) = structs h (ram h + of_nat k)" if k: "k \<le> t \<or> t + m \<le> k" "k \<le> 131072" for k
  proof -
    have "\<not> ram h + of_nat k - ?p < n"
    proof (cases "k \<le> t")
      case True
      have "ram h + of_nat k - ?p = of_nat k - of_nat (t + 64 + i)" by simp
      moreover have "unat (of_nat k :: u32) = k" "unat (of_nat (t + 64 + i) :: u32) = t + 64 + i"
        by (rule unat_of_nat32, use True d(1) i bs(2) in simp)+
      ultimately have "unat (ram h + of_nat k - ?p) = 2 ^ 32 + k - (t + 64 + i)"
        using True by (simp add: unat_sub_if_size word_size del: of_nat_add)
      then show ?thesis using d(1) i bs(2) by (simp add: word_less_nat_alt)
    next
      case False
      then have "ram h + of_nat k - ?p = of_nat (k - (t + 64 + i))" using k i by (simp add: of_nat_diff)
      then have "unat (ram h + of_nat k - ?p) = k - (t + 64 + i)" using k(2) by (simp only:) (rule unat_of_nat32, simp)
      then show ?thesis using k False i by (simp add: word_less_nat_alt del: of_nat_add)
    qed
    then show ?thesis by (simp add: s_def)
  qed
  have seg: "seg (structs h) (ram h) 0 0 (pre @ (m, True) # post)" using l by (simp add: linked_def)
  have "seg s (ram h) 0 0 pre"
    by (rule seg_cong [of "structs h"]) (use seg linked_pos [OF l] keep d(1) bs(2) in \<open>auto simp: seg_append simp del: of_nat_add\<close>)
  moreover have "seg s (ram h) (extent pre) (extent pre + m) post"
    by (rule seg_cong [of "structs h"]) (use seg linked_pos [OF l] keep ext bs(2) in \<open>auto simp: seg_append simp del: of_nat_add\<close>)
  moreover have "s (ram h + of_nat (extent pre)) = structs h (ram h + of_nat (extent pre))"
    by (rule keep) (use d(1) bs(2) in simp_all)
  moreover have "s (ram h + of_nat 131072) = structs h (ram h + of_nat 131072)" by (rule keep) (use d(1) bs(2) in simp_all)
  ultimately have "linked (h\<lparr>structs := s\<rparr>) (pre @ (m, True) # post)"
    using l by (auto simp: linked_def seg_append simp del: of_nat_add)
  then have "implements (h\<lparr>structs := s\<rparr>) bs" using h bs by (simp add: implements_def)
  moreover have "write_area ?p n h = ret () (h\<lparr>structs := s\<rparr>)" by (simp only: write_area_def modify_def s_def)
  ultimately show ?thesis by auto
qed


section \<open>Histories\<close>

text \<open>The heap and the octets asked for at each pointer in use.\<close>

inductive heap_run :: "heap \<Rightarrow> (u32 \<rightharpoonup> u32) \<Rightarrow> bool" where
  run_init: "unat heap_pointer + 131263 < 2 ^ 32 \<Longrightarrow> st_used (mem_stats h) = 0 \<Longrightarrow>
     mem_init heap_pointer h = ret () h' \<Longrightarrow> heap_run h' Map.empty"
| run_malloc: "heap_run h live \<Longrightarrow> unat sz < 2 ^ 32 - 63 \<Longrightarrow> mem_malloc sz h = ret p h' \<Longrightarrow>
     heap_run h' (if p = 0 then live else live(p \<mapsto> sz))"
| run_calloc: "heap_run h live \<Longrightarrow> unat count * unat sz < 2 ^ 32 - 63 \<Longrightarrow> mem_calloc count sz h = ret p h' \<Longrightarrow>
     heap_run h' (if p = 0 then live else live(p \<mapsto> count * sz))"
| run_free: "heap_run h live \<Longrightarrow> live p = Some sz \<Longrightarrow> mem_free p h = ret () h' \<Longrightarrow> heap_run h' (live(p := None))"
| run_trim: "heap_run h live \<Longrightarrow> live p = Some sz \<Longrightarrow> unat newsize < 2 ^ 32 - 63 \<Longrightarrow> mem_trim p newsize h = ret q h' \<Longrightarrow>
     heap_run h' (if q = 0 then live else live(q \<mapsto> newsize))"
| run_write: "heap_run h live \<Longrightarrow> live p = Some sz \<Longrightarrow> i + unat n \<le> unat sz \<Longrightarrow> write_area (p + of_nat i) n h = ret () h' \<Longrightarrow>
     heap_run h' live"

text \<open>The heap implements some blocks, and every pointer in use is that of a used block with room for what was asked.\<close>

definition heap_inv :: "heap \<Rightarrow> (u32 \<rightharpoonup> u32) \<Rightarrow> blocks \<Rightarrow> bool" where
  "heap_inv h live bs \<longleftrightarrow> implements h bs \<and> (\<forall>p sz. live p = Some sz \<longrightarrow>
     (\<exists>t m. (t, m) \<in> set (areas 0 bs) \<and> p = ram h + of_nat (t + 64) \<and> unat sz + 64 \<le> m))"

lemma heap_invD:
  assumes "heap_inv h live bs" "live p = Some sz"
  obtains pre m post where "bs = pre @ (m, True) # post" "p = ram h + of_nat (extent pre + 64)" "unat sz + 64 \<le> m"
    "(extent pre, m) \<in> set (areas 0 bs)"
proof -
  obtain t m where t: "(t, m) \<in> set (areas 0 bs)" "p = ram h + of_nat (t + 64)" "unat sz + 64 \<le> m"
    using assms unfolding heap_inv_def by blast
  then obtain pre post where "bs = pre @ (m, True) # post" "t = extent pre" using areas_split [OF t(1)] by auto
  with t that show thesis by blast
qed

lemma heap_inv_mono:
  "heap_inv h live bs \<Longrightarrow> implements h' bs' \<Longrightarrow> ram h' = ram h \<Longrightarrow> set (areas 0 bs) \<subseteq> set (areas 0 bs') \<Longrightarrow> heap_inv h' live bs'"
proof -
  assume inv: "heap_inv h live bs" and new: "implements h' bs'" "ram h' = ram h" "set (areas 0 bs) \<subseteq> set (areas 0 bs')"
  have "\<exists>t m. (t, m) \<in> set (areas 0 bs') \<and> p = ram h' + of_nat (t + 64) \<and> unat sz + 64 \<le> m" if "live p = Some sz" for p sz
    using inv that new(2,3) unfolding heap_inv_def by fastforce
  then show ?thesis using new(1) unfolding heap_inv_def by blast
qed

lemma data_size_room: "n < 2 ^ 32 - 63 \<Longrightarrow> n \<le> data_size n"
proof -
  assume "n < 2 ^ 32 - 63"
  then have "(n + 63) mod 2 ^ 32 = n + 63" by (intro mod_less) linarith
  moreover have "(n + 63) div 64 * 64 + (n + 63) mod 64 = n + 63" by (rule div_mult_mod_eq)
  moreover have "(n + 63) mod 64 < 64" by simp
  ultimately have "n \<le> (n + 63) mod 2 ^ 32 div 64 * 64" by linarith
  then show ?thesis unfolding data_size_def by (rule max.coboundedI2)
qed

lemma malloc_inv:
  assumes inv: "heap_inv h live bs" and n: "unat sz < 2 ^ 32 - 63" and run: "mem_malloc sz h = ret p h'"
  shows "\<exists>bs'. heap_inv h' (if p = 0 then live else live(p \<mapsto> sz)) bs'"
proof -
  let ?a = "alloc_blocks (unat sz) bs"
  have h: "implements h bs" using inv by (simp add: heap_inv_def)
  from mem_malloc_implements [OF h, of sz] run have
    r: "p = (case ?a of None \<Rightarrow> 0 | Some (off, _) \<Rightarrow> ram h + of_nat (off + 64))" "ram h' = ram h"
      "implements h' (case ?a of None \<Rightarrow> bs | Some (_, bs') \<Rightarrow> bs')" by (auto simp: ret_def)
  show ?thesis
  proof (cases ?a)
    case None
    then show ?thesis using r inv heap_inv_mono [of h live bs h' bs] by auto
  next
    case (Some x)
    then obtain off bs' where a: "?a = Some (off, bs')" by (cases x) auto
    then have fit: "first_fit (data_size (unat sz)) bs = Some (off, bs')" by (auto simp: alloc_blocks_def split: if_splits)
    obtain m where m: "(off, m) \<in> set (areas 0 bs')" "data_size (unat sz) + 64 \<le> m" using areas_first_fit(2) [OF fit] by blast
    have "heap_inv h' live bs'" using r a inv heap_inv_mono [of h live bs h' bs'] areas_first_fit(1) [OF fit] by simp
    moreover have "\<exists>t k. (t, k) \<in> set (areas 0 bs') \<and> p = ram h' + of_nat (t + 64) \<and> unat sz + 64 \<le> k"
      using m r a data_size_room [OF n] by (intro exI [of _ off] exI [of _ m]) simp
    ultimately have "heap_inv h' (live(p \<mapsto> sz)) bs'" unfolding heap_inv_def by auto
    then show ?thesis using \<open>heap_inv h' live bs'\<close> by auto
  qed
qed

lemma write_inv:
  assumes inv: "heap_inv h live bs" and p: "live p = Some sz" and n: "i + unat n \<le> unat sz"
  shows "\<exists>h'. write_area (p + of_nat i) n h = ret () h' \<and> heap_inv h' live bs"
proof -
  obtain pre m post where b: "p = ram h + of_nat (extent pre + 64)" "unat sz + 64 \<le> m" "(extent pre, m) \<in> set (areas 0 bs)"
    using heap_invD [OF inv p] by blast
  have "implements h bs" using inv by (simp add: heap_inv_def)
  from write_area_implements [OF this b(3), of i n] obtain h' where
    "write_area (p + of_nat i) n h = ret () h'" "ram h' = ram h" "implements h' bs" using b n by (auto simp: add.assoc)
  then show ?thesis using heap_inv_mono [OF inv] by blast
qed

lemma free_inv:
  assumes inv: "heap_inv h live bs" and p: "live p = Some sz"
  shows "\<exists>h' bs'. mem_free p h = ret () h' \<and> ram h' = ram h \<and> heap_inv h' (live(p := None)) bs'"
proof -
  obtain pre m post where b: "bs = pre @ (m, True) # post" "p = ram h + of_nat (extent pre + 64)"
    using heap_invD [OF inv p] by blast
  have h: "implements h (pre @ (m, True) # post)" using inv b by (simp add: heap_inv_def)
  obtain h' where r: "mem_free p h = ret () h'" "ram h' = ram h" "implements h' (coalesce (pre @ (m, False) # post))"
    using mem_free_implements [OF h] b by blast
  have "(t, k) \<in> set (areas 0 (coalesce (pre @ (m, False) # post)))" if "(t, k) \<in> set (areas 0 bs)" "t \<noteq> extent pre" for t k
    using that b by auto
  then have "heap_inv h' (live(p := None)) (coalesce (pre @ (m, False) # post))"
    using inv r b(2) unfolding heap_inv_def by (metis fun_upd_apply option.distinct(1))
  then show ?thesis using r by blast
qed

lemma data_size_fits: "128 \<le> m \<Longrightarrow> 64 dvd m \<Longrightarrow> n + 64 \<le> m \<Longrightarrow> data_size n + 64 \<le> m"
proof -
  assume m: "128 \<le> m" "64 dvd m" "n + 64 \<le> m"
  obtain k where k: "m = 64 * k" using m(2) by blast
  then have "(n + 63) div 64 \<le> k - 1" using m(3) by linarith
  moreover have "(n + 63) mod 2 ^ 32 div 64 \<le> (n + 63) div 64" by (intro div_le_mono) simp
  ultimately have "(n + 63) mod 2 ^ 32 div 64 * 64 + 64 \<le> m" using m(1) k by linarith
  then show ?thesis using m(1) by (simp add: data_size_def)
qed

lemma trim_inv:
  assumes inv: "heap_inv h live bs" and p: "live p = Some sz" and n: "unat newsize < 2 ^ 32 - 63"
  shows "\<exists>q h' bs'. mem_trim p newsize h = ret q h' \<and> ram h' = ram h \<and> heap_inv h' (if q = 0 then live else live(q \<mapsto> newsize)) bs'
    \<and> (unat newsize \<le> unat sz \<longrightarrow> q = p)"
proof -
  obtain pre m post where b: "bs = pre @ (m, True) # post" "p = ram h + of_nat (extent pre + 64)" "unat sz + 64 \<le> m"
    using heap_invD [OF inv p] by blast
  have h: "implements h (pre @ (m, True) # post)" using inv b by (simp add: heap_inv_def)
  then have p0: "p \<noteq> 0" using user_pointer(3) [of h pre m True post] b(2) by (simp add: implements_def)
  let ?n = "data_size (unat newsize)"
  show ?thesis
  proof (cases "?n + 64 \<le> m")
    case False
    then have "mem_trim p newsize h = ret 0 h" using mem_trim_refuses [OF h] b(2) by simp
    moreover have "128 \<le> m" "64 dvd m" using h by (simp_all add: implements_def linked_def sizes_ok_def)
    then have "\<not> unat newsize \<le> unat sz" using False b(3) data_size_fits [of m "unat newsize"] by auto
    ultimately show ?thesis using inv by auto
  next
    case True
    let ?bs = "pre @ trim_blocks ?n m post"
    obtain h' where r: "mem_trim p newsize h = ret p h'" "ram h' = ram h" "implements h' ?bs"
      using mem_trim_implements [OF h True] b(2) by blast
    have keep: "(t, k) \<in> set (areas 0 ?bs)" if "(t, k) \<in> set (areas 0 bs)" "t \<noteq> extent pre" for t k
      using that b(1) True by (auto simp: trim_blocks_def add.assoc split: list.split bool.split if_splits)
    have new: "\<exists>k. (extent pre, k) \<in> set (areas 0 ?bs) \<and> ?n + 64 \<le> k"
      using True by (auto simp: trim_blocks_def split: list.split bool.split)
    have "heap_inv h' (live(p \<mapsto> newsize)) ?bs"
      unfolding heap_inv_def
    proof (intro conjI allI impI)
      fix q s assume q: "(live(p \<mapsto> newsize)) q = Some s"
      show "\<exists>t k. (t, k) \<in> set (areas 0 ?bs) \<and> q = ram h' + of_nat (t + 64) \<and> unat s + 64 \<le> k"
      proof (cases "q = p")
        case True
        then show ?thesis using q new b(2) r(2) data_size_room [OF n] by fastforce
      next
        case False
        then show ?thesis using q inv b(2) r(2) keep unfolding heap_inv_def by (metis fun_upd_apply)
      qed
    qed (rule r(3))
    then show ?thesis using r(1,2) p0 by (intro exI [of _ p] exI [of _ h'] exI [of _ ?bs]) simp
  qed
qed


lemma malloc_returns: "implements h bs \<Longrightarrow> \<exists>p h'. mem_malloc sz h = ret p h'"
  using mem_malloc_implements by blast

lemma calloc_inv:
  assumes inv: "heap_inv h live bs" and n: "unat count * unat sz < 2 ^ 32 - 63"
  shows "\<exists>p h' bs'. mem_calloc count sz h = ret p h' \<and> heap_inv h' (if p = 0 then live else live(p \<mapsto> count * sz)) bs'"
proof -
  have "unat (count * sz) = unat count * unat sz"
    using n by (simp add: unat_word_ariths)
  then have n': "unat (count * sz) < 2 ^ 32 - 63" using n by (simp only:)
  obtain p h1 where run: "mem_malloc (count * sz) h = ret p h1"
    using malloc_returns inv unfolding heap_inv_def by blast
  obtain bs1 where inv1: "heap_inv h1 (if p = 0 then live else live(p \<mapsto> count * sz)) bs1"
    using malloc_inv [OF inv n' run] by blast
  show ?thesis
  proof (cases "p = 0")
    case True
    then have "mem_calloc count sz h = ret 0 h1" using run by (simp add: mem_calloc_def bnd_def ret_def)
    then show ?thesis using inv1 True by auto
  next
    case False
    then have inv1': "heap_inv h1 (live(p \<mapsto> count * sz)) bs1" using inv1 by simp
    obtain h2 where w: "write_area p (count * sz) h1 = ret () h2" "heap_inv h2 (live(p \<mapsto> count * sz)) bs1"
      using write_inv [OF inv1', of p "count * sz" 0 "count * sz"] by auto
    have "mem_calloc count sz h = ret p h2" using run w(1) False by (simp add: mem_calloc_def bnd_def ret_def)
    then show ?thesis using w(2) False by auto
  qed
qed

lemma run_inv: "heap_run h live \<Longrightarrow> \<exists>bs. heap_inv h live bs"
proof (induction rule: heap_run.induct)
  case (run_init heap_pointer h h')
  then show ?case using mem_init_implements [OF run_init(1,2)] by (auto simp: heap_inv_def ret_def)
next
  case (run_malloc h live sz p h')
  then show ?case using malloc_inv by blast
next
  case (run_calloc h live count sz p h')
  then obtain bs where "heap_inv h live bs" by blast
  from calloc_inv [OF this run_calloc(2)] show ?case using run_calloc(3) by (auto simp: ret_def)
next
  case (run_free h live p sz h')
  then obtain bs where "heap_inv h live bs" by blast
  from free_inv [OF this run_free(2)] show ?case using run_free(3) by (auto simp: ret_def fun_upd_def)
next
  case (run_trim h live p sz newsize q h')
  then obtain bs where "heap_inv h live bs" by blast
  from trim_inv [OF this run_trim(2,3)] show ?case using run_trim(4) by (auto simp: ret_def)
next
  case (run_write h live p sz i n h')
  then obtain bs where "heap_inv h live bs" by blast
  from write_inv [OF this run_write(2,3)] show ?case using run_write(4) by (auto simp: ret_def)
qed

lemma live_area:
  assumes inv: "heap_inv h live bs" and p: "live p = Some s"
  obtains t m where "(t, m) \<in> set (areas 0 bs)" "unat p = unat (ram h) + t + 64" "unat s + 64 \<le> m" "t + m \<le> 131072" "64 dvd t"
proof -
  obtain pre m post where b: "bs = pre @ (m, True) # post" "p = ram h + of_nat (extent pre + 64)" "unat s + 64 \<le> m"
    "(extent pre, m) \<in> set (areas 0 bs)" using heap_invD [OF inv p] by blast
  have l: "linked h (pre @ (m, True) # post)" using inv b by (simp add: heap_inv_def implements_def)
  note d = linkedD [OF l]
  have "unat p = unat (ram h) + (extent pre + 64)"
    unfolding b(2) using d(1,2,4) by (subst unat_plus) (simp_all del: of_nat_add)
  moreover have "64 dvd extent pre"
  proof -
    have "\<forall>b\<in>set pre. 64 dvd fst b" using l by (auto simp: linked_def sizes_ok_def)
    then show ?thesis by (induction pre) auto
  qed
  ultimately show thesis using that [OF b(4)] b(3) d(1) by (simp add: add.assoc)
qed

text \<open>Freeing what was just allocated gives the blocks before.\<close>

lemma coalesce_split: "coalesce (xs @ (a, False) # (b, False) # ys) = coalesce (xs @ (a + b, False) # ys)"
proof (induction xs rule: coalesce_induct)
  case (single m)
  then show ?case by (cases m; cases "snd m") (simp_all add: add.assoc)
qed (auto simp: add.assoc)

lemma malloc_free:
  assumes h: "implements h bs" and fit: "alloc_blocks (unat sz) bs = Some (off, bs')"
  shows "\<exists>h1 h2. mem_malloc sz h = ret (ram h + of_nat (off + 64)) h1 \<and> implements h1 bs'
    \<and> mem_free (ram h + of_nat (off + 64)) h1 = ret () h2 \<and> implements h2 bs"
proof -
  obtain h1 where h1: "mem_malloc sz h = ret (ram h + of_nat (off + 64)) h1" "ram h1 = ram h" "implements h1 bs'"
    using mem_malloc_implements [OF h, of sz] fit by auto
  let ?n = "data_size (unat sz)"
  have "first_fit ?n bs = Some (off, bs')" using fit by (auto simp: alloc_blocks_def split: if_splits)
  then obtain pre m post where b: "bs = pre @ (m, False) # post" "off = extent pre" "?n + 64 \<le> m"
      "bs' = pre @ (if ?n + 192 \<le> m then [(?n + 64, True), (m - (?n + 64), False)] else [(m, True)]) @ post"
    using first_fit_split by blast
  have ok: "coalesce bs = bs" using h coalesce_id by (simp add: implements_def)
  define k rest where "k = (if ?n + 192 \<le> m then ?n + 64 else m)"
    and "rest = (if ?n + 192 \<le> m then (m - (?n + 64), False) # post else post)"
  have bs': "bs' = pre @ (k, True) # rest" using b(4) by (simp add: k_def rest_def)
  obtain h2 where h2: "mem_free (ram h + of_nat (off + 64)) h1 = ret () h2" "implements h2 (coalesce (pre @ (k, False) # rest))"
    using mem_free_implements [of h1 pre k rest] h1 b(2) bs' by auto
  have "coalesce (pre @ (k, False) # rest) = bs"
    using ok b(1,3) by (auto simp: k_def rest_def coalesce_split)
  then show ?thesis using h1 h2 by auto
qed

section \<open>The heap as an allocator\<close>

text \<open>The heap at \<open>r\<close> implements some blocks, and \<open>live\<close> tells what is in use.\<close>

definition heap_uses :: "u32 \<Rightarrow> heap \<Rightarrow> (u32 \<rightharpoonup> nat) \<Rightarrow> bool" where
  "heap_uses r h live \<longleftrightarrow> ram h = r \<and> (\<exists>lv bs. heap_inv h lv bs \<and> live = (\<lambda>p. map_option unat (lv p)))"

lemma heap_apart:
  assumes inv: "heap_inv h lv bs" and p: "lv p = Some s" and q: "lv q = Some u" and ne: "p \<noteq> q"
  shows "unat p + unat s \<le> unat q \<or> unat q + unat u \<le> unat p"
proof -
  have l: "linked h bs" using inv by (simp add: heap_inv_def implements_def)
  obtain t m where a: "(t, m) \<in> set (areas 0 bs)" "unat p = unat (ram h) + t + 64" "unat s + 64 \<le> m"
    using live_area [OF inv p] by blast
  obtain t' m' where a': "(t', m') \<in> set (areas 0 bs)" "unat q = unat (ram h) + t' + 64" "unat u + 64 \<le> m'"
    using live_area [OF inv q] by blast
  have "t \<noteq> t'" using ne a(2) a'(2) by (auto simp: word_unat_eq_iff)
  then show ?thesis using areas_disjoint [OF a(1) a'(1)] linked_pos [OF l] a a' by auto
qed

lemma heap_range:
  assumes "heap_uses r h live" and "live p = Some n"
  shows "unat r + 64 \<le> unat p \<and> unat p + n \<le> unat r + 131072 \<and> unat r + 131136 \<le> 2 ^ 32 \<and> 64 dvd unat p"
proof -
  obtain lv bs s where lv: "heap_inv h lv bs" "lv p = Some s" "n = unat s" "ram h = r" using assms by (auto simp: heap_uses_def)
  obtain t k where t: "unat p = unat (ram h) + t + 64" "unat s + 64 \<le> k" "t + k \<le> 131072" "64 dvd t" using live_area [OF lv(1,2)] by blast
  have "unat (ram h) + 131136 \<le> 2 ^ 32" "64 dvd unat (ram h)" using lv(1) by (simp_all add: heap_inv_def implements_def linked_def)
  then show ?thesis using t lv(3,4) by simp
qed

lemma malloc_fresh:
  assumes inv: "heap_inv h lv bs" and n: "unat sz < 2 ^ 32 - 63" and run: "mem_malloc sz h = ret p h'" and p: "p \<noteq> 0"
  shows "lv p = None"
proof (rule ccontr)
  assume "lv p \<noteq> None"
  then obtain s where s: "lv p = Some s" by auto
  have h: "implements h bs" and l: "linked h bs" using inv by (simp_all add: heap_inv_def implements_def)
  obtain off bs' where a: "alloc_blocks (unat sz) bs = Some (off, bs')" "p = ram h + of_nat (off + 64)"
    using mem_malloc_implements [OF h, of sz] run p by (auto simp: ret_def split: option.splits)
  then have "first_fit (data_size (unat sz)) bs = Some (off, bs')" by (auto simp: alloc_blocks_def split: if_splits)
  then obtain pre m post where b: "bs = pre @ (m, False) # post" "off = extent pre"
    using first_fit_split by blast
  have l': "linked h (pre @ (m, False) # post)" using l b by simp
  obtain t k where t: "(t, k) \<in> set (areas 0 bs)" "unat p = unat (ram h) + t + 64" using live_area [OF inv s] by blast
  have "unat p = unat (ram h) + (off + 64)"
    unfolding a(2) b(2) using linkedD(1,2,4) [OF l'] by (subst unat_plus) (simp_all del: of_nat_add)
  then have t': "t = extent pre" using t(2) b(2) by simp
  have "(t, k) \<in> set (areas 0 pre) \<or> (t, k) \<in> set (areas (extent pre + m) post)" using t(1) b(1) by simp
  moreover obtain xs ys where "bs = xs @ (k, True) # ys" using areas_split [OF t(1)] by blast
  then have "0 < k" using linkedD(2) [of h xs k True ys] l by simp
  ultimately show False using areas_bounds [of t k 0 pre] areas_bounds [of t k "extent pre + m" post] t'
      linkedD(2) [OF l'] by auto
qed

interpretation heap: allocator "heap_uses r" "\<lambda>sz. unat sz < 2 ^ 32 - 63" unat mem_malloc mem_free for r
proof unfold_locales
  fix h live and sz :: u32 assume "heap_uses r h live" and sz: "unat sz < 2 ^ 32 - 63"
  then obtain lv bs where lv: "heap_inv h lv bs" "live = (\<lambda>p. map_option unat (lv p))" and r: "ram h = r" by (auto simp: heap_uses_def)
  obtain p h' where run: "mem_malloc sz h = ret p h'" using malloc_returns lv(1) unfolding heap_inv_def by blast
  obtain bs' where inv: "heap_inv h' (if p = 0 then lv else lv(p \<mapsto> sz)) bs'" using malloc_inv [OF lv(1) sz run] by blast
  have "ram h' = r" using mem_malloc_implements [of h bs sz] lv(1) run r by (auto simp: ret_def heap_inv_def)
  have "if p = 0 then heap_uses r h' live else live p = None \<and> heap_uses r h' (live(p \<mapsto> unat sz))"
  proof (cases "p = 0")
    case True
    then show ?thesis using inv lv(2) \<open>ram h' = r\<close> by (auto simp: heap_uses_def)
  next
    case False
    then have "heap_uses r h' (\<lambda>q. map_option unat ((lv(p \<mapsto> sz)) q))" using inv \<open>ram h' = r\<close> by (auto simp: heap_uses_def)
    moreover have "(\<lambda>q. map_option unat ((lv(p \<mapsto> sz)) q)) = live(p \<mapsto> unat sz)" using lv(2) by auto
    ultimately show ?thesis using False malloc_fresh [OF lv(1) sz run] lv(2) by simp
  qed
  then show "\<exists>p h'. mem_malloc sz h = ret p h' \<and>
      (if p = 0 then heap_uses r h' live else live p = None \<and> heap_uses r h' (live(p \<mapsto> unat sz)))" using run by blast
next
  fix h live p and n :: nat assume "heap_uses r h live" and p: "live p = Some n"
  then obtain lv bs s where lv: "heap_inv h lv bs" "live = (\<lambda>p. map_option unat (lv p))" "lv p = Some s" "ram h = r"
    by (auto simp: heap_uses_def)
  obtain h' bs' where r: "mem_free p h = ret () h'" "ram h' = ram h" "heap_inv h' (lv(p := None)) bs'" using free_inv [OF lv(1,3)] by blast
  have eq: "live(p := None) = (\<lambda>q. map_option unat ((lv(p := None)) q))" using lv(2) by auto
  have "ram h' = r" using r(2) lv(4) by simp
  then have "heap_uses r h' (live(p := None))" unfolding heap_uses_def using r(3) eq by blast
  then show "\<exists>h'. mem_free p h = ret () h' \<and> heap_uses r h' (live(p := None))" using r(1) by blast
next
  fix h live p q and m n :: nat assume "heap_uses r h live" "live p = Some m" "live q = Some n" and ne: "p \<noteq> q"
  then obtain lv bs s u where "heap_inv h lv bs" "lv p = Some s" "lv q = Some u" "m = unat s" "n = unat u" by (auto simp: heap_uses_def)
  then show "unat p + m \<le> unat q \<or> unat q + n \<le> unat p" using heap_apart [of h lv bs p s q u] ne by simp
next
  fix h live p and m :: nat assume "heap_uses r h live" "live p = Some m"
  from heap_range [OF this] show "p \<noteq> 0 \<and> unat p + m \<le> 2 ^ 32" by auto
qed

text \<open>Shrinking an area keeps its place.\<close>

lemma trim_uses:
  assumes "heap_uses r h live" "live p = Some n" "unat m \<le> n"
  shows "\<exists>h'. mem_trim p m h = ret p h' \<and> heap_uses r h' (live(p \<mapsto> unat m))"
proof -
  obtain lv bs where lv: "heap_inv h lv bs" "live = (\<lambda>p. map_option unat (lv p))" "ram h = r" using assms(1) by (auto simp: heap_uses_def)
  obtain sz where sz: "lv p = Some sz" "n = unat sz" using assms(2) lv(2) by auto
  have "unat sz < 2 ^ 32 - 63" using heap_range [OF assms(1,2)] sz(2) by simp
  then have m: "unat m < 2 ^ 32 - 63" using assms(3) sz(2) by linarith
  obtain h' bs' where h': "mem_trim p m h = ret p h'" "ram h' = ram h" "heap_inv h' (if p = 0 then lv else lv(p \<mapsto> m)) bs'"
    using trim_inv [OF lv(1) sz(1) m] assms(3) sz(2) by auto
  have "p \<noteq> 0" using heap_range [OF assms(1,2)] by auto
  moreover have "live(p \<mapsto> unat m) = (\<lambda>q. map_option unat ((lv(p \<mapsto> m)) q))" using lv(2) by (auto simp: fun_eq_iff)
  ultimately have "ram h' = r \<and> heap_inv h' (lv(p \<mapsto> m)) bs' \<and> live(p \<mapsto> unat m) = (\<lambda>q. map_option unat ((lv(p \<mapsto> m)) q))"
    using h'(2,3) lv(3) by simp
  then have "heap_uses r h' (live(p \<mapsto> unat m))" unfolding heap_uses_def by blast
  then show ?thesis using h'(1) by blast
qed

end
