(* ===== verification/Lwip_Memp.thy ===== *)
theory Lwip_Memp
  imports Mem_Clients
begin

text \<open>
  The pools of lwIP (\<open>core/memp.c\<close>), as the board configures them: separate arrays, no sanity regions,
  statistics on. Every pool keeps its free elements in a list linked through their first word.
\<close>

section \<open>The pools\<close>

text \<open>The enumeration \<open>memp_t\<close>, as \<open>memp_std.h\<close> expands with the options of the board.\<close>

definition MEMP_RAW_PCB :: nat where "MEMP_RAW_PCB = 0"
definition MEMP_UDP_PCB :: nat where "MEMP_UDP_PCB = 1"
definition MEMP_TCP_PCB :: nat where "MEMP_TCP_PCB = 2"
definition MEMP_TCP_PCB_LISTEN :: nat where "MEMP_TCP_PCB_LISTEN = 3"
definition MEMP_TCP_SEG :: nat where "MEMP_TCP_SEG = 4"
definition MEMP_REASSDATA :: nat where "MEMP_REASSDATA = 5"
definition MEMP_FRAG_PBUF :: nat where "MEMP_FRAG_PBUF = 6"
definition MEMP_ARP_QUEUE :: nat where "MEMP_ARP_QUEUE = 7"
definition MEMP_PBUF :: nat where "MEMP_PBUF = 8"
definition MEMP_PBUF_POOL :: nat where "MEMP_PBUF_POOL = 9"
definition MEMP_MAX :: nat where "MEMP_MAX = 10"

definition SIZEOF_STRUCT_PBUF :: u32 where "SIZEOF_STRUCT_PBUF = LWIP_MEM_ALIGN_SIZE 16"
definition PBUF_POOL_BUFSIZE_ALIGNED :: u32 where "PBUF_POOL_BUFSIZE_ALIGNED = LWIP_MEM_ALIGN_SIZE 1700"

text \<open>
  What the compiler and the linker choose: the sizes of the structs in the first eight pools, and where
  the arrays of the ten pools lie.
\<close>

record layout =
  struct_sizes :: "u32 list"
  memp_bases :: "u32 list"

definition memp_sizes :: "layout \<Rightarrow> u16 list" where
  "memp_sizes lay = map (\<lambda>n. ucast (LWIP_MEM_ALIGN_SIZE n))
     (struct_sizes lay @ [SIZEOF_STRUCT_PBUF + LWIP_MEM_ALIGN_SIZE 0, SIZEOF_STRUCT_PBUF + PBUF_POOL_BUFSIZE_ALIGNED])"

definition memp_num :: "u16 list" where
  "memp_num = [4, 4, 32, 8, 256, 5, 256, 30, 16, 256]"

text \<open>\<open>links\<close> is the first word of every element that was linked.\<close>

record pools =
  memp_tab :: "u32 list"
  links :: "u32 \<rightharpoonup> u32"
  memp_stats :: "stats_mem list"

type_synonym 'a mp = "(pools, 'a) prog"

section \<open>Operations\<close>

text \<open>The inner loop of \<open>memp_init\<close>: \<open>k\<close> elements from \<open>memp\<close> on are put in front of the list.\<close>

primrec carve :: "nat \<Rightarrow> u32 \<Rightarrow> u32 \<Rightarrow> nat \<Rightarrow> pools \<Rightarrow> pools" where
  "carve i sz memp 0 s = s"
| "carve i sz memp (Suc k) s =
     carve i sz (memp + sz) k (s\<lparr>links := (links s)(memp \<mapsto> memp_tab s ! i), memp_tab := (memp_tab s)[i := memp]\<rparr>)"

definition memp_avail :: "nat \<Rightarrow> pools \<Rightarrow> pools" where
  "memp_avail i s = s\<lparr>memp_stats := (memp_stats s)[i := (memp_stats s ! i)
     \<lparr>st_used := 0, st_max := 0, st_err := 0, st_avail := ucast (memp_num ! i)\<rparr>]\<rparr>"

text \<open>One turn of the outer loop: the list of pool \<open>i\<close> is emptied and its array carved.\<close>

definition carve_pool :: "layout \<Rightarrow> nat \<Rightarrow> pools \<Rightarrow> pools" where
  "carve_pool lay i s =
     carve i (ucast (memp_sizes lay ! i)) (memp_bases lay ! i) (unat (memp_num ! i)) (s\<lparr>memp_tab := (memp_tab s)[i := 0]\<rparr>)"

definition memp_init :: "layout \<Rightarrow> unit mp" where
  "memp_init lay s = ret ()
     (fold (carve_pool lay) [0..<MEMP_MAX] (fold memp_avail [0..<MEMP_MAX] s))"

definition memp_stat :: "nat \<Rightarrow> (stats_mem \<Rightarrow> stats_mem) \<Rightarrow> pools \<Rightarrow> pools" where
  "memp_stat i f s = s\<lparr>memp_stats := (memp_stats s)[i := f (memp_stats s ! i)]\<rparr>"

definition memp_malloc :: "nat \<Rightarrow> u32 mp" where
  "memp_malloc type s =
     (if type \<ge> MEMP_MAX then ret 0 s
      else let memp = memp_tab s ! type in
        if memp \<noteq> 0 then
          case links s memp of
            None \<Rightarrow> fail OutOfBounds s
          | Some next \<Rightarrow> ret memp (memp_stat type (inc_used 1) (s\<lparr>memp_tab := (memp_tab s)[type := next]\<rparr>))
        else ret 0 (memp_stat type inc_err s))"

definition memp_free :: "nat \<Rightarrow> u32 \<Rightarrow> unit mp" where
  "memp_free type mem s =
     (if mem = 0 then ret () s
      else if type \<ge> MEMP_MAX then fail OutOfBounds s
      else let s = memp_stat type (dec_used 1) s in
        ret () (s\<lparr>links := (links s)(mem \<mapsto> memp_tab s ! type), memp_tab := (memp_tab s)[type := mem]\<rparr>))"

section \<open>Elements and free lists\<close>

definition elem_size :: "layout \<Rightarrow> nat \<Rightarrow> nat" where
  "elem_size lay i = unat (memp_sizes lay ! i)"

definition pool_elems :: "layout \<Rightarrow> nat \<Rightarrow> u32 list" where
  "pool_elems lay i = map (\<lambda>j. memp_bases lay ! i + of_nat j * of_nat (elem_size lay i)) [0..<unat (memp_num ! i)]"

definition pool_end :: "layout \<Rightarrow> nat \<Rightarrow> nat" where
  "pool_end lay i = unat (memp_bases lay ! i) + unat (memp_num ! i) * elem_size lay i"

text \<open>The arrays lie apart, none at the null pointer, and an element has room for its link.\<close>

definition layout_ok :: "layout \<Rightarrow> bool" where
  "layout_ok lay \<longleftrightarrow> length (struct_sizes lay) = 8 \<and> length (memp_bases lay) = 10
     \<and> (\<forall>i<10. memp_bases lay ! i \<noteq> 0 \<and> 4 \<le> elem_size lay i \<and> pool_end lay i \<le> 2 ^ 32)
     \<and> (\<forall>i<10. \<forall>j<10. i \<noteq> j \<longrightarrow> pool_end lay i \<le> unat (memp_bases lay ! j) \<or> pool_end lay j \<le> unat (memp_bases lay ! i))"

primrec free_list :: "(u32 \<rightharpoonup> u32) \<Rightarrow> u32 \<Rightarrow> u32 list \<Rightarrow> bool" where
  "free_list l p [] \<longleftrightarrow> p = 0"
| "free_list l p (x # xs) \<longleftrightarrow> p = x \<and> x \<noteq> 0 \<and> (\<exists>n. l x = Some n \<and> free_list l n xs)"

text \<open>The pool \<open>i\<close> has the elements \<open>live\<close> in use; the others are its free list.\<close>

definition pool_live :: "layout \<Rightarrow> nat \<Rightarrow> pools \<Rightarrow> (u32 \<rightharpoonup> nat) \<Rightarrow> bool" where
  "pool_live lay i s live \<longleftrightarrow> layout_ok lay \<and> i < 10 \<and> length (memp_tab s) = 10 \<and> length (memp_stats s) = 10
     \<and> (\<exists>free. free_list (links s) (memp_tab s ! i) free \<and> distinct free
          \<and> set free \<union> dom live = set (pool_elems lay i) \<and> set free \<inter> dom live = {})
     \<and> ran live \<subseteq> {elem_size lay i} \<and> st_used (memp_stats s ! i) = of_nat (card (dom live))"

lemma MEMP_MAX_eq [simp]: "MEMP_MAX = 10" by (simp add: MEMP_MAX_def)

lemma memp_stat_simps [simp]: "links (memp_stat i f s) = links s" "memp_tab (memp_stat i f s) = memp_tab s"
  by (simp_all add: memp_stat_def)

lemma free_list_cong: "(\<And>x. x \<in> set xs \<Longrightarrow> l' x = l x) \<Longrightarrow> free_list l' p xs = free_list l p xs"
  by (induction xs arbitrary: p) auto

lemma free_list_upd [simp]: "x \<notin> set xs \<Longrightarrow> free_list (l(x \<mapsto> n)) p xs = free_list l p xs"
  by (rule free_list_cong) auto

lemma free_list_null: "free_list l 0 xs \<longleftrightarrow> xs = []" by (cases xs) auto

lemma free_list_hd: "free_list l p xs \<Longrightarrow> p \<noteq> 0 \<Longrightarrow> \<exists>n ys. xs = p # ys \<and> l p = Some n \<and> free_list l n ys"
  by (cases xs) auto

lemma elem_unat:
  assumes "layout_ok lay" "i < 10" "j < unat (memp_num ! i)"
  shows "unat (memp_bases lay ! i + of_nat j * of_nat (elem_size lay i)) = unat (memp_bases lay ! i) + j * elem_size lay i"
proof -
  have e: "unat (memp_bases lay ! i) + unat (memp_num ! i) * elem_size lay i \<le> 2 ^ 32" "4 \<le> elem_size lay i"
    using assms by (simp_all add: layout_ok_def pool_end_def)
  have "Suc j * elem_size lay i \<le> unat (memp_num ! i) * elem_size lay i" using assms(3) by (intro mult_le_mono1) simp
  then have b: "unat (memp_bases lay ! i) + j * elem_size lay i < 2 ^ 32" using e by simp
  have "of_nat j * of_nat (elem_size lay i) = (of_nat (j * elem_size lay i) :: u32)" by simp
  moreover have "unat (of_nat (j * elem_size lay i) :: u32) = j * elem_size lay i" by (rule unat_of_nat32) (use b in simp)
  ultimately show ?thesis using b by (subst unat_plus) (simp_all del: of_nat_mult)
qed

lemma elemE:
  assumes "layout_ok lay" "i < 10" "p \<in> set (pool_elems lay i)"
  obtains j where "j < unat (memp_num ! i)" "unat p = unat (memp_bases lay ! i) + j * elem_size lay i"
    "unat p + elem_size lay i \<le> pool_end lay i" "p \<noteq> 0"
proof -
  obtain j where j: "j < unat (memp_num ! i)" "p = memp_bases lay ! i + of_nat j * of_nat (elem_size lay i)"
    using assms(3) by (auto simp: pool_elems_def)
  then have u: "unat p = unat (memp_bases lay ! i) + j * elem_size lay i" using elem_unat assms(1,2) by simp
  have "Suc j * elem_size lay i \<le> unat (memp_num ! i) * elem_size lay i" using j(1) by (intro mult_le_mono1) simp
  then have "unat p + elem_size lay i \<le> pool_end lay i" using u by (simp add: pool_end_def)
  moreover have "p \<noteq> 0"
  proof -
    have "memp_bases lay ! i \<noteq> 0" using assms(1,2) by (simp add: layout_ok_def)
    then have "0 < unat (memp_bases lay ! i)" by (simp add: unat_gt_0)
    then show ?thesis using u by (metis add_is_0 less_numeral_extra(3) unat_0)
  qed
  ultimately show thesis using that j(1) u by blast
qed

lemma elems_apart:
  assumes lay: "layout_ok lay" "i < 10" and p: "p \<in> set (pool_elems lay i)" and q: "q \<in> set (pool_elems lay i)" and ne: "p \<noteq> q"
  shows "unat p + elem_size lay i \<le> unat q \<or> unat q + elem_size lay i \<le> unat p"
proof -
  obtain j where j: "unat p = unat (memp_bases lay ! i) + j * elem_size lay i" using elemE [OF lay p] by blast
  obtain k where k: "unat q = unat (memp_bases lay ! i) + k * elem_size lay i" using elemE [OF lay q] by blast
  have "j \<noteq> k" using ne j k by (auto simp: word_unat_eq_iff)
  then consider "Suc j \<le> k" | "Suc k \<le> j" by linarith
  then show ?thesis
  proof cases
    case 1
    then have "Suc j * elem_size lay i \<le> k * elem_size lay i" by (rule mult_le_mono1)
    then show ?thesis using j k by simp
  next
    case 2
    then have "Suc k * elem_size lay i \<le> j * elem_size lay i" by (rule mult_le_mono1)
    then show ?thesis using j k by simp
  qed
qed

lemma distinct_elems: "layout_ok lay \<Longrightarrow> i < 10 \<Longrightarrow> distinct (pool_elems lay i)"
proof -
  assume lay: "layout_ok lay" "i < 10"
  then have "0 < elem_size lay i" by (auto simp: layout_ok_def)
  moreover have "inj_on (\<lambda>j. unat (memp_bases lay ! i + of_nat j * of_nat (elem_size lay i))) {0..<unat (memp_num ! i)}"
    using elem_unat [OF lay] \<open>0 < elem_size lay i\<close> by (auto simp: inj_on_def)
  then show ?thesis by (auto simp: pool_elems_def distinct_map inj_on_def)
qed

lemma pools_disjoint: "layout_ok lay \<Longrightarrow> i < 10 \<Longrightarrow> j < 10 \<Longrightarrow> i \<noteq> j \<Longrightarrow> set (pool_elems lay i) \<inter> set (pool_elems lay j) = {}"
proof (rule ccontr)
  assume lay: "layout_ok lay" and i: "i < 10" and j: "j < 10" and ne: "i \<noteq> j"
    and "set (pool_elems lay i) \<inter> set (pool_elems lay j) \<noteq> {}"
  then obtain p where p: "p \<in> set (pool_elems lay i)" "p \<in> set (pool_elems lay j)" by blast
  obtain a where a: "unat p = unat (memp_bases lay ! i) + a * elem_size lay i" "unat p + elem_size lay i \<le> pool_end lay i"
    using elemE [OF lay i p(1)] by blast
  obtain b where b: "unat p = unat (memp_bases lay ! j) + b * elem_size lay j" "unat p + elem_size lay j \<le> pool_end lay j"
    using elemE [OF lay j p(2)] by blast
  have sz: "4 \<le> elem_size lay i" "4 \<le> elem_size lay j" using lay i j unfolding layout_ok_def by blast+
  have "pool_end lay i \<le> unat (memp_bases lay ! j) \<or> pool_end lay j \<le> unat (memp_bases lay ! i)"
    using lay i j ne unfolding layout_ok_def by blast
  then show False using a b sz by linarith
qed

section \<open>A pool as an allocator\<close>

lemma pool_frame:
  assumes "pool_live lay i s live" and "\<And>p. p \<in> set (pool_elems lay i) \<Longrightarrow> p \<notin> dom live \<Longrightarrow> links s' p = links s p"
    and "memp_tab s' ! i = memp_tab s ! i" "length (memp_tab s') = length (memp_tab s)"
    and "memp_stats s' ! i = memp_stats s ! i" "length (memp_stats s') = length (memp_stats s)"
  shows "pool_live lay i s' live"
proof -
  obtain free where f: "free_list (links s) (memp_tab s ! i) free" "distinct free"
      "set free \<union> dom live = set (pool_elems lay i)" "set free \<inter> dom live = {}"
    using assms(1) by (auto simp: pool_live_def)
  have "free_list (links s') (memp_tab s' ! i) free"
    using f(1) assms(2,3) f(3,4) by (subst free_list_cong [where l = "links s"]) auto
  then show ?thesis using assms f unfolding pool_live_def by metis
qed

lemma memp_malloc_runs:
  assumes inv: "pool_live lay i s live"
  shows "\<exists>p s'. memp_malloc i s = ret p s' \<and> links s' = links s
    \<and> (\<forall>j live'. j \<noteq> i \<longrightarrow> pool_live lay j s live' \<longrightarrow> pool_live lay j s' live')
    \<and> (if p = 0 then pool_live lay i s' live \<and> dom live = set (pool_elems lay i)
       else live p = None \<and> pool_live lay i s' (live(p \<mapsto> elem_size lay i)))"
proof -
  obtain free where f: "free_list (links s) (memp_tab s ! i) free" "distinct free"
      "set free \<union> dom live = set (pool_elems lay i)" "set free \<inter> dom live = {}" and i: "i < 10"
      and len: "length (memp_tab s) = 10" "length (memp_stats s) = 10" and lay: "layout_ok lay"
      and rest: "ran live \<subseteq> {elem_size lay i}" "st_used (memp_stats s ! i) = of_nat (card (dom live))"
    using inv by (auto simp: pool_live_def)
  show ?thesis
  proof (cases "memp_tab s ! i = 0")
    case True
    then have "free = []" using f(1) by (simp add: free_list_null)
    then have "dom live = set (pool_elems lay i)" using f by simp
    moreover have "memp_malloc i s = ret 0 (memp_stat i inc_err s)" using True i by (simp add: memp_malloc_def)
    moreover have "pool_live lay j (memp_stat i inc_err s) live'" if "pool_live lay j s live'" "j \<noteq> i" for j live'
      by (rule pool_frame [OF that(1)]) (use that(2) in \<open>simp_all add: memp_stat_def\<close>)
    moreover have "pool_live lay i (memp_stat i inc_err s) live"
      using inv i len by (auto simp: pool_live_def memp_stat_def inc_err_def)
    ultimately show ?thesis by (intro exI [of _ 0] exI [of _ "memp_stat i inc_err s"]) auto
  next
    case False
    let ?p = "memp_tab s ! i"
    obtain n ys where n: "free = ?p # ys" "links s ?p = Some n" "free_list (links s) n ys"
      using free_list_hd [OF f(1) False] by blast
    let ?s = "memp_stat i (inc_used 1) (s\<lparr>memp_tab := (memp_tab s)[i := n]\<rparr>)"
    have run: "memp_malloc i s = ret ?p ?s" using False n(2) i by (simp add: memp_malloc_def)
    have new: "?p \<notin> dom live" using f(4) n(1) by auto
    have "finite (dom live)" using f(3) by (metis List.finite_set finite_Un)
    then have card: "card (dom (live(?p \<mapsto> elem_size lay i))) = Suc (card (dom live))" using new by simp
    have used: "st_used (memp_stats ?s ! i) = of_nat (Suc (card (dom live)))"
      using i len rest by (simp add: memp_stat_def inc_used_def Let_def)
    have dom: "dom (live(?p \<mapsto> elem_size lay i)) = insert ?p (dom live)" by simp
    have "set ys \<union> insert ?p (dom live) = set (pool_elems lay i)" "set ys \<inter> insert ?p (dom live) = {}"
      using f n(1) new by auto
    then have "\<exists>free. free_list (links ?s) (memp_tab ?s ! i) free \<and> distinct free
        \<and> set free \<union> dom (live(?p \<mapsto> elem_size lay i)) = set (pool_elems lay i) \<and> set free \<inter> dom (live(?p \<mapsto> elem_size lay i)) = {}"
      using f(2) n i len unfolding dom by (intro exI [of _ ys]) (simp add: memp_stat_def)
    moreover have "ran (live(?p \<mapsto> elem_size lay i)) \<subseteq> {elem_size lay i}" using rest new by (auto simp: ran_def)
    ultimately have "pool_live lay i ?s (live(?p \<mapsto> elem_size lay i))"
      using lay i len used card unfolding pool_live_def by (simp add: memp_stat_def del: of_nat_Suc)
    moreover have "pool_live lay j ?s live'" if "pool_live lay j s live'" "j \<noteq> i" for j live'
      by (rule pool_frame [OF that(1)]) (use that(2) in \<open>simp_all add: memp_stat_def\<close>)
    ultimately show ?thesis using run False new by (intro exI [of _ ?p] exI [of _ ?s]) (auto simp: memp_stat_def)
  qed
qed

lemma memp_free_runs:
  assumes inv: "pool_live lay i s live" and p: "live p = Some n"
  shows "\<exists>s'. memp_free i p s = ret () s' \<and> links s' = (links s)(p \<mapsto> memp_tab s ! i)
    \<and> (\<forall>j live'. j \<noteq> i \<longrightarrow> pool_live lay j s live' \<longrightarrow> pool_live lay j s' live')
    \<and> pool_live lay i s' (live(p := None))"
proof -
  obtain free where f: "free_list (links s) (memp_tab s ! i) free" "distinct free"
      "set free \<union> dom live = set (pool_elems lay i)" "set free \<inter> dom live = {}" and i: "i < 10"
      and len: "length (memp_tab s) = 10" "length (memp_stats s) = 10" and lay: "layout_ok lay"
      and rest: "ran live \<subseteq> {elem_size lay i}" "st_used (memp_stats s ! i) = of_nat (card (dom live))"
    using inv by (auto simp: pool_live_def)
  have el: "p \<in> set (pool_elems lay i)" and new: "p \<notin> set free" using f(3,4) p by auto
  have p0: "p \<noteq> 0" using elemE [OF lay i el] by blast
  let ?t = "memp_stat i (dec_used 1) s"
  let ?s = "?t\<lparr>links := (links s)(p \<mapsto> memp_tab s ! i), memp_tab := (memp_tab s)[i := p]\<rparr>"
  have run: "memp_free i p s = ret () ?s" using p0 i by (simp add: memp_free_def Let_def memp_stat_def)
  have fin: "finite (dom live)" using f(3) by (metis List.finite_set finite_Un)
  have dom: "dom (live(p := None)) = dom live - {p}" by auto
  have "card (dom live) = Suc (card (dom live - {p}))" using fin p by (intro card.remove) auto
  then have used: "st_used (memp_stats ?s ! i) = of_nat (card (dom (live(p := None))))"
    using i len rest(2) unfolding dom by (simp add: memp_stat_def dec_used_def)
  have fl: "free_list (links ?s) p (p # free)" using f(1) new p0 by simp
  have "set (p # free) \<union> (dom live - {p}) = set (pool_elems lay i)" "set (p # free) \<inter> (dom live - {p}) = {}"
    using f(3,4) el by auto
  then have "\<exists>free. free_list (links ?s) (memp_tab ?s ! i) free \<and> distinct free
      \<and> set free \<union> dom (live(p := None)) = set (pool_elems lay i) \<and> set free \<inter> dom (live(p := None)) = {}"
    using f(2) new fl i len unfolding dom by (intro exI [of _ "p # free"]) simp
  moreover have "ran (live(p := None)) \<subseteq> {elem_size lay i}" using rest(1) by (auto simp: ran_def)
  ultimately have "pool_live lay i ?s (live(p := None))"
    using lay i len used unfolding pool_live_def by (simp add: memp_stat_def)
  moreover have "pool_live lay j ?s live'" if live': "pool_live lay j s live'" and j: "j \<noteq> i" for j live'
  proof (rule pool_frame [OF live'])
    fix q assume "q \<in> set (pool_elems lay j)"
    moreover have "j < 10" using live' by (simp add: pool_live_def)
    ultimately have "q \<noteq> p" using pools_disjoint [OF lay i, of j] j el by auto
    then show "links ?s q = links s q" by simp
  qed (use j in \<open>simp_all add: memp_stat_def\<close>)
  ultimately show ?thesis using run by (intro exI [of _ ?s]) auto
qed

lemma pool_elemD:
  assumes "pool_live lay i s live" "live p = Some n"
  shows "p \<in> set (pool_elems lay i)" "n = elem_size lay i" "layout_ok lay" "i < 10"
  using assms by (auto simp: pool_live_def ran_def)

interpretation memp: allocator "pool_live lay i" "\<lambda>_ :: unit. True" "\<lambda>_. elem_size lay i" "\<lambda>_. memp_malloc i" "memp_free i" for lay i
proof unfold_locales
  fix s live and r :: unit assume "pool_live lay i s live"
  from memp_malloc_runs [OF this] obtain p s' where "memp_malloc i s = ret p s'"
      "if p = 0 then pool_live lay i s' live \<and> dom live = set (pool_elems lay i)
       else live p = None \<and> pool_live lay i s' (live(p \<mapsto> elem_size lay i))" by blast
  then show "\<exists>p s'. memp_malloc i s = ret p s' \<and>
      (if p = 0 then pool_live lay i s' live else live p = None \<and> pool_live lay i s' (live(p \<mapsto> elem_size lay i)))"
    by (intro exI [of _ p] exI [of _ s']) (auto split: if_splits)
next
  fix s live p and n :: nat assume "pool_live lay i s live" "live p = Some n"
  then show "\<exists>s'. memp_free i p s = ret () s' \<and> pool_live lay i s' (live(p := None))" using memp_free_runs by blast
next
  fix s live p q and m n :: nat assume "pool_live lay i s live" "live p = Some m" "live q = Some n" "p \<noteq> q"
  then show "unat p + m \<le> unat q \<or> unat q + n \<le> unat p"
    using elems_apart [of lay i p q] pool_elemD [of lay i s live p m] pool_elemD [of lay i s live q n] by simp
next
  fix s live p and m :: nat assume a: "pool_live lay i s live" "live p = Some m"
  note e = pool_elemD [OF a]
  obtain j where "unat p + elem_size lay i \<le> pool_end lay i" "p \<noteq> 0" using elemE [OF e(3,4,1)] by blast
  moreover have "pool_end lay i \<le> 2 ^ 32" using e(3,4) by (simp add: layout_ok_def)
  ultimately show "p \<noteq> 0 \<and> unat p + m \<le> 2 ^ 32" using e(2) by simp
qed

section \<open>Initialisation\<close>

lemma carve_frame:
  "j \<noteq> i \<Longrightarrow> memp_tab (carve i sz memp k s) ! j = memp_tab s ! j"
  "length (memp_tab (carve i sz memp k s)) = length (memp_tab s)"
  "memp_stats (carve i sz memp k s) = memp_stats s"
  by (induction k arbitrary: memp s) auto

lemma carve_links:
  "p \<notin> (\<lambda>j. memp + of_nat j * sz) ` {0..<k} \<Longrightarrow> links (carve i sz memp k s) p = links s p"
proof (induction k arbitrary: memp s)
  case (Suc k)
  have "p \<noteq> memp" using Suc.prems by (auto simp: image_iff dest: bspec [of _ _ 0])
  moreover have "p \<notin> (\<lambda>j. (memp + sz) + of_nat j * sz) ` {0..<k}"
  proof
    assume "p \<in> (\<lambda>j. (memp + sz) + of_nat j * sz) ` {0..<k}"
    then obtain j where "j < k" "p = memp + of_nat (Suc j) * sz" by (auto simp: algebra_simps)
    then have "p \<in> (\<lambda>j. memp + of_nat j * sz) ` {0..<Suc k}" by (intro image_eqI [of _ _ "Suc j"]) simp_all
    then show False using Suc.prems by blast
  qed
  ultimately show ?case using Suc.IH by simp
qed simp

lemma carve_free:
  assumes "i < length (memp_tab s)"
  shows "free_list (links s) (memp_tab s ! i) free \<Longrightarrow>
     distinct (map (\<lambda>j. memp + of_nat j * sz) [0..<k]) \<Longrightarrow> 0 \<notin> (\<lambda>j. memp + of_nat j * sz) ` {0..<k} \<Longrightarrow>
     set free \<inter> (\<lambda>j. memp + of_nat j * sz) ` {0..<k} = {} \<Longrightarrow>
     free_list (links (carve i sz memp k s)) (memp_tab (carve i sz memp k s) ! i) (rev (map (\<lambda>j. memp + of_nat j * sz) [0..<k]) @ free)"
  using assms
proof (induction k arbitrary: memp s free)
  case (Suc k)
  let ?s = "s\<lparr>links := (links s)(memp \<mapsto> memp_tab s ! i), memp_tab := (memp_tab s)[i := memp]\<rparr>"
  have step: "map (\<lambda>j. memp + of_nat j * sz) [0..<Suc k] = memp # map (\<lambda>j. (memp + sz) + of_nat j * sz) [0..<k]"
  proof -
    have "[0..<Suc k] = 0 # map Suc [0..<k]" by (simp add: upt_conv_Cons map_Suc_upt del: upt_Suc)
    then show ?thesis by (simp add: algebra_simps del: upt_Suc)
  qed
  have im: "(\<lambda>j. memp + of_nat j * sz) ` {0..<Suc k} = insert memp ((\<lambda>j. (memp + sz) + of_nat j * sz) ` {0..<k})"
    using arg_cong [OF step, of set] by (simp del: upt_Suc add: atLeast0LessThan)
  note prems = Suc.prems(1) Suc.prems(2) [unfolded step] Suc.prems(3,4) [unfolded im] Suc.prems(5)
  have new: "memp \<notin> set free" "memp \<noteq> 0" using prems by auto
  have fl: "free_list (links ?s) (memp_tab ?s ! i) (memp # free)"
    using prems new by simp
  have "free_list (links (carve i sz (memp + sz) k ?s)) (memp_tab (carve i sz (memp + sz) k ?s) ! i)
      (rev (map (\<lambda>j. (memp + sz) + of_nat j * sz) [0..<k]) @ memp # free)"
    by (rule Suc.IH [OF fl]) (use prems in auto)
  then show ?case unfolding step by simp
qed simp

lemma carve_pool_elems:
  "pool_elems lay i = map (\<lambda>j. memp_bases lay ! i + of_nat j * ucast (memp_sizes lay ! i)) [0..<unat (memp_num ! i)]"
  by (simp add: pool_elems_def elem_size_def)

lemma carve_pool_live:
  assumes lay: "layout_ok lay" and i: "i < 10" and len: "length (memp_tab s) = 10" "length (memp_stats s) = 10"
    and used: "st_used (memp_stats s ! i) = 0"
  shows "pool_live lay i (carve_pool lay i s) Map.empty"
proof -
  let ?es = "pool_elems lay i"
  have img: "(\<lambda>j. memp_bases lay ! i + of_nat j * ucast (memp_sizes lay ! i)) ` {0..<unat (memp_num ! i)} = set ?es"
    by (simp add: carve_pool_elems)
  have "0 \<notin> set ?es" using elemE [OF lay i, of 0] by blast
  then have "free_list (links (carve_pool lay i s)) (memp_tab (carve_pool lay i s) ! i) (rev ?es @ [])"
    unfolding carve_pool_def carve_pool_elems using i len distinct_elems [OF lay i]
    by (intro carve_free) (simp_all add: carve_pool_elems)
  then show ?thesis using lay i len used distinct_elems [OF lay i]
    by (auto simp: pool_live_def carve_pool_def carve_frame intro!: exI [of _ "rev ?es"])
qed

lemma carve_pool_keeps:
  assumes live: "pool_live lay i s live" and j: "j < 10" "j \<noteq> i"
  shows "pool_live lay i (carve_pool lay j s) live"
proof (rule pool_frame [OF live])
  have lay: "layout_ok lay" "i < 10" using live by (simp_all add: pool_live_def)
  fix p assume "p \<in> set (pool_elems lay i)"
  then have "p \<notin> set (pool_elems lay j)" using pools_disjoint [OF lay(1,2), of j] j by auto
  then show "links (carve_pool lay j s) p = links s p"
    unfolding carve_pool_def carve_pool_elems by (subst carve_links) simp_all
qed (use j in \<open>simp_all add: carve_pool_def carve_frame\<close>)

lemma memp_init_live:
  assumes lay: "layout_ok lay" and len: "length (memp_tab s) = 10" "length (memp_stats s) = 10"
  shows "\<exists>s'. memp_init lay s = ret () s' \<and> (\<forall>i<10. pool_live lay i s' Map.empty)"
proof -
  have avail: "length (memp_tab (fold memp_avail [0..<n] s)) = 10 \<and> length (memp_stats (fold memp_avail [0..<n] s)) = 10
      \<and> (\<forall>i<n. st_used (memp_stats (fold memp_avail [0..<n] s) ! i) = 0)" if "n \<le> 10" for n
    using that by (induction n) (auto simp: memp_avail_def len nth_list_update less_Suc_eq)
  let ?s = "fold memp_avail [0..<10] s"
  have "(\<forall>i<n. pool_live lay i (fold (carve_pool lay) [0..<n] ?s) Map.empty)
      \<and> length (memp_tab (fold (carve_pool lay) [0..<n] ?s)) = 10 \<and> memp_stats (fold (carve_pool lay) [0..<n] ?s) = memp_stats ?s"
    if "n \<le> 10" for n
    using that
  proof (induction n)
    case (Suc n)
    let ?t = "fold (carve_pool lay) [0..<n] ?s"
    have IH: "\<forall>i<n. pool_live lay i ?t Map.empty" "length (memp_tab ?t) = 10" "memp_stats ?t = memp_stats ?s"
      using Suc by simp_all
    have "pool_live lay n (carve_pool lay n ?t) Map.empty"
      using Suc.prems IH avail [of 10] lay by (intro carve_pool_live) simp_all
    moreover have "\<forall>i<n. pool_live lay i (carve_pool lay n ?t) Map.empty"
      using IH(1) Suc.prems by (auto intro: carve_pool_keeps)
    moreover have "length (memp_tab (carve_pool lay n ?t)) = length (memp_tab ?t)" "memp_stats (carve_pool lay n ?t) = memp_stats ?t"
      by (simp_all add: carve_pool_def carve_frame)
    ultimately show ?case using IH by (auto simp: less_Suc_eq)
  qed (use avail [of 10] in simp)
  from this [of 10] have "\<forall>i<10. pool_live lay i (fold (carve_pool lay) [0..<10] ?s) Map.empty" by blast
  moreover have "memp_init lay s = ret () (fold (carve_pool lay) [0..<10] ?s)" by (simp only: memp_init_def MEMP_MAX_eq)
  ultimately show ?thesis by blast
qed

end
