(* ===== verification/Pbuf.thy ===== *)
theory Pbuf
  imports Lwip_Memp
begin

text \<open>
  Packet buffers (\<open>core/pbuf.c\<close>), over the heap and the pools they are allocated from. The first word of
  a packet buffer is its \<open>next\<close> pointer, and lies where a pool keeps the link of a free element; the
  other fields stay in memory when a pool takes an element back.
\<close>

section \<open>The memory of the stack\<close>

record pbuf_s =
  p_payload :: u32
  p_tot_len :: u16
  p_len :: u16
  p_type :: u8
  p_flags :: u8
  p_ref :: u16

text \<open>The static arrays of the pools start out as zero.\<close>

definition zero_pbuf :: pbuf_s where
  "zero_pbuf = \<lparr>p_payload = 0, p_tot_len = 0, p_len = 0, p_type = 0, p_flags = 0, p_ref = 0\<rparr>"

record net =
  nheap :: heap
  npools :: pools
  pbs :: "u32 \<rightharpoonup> pbuf_s"
  octs :: "u32 \<Rightarrow> u8"

type_synonym 'a np = "(net, 'a) prog"

definition PBUF_RAM :: u8 where "PBUF_RAM = 0"
definition PBUF_ROM :: u8 where "PBUF_ROM = 1"
definition PBUF_REF :: u8 where "PBUF_REF = 2"
definition PBUF_POOL :: u8 where "PBUF_POOL = 3"

definition PBUF_TRANSPORT :: u8 where "PBUF_TRANSPORT = 0"
definition PBUF_IP :: u8 where "PBUF_IP = 1"
definition PBUF_LINK :: u8 where "PBUF_LINK = 2"
definition PBUF_RAW :: u8 where "PBUF_RAW = 3"

definition PBUF_FLAG_IS_CUSTOM :: u8 where "PBUF_FLAG_IS_CUSTOM = 2"

text \<open>Reads and writes of fields; a null pointer and a place where no packet buffer was written fault.\<close>

definition get_pb :: "u32 \<Rightarrow> pbuf_s np" where
  "get_pb p s = (if p = 0 then fail NullDeref s else case pbs s p of None \<Rightarrow> fail OutOfBounds s | Some b \<Rightarrow> ret b s)"

definition upd_pb :: "u32 \<Rightarrow> (pbuf_s \<Rightarrow> pbuf_s) \<Rightarrow> unit np" where
  "upd_pb p f = bnd (get_pb p) (\<lambda>b s. ret () (s\<lparr>pbs := (pbs s)(p \<mapsto> f b)\<rparr>))"

definition get_next :: "u32 \<Rightarrow> u32 np" where
  "get_next p s = (if p = 0 then fail NullDeref s else case links (npools s) p of None \<Rightarrow> fail OutOfBounds s | Some n \<Rightarrow> ret n s)"

definition set_next :: "u32 \<Rightarrow> u32 \<Rightarrow> unit np" where
  "set_next p n s = (if p = 0 then fail NullDeref s else ret () (s\<lparr>npools := npools s\<lparr>links := (links (npools s))(p \<mapsto> n)\<rparr>\<rparr>))"

text \<open>Writes into fresh memory keep the fields they do not write.\<close>

definition init_pb :: "u32 \<Rightarrow> (pbuf_s \<Rightarrow> pbuf_s) \<Rightarrow> unit np" where
  "init_pb p f s = ret () (s\<lparr>pbs := (pbs s)(p \<mapsto> f (case pbs s p of None \<Rightarrow> zero_pbuf | Some b \<Rightarrow> b))\<rparr>)"

definition on_heap :: "'a hp \<Rightarrow> 'a np" where
  "on_heap m s = (case m (nheap s) of
     None \<Rightarrow> None | Some (Inl e) \<Rightarrow> Some (Inl e) | Some (Inr (a, h)) \<Rightarrow> ret a (s\<lparr>nheap := h\<rparr>))"

definition on_pools :: "'a mp \<Rightarrow> 'a np" where
  "on_pools m s = (case m (npools s) of
     None \<Rightarrow> None | Some (Inl e) \<Rightarrow> Some (Inl e) | Some (Inr (a, q)) \<Rightarrow> ret a (s\<lparr>npools := q\<rparr>))"

text \<open>What goes back to the heap is no packet buffer any more.\<close>

definition drop_pb :: "u32 \<Rightarrow> unit np" where
  "drop_pb p s = ret () (s\<lparr>pbs := (pbs s)(p := None), npools := npools s\<lparr>links := (links (npools s))(p := None)\<rparr>\<rparr>)"

definition MEMCPY :: "u32 \<Rightarrow> u32 \<Rightarrow> u32 \<Rightarrow> unit np" where
  "MEMCPY dst src n s = ret () (s\<lparr>octs := (\<lambda>a. if a - dst < n then octs s (src + (a - dst)) else octs s a)\<rparr>)"

definition get_oct :: "u32 \<Rightarrow> u8 np" where
  "get_oct a s = ret (octs s a) s"

section \<open>Release\<close>

text \<open>\<open>cf\<close> is what the free functions of custom packet buffers do, known by the buffer they are called with.\<close>

definition release :: "(u32 \<Rightarrow> unit np) \<Rightarrow> u32 \<Rightarrow> pbuf_s \<Rightarrow> unit np" where
  "release cf p b =
     (if p_flags b AND PBUF_FLAG_IS_CUSTOM \<noteq> 0 then cf p
      else if p_type b = PBUF_POOL then on_pools (memp_free MEMP_PBUF_POOL p)
      else if p_type b = PBUF_ROM \<or> p_type b = PBUF_REF then on_pools (memp_free MEMP_PBUF p)
      else block [drop_pb p, on_heap (mem_free p)])"

partial_function (option) free_loop :: "(u32 \<Rightarrow> unit np) \<Rightarrow> u32 \<Rightarrow> u8 \<Rightarrow> u8 np" where
  "free_loop cf p count s =
     (if p = 0 then ret count
      else bnd (upd_pb p (\<lambda>b. b\<lparr>p_ref := p_ref b - 1\<rparr>)) (\<lambda>_. bnd (get_pb p) (\<lambda>b.
        if p_ref b = 0
        then bnd (get_next p) (\<lambda>q. bnd (release cf p b) (\<lambda>_. free_loop cf q (count + 1)))
        else ret count))) s"

definition pbuf_free :: "(u32 \<Rightarrow> unit np) \<Rightarrow> u32 \<Rightarrow> u8 np" where
  "pbuf_free cf p = free_loop cf p 0"

section \<open>Allocation\<close>

definition header_offset :: "u8 \<Rightarrow> u16 option" where
  "header_offset layer =
     (if layer = PBUF_TRANSPORT then Some (20 + 20 + 16) else if layer = PBUF_IP then Some (20 + 16)
      else if layer = PBUF_LINK then Some 16 else if layer = PBUF_RAW then Some 0 else None)"

text \<open>The rest of a chain: \<open>r\<close> is its last buffer, \<open>p\<close> its first one. Null when the pool is empty.\<close>

partial_function (option) alloc_tail :: "(u32 \<Rightarrow> unit np) \<Rightarrow> u32 \<Rightarrow> u32 \<Rightarrow> s32 \<Rightarrow> u32 np" where
  "alloc_tail cf p r rem_len s =
     (if sint rem_len > 0
      then bnd (on_pools (memp_malloc MEMP_PBUF_POOL)) (\<lambda>q.
        if q = 0 then bnd (pbuf_free cf p) (\<lambda>_. ret 0)
        else let n = (if unat (ucast rem_len :: u16) < unat PBUF_POOL_BUFSIZE_ALIGNED then ucast rem_len else ucast PBUF_POOL_BUFSIZE_ALIGNED) :: u16 in
          bnd (block [
            init_pb q (\<lambda>b. b\<lparr>p_type := PBUF_POOL, p_flags := 0\<rparr>),
            set_next q 0,
            set_next r q,
            upd_pb q (\<lambda>b. b\<lparr>p_tot_len := ucast rem_len, p_len := n, p_payload := q + SIZEOF_STRUCT_PBUF, p_ref := 1\<rparr>)])
            (\<lambda>_. alloc_tail cf p q (rem_len - ucast n)))
      else ret p) s"

definition alloc_pool :: "(u32 \<Rightarrow> unit np) \<Rightarrow> u16 \<Rightarrow> u16 \<Rightarrow> u32 np" where
  "alloc_pool cf offset len = bnd (on_pools (memp_malloc MEMP_PBUF_POOL)) (\<lambda>p.
     if p = 0 then ret 0
     else let room = PBUF_POOL_BUFSIZE_ALIGNED - LWIP_MEM_ALIGN_SIZE (ucast offset);
              n = (if unat len < unat room then len else ucast room) in
       bnd (block [
         init_pb p (\<lambda>b. b\<lparr>p_type := PBUF_POOL\<rparr>),
         set_next p 0,
         upd_pb p (\<lambda>b. b\<lparr>p_payload := LWIP_MEM_ALIGN (p + (SIZEOF_STRUCT_PBUF + ucast offset)), p_tot_len := len, p_len := n, p_ref := 1\<rparr>)])
         (\<lambda>_. alloc_tail cf p p (ucast len - ucast n)))"

definition alloc_ram :: "u16 \<Rightarrow> u16 \<Rightarrow> u32 np" where
  "alloc_ram offset len =
     bnd (on_heap (mem_malloc (LWIP_MEM_ALIGN_SIZE (SIZEOF_STRUCT_PBUF + ucast offset) + LWIP_MEM_ALIGN_SIZE (ucast len)))) (\<lambda>p.
       if p = 0 then ret 0
       else bnd (block [
         init_pb p (\<lambda>b. b\<lparr>p_payload := LWIP_MEM_ALIGN (p + SIZEOF_STRUCT_PBUF + ucast offset), p_tot_len := len, p_len := len\<rparr>),
         set_next p 0,
         upd_pb p (\<lambda>b. b\<lparr>p_type := PBUF_RAM\<rparr>)]) (\<lambda>_. ret p))"

definition alloc_ref :: "u8 \<Rightarrow> u16 \<Rightarrow> u32 np" where
  "alloc_ref type len = bnd (on_pools (memp_malloc MEMP_PBUF)) (\<lambda>p.
     if p = 0 then ret 0
     else bnd (block [
       init_pb p (\<lambda>b. b\<lparr>p_payload := 0, p_tot_len := len, p_len := len\<rparr>),
       set_next p 0,
       upd_pb p (\<lambda>b. b\<lparr>p_type := type\<rparr>)]) (\<lambda>_. ret p))"

definition pbuf_alloc :: "(u32 \<Rightarrow> unit np) \<Rightarrow> u8 \<Rightarrow> u16 \<Rightarrow> u8 \<Rightarrow> u32 np" where
  "pbuf_alloc cf layer len type = (case header_offset layer of
     None \<Rightarrow> ret 0
   | Some offset \<Rightarrow>
       bnd (if type = PBUF_POOL then alloc_pool cf offset len
            else if type = PBUF_RAM then alloc_ram offset len
            else if type = PBUF_ROM \<or> type = PBUF_REF then alloc_ref type len
            else ret 0) (\<lambda>p.
       if p = 0 then ret 0
       else bnd (upd_pb p (\<lambda>b. b\<lparr>p_ref := 1, p_flags := 0\<rparr>)) (\<lambda>_. ret p)))"

definition pbuf_alloced_custom :: "u8 \<Rightarrow> u16 \<Rightarrow> u8 \<Rightarrow> u32 \<Rightarrow> u32 \<Rightarrow> u16 \<Rightarrow> u32 np" where
  "pbuf_alloced_custom l len type p payload_mem payload_mem_len = (case header_offset l of
     None \<Rightarrow> ret 0
   | Some offset \<Rightarrow>
       if LWIP_MEM_ALIGN_SIZE (ucast offset) + ucast len < ucast payload_mem_len then ret 0
       else bnd (block [
         set_next p 0,
         init_pb p (\<lambda>b. b\<lparr>p_payload := (if payload_mem \<noteq> 0 then LWIP_MEM_ALIGN (payload_mem + ucast offset) else 0),
           p_flags := PBUF_FLAG_IS_CUSTOM, p_len := len, p_tot_len := len, p_type := type, p_ref := 1\<rparr>)]) (\<lambda>_. ret p))"

section \<open>Length of a chain\<close>

text \<open>The buffers that stay, whose total lengths shrink; then the last one, with the length left for it.\<close>

partial_function (option) realloc_loop :: "s32 \<Rightarrow> u32 \<Rightarrow> u16 \<Rightarrow> (u32 \<times> u16) np" where
  "realloc_loop grow q rem_len s =
     bnd (get_pb q) (\<lambda>b.
       if rem_len > p_len b
       then bnd (upd_pb q (\<lambda>b. b\<lparr>p_tot_len := p_tot_len b + ucast grow\<rparr>)) (\<lambda>_.
         bnd (get_next q) (\<lambda>n. realloc_loop grow n (rem_len - p_len b)))
       else ret (q, rem_len)) s"

definition pbuf_realloc :: "(u32 \<Rightarrow> unit np) \<Rightarrow> u32 \<Rightarrow> u16 \<Rightarrow> unit np" where
  "pbuf_realloc cf p new_len = bnd (get_pb p) (\<lambda>b.
     if new_len \<ge> p_tot_len b then ret ()
     else bnd (realloc_loop (ucast new_len - ucast (p_tot_len b)) p new_len) (\<lambda>(q, rem_len).
       bnd (get_pb q) (\<lambda>b.
       bnd (if p_type b = PBUF_RAM \<and> rem_len \<noteq> p_len b
            then on_heap (mem_trim q (ucast (ucast (p_payload b - q) :: u16) + ucast rem_len)) else ret q) (\<lambda>q.
       block [
         upd_pb q (\<lambda>b. b\<lparr>p_len := rem_len, p_tot_len := rem_len\<rparr>),
         bnd (get_next q) (\<lambda>n. if n \<noteq> 0 then bnd (pbuf_free cf n) (\<lambda>_. ret ()) else ret ()),
         set_next q 0]))))"

definition pbuf_header :: "u32 \<Rightarrow> s16 \<Rightarrow> u8 np" where
  "pbuf_header p inc =
     (if inc = 0 \<or> p = 0 then ret 0
      else bnd (get_pb p) (\<lambda>b.
        let mag = (if sint inc < 0 then - inc else inc) :: u16;
            payload = p_payload b - scast inc in
        if sint inc < 0 \<and> \<not> mag \<le> p_len b then ret 1
        else
          bnd (if p_type b = PBUF_RAM \<or> p_type b = PBUF_POOL
               then if payload < p + SIZEOF_STRUCT_PBUF then ret 1
                 else bnd (upd_pb p (\<lambda>b. b\<lparr>p_payload := payload\<rparr>)) (\<lambda>_. ret 0)
               else if p_type b = PBUF_REF \<or> p_type b = PBUF_ROM
               then if sint inc < 0 \<and> mag \<le> p_len b
                 then bnd (upd_pb p (\<lambda>b. b\<lparr>p_payload := payload\<rparr>)) (\<lambda>_. ret 0) else ret 1
               else ret 1) (\<lambda>failed :: u8.
          if failed \<noteq> 0 then ret (1 :: u8)
          else bnd (upd_pb p (\<lambda>b. b\<lparr>p_len := p_len b + inc, p_tot_len := p_tot_len b + inc\<rparr>)) (\<lambda>_. ret 0))))"

partial_function (option) clen_loop :: "u32 \<Rightarrow> u8 \<Rightarrow> u8 np" where
  "clen_loop p len s = (if p = 0 then ret len else bnd (get_next p) (\<lambda>n. clen_loop n (len + 1))) s"

definition pbuf_clen :: "u32 \<Rightarrow> u8 np" where
  "pbuf_clen p = clen_loop p 0"

section \<open>Chains\<close>

definition pbuf_ref :: "u32 \<Rightarrow> unit np" where
  "pbuf_ref p = (if p \<noteq> 0 then upd_pb p (\<lambda>b. b\<lparr>p_ref := p_ref b + 1\<rparr>) else ret ())"

text \<open>To the last buffer of the first chain.\<close>

partial_function (option) cat_loop :: "u32 \<Rightarrow> u32 \<Rightarrow> u32 np" where
  "cat_loop p t s = bnd (get_next p) (\<lambda>n.
     if n \<noteq> 0
     then bnd (get_pb t) (\<lambda>bt. bnd (upd_pb p (\<lambda>b. b\<lparr>p_tot_len := p_tot_len b + p_tot_len bt\<rparr>)) (\<lambda>_. cat_loop n t))
     else ret p) s"

definition pbuf_cat :: "u32 \<Rightarrow> u32 \<Rightarrow> unit np" where
  "pbuf_cat h t =
     (if h = 0 \<or> t = 0 then ret ()
      else bnd (cat_loop h t) (\<lambda>p. bnd (get_pb t) (\<lambda>bt. block [
        upd_pb p (\<lambda>b. b\<lparr>p_tot_len := p_tot_len b + p_tot_len bt\<rparr>),
        set_next p t])))"

definition pbuf_chain :: "u32 \<Rightarrow> u32 \<Rightarrow> unit np" where
  "pbuf_chain h t = block [pbuf_cat h t, pbuf_ref t]"

definition pbuf_dechain :: "(u32 \<Rightarrow> unit np) \<Rightarrow> u32 \<Rightarrow> u32 np" where
  "pbuf_dechain cf p = bnd (get_next p) (\<lambda>q.
     bnd (if q \<noteq> 0 then bnd (get_pb p) (\<lambda>b. bnd (block [
            upd_pb q (\<lambda>bq. bq\<lparr>p_tot_len := p_tot_len b - p_len b\<rparr>),
            set_next p 0,
            upd_pb p (\<lambda>b. b\<lparr>p_tot_len := p_len b\<rparr>)]) (\<lambda>_. pbuf_free cf q))
          else ret 1) (\<lambda>tail_gone.
     ret (if tail_gone > 0 then 0 else q)))"

end
