(* ===== verification/Pbuf_Own.thy ===== *)
theory Pbuf_Own
  imports Pbuf
begin

text \<open>
  Who owns the memory of packet buffers: the invariant that ties the heap and the pools to the packet
  buffers in use, and what allocation and release do to it. The contracts of the allocators are those of
  the locale \<open>allocator\<close>.
\<close>

section \<open>Steps\<close>

lemma np_runs:
  "p \<noteq> 0 \<Longrightarrow> pbs s p = Some b \<Longrightarrow> bnd (get_pb p) f s = f b s"
  "p \<noteq> 0 \<Longrightarrow> pbs s p = Some b \<Longrightarrow> bnd (upd_pb p g) f' s = f' () (s\<lparr>pbs := (pbs s)(p \<mapsto> g b)\<rparr>)"
  "p \<noteq> 0 \<Longrightarrow> links (npools s) p = Some n \<Longrightarrow> bnd (get_next p) f'' s = f'' n s"
  "p \<noteq> 0 \<Longrightarrow> bnd (set_next p n) f' s = f' () (s\<lparr>npools := npools s\<lparr>links := (links (npools s))(p \<mapsto> n)\<rparr>\<rparr>)"
  "bnd (init_pb p g) f' s = f' () (s\<lparr>pbs := (pbs s)(p \<mapsto> g (case pbs s p of None \<Rightarrow> zero_pbuf | Some b \<Rightarrow> b))\<rparr>)"
  "bnd (drop_pb p) f' s = f' () (s\<lparr>pbs := (pbs s)(p := None), npools := npools s\<lparr>links := (links (npools s))(p := None)\<rparr>\<rparr>)"
  by (simp_all add: bnd_def ret_def get_pb_def upd_pb_def get_next_def set_next_def init_pb_def drop_pb_def)

lemma bnd_run: "m s = ret a s' \<Longrightarrow> bnd m f s = f a s'"
  by (simp add: bnd_def ret_def)

lemma np_ends:
  "p \<noteq> 0 \<Longrightarrow> pbs s p = Some b \<Longrightarrow> upd_pb p g s = ret () (s\<lparr>pbs := (pbs s)(p \<mapsto> g b)\<rparr>)"
  "p \<noteq> 0 \<Longrightarrow> set_next p n s = ret () (s\<lparr>npools := npools s\<lparr>links := (links (npools s))(p \<mapsto> n)\<rparr>\<rparr>)"
  by (simp_all add: upd_pb_def get_pb_def bnd_def ret_def set_next_def)

text \<open>The addresses of a chain.\<close>

primrec chain :: "net \<Rightarrow> u32 \<Rightarrow> u32 list \<Rightarrow> bool" where
  "chain s p [] \<longleftrightarrow> p = 0"
| "chain s p (q # qs) \<longleftrightarrow> p = q \<and> q \<noteq> 0 \<and> pbs s q \<noteq> None \<and> (\<exists>n. links (npools s) q = Some n \<and> chain s n qs)"

lemma chain_cong:
  "(\<And>q. q \<in> set qs \<Longrightarrow> links (npools s') q = links (npools s) q \<and> (pbs s' q = None \<longleftrightarrow> pbs s q = None)) \<Longrightarrow>
     chain s' p qs \<longleftrightarrow> chain s p qs"
  by (induction qs arbitrary: p) auto

lemma chain_append: "chain s p (xs @ ys) \<longleftrightarrow> (if xs = [] then chain s p ys else
    \<exists>n. chain (s\<lparr>npools := npools s\<lparr>links := (links (npools s))(last xs \<mapsto> 0)\<rparr>\<rparr>) p xs \<and> links (npools s) (last xs) = Some n \<and> chain s n ys)"
  if "distinct xs"
  using that
proof (induction xs arbitrary: p)
  case (Cons x xs)
  show ?case
  proof (cases "xs = []")
    case False
    then have "x \<noteq> last xs" using Cons.prems by auto
    then show ?thesis using Cons False by auto
  qed auto
qed simp

lemma chain_drop: "chain s p qs \<Longrightarrow> chain s (if k < length qs then qs ! k else 0) (drop k qs)"
proof (induction qs arbitrary: p k)
  case (Cons q qs)
  then obtain n where "chain s n qs" by auto
  then show ?case using Cons.IH [of n "k - 1"] Cons.prems by (cases k) auto
qed simp

section \<open>Ownership\<close>

definition heap_area :: "u32 \<Rightarrow> u32 set" where
  "heap_area r = {p. unat r \<le> unat p \<and> unat p < unat r + 131072}"

definition stack_ok :: "layout \<Rightarrow> u32 \<Rightarrow> bool" where
  "stack_ok lay r \<longleftrightarrow> layout_ok lay
     \<and> (\<forall>i<10. pool_end lay i \<le> unat r \<or> unat r + 131136 \<le> unat (memp_bases lay ! i))"

definition plain :: "pbuf_s \<Rightarrow> bool" where
  "plain b \<longleftrightarrow> p_flags b AND PBUF_FLAG_IS_CUSTOM = 0"

text \<open>\<open>live\<close> is all the memory in use, of the heap at \<open>r\<close> and of all pools.\<close>

definition net_inv :: "layout \<Rightarrow> u32 \<Rightarrow> net \<Rightarrow> (u32 \<rightharpoonup> nat) \<Rightarrow> bool" where
  "net_inv lay r s live \<longleftrightarrow> stack_ok lay r \<and> heap_uses r (nheap s) (live |` heap_area r)
     \<and> (\<forall>i<10. pool_live lay i (npools s) (live |` set (pool_elems lay i)))
     \<and> dom live \<subseteq> heap_area r \<union> (\<Union>i<10. set (pool_elems lay i))
     \<and> (\<forall>i\<in>{8, 9}. \<forall>p\<in>set (pool_elems lay i). \<forall>b. pbs s p = Some b \<longrightarrow> plain b)"

text \<open>A packet buffer lies where its type says.\<close>

definition housed :: "layout \<Rightarrow> u32 \<Rightarrow> u32 \<Rightarrow> pbuf_s \<Rightarrow> bool" where
  "housed lay r p b \<longleftrightarrow> plain b \<and>
     (p_type b = PBUF_POOL \<and> p \<in> set (pool_elems lay 9) \<or> (p_type b = PBUF_ROM \<or> p_type b = PBUF_REF) \<and> p \<in> set (pool_elems lay 8)
      \<or> p_type b = PBUF_RAM \<and> p \<in> heap_area r)"

lemma pbuf_types [simp]:
  "PBUF_RAM \<noteq> PBUF_ROM" "PBUF_RAM \<noteq> PBUF_REF" "PBUF_RAM \<noteq> PBUF_POOL" "PBUF_ROM \<noteq> PBUF_REF" "PBUF_ROM \<noteq> PBUF_POOL" "PBUF_REF \<noteq> PBUF_POOL"
  "PBUF_ROM \<noteq> PBUF_RAM" "PBUF_REF \<noteq> PBUF_RAM" "PBUF_POOL \<noteq> PBUF_RAM" "PBUF_REF \<noteq> PBUF_ROM" "PBUF_POOL \<noteq> PBUF_ROM" "PBUF_POOL \<noteq> PBUF_REF"
  by (simp_all add: PBUF_RAM_def PBUF_ROM_def PBUF_REF_def PBUF_POOL_def)

lemma heap_pools_disjoint: "stack_ok lay r \<Longrightarrow> i < 10 \<Longrightarrow> p \<in> heap_area r \<Longrightarrow> p \<notin> set (pool_elems lay i)"
proof
  assume ok: "stack_ok lay r" and i: "i < 10" and p: "p \<in> heap_area r" "p \<in> set (pool_elems lay i)"
  have lay: "layout_ok lay" using ok by (simp add: stack_ok_def)
  obtain j where "unat p = unat (memp_bases lay ! i) + j * elem_size lay i" "unat p + elem_size lay i \<le> pool_end lay i"
    using elemE [OF lay i p(2)] by blast
  moreover have "pool_end lay i \<le> unat r \<or> unat r + 131136 \<le> unat (memp_bases lay ! i)" using ok i by (simp add: stack_ok_def)
  moreover have "4 \<le> elem_size lay i" using lay i by (simp add: layout_ok_def)
  ultimately show False using p(1) unfolding heap_area_def mem_Collect_eq by linarith
qed

lemma restrict_drop: "(live(p := None)) |` A = (if p \<in> A then (live |` A)(p := None) else live |` A)"
  by (auto simp: restrict_map_def fun_eq_iff)

lemma restrict_add: "(live(p \<mapsto> n)) |` A = (if p \<in> A then (live |` A)(p \<mapsto> n) else live |` A)"
  by (auto simp: restrict_map_def fun_eq_iff)

text \<open>Writing a packet buffer that is in use.\<close>

lemma net_inv_put:
  "net_inv lay r s live \<Longrightarrow> plain b \<Longrightarrow> net_inv lay r (s\<lparr>pbs := (pbs s)(p \<mapsto> b)\<rparr>) live"
  by (auto simp: net_inv_def)

lemma net_inv_link:
  assumes inv: "net_inv lay r s live" and p: "p \<in> dom live"
  shows "net_inv lay r (s\<lparr>npools := npools s\<lparr>links := (links (npools s))(p := n)\<rparr>\<rparr>) live"
proof -
  have "pool_live lay i (npools s\<lparr>links := (links (npools s))(p := n)\<rparr>) (live |` set (pool_elems lay i))" if "i < 10" for i
  proof (rule pool_frame [of lay i "npools s"])
    show "pool_live lay i (npools s) (live |` set (pool_elems lay i))" using inv that by (simp add: net_inv_def)
    fix q assume "q \<in> set (pool_elems lay i)" "q \<notin> dom (live |` set (pool_elems lay i))"
    then have "q \<noteq> p" using p by auto
    then show "links (npools s\<lparr>links := (links (npools s))(p := n)\<rparr>) q = links (npools s) q" by simp
  qed simp_all
  then show ?thesis using inv by (simp add: net_inv_def)
qed

section \<open>Taking and giving memory\<close>

lemma pool_get:
  assumes inv: "net_inv lay r s live" and i: "i < 10"
  shows "\<exists>p s'. on_pools (memp_malloc i) s = ret p s' \<and> links (npools s') = links (npools s) \<and> pbs s' = pbs s \<and> octs s' = octs s
    \<and> (if p = 0 then net_inv lay r s' live \<and> set (pool_elems lay i) \<subseteq> dom live
       else live p = None \<and> p \<in> set (pool_elems lay i) \<and> net_inv lay r s' (live(p \<mapsto> elem_size lay i)))"
proof -
  let ?A = "\<lambda>j. set (pool_elems lay j)"
  have ok: "stack_ok lay r" and lay: "layout_ok lay" using inv by (simp_all add: net_inv_def stack_ok_def)
  have pl: "pool_live lay j (npools s) (live |` ?A j)" if "j < 10" for j using inv that by (simp add: net_inv_def)
  obtain p q where q: "memp_malloc i (npools s) = ret p q" "links q = links (npools s)"
      "\<And>j live'. j \<noteq> i \<Longrightarrow> pool_live lay j (npools s) live' \<Longrightarrow> pool_live lay j q live'"
      "if p = 0 then pool_live lay i q (live |` ?A i) \<and> dom (live |` ?A i) = ?A i
       else (live |` ?A i) p = None \<and> pool_live lay i q ((live |` ?A i)(p \<mapsto> elem_size lay i))"
    using memp_malloc_runs [OF pl [OF i]] by blast
  let ?s = "s\<lparr>npools := q\<rparr>"
  have run: "on_pools (memp_malloc i) s = ret p ?s" using q(1) by (simp add: on_pools_def ret_def)
  show ?thesis
  proof (cases "p = 0")
    case True
    have "pool_live lay j q (live |` ?A j)" if "j < 10" for j using q(3,4) pl [OF that] True by (cases "j = i") auto
    then have "net_inv lay r ?s live" using inv by (simp add: net_inv_def)
    moreover have "?A i \<subseteq> dom live" using q(4) True by auto
    ultimately show ?thesis using run q(2) True by (intro exI [of _ p] exI [of _ ?s]) simp
  next
    case False
    then have new: "(live |` ?A i) p = None" "pool_live lay i q ((live |` ?A i)(p \<mapsto> elem_size lay i))" using q(4) by simp_all
    have el: "p \<in> ?A i" using pool_elemD(1) [OF new(2), of p] by simp
    have "p \<notin> ?A j" if "j < 10" "j \<noteq> i" for j using pools_disjoint [OF lay i, of j] that el by auto
    then have "pool_live lay j q ((live(p \<mapsto> elem_size lay i)) |` ?A j)" if "j < 10" for j
      using q(3) pl [OF that] new(2) el that by (cases "j = i") (simp_all add: restrict_add)
    moreover have "p \<notin> heap_area r" using heap_pools_disjoint [OF ok i] el by blast
    ultimately have "net_inv lay r ?s (live(p \<mapsto> elem_size lay i))"
      using inv el i by (auto simp: net_inv_def restrict_add)
    moreover have "live p = None" using new(1) el by simp
    ultimately show ?thesis using run q(2) False el by (intro exI [of _ p] exI [of _ ?s]) simp
  qed
qed

lemma pool_give:
  assumes inv: "net_inv lay r s live" and i: "i < 10" and p: "p \<in> set (pool_elems lay i)" "live p = Some n"
  shows "\<exists>s'. on_pools (memp_free i p) s = ret () s' \<and> net_inv lay r s' (live(p := None)) \<and> octs s' = octs s \<and> pbs s' = pbs s
    \<and> (\<forall>q. q \<noteq> p \<longrightarrow> links (npools s') q = links (npools s) q)"
proof -
  let ?A = "\<lambda>j. set (pool_elems lay j)"
  have ok: "stack_ok lay r" and lay: "layout_ok lay" using inv by (simp_all add: net_inv_def stack_ok_def)
  have pl: "pool_live lay j (npools s) (live |` ?A j)" if "j < 10" for j using inv that by (simp add: net_inv_def)
  have "(live |` ?A i) p = Some n" using p by simp
  from memp_free_runs [OF pl [OF i] this] obtain q where q: "memp_free i p (npools s) = ret () q"
      "links q = (links (npools s))(p \<mapsto> memp_tab (npools s) ! i)"
      "\<And>j live'. j \<noteq> i \<Longrightarrow> pool_live lay j (npools s) live' \<Longrightarrow> pool_live lay j q live'"
      "pool_live lay i q ((live |` ?A i)(p := None))" by blast
  let ?s = "s\<lparr>npools := q\<rparr>"
  have "p \<notin> ?A j" if "j < 10" "j \<noteq> i" for j using pools_disjoint [OF lay i, of j] that p(1) by auto
  then have "pool_live lay j q ((live(p := None)) |` ?A j)" if "j < 10" for j
    using q(3,4) pl [OF that] p(1) that by (cases "j = i") (simp_all add: restrict_drop)
  moreover have "p \<notin> heap_area r" using heap_pools_disjoint [OF ok i] p(1) by blast
  ultimately have "net_inv lay r ?s (live(p := None))" using inv by (auto simp: net_inv_def restrict_drop)
  then show ?thesis using q(1,2) by (intro exI [of _ ?s]) (simp add: on_pools_def ret_def)
qed

lemma heap_get:
  assumes inv: "net_inv lay r s live" and n: "unat n < 2 ^ 32 - 63"
  shows "\<exists>p s'. on_heap (mem_malloc n) s = ret p s' \<and> npools s' = npools s \<and> pbs s' = pbs s \<and> octs s' = octs s
    \<and> (if p = 0 then net_inv lay r s' live else live p = None \<and> p \<in> heap_area r \<and> net_inv lay r s' (live(p \<mapsto> unat n)))"
proof -
  let ?A = "heap_area r"
  have ok: "stack_ok lay r" and hl: "heap_uses r (nheap s) (live |` ?A)" using inv by (simp_all add: net_inv_def)
  obtain p h where h: "mem_malloc n (nheap s) = ret p h"
      "if p = 0 then heap_uses r h (live |` ?A) else (live |` ?A) p = None \<and> heap_uses r h ((live |` ?A)(p \<mapsto> unat n))"
    using heap.get_runs [OF hl n] by blast
  let ?s = "s\<lparr>nheap := h\<rparr>"
  have run: "on_heap (mem_malloc n) s = ret p ?s" using h(1) by (simp add: on_heap_def ret_def)
  show ?thesis
  proof (cases "p = 0")
    case True
    then have "net_inv lay r ?s live" using inv h(2) by (simp add: net_inv_def)
    then show ?thesis using run True by (intro exI [of _ p] exI [of _ ?s]) simp
  next
    case False
    then have new: "(live |` ?A) p = None" "heap_uses r h ((live |` ?A)(p \<mapsto> unat n))" using h(2) by simp_all
    have "unat r + 64 \<le> unat p \<and> unat p + unat n \<le> unat r + 131072" "n \<noteq> 0"
      using heap_range [OF new(2), of p] h(1) False by (auto simp: mem_malloc_def ret_def)
    then have el: "p \<in> ?A" by (auto simp: heap_area_def word_unat_eq_iff)
    then have "p \<notin> set (pool_elems lay i)" if "i < 10" for i using heap_pools_disjoint [OF ok that] by blast
    then have "net_inv lay r ?s (live(p \<mapsto> unat n))" using inv new(2) el by (auto simp: net_inv_def restrict_add)
    moreover have "live p = None" using new(1) el by simp
    ultimately show ?thesis using run False el by (intro exI [of _ p] exI [of _ ?s]) simp
  qed
qed

lemma heap_give:
  assumes inv: "net_inv lay r s live" and p: "p \<in> heap_area r" "live p = Some n"
  shows "\<exists>s'. on_heap (mem_free p) s = ret () s' \<and> net_inv lay r s' (live(p := None)) \<and> octs s' = octs s \<and> pbs s' = pbs s
    \<and> npools s' = npools s"
proof -
  let ?A = "heap_area r"
  have ok: "stack_ok lay r" and hl: "heap_uses r (nheap s) (live |` ?A)" using inv by (simp_all add: net_inv_def)
  have "(live |` ?A) p = Some n" using p by simp
  from heap.give_runs [OF hl this] obtain h where h: "mem_free p (nheap s) = ret () h" "heap_uses r h ((live |` ?A)(p := None))" by blast
  have "p \<notin> set (pool_elems lay i)" if "i < 10" for i using heap_pools_disjoint [OF ok that p(1)] .
  then have "net_inv lay r (s\<lparr>nheap := h\<rparr>) (live(p := None))" using inv h(2) p(1) by (auto simp: net_inv_def restrict_drop)
  then show ?thesis using h(1) by (intro exI [of _ "s\<lparr>nheap := h\<rparr>"]) (simp add: on_heap_def ret_def)
qed

lemma heap_trim:
  assumes inv: "net_inv lay r s live" and p: "p \<in> heap_area r" "live p = Some n" and m: "unat m \<le> n"
  shows "\<exists>s'. on_heap (mem_trim p m) s = ret p s' \<and> net_inv lay r s' (live(p \<mapsto> unat m)) \<and> octs s' = octs s \<and> pbs s' = pbs s
    \<and> npools s' = npools s"
proof -
  let ?A = "heap_area r"
  have ok: "stack_ok lay r" and hl: "heap_uses r (nheap s) (live |` ?A)" using inv by (simp_all add: net_inv_def)
  have "(live |` ?A) p = Some n" using p by simp
  from trim_uses [OF hl this m] obtain h where h: "mem_trim p m (nheap s) = ret p h" "heap_uses r h ((live |` ?A)(p \<mapsto> unat m))" by blast
  have "p \<notin> set (pool_elems lay i)" if "i < 10" for i using heap_pools_disjoint [OF ok that p(1)] .
  then have "net_inv lay r (s\<lparr>nheap := h\<rparr>) (live(p \<mapsto> unat m))" using inv h(2) p(1) by (auto simp: net_inv_def restrict_add)
  then show ?thesis using h(1) by (intro exI [of _ "s\<lparr>nheap := h\<rparr>"]) (simp add: on_heap_def ret_def)
qed

lemma net_inv_inside:
  assumes inv: "net_inv lay r s live" and p: "live p = Some n"
  shows "unat p + n \<le> 2 ^ 32"
proof (cases "p \<in> heap_area r")
  case True
  have "heap_uses r (nheap s) (live |` heap_area r)" using inv by (simp add: net_inv_def)
  then show ?thesis using heap.inside [of r _ "live |` heap_area r" p n] True p by simp
next
  case False
  then obtain i where i: "i < 10" "p \<in> set (pool_elems lay i)" using inv p by (auto simp: net_inv_def)
  have "pool_live lay i (npools s) (live |` set (pool_elems lay i))" using inv i(1) by (simp add: net_inv_def)
  then show ?thesis using memp.inside [of lay i _ "live |` set (pool_elems lay i)" p n] i(2) p by simp
qed

text \<open>Areas in use do not overlap, wherever they come from.\<close>

lemma net_inv_apart:
  assumes inv: "net_inv lay r s live" and p: "live p = Some n" and q: "live q = Some m" and ne: "p \<noteq> q"
  shows "unat p + n \<le> unat q \<or> unat q + m \<le> unat p"
proof -
  have ok: "stack_ok lay r" and lay: "layout_ok lay" and hl: "heap_uses r (nheap s) (live |` heap_area r)"
    using inv by (simp_all add: net_inv_def stack_ok_def)
  have pl: "pool_live lay i (npools s) (live |` set (pool_elems lay i))" if "i < 10" for i using inv that by (simp add: net_inv_def)
  have cover: "a \<in> heap_area r \<or> (\<exists>i<10. a \<in> set (pool_elems lay i))" if "a \<in> dom live" for a using inv that by (auto simp: net_inv_def)
  have pool: "i < 10 \<Longrightarrow> k = elem_size lay i \<and> unat (memp_bases lay ! i) \<le> unat a \<and> unat a + k \<le> pool_end lay i"
    if "a \<in> set (pool_elems lay i)" "live a = Some k" for a i k
  proof -
    assume i: "i < 10"
    note a = that
    obtain j where "unat a = unat (memp_bases lay ! i) + j * elem_size lay i" "unat a + elem_size lay i \<le> pool_end lay i"
      using elemE [OF lay i a(1)] by blast
    moreover have "k = elem_size lay i" using pool_elemD(2) [OF pl [OF i], of a k] a by simp
    ultimately show ?thesis by simp
  qed
  have heap: "unat r \<le> unat a \<and> unat a + k \<le> unat r + 131072" if "a \<in> heap_area r" "live a = Some k" for a k
    using heap_range [OF hl, of a k] that by simp
  have sep: "pool_end lay i \<le> unat r \<or> unat r + 131136 \<le> unat (memp_bases lay ! i)" if "i < 10" for i using ok that by (simp add: stack_ok_def)
  show "unat p + n \<le> unat q \<or> unat q + m \<le> unat p"
  proof (cases "p \<in> heap_area r")
    case ph: True
    show ?thesis
    proof (cases "q \<in> heap_area r")
      case True
      then show ?thesis using heap.apart [OF hl, of p n q m] ph p q ne by simp
    next
      case False
      then obtain i where i: "i < 10" "q \<in> set (pool_elems lay i)" using cover q by blast
      then show ?thesis using heap [OF ph p] pool [OF i(2) q i(1)] sep [OF i(1)] by linarith
    qed
  next
    case False
    then obtain i where i: "i < 10" "p \<in> set (pool_elems lay i)" using cover p by blast
    show ?thesis
    proof (cases "q \<in> heap_area r")
      case True
      then show ?thesis using heap [OF True q] pool [OF i(2) p i(1)] sep [OF i(1)] by linarith
    next
      case False
      then obtain j where j: "j < 10" "q \<in> set (pool_elems lay j)" using cover q by blast
      show ?thesis
      proof (cases "i = j")
        case True
        then show ?thesis using memp.apart [OF pl [OF i(1)], of p n q m] i(2) j(2) p q ne by simp
      next
        case False
        have "pool_end lay i \<le> unat (memp_bases lay ! j) \<or> pool_end lay j \<le> unat (memp_bases lay ! i)"
          using lay i(1) j(1) False by (simp add: layout_ok_def)
        then show ?thesis using pool [OF i(2) p i(1)] pool [OF j(2) q j(1)] by linarith
      qed
    qed
  qed
qed

section \<open>Release\<close>

lemma net_inv_drop:
  assumes inv: "net_inv lay r s live" and p: "p \<in> heap_area r"
  shows "net_inv lay r (s\<lparr>pbs := (pbs s)(p := None), npools := npools s\<lparr>links := (links (npools s))(p := None)\<rparr>\<rparr>) live"
proof -
  have ok: "stack_ok lay r" using inv by (simp add: net_inv_def)
  have "pool_live lay i (npools s\<lparr>links := (links (npools s))(p := None)\<rparr>) (live |` set (pool_elems lay i))" if "i < 10" for i
  proof (rule pool_frame [of lay i "npools s"])
    show "pool_live lay i (npools s) (live |` set (pool_elems lay i))" using inv that by (simp add: net_inv_def)
    fix q assume "q \<in> set (pool_elems lay i)"
    then have "q \<noteq> p" using heap_pools_disjoint [OF ok that p] by auto
    then show "links (npools s\<lparr>links := (links (npools s))(p := None)\<rparr>) q = links (npools s) q" by simp
  qed simp_all
  then show ?thesis using inv by (auto simp: net_inv_def)
qed

lemma release_runs:
  assumes inv: "net_inv lay r s live" and p: "live p = Some n" and b: "housed lay r p b"
  shows "\<exists>s'. release cf p b s = ret () s' \<and> net_inv lay r s' (live(p := None)) \<and> octs s' = octs s
    \<and> (\<forall>q. q \<noteq> p \<longrightarrow> pbs s' q = pbs s q \<and> links (npools s') q = links (npools s) q)"
proof -
  have custom: "p_flags b AND PBUF_FLAG_IS_CUSTOM = 0" using b by (simp add: housed_def plain_def)
  consider (pool) "p_type b = PBUF_POOL" "p \<in> set (pool_elems lay 9)"
    | (ref) "p_type b = PBUF_ROM \<or> p_type b = PBUF_REF" "p \<in> set (pool_elems lay 8)"
    | (ram) "p_type b = PBUF_RAM" "p \<in> heap_area r" using b by (auto simp: housed_def)
  then show ?thesis
  proof cases
    case pool
    then show ?thesis using pool_give [OF inv _ pool(2) p] custom by (auto simp: release_def MEMP_PBUF_POOL_def)
  next
    case ref
    then show ?thesis using pool_give [OF inv _ ref(2) p] custom by (auto simp: release_def MEMP_PBUF_def)
  next
    case ram
    let ?s = "s\<lparr>pbs := (pbs s)(p := None), npools := npools s\<lparr>links := (links (npools s))(p := None)\<rparr>\<rparr>"
    obtain s' where s': "on_heap (mem_free p) ?s = ret () s'" "net_inv lay r s' (live(p := None))" "octs s' = octs ?s"
        "pbs s' = pbs ?s" "npools s' = npools ?s"
      using heap_give [OF net_inv_drop [OF inv ram(2)] ram(2) p] by blast
    have "release cf p b s = ret () s'" using s'(1) ram(1) custom by (simp add: release_def np_runs bnd_Some ret_def)
    then show ?thesis using s' by (intro exI [of _ s']) simp
  qed
qed

text \<open>The buffers of a chain that can be freed: all in use, each where its type says.\<close>

definition owned :: "layout \<Rightarrow> u32 \<Rightarrow> net \<Rightarrow> (u32 \<rightharpoonup> nat) \<Rightarrow> u32 list \<Rightarrow> bool" where
  "owned lay r s live qs \<longleftrightarrow> distinct qs \<and> (\<forall>q\<in>set qs. q \<in> dom live \<and> (\<exists>b. pbs s q = Some b \<and> housed lay r q b))"

definition refs :: "net \<Rightarrow> u32 \<Rightarrow> u16" where
  "refs s q = p_ref (the (pbs s q))"

definition unref :: "pbuf_s \<Rightarrow> pbuf_s" where
  "unref b = b\<lparr>p_ref := p_ref b - 1\<rparr>"

lemma free_loop_runs:
  "net_inv lay r s live \<Longrightarrow> chain s p qs \<Longrightarrow> owned lay r s live qs \<Longrightarrow>
   k = length (takeWhile (\<lambda>q. refs s q = 1) qs) \<Longrightarrow>
     \<exists>s'. free_loop cf p c s = ret (c + of_nat k) s' \<and> net_inv lay r s' (live |` (- set (take k qs))) \<and> octs s' = octs s
       \<and> (\<forall>q. q \<notin> set (take k qs) \<longrightarrow> links (npools s') q = links (npools s) q
            \<and> pbs s' q = (if k < length qs \<and> q = qs ! k then map_option unref (pbs s q) else pbs s q))"
proof (induction qs arbitrary: s p c live k)
  case Nil
  then show ?case by (subst free_loop.simps) (auto simp: restrict_map_def)
next
  case (Cons q qs)
  obtain b n where b: "p = q" "q \<noteq> 0" "pbs s q = Some b" "links (npools s) q = Some n" "chain s n qs"
    using Cons.prems(2) by auto
  have o: "q \<notin> set qs" "housed lay r q b" "q \<in> dom live" using Cons.prems(3) b(3) by (auto simp: owned_def)
  let ?s = "s\<lparr>pbs := (pbs s)(q \<mapsto> unref b)\<rparr>"
  have plain: "plain (unref b)" "housed lay r q (unref b)" using o(2) by (simp_all add: housed_def plain_def unref_def)
  have inv: "net_inv lay r ?s live" by (rule net_inv_put [OF Cons.prems(1) plain(1)])
  have step: "free_loop cf p c s = (if p_ref b = 1 then bnd (release cf q (unref b)) (\<lambda>_. free_loop cf n (c + 1)) ?s else ret c ?s)"
  proof -
    have "p_ref b - 1 = 0 \<longleftrightarrow> p_ref b = 1" by simp
    then show ?thesis using b by (subst free_loop.simps) (simp add: np_runs unref_def [symmetric], simp add: unref_def)
  qed
  show ?case
  proof (cases "p_ref b = 1")
    case False
    then have "k = 0" using Cons.prems(4) b(3) by (simp add: refs_def)
    then show ?thesis using step False inv b(3) by (intro exI [of _ ?s]) (auto simp: restrict_map_def)
  next
    case True
    obtain m where m: "live q = Some m" using o(3) by auto
    obtain s1 where s1: "release cf q (unref b) ?s = ret () s1" "net_inv lay r s1 (live(q := None))" "octs s1 = octs ?s"
        "\<And>a. a \<noteq> q \<Longrightarrow> pbs s1 a = pbs ?s a \<and> links (npools s1) a = links (npools ?s) a"
      using release_runs [OF inv m plain(2)] by blast
    have same: "pbs s1 a = pbs s a \<and> links (npools s1) a = links (npools s) a" if "a \<in> set qs" for a
      using s1(4) [of a] that o(1) by auto
    let ?k = "length (takeWhile (\<lambda>q. refs s q = 1) qs)"
    have k: "k = Suc ?k" using Cons.prems(4) True b(3) by (simp add: refs_def)
    have "takeWhile (\<lambda>q. refs s1 q = 1) qs = takeWhile (\<lambda>q. refs s q = 1) qs"
      using same by (intro takeWhile_cong) (simp_all add: refs_def)
    then have k': "?k = length (takeWhile (\<lambda>q. refs s1 q = 1) qs)" by simp
    have ch: "chain s1 n qs" using b(5) same by (subst chain_cong [where s = s]) auto
    have "owned lay r s1 (live(q := None)) qs" using Cons.prems(3) same o(1) by (auto simp: owned_def)
    from Cons.IH [OF s1(2) ch this k', of "c + 1"] obtain s2 where
      s2: "free_loop cf n (c + 1) s1 = ret (c + 1 + of_nat ?k) s2" "net_inv lay r s2 ((live(q := None)) |` (- set (take ?k qs)))"
        "octs s2 = octs s1" "\<And>a. a \<notin> set (take ?k qs) \<Longrightarrow> links (npools s2) a = links (npools s1) a
            \<and> pbs s2 a = (if ?k < length qs \<and> a = qs ! ?k then map_option unref (pbs s1 a) else pbs s1 a)" by blast
    have "free_loop cf p c s = ret (c + of_nat k) s2" using step True s1(1) s2(1) k by (simp add: bnd_Some ret_def add.assoc)
    moreover have "(live(q := None)) |` (- set (take ?k qs)) = live |` (- set (take k (q # qs)))"
      using k by (auto simp: restrict_map_def)
    moreover have "links (npools s2) a = links (npools s) a
        \<and> pbs s2 a = (if k < length (q # qs) \<and> a = (q # qs) ! k then map_option unref (pbs s a) else pbs s a)"
      if "a \<notin> set (take k (q # qs))" for a
      using s2(4) [of a] s1(4) [of a] that k by auto
    ultimately show ?thesis using s2(2,3) s1(3) by (intro exI [of _ s2]) simp
  qed
qed

text \<open>
  \<open>pbuf_free\<close> gives back the buffers at the head of the chain that only the chain refers to, drops one
  reference of the next one and leaves the others alone.
\<close>

lemma pbuf_free_runs:
  assumes "net_inv lay r s live" "chain s p qs" "owned lay r s live qs" and k: "k = length (takeWhile (\<lambda>q. refs s q = 1) qs)"
  shows "\<exists>s'. pbuf_free cf p s = ret (of_nat k) s' \<and> net_inv lay r s' (live |` (- set (take k qs))) \<and> octs s' = octs s
    \<and> chain s' (if k < length qs then qs ! k else 0) (drop k qs)
    \<and> (\<forall>q. q \<notin> set (take k qs) \<longrightarrow> links (npools s') q = links (npools s) q
         \<and> pbs s' q = (if k < length qs \<and> q = qs ! k then map_option unref (pbs s q) else pbs s q))"
proof -
  obtain s' where s': "free_loop cf p 0 s = ret (of_nat k) s'" "net_inv lay r s' (live |` (- set (take k qs)))" "octs s' = octs s"
      "\<forall>q. q \<notin> set (take k qs) \<longrightarrow> links (npools s') q = links (npools s) q
         \<and> pbs s' q = (if k < length qs \<and> q = qs ! k then map_option unref (pbs s q) else pbs s q)"
    using free_loop_runs [OF assms, of cf 0] by auto
  have d: "distinct qs" using assms(3) by (simp add: owned_def)
  then have "set (take k qs) \<inter> set (drop k qs) = {}" by (rule set_take_disj_set_drop_if_distinct) simp
  then have "links (npools s') q = links (npools s) q \<and> (pbs s' q = None \<longleftrightarrow> pbs s q = None)" if "q \<in> set (drop k qs)" for q
  proof -
    have "q \<notin> set (take k qs)" using \<open>set (take k qs) \<inter> set (drop k qs) = {}\<close> that by auto
    from s'(4) [rule_format, OF this] show ?thesis by (auto split: if_splits)
  qed
  then have "chain s' (if k < length qs then qs ! k else 0) (drop k qs)"
    using chain_drop [OF assms(2), of k] by (subst chain_cong [where s = s]) auto
  then show ?thesis using s' by (auto simp: pbuf_free_def)
qed

end
