(* ===== verification/Pbuf_Alloc.thy ===== *)
theory Pbuf_Alloc
  imports Pbuf_Own
begin

text \<open>
  Allocation of packet buffers from the pool, the heap and for external payloads: a chain with the length
  asked for, whose memory nobody else uses, or nothing at all.
\<close>

section \<open>Lengths of a chain\<close>

abbreviation the_pb :: "net \<Rightarrow> u32 \<Rightarrow> pbuf_s" where "the_pb s q \<equiv> the (pbs s q)"

definition plen :: "net \<Rightarrow> u32 \<Rightarrow> nat" where "plen s q = unat (p_len (the_pb s q))"

abbreviation total_len :: "net \<Rightarrow> u32 list \<Rightarrow> nat" where "total_len s qs \<equiv> sum_list (map (plen s) qs)"

text \<open>The invariant of \<open>tot_len\<close>: the length of this buffer and of all that follow.\<close>

primrec tots :: "net \<Rightarrow> u32 list \<Rightarrow> bool" where
  "tots s [] \<longleftrightarrow> True"
| "tots s (q # qs) \<longleftrightarrow> unat (p_tot_len (the_pb s q)) = total_len s (q # qs) \<and> tots s qs"

lemma plen_cong: "pbs s' q = pbs s q \<Longrightarrow> plen s' q = plen s q"
  by (simp add: plen_def)

lemma tots_same:
  assumes "\<And>q. q \<in> set qs \<Longrightarrow> plen s' q = plen s q \<and> p_tot_len (the_pb s' q) = p_tot_len (the_pb s q)"
  shows "total_len s' qs = total_len s qs \<and> tots s' qs = tots s qs"
  using assms by (induction qs) auto

lemma tots_cong:
  assumes "\<And>q. q \<in> set qs \<Longrightarrow> pbs s' q = pbs s q"
  shows "total_len s' qs = total_len s qs \<and> tots s' qs = tots s qs"
  using assms by (intro tots_same) (simp add: plen_def)

section \<open>Linking chains\<close>

abbreviation relink :: "net \<Rightarrow> u32 \<Rightarrow> u32 \<Rightarrow> net" where
  "relink s p n \<equiv> s\<lparr>npools := npools s\<lparr>links := (links (npools s))(p \<mapsto> n)\<rparr>\<rparr>"

lemma chain_relink [simp]: "p \<notin> set qs \<Longrightarrow> chain (relink s p n) q qs = chain s q qs"
  by (rule chain_cong) auto

lemma chain_unique: "chain s p qs \<Longrightarrow> chain s p qs' \<Longrightarrow> qs = qs'"
proof (induction qs arbitrary: p qs')
  case (Cons q qs)
  then show ?case by (cases qs') auto
next
  case Nil
  then show ?case by (cases qs') auto
qed

lemma chain_from: "chain s p (xs @ q # ys) \<Longrightarrow> chain s q (q # ys)"
  by (induction xs arbitrary: p) auto

lemma chain_distinct: "chain s p qs \<Longrightarrow> distinct qs"
proof (induction qs arbitrary: p)
  case (Cons q qs)
  have "q \<notin> set qs"
  proof
    assume "q \<in> set qs"
    then obtain xs ys where qs: "qs = xs @ q # ys" by (auto simp: in_set_conv_decomp)
    have "chain s p ((q # xs) @ q # ys)" using Cons.prems unfolding qs by simp
    then have "chain s q (q # ys)" by (rule chain_from)
    moreover have "chain s q (q # qs)" using Cons.prems by simp
    ultimately have "q # ys = q # qs" by (rule chain_unique)
    then show False using qs by simp
  qed
  then show ?case using Cons by auto
qed simp

lemma chain_mem: "chain s p qs \<Longrightarrow> q \<in> set qs \<Longrightarrow> q \<noteq> 0 \<and> (\<exists>b n. pbs s q = Some b \<and> links (npools s) q = Some n)"
  by (induction qs arbitrary: p) auto

lemma chain_link:
  "chain s p qs \<Longrightarrow> qs \<noteq> [] \<Longrightarrow> chain s t ts \<Longrightarrow> set qs \<inter> set ts = {} \<Longrightarrow> chain (relink s (last qs) t) p (qs @ ts)"
proof (induction qs arbitrary: p)
  case (Cons q qs)
  show ?case
  proof (cases "qs = []")
    case True
    have "q \<notin> set ts" "p = q" "q \<noteq> 0" "pbs s q \<noteq> None" using Cons.prems by auto
    then show ?thesis using True Cons.prems(3) by (simp add: fun_upd_same del: fun_upd_apply)
  next
    case False
    obtain n where n: "p = q" "q \<noteq> 0" "links (npools s) q = Some n" "chain s n qs" "pbs s q \<noteq> None" using Cons.prems(1) by auto
    have "q \<notin> set qs" using chain_distinct [OF Cons.prems(1)] by simp
    then have "q \<noteq> last qs" using False by auto
    then show ?thesis using Cons.IH [OF n(4) False Cons.prems(3)] Cons.prems(4) n False by simp
  qed
qed simp

lemma chain_last: "chain s p qs \<Longrightarrow> qs \<noteq> [] \<Longrightarrow> links (npools s) (last qs) = Some 0"
proof (induction qs arbitrary: p)
  case (Cons q qs)
  then show ?case by (cases qs) auto
qed simp

section \<open>From the pool\<close>

lemma owned_snoc:
  "owned lay r s live qs \<Longrightarrow> q \<notin> set qs \<Longrightarrow> pbs s q = Some b \<Longrightarrow> housed lay r q b \<Longrightarrow> q \<in> dom live \<Longrightarrow> owned lay r s live (qs @ [q])"
  by (auto simp: owned_def)

lemma pool_bufsize [simp]: "PBUF_POOL_BUFSIZE_ALIGNED = 1728" "SIZEOF_STRUCT_PBUF = 64"
  by (simp_all add: PBUF_POOL_BUFSIZE_ALIGNED_def SIZEOF_STRUCT_PBUF_def LWIP_MEM_ALIGN_SIZE_def MEM_ALIGNMENT_def)

text \<open>A fresh buffer at the end of a chain.\<close>

definition tail_pb :: "u32 \<Rightarrow> u16 \<Rightarrow> u16 \<Rightarrow> pbuf_s" where
  "tail_pb q tot n = \<lparr>p_payload = q + 64, p_tot_len = tot, p_len = n, p_type = PBUF_POOL, p_flags = 0, p_ref = 1\<rparr>"

lemma tail_step:
  assumes inv: "net_inv lay r s live" and ch: "chain s p qs" "qs \<noteq> []" and own: "owned lay r s live qs"
    and q: "live q = None" "q \<in> set (pool_elems lay 9)"
      "net_inv lay r s1 (live(q \<mapsto> elem_size lay 9))" "links (npools s1) = links (npools s)" "pbs s1 = pbs s"
    and q0: "q \<noteq> 0"
  shows "let s' = (relink (relink s1 q 0) (last qs) q)\<lparr>pbs := (pbs s)(q \<mapsto> tail_pb q tot n)\<rparr> in
    bnd (block [init_pb q (\<lambda>b. b\<lparr>p_type := PBUF_POOL, p_flags := 0\<rparr>), set_next q 0, set_next (last qs) q,
      upd_pb q (\<lambda>b. b\<lparr>p_tot_len := tot, p_len := n, p_payload := q + SIZEOF_STRUCT_PBUF, p_ref := 1\<rparr>)]) f s1 = f () s'
    \<and> net_inv lay r s' (live(q \<mapsto> elem_size lay 9)) \<and> chain s' p (qs @ [q]) \<and> owned lay r s' (live(q \<mapsto> elem_size lay 9)) (qs @ [q])"
proof -
  let ?b0 = "case pbs s q of None \<Rightarrow> zero_pbuf | Some b \<Rightarrow> b"
  let ?t = "relink (relink s1 q 0) (last qs) q"
  let ?s = "?t\<lparr>pbs := (pbs s)(q \<mapsto> tail_pb q tot n)\<rparr>"
  let ?live = "live(q \<mapsto> elem_size lay 9)"
  have new: "q \<notin> set qs" using own q(1) by (auto simp: owned_def)
  have l0: "last qs \<noteq> 0" "last qs \<in> dom live" using chain_mem [OF ch(1), of "last qs"] own ch(2) by (auto simp: owned_def)
  have fields: "?b0\<lparr>p_type := PBUF_POOL, p_flags := 0, p_tot_len := tot, p_len := n, p_payload := q + 64, p_ref := 1\<rparr> = tail_pb q tot n"
    by (cases ?b0) (simp add: tail_pb_def)
  have plain: "plain (tail_pb q tot n)" by (simp add: plain_def tail_pb_def)
  have "bnd (block [init_pb q (\<lambda>b. b\<lparr>p_type := PBUF_POOL, p_flags := 0\<rparr>), set_next q 0, set_next (last qs) q,
      upd_pb q (\<lambda>b. b\<lparr>p_tot_len := tot, p_len := n, p_payload := q + SIZEOF_STRUCT_PBUF, p_ref := 1\<rparr>)]) f s1 = f () ?s"
    using q0 l0 q(5) fields by (simp add: np_runs bnd_assoc)
  moreover have "net_inv lay r ?t ?live" using q(3) l0 by (intro net_inv_link) auto
  then have "net_inv lay r ?s ?live" using net_inv_put [of lay r ?t ?live "tail_pb q tot n" q] plain q(5) by simp
  moreover have "chain ?s p (qs @ [q])"
  proof -
    have "chain (relink (s\<lparr>npools := npools s\<lparr>links := (links (npools s))(q \<mapsto> 0)\<rparr>, pbs := (pbs s)(q \<mapsto> tail_pb q tot n)\<rparr>) (last qs) q) p (qs @ [q])"
    proof (rule chain_link)
      show "chain (s\<lparr>npools := npools s\<lparr>links := (links (npools s))(q \<mapsto> 0)\<rparr>, pbs := (pbs s)(q \<mapsto> tail_pb q tot n)\<rparr>) p qs"
        using ch(1) new by (subst chain_cong [where s = s]) auto
    qed (use new ch(2) q0 in auto)
    then show ?thesis using q(4) by (subst chain_cong) auto
  qed
  moreover have "owned lay r ?s ?live (qs @ [q])"
    using own new q(2) plain by (auto simp: owned_def housed_def tail_pb_def)
  ultimately show ?thesis by (simp add: Let_def)
qed

lemma snoc_ne: "qs @ [q] \<noteq> []"
  by simp

lemma sint_small: "k < 65536 \<Longrightarrow> sint (of_nat k :: s32) = int k"
  by (simp add: sint_uint uint_nat unat_of_nat32 signed_take_bit_int_eq_self del: of_nat_diff of_nat_unat)

lemma short_diff:
  fixes a b :: u16
  assumes "unat b \<le> unat a"
  shows "sint (ucast a - ucast b :: s32) = int (unat a - unat b)"
proof -
  have "(ucast a - ucast b :: s32) = of_nat (unat a - unat b)" using assms by (simp add: of_nat_diff)
  then show ?thesis using unat_u16_lt [of a] by (simp only:, intro sint_small) linarith
qed

lemma short_rest:
  fixes rem :: s32
  assumes "sint rem = int m" "m < 65536"
  shows "unat (ucast rem :: u16) = m" and "n \<le> m \<Longrightarrow> sint (rem - of_nat n) = int (m - n)"
proof -
  have "unat rem = m"
  proof -
    have "rem = of_int (int m)" by (simp flip: assms(1))
    then have "rem = of_nat m" by simp
    then show ?thesis using assms(2) by (simp add: unat_of_nat32)
  qed
  then show "unat (ucast rem :: u16) = m" using assms(2) by (simp add: unsigned_ucast_eq take_bit_nat_eq_self)
  assume n: "n \<le> m"
  have "rem = of_nat m" using \<open>unat rem = m\<close> by (metis of_nat_unat ucast_id)
  then have "rem - of_nat n = of_nat (m - n)" using n by (simp add: of_nat_diff)
  moreover have "sint (of_nat (m - n) :: s32) = int (m - n)" using assms(2) by (intro sint_small) simp
  ultimately show "sint (rem - of_nat n) = int (m - n)" by simp
qed

definition appended :: "layout \<Rightarrow> u32 \<Rightarrow> net \<Rightarrow> (u32 \<rightharpoonup> nat) \<Rightarrow> net \<Rightarrow> (u32 \<rightharpoonup> nat) \<Rightarrow> u32 list \<Rightarrow> nat \<Rightarrow> bool" where
  "appended lay r s live s' live' new m \<longleftrightarrow> net_inv lay r s' live' \<and> set new \<inter> dom live = {} \<and> dom live' = dom live \<union> set new
     \<and> (\<forall>a\<in>dom live. live' a = live a \<and> pbs s' a = pbs s a) \<and> tots s' new \<and> total_len s' new = m
     \<and> (\<forall>q\<in>set new. refs s' q = 1 \<and> p_payload (the_pb s' q) = q + 64 \<and> plen s' q \<le> 1728
        \<and> q \<in> set (pool_elems lay 9) \<and> live' q = Some (elem_size lay 9))"

lemma alloc_tail_runs:
  "net_inv lay r s live \<Longrightarrow> chain s p qs \<Longrightarrow> qs \<noteq> [] \<Longrightarrow> owned lay r s live qs \<Longrightarrow> \<forall>q\<in>set qs. refs s q = 1 \<Longrightarrow>
   sint rem = int m \<Longrightarrow> m < 65536 \<Longrightarrow>
   \<exists>x s'. alloc_tail cf p (last qs) rem s = ret x s' \<and> octs s' = octs s
     \<and> (\<forall>a\<in>dom live. a \<notin> set qs \<longrightarrow> pbs s' a = pbs s a \<and> links (npools s') a = links (npools s) a)
     \<and> (x = 0 \<and> net_inv lay r s' (live |` (- set qs))
        \<or> x = p \<and> (\<exists>new live'. chain s' p (qs @ new) \<and> owned lay r s' live' (qs @ new) \<and> appended lay r s live s' live' new m))"
proof (induction m arbitrary: s live qs rem rule: less_induct)
  case (less m)
  note inv = less.prems(1) and ch = less.prems(2) and ne = less.prems(3) and own = less.prems(4) and one = less.prems(5)
    and rem = less.prems(6,7)
  show ?case
  proof (cases "m = 0")
    case True
    then have "alloc_tail cf p (last qs) rem s = ret p s" using rem by (subst alloc_tail.simps) simp
    moreover have "appended lay r s live s live [] m" using inv True by (simp add: appended_def)
    ultimately show ?thesis using ch own by (intro exI [of _ p] exI [of _ s]) (auto intro!: exI [of _ "[]"] exI [of _ live])
  next
    case False
    then have pos: "sint rem > 0" using rem by simp
    obtain q s1 where q: "on_pools (memp_malloc 9) s = ret q s1" "links (npools s1) = links (npools s)" "pbs s1 = pbs s" "octs s1 = octs s"
        "if q = 0 then net_inv lay r s1 live \<and> set (pool_elems lay 9) \<subseteq> dom live
         else live q = None \<and> q \<in> set (pool_elems lay 9) \<and> net_inv lay r s1 (live(q \<mapsto> elem_size lay 9))"
      using pool_get [OF inv, of 9] by auto
    show ?thesis
    proof (cases "q = 0")
      case True
      have "chain s1 p qs" using ch q(2,3) by (subst chain_cong [where s = s]) auto
      moreover have "owned lay r s1 live qs" using own q(3) by (simp add: owned_def)
      moreover have "takeWhile (\<lambda>q. refs s1 q = 1) qs = qs" using one q(3) by (simp add: takeWhile_eq_all_conv refs_def)
      then have "length qs = length (takeWhile (\<lambda>q. refs s1 q = 1) qs)" by metis
      moreover have inv1: "net_inv lay r s1 live" using q(5) True by simp
      ultimately obtain s' where s': "pbuf_free cf p s1 = ret (of_nat (length qs)) s'" "net_inv lay r s' (live |` (- set (take (length qs) qs)))"
          "octs s' = octs s1" "\<And>a. a \<notin> set (take (length qs) qs) \<Longrightarrow> links (npools s') a = links (npools s1) a
            \<and> pbs s' a = (if length qs < length qs \<and> a = qs ! length qs then map_option unref (pbs s1 a) else pbs s1 a)"
        using pbuf_free_runs [of lay r s1 live p qs "length qs" cf] by blast
      have "alloc_tail cf p (last qs) rem s = ret 0 s'"
        using pos q(1) True s'(1) by (subst alloc_tail.simps) (simp add: MEMP_PBUF_POOL_def bnd_Some ret_def)
      then show ?thesis using s' q(2-4) by (intro exI [of _ 0] exI [of _ s']) simp
    next
      case False
      define n where "n = (if unat (ucast rem :: u16) < unat PBUF_POOL_BUFSIZE_ALIGNED then ucast rem else ucast PBUF_POOL_BUFSIZE_ALIGNED :: u16)"
      have m: "unat (ucast rem :: u16) = m" using short_rest(1) [OF rem] .
      have n: "unat n = min m 1728" using m by (simp add: n_def min_def)
      let ?live = "live(q \<mapsto> elem_size lay 9)"
      let ?s = "(relink (relink s1 q 0) (last qs) q)\<lparr>pbs := (pbs s)(q \<mapsto> tail_pb q (ucast rem) n)\<rparr>"
      have fresh: "live q = None" "q \<in> set (pool_elems lay 9)" "net_inv lay r s1 ?live" using q(5) False by simp_all
      note step = tail_step [OF inv ch ne own fresh q(2,3) False, of "ucast rem" n, unfolded Let_def]
      have notin: "q \<notin> set qs" using own fresh(1) by (auto simp: owned_def)
      have run: "alloc_tail cf p (last qs) rem s = alloc_tail cf p q (rem - ucast n) ?s"
        using pos q(1) False step [THEN conjunct1]
        by (subst alloc_tail.simps, cases "unat (ucast rem :: u16) < 1728")
            (simp_all add: MEMP_PBUF_POOL_def bnd_Some ret_def n_def Let_def del: block.simps)
      have "sint (rem - of_nat (unat n)) = int (m - unat n)" by (rule short_rest(2) [OF rem]) (simp add: n)
      then have rem': "sint (rem - ucast n) = int (m - unat n)" by simp
      have one': "\<forall>a\<in>set (qs @ [q]). refs ?s a = 1" using one by (auto simp: refs_def tail_pb_def)
      have less': "m - unat n < m" "m - unat n < 65536" using n \<open>m \<noteq> 0\<close> rem(2) by simp_all
      have inv': "net_inv lay r ?s ?live" and ch': "chain ?s p (qs @ [q])" and own': "owned lay r ?s ?live (qs @ [q])"
        using step [of undefined] by blast+
      have last: "last (qs @ [q]) = q" by simp
      from less.IH [OF less'(1) inv' ch' snoc_ne own' one' rem' less'(2), unfolded last]
      obtain x s' where s': "alloc_tail cf p q (rem - ucast n) ?s = ret x s'" "octs s' = octs ?s"
          "\<And>a. a \<in> dom ?live \<Longrightarrow> a \<notin> set (qs @ [q]) \<Longrightarrow> pbs s' a = pbs ?s a \<and> links (npools s') a = links (npools ?s) a"
          "x = 0 \<and> net_inv lay r s' (?live |` (- set (qs @ [q])))
           \<or> x = p \<and> (\<exists>new live'. chain s' p ((qs @ [q]) @ new) \<and> owned lay r s' live' ((qs @ [q]) @ new) \<and> appended lay r ?s ?live s' live' new (m - unat n))"
        by blast
      have frame: "\<forall>a\<in>dom live. a \<notin> set qs \<longrightarrow> pbs s' a = pbs s a \<and> links (npools s') a = links (npools s) a"
      proof (intro ballI impI)
        fix a assume a: "a \<in> dom live" "a \<notin> set qs"
        then have "a \<noteq> q" "a \<noteq> last qs" using fresh(1) ne by auto
        then show "pbs s' a = pbs s a \<and> links (npools s') a = links (npools s) a" using s'(3) [of a] a q(2) by auto
      qed
      show ?thesis using s'(4)
      proof (elim disjE conjE exE)
        assume x: "x = 0" "net_inv lay r s' (?live |` (- set (qs @ [q])))"
        have "?live |` (- set (qs @ [q])) = live |` (- set qs)" using fresh(1) by (auto simp: restrict_map_def fun_eq_iff)
        then show ?thesis using x run s'(1,2) frame q(4) by (intro exI [of _ 0] exI [of _ s']) simp
      next
        fix new live' assume x: "x = p" and new: "chain s' p ((qs @ [q]) @ new)" "owned lay r s' live' ((qs @ [q]) @ new)"
          "appended lay r ?s ?live s' live' new (m - unat n)"
        have pq: "pbs s' q = Some (tail_pb q (ucast rem) n)" using new(3) by (auto simp: appended_def)
        then have "plen s' q = unat n" by (simp add: plen_def tail_pb_def)
        then have "appended lay r s live s' live' (q # new) m"
          using new(3) fresh(1,2) pq m n by (auto simp: appended_def refs_def tail_pb_def)
        then show ?thesis using new(1,2) run s'(1,2) frame x q(4) by (intro exI [of _ p] exI [of _ s']) auto
      qed
    qed
  qed
qed

text \<open>Where the data of a buffer lies.\<close>

definition placed :: "u32 \<Rightarrow> nat \<Rightarrow> pbuf_s \<Rightarrow> bool" where
  "placed q n b \<longleftrightarrow> unat q + 64 \<le> unat (p_payload b) \<and> unat (p_payload b) + unat (p_len b) \<le> unat q + n"

text \<open>A new chain of length \<open>m\<close>, beside what was in use.\<close>

definition built :: "layout \<Rightarrow> u32 \<Rightarrow> net \<Rightarrow> (u32 \<rightharpoonup> nat) \<Rightarrow> net \<Rightarrow> (u32 \<rightharpoonup> nat) \<Rightarrow> u32 list \<Rightarrow> nat \<Rightarrow> bool" where
  "built lay r s live s' live' qs m \<longleftrightarrow> net_inv lay r s' live' \<and> owned lay r s' live' qs \<and> set qs \<inter> dom live = {}
     \<and> dom live' = dom live \<union> set qs \<and> (\<forall>a\<in>dom live. live' a = live a) \<and> tots s' qs \<and> total_len s' qs = m
     \<and> (\<forall>q\<in>set qs. refs s' q = 1 \<and> (p_type (the_pb s' q) \<in> {PBUF_RAM, PBUF_POOL} \<longrightarrow> 64 dvd unat q \<longrightarrow> placed q (the (live' q)) (the_pb s' q)))"

abbreviation kept :: "net \<Rightarrow> net \<Rightarrow> (u32 \<rightharpoonup> nat) \<Rightarrow> bool" where
  "kept s s' live \<equiv> octs s' = octs s \<and> (\<forall>a\<in>dom live. pbs s' a = pbs s a \<and> links (npools s') a = links (npools s) a)"

lemma up64: "(127 + n) div 64 * 64 = 64 + (n + 63) div 64 * 64" for n :: nat
  using div_add_self2 [of 64 "n + 63"] by (simp add: add.commute)

lemma align_ge: "n \<le> (n + 63) div 64 * 64" for n :: nat
  using div_mult_mod_eq [of "n + 63" 64] mod_less_divisor [of 64 "n + 63"] by linarith

lemma payload_aligned:
  assumes "64 dvd unat p" "unat off \<le> 56" "unat p + 128 + (unat off + 63) div 64 * 64 \<le> 2 ^ 32"
  shows "unat (LWIP_MEM_ALIGN (p + (64 + ucast (off :: u16)))) = unat p + 64 + (unat off + 63) div 64 * 64"
proof -
  have o: "unat (ucast off :: u32) = unat off" by (simp add: unsigned_ucast_eq take_bit_nat_eq_self)
  then have "unat (p + (64 + ucast off)) = unat p + 64 + unat off"
    using assms(2,3) by (simp add: unat_word_ariths)
  moreover obtain k where k: "unat p = 64 * k" using assms(1) by blast
  ultimately have "unat (LWIP_MEM_ALIGN_SIZE (p + (64 + ucast off))) = (64 * k + 64 + unat off + 63) mod 2 ^ 32 div 64 * 64"
    by (simp only: unat_align)
  also have "\<dots> = 64 * k + 64 + (unat off + 63) div 64 * 64"
  proof -
    have "64 * k + 64 + unat off + 63 < 2 ^ 32" using assms(3) k align_ge [of "unat off"] by linarith
    moreover have "(64 * k + 64 + unat off + 63) div 64 = k + 1 + (unat off + 63) div 64"
      using div_mult_self1 [of 64 "unat off + 63" "k + 1"] by (simp add: add_ac)
    ultimately show ?thesis by (simp only: mod_less) simp
  qed
  finally show ?thesis using k by (simp add: LWIP_MEM_ALIGN_def LWIP_MEM_ALIGN_SIZE_def)
qed

lemma header_room:
  "header_offset layer = Some off \<Longrightarrow> unat off \<le> 56"
  by (auto simp: header_offset_def split: if_splits)

lemma room_left:
  "unat (off :: u16) \<le> 56 \<Longrightarrow> unat (1728 - LWIP_MEM_ALIGN_SIZE (ucast off)) = 1728 - (unat off + 63) div 64 * 64"
proof -
  assume off: "unat off \<le> 56"
  have "unat (LWIP_MEM_ALIGN_SIZE (ucast off)) = (unat off + 63) div 64 * 64" using off by (simp add: unat_align unsigned_ucast_eq take_bit_nat_eq_self)
  moreover have "(unat off + 63) div 64 * 64 \<le> 64" using off by simp
  ultimately show ?thesis by (subst unat_sub) (simp_all add: word_le_nat_alt)
qed

lemma elem_9 [simp]: "length (struct_sizes lay) = 8 \<Longrightarrow> elem_size lay 9 = 1792"
  by (simp add: elem_size_def memp_sizes_def nth_append LWIP_MEM_ALIGN_SIZE_def MEM_ALIGNMENT_def)

lemma nine: "(9 :: nat) < 10"
  by simp

lemma pool_9: "layout_ok lay \<Longrightarrow> q \<in> set (pool_elems lay 9) \<Longrightarrow> unat q + 1792 \<le> 2 ^ 32"
proof -
  assume lay: "layout_ok lay" and q: "q \<in> set (pool_elems lay 9)"
  have "length (struct_sizes lay) = 8" using lay unfolding layout_ok_def by (rule conjunct1)
  moreover have "pool_end lay 9 \<le> 2 ^ 32"
    using lay [unfolded layout_ok_def, THEN conjunct2, THEN conjunct2, THEN conjunct1, rule_format, OF nine] by (elim conjE)
  moreover obtain j where "unat q + elem_size lay 9 \<le> pool_end lay 9" using elemE [OF lay nine q] by blast
  ultimately show ?thesis using elem_9 [of lay] by linarith
qed

text \<open>What an allocation leaves: nothing new, or a new chain.\<close>

definition allocated :: "layout \<Rightarrow> u32 \<Rightarrow> net \<Rightarrow> (u32 \<rightharpoonup> nat) \<Rightarrow> nat \<Rightarrow> u32 \<Rightarrow> net \<Rightarrow> bool" where
  "allocated lay r s live m x s' \<longleftrightarrow> kept s s' live
    \<and> (x = 0 \<and> net_inv lay r s' live \<or> (\<exists>qs live'. qs \<noteq> [] \<and> chain s' x qs \<and> built lay r s live s' live' qs m))"

lemma allocated_null: "kept s s' live \<Longrightarrow> net_inv lay r s' live \<Longrightarrow> allocated lay r s live m 0 s'"
  by (simp add: allocated_def)

lemma alloc_fails:
  "a = ret 0 s' \<Longrightarrow> kept s s' live \<Longrightarrow> net_inv lay r s' live \<Longrightarrow> \<exists>x s'. a = ret x s' \<and> allocated lay r s live m x s'"
  using allocated_null by blast

lemma allocated_chain:
  "kept s s' live \<and> chain s' p qs \<and> built lay r s live s' live' qs m \<Longrightarrow> qs \<noteq> [] \<Longrightarrow> allocated lay r s live m p s'"
  unfolding allocated_def by blast

lemma alloc_pool_runs:
  assumes inv: "net_inv lay r s live" and off: "unat off \<le> 56"
  shows "\<exists>x s'. alloc_pool cf off len s = ret x s' \<and> allocated lay r s live (unat len) x s'"
proof -
  obtain p s1 where p: "on_pools (memp_malloc 9) s = ret p s1" "links (npools s1) = links (npools s)" "pbs s1 = pbs s" "octs s1 = octs s"
      "if p = 0 then net_inv lay r s1 live \<and> set (pool_elems lay 9) \<subseteq> dom live
       else live p = None \<and> p \<in> set (pool_elems lay 9) \<and> net_inv lay r s1 (live(p \<mapsto> elem_size lay 9))"
    using pool_get [OF inv, of 9] by auto
  show ?thesis
  proof (cases "p = 0")
    case True
    then have "alloc_pool cf off len s = ret 0 s1" using p(1) by (simp add: alloc_pool_def MEMP_PBUF_POOL_def bnd_Some ret_def)
    then show ?thesis using p(2-5) True by (intro alloc_fails [of _ s1]) simp_all
  next
    case False
    define room where "room = 1728 - LWIP_MEM_ALIGN_SIZE (ucast off)"
    define n where "n = (if unat len < unat room then len else ucast room)"
    define hd where "hd = (case pbs s p of None \<Rightarrow> zero_pbuf | Some b \<Rightarrow> b)\<lparr>p_type := PBUF_POOL,
      p_payload := LWIP_MEM_ALIGN (p + (64 + ucast off)), p_tot_len := len, p_len := n, p_ref := 1\<rparr>"
    let ?live = "live(p \<mapsto> elem_size lay 9)"
    define s2 where "s2 = s1\<lparr>npools := npools s1\<lparr>links := (links (npools s1))(p \<mapsto> 0)\<rparr>, pbs := (pbs s)(p \<mapsto> hd)\<rparr>"
    have hd_fields: "p_type hd = PBUF_POOL" "p_payload hd = LWIP_MEM_ALIGN (p + (64 + ucast off))" "p_tot_len hd = len" "p_len hd = n" "p_ref hd = 1"
      by (simp_all add: hd_def)
    have room: "unat room = 1728 - (unat off + 63) div 64 * 64" using room_left [OF off] by (simp add: room_def)
    have n: "unat n = min (unat len) (unat room)" using room by (auto simp: n_def unsigned_ucast_eq take_bit_nat_eq_self min_def)
    have fresh: "live p = None" "p \<in> set (pool_elems lay 9)" "net_inv lay r s1 ?live" using p(5) False by simp_all
    have run: "alloc_pool cf off len s = alloc_tail cf p p (ucast len - ucast n) s2"
      using p(1,3) False by (simp add: alloc_pool_def MEMP_PBUF_POOL_def bnd_Some ret_def np_runs bnd_assoc Let_def hd_def s2_def
          flip: room_def n_def)
    have plain: "plain hd" using inv fresh(2) by (auto simp: net_inv_def plain_def hd_def zero_pbuf_def split: option.splits)
    have "net_inv lay r (s1\<lparr>npools := npools s1\<lparr>links := (links (npools s1))(p \<mapsto> 0)\<rparr>\<rparr>) ?live"
      using fresh(3) by (rule net_inv_link) simp
    then have inv2: "net_inv lay r s2 ?live" using net_inv_put [OF _ plain, of lay r "relink s1 p 0" ?live p] p(3) by (simp add: s2_def)
    have ch2: "chain s2 p [p]" using False by (simp add: s2_def)
    have own2: "owned lay r s2 ?live [p]" using fresh(2) plain by (simp add: owned_def housed_def s2_def hd_def)
    have one2: "\<forall>q\<in>set [p]. refs s2 q = 1" by (simp add: refs_def s2_def hd_def)
    have rem: "sint (ucast len - ucast n :: s32) = int (unat len - unat n)" using n by (intro short_diff) simp
    have small: "unat len - unat n < 65536" using unat_u16_lt [of len] by linarith
    have last: "last [p] = p" by simp
    from alloc_tail_runs [OF inv2 ch2 _ own2 one2 rem small, unfolded last, of cf]
    obtain x s' where s': "alloc_tail cf p p (ucast len - ucast n) s2 = ret x s'" "octs s' = octs s2"
      "\<And>a. a \<in> dom ?live \<Longrightarrow> a \<notin> set [p] \<Longrightarrow> pbs s' a = pbs s2 a \<and> links (npools s') a = links (npools s2) a"
      "x = 0 \<and> net_inv lay r s' (?live |` (- set [p])) \<or> x = p \<and> (\<exists>new live'. chain s' p ([p] @ new)
         \<and> owned lay r s' live' ([p] @ new) \<and> appended lay r s2 ?live s' live' new (unat len - unat n))" by blast
    have "pbs s' a = pbs s a \<and> links (npools s') a = links (npools s) a" if "a \<in> dom live" for a
    proof -
      have "a \<noteq> p" using that fresh(1) by auto
      then show ?thesis using s'(3) [of a] that p(2) by (simp add: s2_def)
    qed
    then have kept: "kept s s' live" using s'(2) p(4) by (simp add: s2_def)
    show ?thesis using s'(4)
    proof (elim disjE conjE exE)
      assume x: "x = 0" "net_inv lay r s' (?live |` (- set [p]))"
      have "?live |` (- set [p]) = live" using fresh(1) by (auto simp: restrict_map_def fun_eq_iff)
      then have "allocated lay r s live (unat len) x s'" using x kept by (auto intro: allocated_null)
      then show ?thesis using run s'(1) by auto
    next
      fix new live' assume x: "x = p" and new: "chain s' p ([p] @ new)" "owned lay r s' live' ([p] @ new)"
        "appended lay r s2 ?live s' live' new (unat len - unat n)"
      have hd: "pbs s' p = Some hd" using new(3) by (auto simp: appended_def s2_def simp del: fun_upd_apply simp: fun_upd_same)
      have "built lay r s live s' live' (p # new) (unat len)" unfolding built_def
      proof (intro conjI ballI)
        show "net_inv lay r s' live'" "owned lay r s' live' (p # new)" "dom live' = dom live \<union> set (p # new)"
          "set (p # new) \<inter> dom live = {}" using new(2,3) fresh(1) by (auto simp: appended_def)
        have "plen s' p = unat n" "unat (p_tot_len (the_pb s' p)) = unat len" using hd by (simp_all add: plen_def hd_fields)
        moreover have "tots s' new" "total_len s' new = unat len - unat n" using new(3) by (simp_all add: appended_def)
        ultimately show "total_len s' (p # new) = unat len" "tots s' (p # new)" using n by simp_all
        fix q assume "q \<in> set (p # new)"
        have "refs s' p = 1" using hd by (simp add: refs_def hd_fields)
        moreover have "\<forall>a\<in>set new. refs s' a = 1" using new(3) by (simp add: appended_def)
        ultimately show "refs s' q = 1" using \<open>q \<in> set (p # new)\<close> by auto
        have el: "q \<in> set (pool_elems lay 9)" "live' q = Some (elem_size lay 9)"
          using \<open>q \<in> set (p # new)\<close> new(3) fresh(2) by (auto simp: appended_def)
        have lay: "layout_ok lay" "length (struct_sizes lay) = 8" using inv by (auto simp: net_inv_def stack_ok_def layout_ok_def)
        have top: "unat q + 1792 \<le> 2 ^ 32" using pool_9 [OF lay(1) el(1)] by simp
        have "placed q 1792 (the_pb s' q)" if "64 dvd unat q"
        proof (cases "q = p")
          case True
          then show ?thesis using payload_aligned [OF that off] top off hd n room by (simp add: placed_def hd_fields)
        next
          case False
          then have "p_payload (the_pb s' q) = q + 64" "plen s' q \<le> 1728"
            using \<open>q \<in> set (p # new)\<close> new(3) by (auto simp: appended_def)
          then show ?thesis using top by (simp add: placed_def plen_def unat_plus)
        qed
        then show "p_type (the_pb s' q) \<in> {PBUF_RAM, PBUF_POOL} \<longrightarrow> 64 dvd unat q \<longrightarrow> placed q (the (live' q)) (the_pb s' q)"
          using el(2) lay(2) by simp
      qed (use new(3) fresh(1) in \<open>auto simp: appended_def\<close>)
      moreover have "chain s' x (p # new)" using x new(1) by simp
      ultimately have "allocated lay r s live (unat len) x s'" using kept allocated_chain [of s' s live x "p # new"] by blast
      then show ?thesis using run s'(1) by auto
    qed
  qed
qed

section \<open>All kinds of buffers\<close>

lemma built_one:
  assumes "net_inv lay r s1 (live(p \<mapsto> k))" "live p = None" "p \<noteq> 0" "pbs s1 = pbs s" "links (npools s1) = links (npools s)" "octs s1 = octs s"
    and b: "housed lay r p b" "p_tot_len b = p_len b" "p_ref b = 1"
    and pl: "p_type b \<in> {PBUF_RAM, PBUF_POOL} \<Longrightarrow> 64 dvd unat p \<Longrightarrow> placed p k b"
  shows "let s' = relink s1 p 0\<lparr>pbs := (pbs s)(p \<mapsto> b)\<rparr> in
    kept s s' live \<and> chain s' p [p] \<and> built lay r s live s' (live(p \<mapsto> k)) [p] (unat (p_len b))"
proof -
  let ?s = "relink s1 p 0\<lparr>pbs := (pbs s)(p \<mapsto> b)\<rparr>"
  have "net_inv lay r (relink s1 p 0) (live(p \<mapsto> k))" using assms(1) by (rule net_inv_link) simp
  then have "net_inv lay r (relink s1 p 0\<lparr>pbs := (pbs s)(p \<mapsto> b)\<rparr>) (live(p \<mapsto> k))"
    using net_inv_put [of lay r "relink s1 p 0" "live(p \<mapsto> k)" b p] b(1) assms(4) by (simp add: housed_def)
  moreover have "a \<noteq> p" if "a \<in> dom live" for a using that assms(2) by auto
  ultimately show ?thesis using assms by (auto simp: Let_def built_def owned_def plen_def refs_def)
qed

lemma built_finish:
  assumes bt: "built lay r s live s' live' qs m" and ch: "chain s' p qs" and kp: "kept s s' live" and p: "p \<in> set qs" "pbs s' p = Some b"
  shows "let t = s'\<lparr>pbs := (pbs s')(p \<mapsto> b\<lparr>p_ref := 1, p_flags := 0\<rparr>)\<rparr> in kept s t live \<and> chain t p qs \<and> built lay r s live t live' qs m"
proof -
  let ?b = "b\<lparr>p_ref := 1, p_flags := 0\<rparr>"
  let ?t = "s'\<lparr>pbs := (pbs s')(p \<mapsto> ?b)\<rparr>"
  have plain: "plain ?b" by (simp add: plain_def)
  have inv: "net_inv lay r ?t live'" using bt plain by (intro net_inv_put) (simp_all add: built_def)
  have len: "plen ?t q = plen s' q" "p_tot_len (the_pb ?t q) = p_tot_len (the_pb s' q)" for q using p(2) by (simp_all add: plen_def)
  then have "total_len ?t qs = total_len s' qs \<and> tots ?t qs = tots s' qs" by (intro tots_same) blast
  moreover have "owned lay r ?t live' qs" using bt p plain by (auto simp: built_def owned_def housed_def)
  moreover have "p \<notin> dom live" using bt p(1) by (auto simp: built_def)
  then have "a \<noteq> p" if "a \<in> dom live" for a using that by auto
  then have "kept s ?t live" using kp by simp
  moreover have "chain ?t p qs" using ch p(2) by (subst chain_cong [where s = s']) auto
  moreover have "refs ?t q = 1 \<and> (p_type (the_pb ?t q) \<in> {PBUF_RAM, PBUF_POOL} \<longrightarrow> 64 dvd unat q \<longrightarrow> placed q (the (live' q)) (the_pb ?t q))"
    if "q \<in> set qs" for q using bt p that by (cases "q = p") (auto simp: built_def refs_def placed_def)
  ultimately show ?thesis using bt inv by (auto simp: Let_def built_def)
qed

lemma pool_8: "length (struct_sizes lay) = 8 \<Longrightarrow> elem_size lay 8 = 64"
  by (simp add: elem_size_def memp_sizes_def nth_append LWIP_MEM_ALIGN_SIZE_def MEM_ALIGNMENT_def)

lemma ram_size:
  assumes "unat off \<le> 56"
  shows "unat (LWIP_MEM_ALIGN_SIZE (64 + ucast (off :: u16)) + LWIP_MEM_ALIGN_SIZE (ucast (len :: u16)))
    = 64 + (unat off + 63) div 64 * 64 + (unat len + 63) div 64 * 64" (is "unat ?n = ?k")
proof -
  have "unat (64 + ucast off :: u32) = 64 + unat off" using assms by (subst unat_plus) simp_all
  then have "unat (LWIP_MEM_ALIGN_SIZE (64 + ucast off)) = 64 + (unat off + 63) div 64 * 64"
    using assms up64 by (simp add: unat_align)
  moreover have "unat (LWIP_MEM_ALIGN_SIZE (ucast len)) = (unat len + 63) div 64 * 64"
    using unat_u16_lt [of len] by (simp add: unat_align del: unat_u16_lt)
  moreover have "(unat off + 63) div 64 * 64 \<le> 64" "(unat len + 63) div 64 * 64 \<le> 65600"
    using assms unat_u16_lt [of len] div_times_less_eq_dividend [of "unat len + 63" 64] by (simp, linarith)
  ultimately show ?thesis by (simp add: unat_plus)
qed

lemma all_fields:
  "b\<lparr>p_payload := a, p_tot_len := t, p_len := l, p_type := k, p_ref := c, p_flags := f\<rparr>
     = \<lparr>p_payload = a, p_tot_len = t, p_len = l, p_type = k, p_flags = f, p_ref = c\<rparr>"
  by (cases b) simp

lemma pbuf_alloc_ref:
  assumes inv: "net_inv lay r s live" and layer: "header_offset layer = Some off" and type: "type = PBUF_ROM \<or> type = PBUF_REF"
  shows "\<exists>x s'. pbuf_alloc cf layer len type s = ret x s' \<and> allocated lay r s live (unat len) x s'"
proof -
  have types: "type \<noteq> PBUF_POOL" "type \<noteq> PBUF_RAM" using type by auto
  obtain p s1 where p: "on_pools (memp_malloc 8) s = ret p s1" "links (npools s1) = links (npools s)" "pbs s1 = pbs s" "octs s1 = octs s"
      "if p = 0 then net_inv lay r s1 live \<and> set (pool_elems lay 8) \<subseteq> dom live
       else live p = None \<and> p \<in> set (pool_elems lay 8) \<and> net_inv lay r s1 (live(p \<mapsto> elem_size lay 8))"
    using pool_get [OF inv, of 8] by auto
  show ?thesis
  proof (cases "p = 0")
    case True
    then have "pbuf_alloc cf layer len type s = ret 0 s1"
      using p(1) layer type types by (simp add: pbuf_alloc_def alloc_ref_def MEMP_PBUF_def bnd_Some ret_def)
    then show ?thesis using p(2-5) True by (intro alloc_fails [of _ s1]) simp_all
  next
    case False
    let ?b = "\<lparr>p_payload = 0, p_tot_len = len, p_len = len, p_type = type, p_flags = 0, p_ref = 1\<rparr>"
    let ?s = "relink s1 p 0\<lparr>pbs := (pbs s)(p \<mapsto> ?b)\<rparr>"
    have "pbuf_alloc cf layer len type s = ret p ?s"
      using p(1,3) layer type types False
      by (simp add: pbuf_alloc_def alloc_ref_def MEMP_PBUF_def bnd_Some ret_def np_runs bnd_assoc upd_pb_def get_pb_def all_fields)
    moreover have "kept s ?s live \<and> chain ?s p [p] \<and> built lay r s live ?s (live(p \<mapsto> elem_size lay 8)) [p] (unat (p_len ?b))"
      using p(2-5) False type by (intro built_one [unfolded Let_def]) (auto simp: housed_def plain_def)
    then have "allocated lay r s live (unat (p_len ?b)) p ?s" by (rule allocated_chain) simp
    ultimately show ?thesis by auto
  qed
qed

definition heap_allocated :: "layout \<Rightarrow> u32 \<Rightarrow> net \<Rightarrow> (u32 \<rightharpoonup> nat) \<Rightarrow> nat \<Rightarrow> u32 \<Rightarrow> net \<Rightarrow> bool" where
  "heap_allocated lay r s live m x s' \<longleftrightarrow> kept s s' live \<and> (x = 0 \<and> net_inv lay r s' live
     \<or> (\<exists>k. chain s' x [x] \<and> built lay r s live s' (live(x \<mapsto> k)) [x] m \<and> placed x k (the_pb s' x)))"

lemma heap_chain:
  "a = ret p t \<Longrightarrow> kept s t live \<and> chain t p [p] \<and> built lay r s live t (live(p \<mapsto> k)) [p] m \<Longrightarrow> placed p k (the_pb t p) \<Longrightarrow>
    \<exists>x s'. a = ret x s' \<and> heap_allocated lay r s live m x s'"
  unfolding heap_allocated_def by blast

text \<open>A heap buffer is a single one, with its data behind its header.\<close>

lemma pbuf_alloc_heap:
  assumes inv: "net_inv lay r s live" and layer: "header_offset layer = Some off"
  shows "\<exists>x s'. pbuf_alloc cf layer len PBUF_RAM s = ret x s' \<and> heap_allocated lay r s live (unat len) x s'"
proof -
  let ?n = "LWIP_MEM_ALIGN_SIZE (64 + ucast off) + LWIP_MEM_ALIGN_SIZE (ucast len)"
  have off: "unat off \<le> 56" using layer by (rule header_room)
  note size = ram_size [OF off, of len]
  have "unat ?n < 4294967233"
    unfolding size using off unat_u16_lt [of len] div_times_less_eq_dividend [of "unat len + 63" 64]
      div_times_less_eq_dividend [of "unat off + 63" 64] by linarith
  then have small: "unat ?n < 2 ^ 32 - 63" by simp
  obtain p s1 where p: "on_heap (mem_malloc ?n) s = ret p s1" "npools s1 = npools s" "pbs s1 = pbs s" "octs s1 = octs s"
      "if p = 0 then net_inv lay r s1 live else live p = None \<and> p \<in> heap_area r \<and> net_inv lay r s1 (live(p \<mapsto> unat ?n))"
    using heap_get [OF inv small] by blast
  show ?thesis
  proof (cases "p = 0")
    case True
    then have "pbuf_alloc cf layer len PBUF_RAM s = ret 0 s1" using p(1) layer by (simp add: pbuf_alloc_def alloc_ram_def bnd_Some ret_def)
    then show ?thesis using p(2-5) True by (intro exI [of _ 0] exI [of _ s1]) (simp add: heap_allocated_def)
  next
    case False
    let ?b = "\<lparr>p_payload = LWIP_MEM_ALIGN (p + (64 + ucast off)), p_tot_len = len, p_len = len, p_type = PBUF_RAM, p_flags = 0, p_ref = 1\<rparr>"
    let ?s = "relink s1 p 0\<lparr>pbs := (pbs s)(p \<mapsto> ?b)\<rparr>"
    have new: "live p = None" "p \<in> heap_area r" "net_inv lay r s1 (live(p \<mapsto> unat ?n))" using p(5) False by simp_all
    have "pbuf_alloc cf layer len PBUF_RAM s = ret p ?s"
      using p(1,3) layer False
      by (simp add: pbuf_alloc_def alloc_ram_def bnd_Some ret_def np_runs bnd_assoc upd_pb_def get_pb_def all_fields add.assoc)
    moreover have pl: "placed p (unat ?n) ?b"
    proof -
      have "heap_uses r (nheap s1) (live(p \<mapsto> unat ?n) |` heap_area r)" using new(3) by (simp add: net_inv_def)
      from heap_range [OF this, of p] have hr: "unat p + unat ?n \<le> unat r + 131072" "unat r + 131136 \<le> 2 ^ 32" "64 dvd unat p"
        using new(2) by auto
      then have "unat (LWIP_MEM_ALIGN (p + (64 + ucast off))) = unat p + 64 + (unat off + 63) div 64 * 64"
        using off unfolding size by (intro payload_aligned) linarith+
      then show ?thesis unfolding placed_def size by simp
    qed
    then have "kept s ?s live \<and> chain ?s p [p] \<and> built lay r s live ?s (live(p \<mapsto> unat ?n)) [p] (unat (p_len ?b))"
      using p(2-4) new False by (intro built_one [unfolded Let_def]) (auto simp: housed_def plain_def)
    moreover have "placed p (unat ?n) (the_pb ?s p)" using pl by simp
    ultimately show ?thesis unfolding pbuf_s.simps by (rule heap_chain)
  qed
qed

lemma pbuf_alloc_ram:
  assumes inv: "net_inv lay r s live" and layer: "header_offset layer = Some off"
  shows "\<exists>x s'. pbuf_alloc cf layer len PBUF_RAM s = ret x s' \<and> allocated lay r s live (unat len) x s'"
proof -
  obtain x s' where x: "pbuf_alloc cf layer len PBUF_RAM s = ret x s'" "heap_allocated lay r s live (unat len) x s'"
    using pbuf_alloc_heap [OF inv layer] by blast
  have "allocated lay r s live (unat len) x s'"
    using x(2) unfolding heap_allocated_def
  proof (elim conjE disjE exE)
    fix k assume k: "octs s' = octs s" "\<forall>a\<in>dom live. pbs s' a = pbs s a \<and> links (npools s') a = links (npools s) a"
      "chain s' x [x]" "built lay r s live s' (live(x \<mapsto> k)) [x] (unat len)"
    then have "kept s s' live \<and> chain s' x [x] \<and> built lay r s live s' (live(x \<mapsto> k)) [x] (unat len)" by (intro conjI)
    then show ?thesis by (rule allocated_chain) simp
  qed (use allocated_null in simp)
  then show ?thesis using x(1) by blast
qed

text \<open>What \<open>pbuf_alloc\<close> does, whatever the kind of buffer.\<close>

lemma pbuf_alloc_runs:
  assumes inv: "net_inv lay r s live" and layer: "header_offset layer = Some off"
    and type: "type \<in> {PBUF_RAM, PBUF_ROM, PBUF_REF, PBUF_POOL}"
  shows "\<exists>x s'. pbuf_alloc cf layer len type s = ret x s' \<and> allocated lay r s live (unat len) x s'"
proof -
  consider "type = PBUF_RAM" | "type = PBUF_ROM \<or> type = PBUF_REF" | (pool) "type = PBUF_POOL" using type by auto
  then show ?thesis
  proof cases
    case pool
    obtain x s' where x: "alloc_pool cf off len s = ret x s'" "allocated lay r s live (unat len) x s'"
      using alloc_pool_runs [OF inv header_room [OF layer]] by blast
    show ?thesis
    proof (cases "x = 0")
      case True
      then show ?thesis using x layer pool by (auto simp: pbuf_alloc_def bnd_Some ret_def)
    next
      case False
      then obtain qs live' where qs: "qs \<noteq> []" "chain s' x qs" "built lay r s live s' live' qs (unat len)" and kp: "kept s s' live"
        using x(2) unfolding allocated_def by blast
      then obtain b where b: "x \<in> set qs" "pbs s' x = Some b" by (cases qs) auto
      let ?t = "s'\<lparr>pbs := (pbs s')(x \<mapsto> b\<lparr>p_ref := 1, p_flags := 0\<rparr>)\<rparr>"
      have "pbuf_alloc cf layer len type s = ret x ?t"
        using x(1) layer pool False b(2) by (simp add: pbuf_alloc_def bnd_Some ret_def upd_pb_def get_pb_def)
      moreover have "allocated lay r s live (unat len) x ?t"
        using built_finish [OF qs(3,2) kp b, unfolded Let_def] qs(1) by (rule allocated_chain)
      ultimately show ?thesis by blast
    qed
  qed (use pbuf_alloc_ram [OF inv layer] pbuf_alloc_ref [OF inv layer] in blast)+
qed

text \<open>What was allocated can be freed, and then nothing has changed hands.\<close>

lemma alloc_free:
  assumes "net_inv lay r s live" "header_offset layer = Some off" "type \<in> {PBUF_RAM, PBUF_ROM, PBUF_REF, PBUF_POOL}"
    and run: "pbuf_alloc cf layer len type s = ret p s1" "p \<noteq> 0"
  shows "\<exists>n s'. pbuf_free cf p s1 = ret n s' \<and> net_inv lay r s' live"
proof -
  obtain qs live1 where qs: "chain s1 p qs" "built lay r s live s1 live1 qs (unat len)"
    using pbuf_alloc_runs [OF assms(1-3), of cf len] run by (auto simp: allocated_def ret_def)
  have b: "net_inv lay r s1 live1" "owned lay r s1 live1 qs" "\<forall>q\<in>set qs. refs s1 q = 1"
    "set qs \<inter> dom live = {}" "dom live1 = dom live \<union> set qs" "\<forall>a\<in>dom live. live1 a = live a"
    using qs(2) by (simp_all add: built_def)
  have "takeWhile (\<lambda>q. refs s1 q = 1) qs = qs" using b(3) by (simp add: takeWhile_eq_all_conv)
  then have "length qs = length (takeWhile (\<lambda>q. refs s1 q = 1) qs)" by metis
  from pbuf_free_runs [OF b(1) qs(1) b(2) this, of cf] obtain s' where
    s': "pbuf_free cf p s1 = ret (of_nat (length qs)) s'" "net_inv lay r s' (live1 |` (- set qs))" by auto
  have "live1 |` (- set qs) = live"
  proof
    fix a show "(live1 |` (- set qs)) a = live a"
    proof (cases "a \<in> dom live")
      case True
      then have "a \<notin> set qs" "live1 a = live a" using b(4,6) by blast+
      then show ?thesis by simp
    next
      case False
      then have "a \<in> set qs \<or> a \<notin> dom live1" using b(5) by blast
      then show ?thesis using False by (auto simp: restrict_map_def)
    qed
  qed
  then show ?thesis using s' by auto
qed

end
