(* ===== verification/Pbuf_Chain.thy ===== *)
theory Pbuf_Chain
  imports Pbuf_Alloc
begin

text \<open>
  Joining, splitting and shortening chains of packet buffers. Every operation keeps the invariant of
  \<open>tot_len\<close> and the ownership of memory.
\<close>

section \<open>Counting\<close>

lemma clen_loop_runs: "chain s p qs \<Longrightarrow> clen_loop p c s = ret (c + of_nat (length qs)) s"
proof (induction qs arbitrary: p c)
  case Nil
  then show ?case by (subst clen_loop.simps) simp
next
  case (Cons q qs)
  then obtain n where "p = q" "q \<noteq> 0" "links (npools s) q = Some n" "chain s n qs" by auto
  then show ?case using Cons.IH [of n "c + 1"] by (subst clen_loop.simps) (simp add: np_runs add.assoc)
qed

lemma pbuf_clen_runs: "chain s p qs \<Longrightarrow> pbuf_clen p s = ret (of_nat (length qs)) s"
  by (simp add: pbuf_clen_def clen_loop_runs)

section \<open>Changing fields\<close>

text \<open>The buffers of \<open>qs\<close> with the same change.\<close>

definition over :: "(pbuf_s \<Rightarrow> pbuf_s) \<Rightarrow> u32 set \<Rightarrow> (u32 \<rightharpoonup> pbuf_s) \<Rightarrow> (u32 \<rightharpoonup> pbuf_s)" where
  "over f A m = (\<lambda>a. if a \<in> A then map_option f (m a) else m a)"

lemma over_empty [simp]: "over f {} m = m"
  by (simp add: over_def)

lemma over_apply [simp]: "a \<in> A \<Longrightarrow> over f A m a = map_option f (m a)" "a \<notin> A \<Longrightarrow> over f A m a = m a"
  by (simp_all add: over_def)

lemma over_None [simp]: "over f A m a = None \<longleftrightarrow> m a = None"
  by (simp add: over_def)

lemma over_insert: "a \<notin> A \<Longrightarrow> m a = Some b \<Longrightarrow> over f A (m(a \<mapsto> f b)) = over f (insert a A) m"
  by (auto simp: over_def fun_eq_iff)

lemma chain_over [simp]: "chain (s\<lparr>pbs := over f A m\<rparr>) p qs = chain (s\<lparr>pbs := m\<rparr>) p qs"
  by (rule chain_cong) simp

definition grow :: "u16 \<Rightarrow> pbuf_s \<Rightarrow> pbuf_s" where
  "grow n b = b\<lparr>p_tot_len := p_tot_len b + n\<rparr>"

lemma grow_fields [simp]:
  "p_payload (grow n b) = p_payload b" "p_len (grow n b) = p_len b" "p_type (grow n b) = p_type b" "p_flags (grow n b) = p_flags b"
  "p_ref (grow n b) = p_ref b" "p_tot_len (grow n b) = p_tot_len b + n"
  by (simp_all add: grow_def)

text \<open>Ownership and the pools do not depend on lengths.\<close>

lemma net_inv_over:
  assumes "net_inv lay r s live" "\<And>b. p_flags (f b) = p_flags b"
  shows "net_inv lay r (s\<lparr>pbs := over f A (pbs s)\<rparr>) live"
  using assms by (auto simp: net_inv_def over_def plain_def split: if_splits)

lemma owned_over:
  assumes "owned lay r s live qs" "\<And>b. p_flags (f b) = p_flags b \<and> p_type (f b) = p_type b" "pbs s' = over f A (pbs s)"
  shows "owned lay r s' live qs"
proof -
  have "\<exists>b'. pbs s' q = Some b' \<and> housed lay r q b'" if "pbs s q = Some b" "housed lay r q b" for q b
    using that assms(2,3) by (cases "q \<in> A") (auto simp: housed_def plain_def)
  then show ?thesis using assms(1) by (auto simp: owned_def)
qed

section \<open>Joining\<close>

lemma cat_loop_runs:
  assumes "pbs s t = Some bt" "t \<noteq> 0"
  shows "chain s p qs \<Longrightarrow> qs \<noteq> [] \<Longrightarrow> t \<notin> set qs \<Longrightarrow>
    cat_loop p t s = ret (last qs) (s\<lparr>pbs := over (grow (p_tot_len bt)) (set (butlast qs)) (pbs s)\<rparr>)"
  using assms
proof (induction qs arbitrary: p s)
  case (Cons q qs)
  obtain b n where b: "p = q" "q \<noteq> 0" "pbs s q = Some b" "links (npools s) q = Some n" "chain s n qs"
    using Cons.prems(1) by auto
  show ?case
  proof (cases "qs = []")
    case True
    then show ?thesis using b by (subst cat_loop.simps) (simp add: np_runs)
  next
    case False
    let ?s = "s\<lparr>pbs := (pbs s)(q \<mapsto> grow (p_tot_len bt) b)\<rparr>"
    have n: "n \<noteq> 0" using b(5) False by (cases qs) auto
    have q: "q \<notin> set qs" using chain_distinct [OF Cons.prems(1)] by simp
    then have qb: "q \<notin> set (butlast qs)" by (meson in_set_butlastD)
    have "chain ?s n qs" using b(3,5) by (subst chain_cong [where s = s]) auto
    then have "cat_loop n t ?s = ret (last qs) (?s\<lparr>pbs := over (grow (p_tot_len bt)) (set (butlast qs)) (pbs ?s)\<rparr>)"
      using False Cons.prems(3-5) by (intro Cons.IH) simp_all
    moreover have "cat_loop p t s = cat_loop n t ?s"
      using b n Cons.prems(4,5) by (subst cat_loop.simps) (simp add: np_runs grow_def)
    ultimately show ?thesis using False b(3) over_insert [of q "set (butlast qs)" "pbs s" b] qb by (simp add: insert_commute)
  qed
qed simp

lemma last_split: "qs \<noteq> [] \<Longrightarrow> distinct qs \<Longrightarrow> set qs = insert (last qs) (set (butlast qs)) \<and> last qs \<notin> set (butlast qs)"
  by (cases qs rule: rev_cases) auto

lemma pbuf_cat_runs:
  assumes "chain s h qs" "h \<noteq> 0" "pbs s t = Some bt" "t \<noteq> 0" "t \<notin> set qs"
  shows "pbuf_cat h t s = ret () (relink (s\<lparr>pbs := over (grow (p_tot_len bt)) (set qs) (pbs s)\<rparr>) (last qs) t)"
proof -
  have ne: "qs \<noteq> []" using assms(1,2) by (cases qs) auto
  let ?m = "over (grow (p_tot_len bt)) (set (butlast qs)) (pbs s)"
  note l = last_split [OF ne chain_distinct [OF assms(1)]]
  obtain b where b: "last qs \<noteq> 0" "pbs s (last qs) = Some b" using chain_mem [OF assms(1), of "last qs"] ne by auto
  have m: "?m t = Some bt" "?m (last qs) = Some b" using assms(3,5) b l by auto
  have "over (grow (p_tot_len bt)) (set qs) (pbs s) = ?m(last qs \<mapsto> grow (p_tot_len bt) b)"
    using l b(2) by (auto simp: over_def fun_eq_iff)
  then show ?thesis using assms cat_loop_runs [OF assms(3,4,1) ne assms(5)] b(1) m
    by (simp add: pbuf_cat_def bnd_run np_runs np_ends grow_def)
qed

text \<open>A total length never exceeds 16 bits.\<close>

lemma total_len_tot: "tots s (q # qs) \<Longrightarrow> total_len s (q # qs) = unat (p_tot_len (the_pb s q)) \<and> total_len s (q # qs) < 65536"
  using unat_u16_lt [of "p_tot_len (the_pb s q)"] by (simp del: unat_u16_lt)

lemma tots_join:
  assumes "tots s' ts" "total_len s' ts = unat n" "\<And>q. q \<in> set qs \<Longrightarrow> plen s' q = plen s q \<and> p_tot_len (the_pb s' q) = p_tot_len (the_pb s q) + n"
  shows "tots s qs \<Longrightarrow> total_len s qs + unat n < 65536 \<Longrightarrow> tots s' (qs @ ts) \<and> total_len s' (qs @ ts) = total_len s qs + unat n"
  using assms(3)
proof (induction qs)
  case Nil
  then show ?case using assms by simp
next
  case (Cons q qs)
  have q: "plen s' q = plen s q" "p_tot_len (the_pb s' q) = p_tot_len (the_pb s q) + n" using Cons.prems(3) [of q] by simp_all
  have ih: "tots s' (qs @ ts)" "total_len s' (qs @ ts) = total_len s qs + unat n" using Cons by simp_all
  have "unat (p_tot_len (the_pb s q) + n) = unat (p_tot_len (the_pb s q)) + unat n" using Cons.prems(1,2) by (subst unat_plus) simp_all
  then show ?case using ih q Cons.prems(1) by simp
qed

lemma pbuf_cat_joins:
  assumes inv: "net_inv lay r s live" and hq: "chain s h (h # hs)" "owned lay r s live (h # hs)" "tots s (h # hs)"
    and tq: "chain s t (t # ts)" "owned lay r s live (t # ts)" "tots s (t # ts)" and disj: "set (h # hs) \<inter> set (t # ts) = {}"
    and len: "total_len s (h # hs) + total_len s (t # ts) < 65536"
  shows "\<exists>s'. pbuf_cat h t s = ret () s' \<and> net_inv lay r s' live \<and> chain s' h (h # hs @ t # ts)
    \<and> owned lay r s' live (h # hs @ t # ts) \<and> tots s' (h # hs @ t # ts)
    \<and> total_len s' (h # hs @ t # ts) = total_len s (h # hs) + total_len s (t # ts) \<and> (\<forall>q. refs s' q = refs s q)"
proof -
  let ?qs = "h # hs" and ?ts = "t # ts"
  obtain bt where bt: "t \<noteq> 0" "pbs s t = Some bt" using tq(1) by auto
  have h0: "h \<noteq> 0" using hq(1) by simp
  let ?m = "over (grow (p_tot_len bt)) (set ?qs) (pbs s)"
  let ?s = "s\<lparr>pbs := ?m\<rparr>"
  let ?t = "relink ?s (last ?qs) t"
  have run: "pbuf_cat h t s = ret () ?t" by (rule pbuf_cat_runs) (use hq(1) h0 bt disj in auto)
  have dom: "last ?qs \<in> dom live" using hq(2) last_in_set [of ?qs] by (auto simp: owned_def simp del: last.simps)
  have "net_inv lay r ?s live" using inv by (rule net_inv_over) simp
  then have inv': "net_inv lay r ?t live" using dom by (rule net_inv_link)
  have "chain ?s h ?qs" "chain ?s t ?ts" using hq(1) tq(1) unfolding chain_over by simp_all
  then have ch: "chain ?t h (?qs @ ?ts)" using disj by (intro chain_link) simp_all
  have own: "owned lay r ?t live qs" if "owned lay r s live qs" for qs using that by (rule owned_over) simp_all
  have own': "owned lay r ?t live (?qs @ ?ts)" using own [OF hq(2)] own [OF tq(2)] disj by (auto simp: owned_def)
  have "pbs ?t q = pbs s q" if "q \<in> set ?ts" for q using that disj by (auto simp: over_def)
  then have keep: "total_len ?t ?ts = total_len s ?ts \<and> tots ?t ?ts = tots s ?ts" by (rule tots_cong)
  have tl: "unat (p_tot_len bt) = total_len s ?ts" using tq(3) bt by simp
  have each: "plen ?t q = plen s q \<and> p_tot_len (the_pb ?t q) = p_tot_len (the_pb s q) + p_tot_len bt" if q: "q \<in> set ?qs" for q
  proof -
    obtain b where "pbs s q = Some b" using chain_mem [OF hq(1) q] by auto
    then show ?thesis using q by (simp add: plen_def)
  qed
  have "tots ?t (?qs @ ?ts) \<and> total_len ?t (?qs @ ?ts) = total_len s ?qs + unat (p_tot_len bt)"
    by (rule tots_join) (use keep tq(3) tl each hq(3) len in auto)
  moreover have "refs ?t q = refs s q" for q by (cases "pbs s q") (auto simp: refs_def over_def)
  ultimately show ?thesis using run inv' ch own' tl by (intro exI [of _ ?t]) simp
qed

section \<open>Splitting\<close>

text \<open>
  The first buffer on its own; the rest loses the reference its predecessor held. The number of buffers
  freed is an octet in the code, so that it must be below 256.
\<close>

lemma pbuf_dechain_runs:
  assumes inv: "net_inv lay r s live" and ch: "chain s p (p # qs)" and own: "owned lay r s live (p # qs)" and tt: "tots s (p # qs)"
    and k: "k = length (takeWhile (\<lambda>q. refs s q = 1) qs)" "k < 256"
  shows "\<exists>s'. pbuf_dechain cf p s = ret (if qs = [] \<or> k > 0 then 0 else hd qs) s' \<and> net_inv lay r s' (live |` (- set (take k qs)))
    \<and> chain s' p [p] \<and> tots s' [p] \<and> chain s' (if k < length qs then qs ! k else 0) (drop k qs) \<and> tots s' (drop k qs)
    \<and> plen s' p = plen s p \<and> octs s' = octs s"
proof (cases qs)
  case Nil
  then have "pbuf_dechain cf p s = ret 0 s" using ch by (auto simp: pbuf_dechain_def np_runs)
  then show ?thesis using assms Nil by (intro exI [of _ s]) (simp add: restrict_map_def)
next
  case (Cons q rs)
  obtain b where b: "p \<noteq> 0" "pbs s p = Some b" "links (npools s) p = Some q" "chain s q qs" using ch Cons by auto
  obtain bq where bq: "q \<noteq> 0" "pbs s q = Some bq" using b(4) Cons by auto
  have d: "p \<noteq> q" "p \<notin> set qs" using own Cons by (auto simp: owned_def)
  have rest: "p_tot_len b - p_len b = p_tot_len bq"
  proof -
    have u: "unat (p_tot_len b) = unat (p_len b) + unat (p_tot_len bq)" using tt b(2) bq(2) Cons by (simp add: plen_def)
    then have "p_tot_len b = p_len b + p_tot_len bq" by (metis of_nat_add of_nat_unat ucast_id)
    then show ?thesis by simp
  qed
  let ?s = "(relink s p 0)\<lparr>pbs := (pbs s)(p \<mapsto> b\<lparr>p_tot_len := p_len b\<rparr>)\<rparr>"
  have same: "(pbs s)(q \<mapsto> bq) = pbs s" "bq\<lparr>p_tot_len := p_tot_len bq\<rparr> = bq" using bq(2) by auto
  have run: "pbuf_dechain cf p s = bnd (pbuf_free cf q) (\<lambda>gone. ret (if gone > 0 then 0 else q)) ?s"
    using b(1-3) bq d(1) by (simp add: pbuf_dechain_def np_runs np_ends bnd_assoc rest same)
  have dom: "p \<in> dom live" and hb: "housed lay r p b" using own b(2) by (auto simp: owned_def)
  have "net_inv lay r (relink s p 0) live" using inv dom by (rule net_inv_link)
  then have inv1: "net_inv lay r ?s live"
    using net_inv_put [of lay r "relink s p 0" live "b\<lparr>p_tot_len := p_len b\<rparr>" p] hb by (simp add: housed_def plain_def)
  have fr: "pbs ?s a = pbs s a \<and> links (npools ?s) a = links (npools s) a" if "a \<in> set qs" for a using that d(2) by auto
  have ch1: "chain ?s q qs" using b(4) fr by (subst chain_cong [where s = s]) auto
  have own1: "owned lay r ?s live qs" using own fr by (auto simp: owned_def)
  have "takeWhile (\<lambda>q. refs ?s q = 1) qs = takeWhile (\<lambda>q. refs s q = 1) qs" by (intro takeWhile_cong) (use fr in \<open>simp_all add: refs_def\<close>)
  then have k1: "k = length (takeWhile (\<lambda>q. refs ?s q = 1) qs)" using k(1) by simp
  obtain s' where s': "pbuf_free cf q ?s = ret (of_nat k) s'" "net_inv lay r s' (live |` (- set (take k qs)))" "octs s' = octs ?s"
      "chain s' (if k < length qs then qs ! k else 0) (drop k qs)"
      "\<And>a. a \<notin> set (take k qs) \<Longrightarrow> links (npools s') a = links (npools ?s) a
         \<and> pbs s' a = (if k < length qs \<and> a = qs ! k then map_option unref (pbs ?s a) else pbs ?s a)"
    using pbuf_free_runs [OF inv1 ch1 own1 k1, of cf] by blast
  have k8: "(of_nat k :: u8) > 0 \<longleftrightarrow> k > 0" using k(2) by (simp add: word_less_nat_alt unat_of_nat)
  have dist: "distinct qs" "set (take k qs) \<subseteq> set qs" "k < length qs \<Longrightarrow> qs ! k \<in> set qs" using own by (auto simp: owned_def dest: in_set_takeD)
  have "p \<notin> set (take k qs)" "\<not> (k < length qs \<and> p = qs ! k)" using d(2) dist(2,3) by auto
  then have sp: "pbs s' p = Some (b\<lparr>p_tot_len := p_len b\<rparr>)" "links (npools s') p = Some 0"
    using s'(5) [of p] by auto
  have tail: "tots s' (drop k qs)"
  proof -
    have "plen s' a = plen s a \<and> p_tot_len (the_pb s' a) = p_tot_len (the_pb s a)" if a: "a \<in> set (drop k qs)" for a
    proof -
      have "a \<notin> set (take k qs)" "a \<in> set qs" using a set_take_disj_set_drop_if_distinct [OF dist(1), of k k] by (auto dest: in_set_dropD)
      moreover obtain ba where "pbs s a = Some ba" using own \<open>a \<in> set qs\<close> by (auto simp: owned_def)
      ultimately show ?thesis using s'(5) [of a] fr [of a] by (auto simp: plen_def unref_def)
    qed
    then have "tots s' (drop k qs) = tots s (drop k qs)" using tots_same by blast
    moreover have "tots s qs \<Longrightarrow> tots s (drop k qs)" for qs k by (induction qs arbitrary: k) (auto simp: drop_Cons split: nat.splits)
    ultimately show ?thesis using tt by simp
  qed
  have "pbuf_dechain cf p s = ret (if k > 0 then 0 else q) s'" using run s'(1) k8 by (simp add: bnd_run)
  moreover have "plen s' p = plen s p" "tots s' [p]" "chain s' p [p]" using sp b(1,2) by (simp_all add: plen_def)
  ultimately show ?thesis using s'(2-4) tail Cons by (intro exI [of _ s']) auto
qed

text \<open>\<open>pbuf_dechain\<close> undoes \<open>pbuf_chain\<close>: every field, link and reference is back.\<close>

lemma chain_dechain:
  assumes h: "chain s h [h]" "tots s [h]" and t: "chain s t (t # ts)" "h \<noteq> t" and r: "0 < refs s t" "refs s t < 65535"
  shows "bnd (pbuf_chain h t) (\<lambda>_. pbuf_dechain cf h) s = ret t s"
proof -
  obtain b bt where b: "h \<noteq> 0" "pbs s h = Some b" "links (npools s) h = Some 0" "t \<noteq> 0" "pbs s t = Some bt" using h(1) t(1) by auto
  have bl: "p_tot_len b = p_len b" using h(2) b(2) by (simp add: plen_def word_unat_eq_iff)
  let ?b = "grow (p_tot_len bt) b" and ?bt = "bt\<lparr>p_ref := p_ref bt + 1\<rparr>"
  have "over (grow (p_tot_len bt)) {h} (pbs s) = (pbs s)(h \<mapsto> ?b)" using b(2) by (auto simp: over_def fun_eq_iff)
  then have cat: "pbuf_cat h t s = ret () (relink (s\<lparr>pbs := (pbs s)(h \<mapsto> ?b)\<rparr>) h t)"
    using pbuf_cat_runs [OF h(1) b(1,5,4)] t(2) by simp
  let ?s = "(relink s h t)\<lparr>pbs := (pbs s)(h \<mapsto> ?b, t \<mapsto> ?bt)\<rparr>"
  have "pbuf_chain h t s = ret () ?s" using cat b t(2) by (simp add: pbuf_chain_def bnd_run pbuf_ref_def np_ends)
  moreover have "pbuf_dechain cf h ?s = ret t s"
  proof -
    have r2: "p_ref bt + 1 \<noteq> 1" "p_ref bt \<noteq> 0" using r b(5) by (auto simp: refs_def)
    let ?m = "(pbs s)(h \<mapsto> b, t \<mapsto> ?bt)"
    have fb: "?b\<lparr>p_tot_len := p_len b\<rparr> = b" "?bt\<lparr>p_tot_len := p_len b + p_tot_len bt - p_len b\<rparr> = ?bt"
      using bl by (cases b, cases bt, simp add: grow_def)+
    have m: "(pbs s)(t \<mapsto> ?bt, h \<mapsto> b) = ?m" "(pbs s)(h \<mapsto> b, t \<mapsto> ?bt, t \<mapsto> bt) = pbs s"
      using b(2,5) t(2) by (auto simp: fun_eq_iff)
    have l: "(links (npools s))(h \<mapsto> t, h \<mapsto> 0) = links (npools s)" using b(3) by (auto simp: fun_eq_iff)
    have "pbuf_free cf t (s\<lparr>pbs := ?m\<rparr>) = ret 0 s"
      using b(4,5) t(2) r2 m(2) unfolding pbuf_free_def by (subst free_loop.simps) (simp add: np_runs)
    then show ?thesis using b t(2) m(1) l bl by (simp add: pbuf_dechain_def np_runs np_ends bnd_assoc bnd_run fb)
  qed
  ultimately show ?thesis by (simp add: bnd_run)
qed

section \<open>Headers\<close>

definition header_pb :: "s16 \<Rightarrow> pbuf_s \<Rightarrow> pbuf_s" where
  "header_pb inc b = b\<lparr>p_payload := p_payload b - scast inc, p_len := p_len b + inc, p_tot_len := p_tot_len b + inc\<rparr>"

lemmas header_base = pbuf_header_def if_False np_runs Let_def simp_thms if_True pool_bufsize bnd_ret bnd_assoc

lemma header_short:
  assumes a: "p \<noteq> 0" "pbs s p = Some b" "p_type b = PBUF_RAM \<or> p_type b = PBUF_POOL" "inc \<noteq> 0"
    and l: "sint inc < 0 \<and> p_len b < - inc"
  shows "pbuf_header p inc s = ret 1 s"
  using a l by (simp only: header_base not_le)

lemma header_low:
  assumes a: "p \<noteq> 0" "pbs s p = Some b" "p_type b = PBUF_RAM \<or> p_type b = PBUF_POOL" "inc \<noteq> 0"
    and l: "\<not> (sint inc < 0 \<and> p_len b < - inc)" "p_payload b - scast inc < p + 64"
  shows "pbuf_header p inc s = ret 1 s"
proof (cases "sint inc < 0")
  case True
  then have "- inc \<le> p_len b" using l(1) by auto
  then show ?thesis using a l(2) True by (simp only: header_base) simp
next
  case False
  then show ?thesis using a l(2) by (simp only: header_base) simp
qed

lemma header_moves:
  assumes a: "p \<noteq> 0" "pbs s p = Some b" "p_type b = PBUF_RAM \<or> p_type b = PBUF_POOL" "inc \<noteq> 0"
    and l: "\<not> (sint inc < 0 \<and> p_len b < - inc)" "\<not> p_payload b - scast inc < p + 64"
  shows "pbuf_header p inc s = ret 0 (s\<lparr>pbs := (pbs s)(p \<mapsto> header_pb inc b)\<rparr>)"
proof (cases "sint inc < 0")
  case True
  then have "- inc \<le> p_len b" using l(1) by auto
  then show ?thesis using a l(2) True by (simp only: header_base) (simp add: np_runs np_ends header_pb_def)
next
  case False
  then show ?thesis using a l(2) by (simp only: header_base) (simp add: np_runs np_ends header_pb_def)
qed

lemma sint_neg:
  fixes w :: s16
  assumes "sint w \<noteq> - 32768"
  shows "sint (- w) = - sint w" "scast (- w) = (- scast w :: u32)"
proof -
  have r: "- 32768 \<le> sint w" "sint w < 32768" using sint_ge [of w] sint_lt [of w] by simp_all
  have "sint (- w) = signed_take_bit 15 (- sint w)" by (simp add: sint_word_minus)
  also have "\<dots> = - sint w" using r assms by (intro signed_take_bit_int_eq_self) simp_all
  finally show "sint (- w) = - sint w" .
  then show "scast (- w) = (- scast w :: u32)" by (simp only: scast_eq wi_hom_neg)
qed

text \<open>Moving the payload back: \<open>pbuf_header p (- inc)\<close> undoes \<open>pbuf_header p inc\<close>.\<close>

lemma header_undo:
  assumes p: "p \<noteq> 0" "pbs s p = Some b" "p_type b = PBUF_RAM \<or> p_type b = PBUF_POOL" "p + 64 \<le> p_payload b"
    and inc: "sint inc \<noteq> - 32768" "sint inc > 0 \<Longrightarrow> unat (p_len b) + unat inc < 65536"
    and run: "pbuf_header p inc s = ret 0 s1"
  shows "pbuf_header p (- inc) s1 = ret 0 s"
proof (cases "inc = 0")
  case True
  then show ?thesis using run by (simp add: pbuf_header_def ret_def)
next
  case False
  have ok: "\<not> (sint inc < 0 \<and> p_len b < - inc)" "\<not> p_payload b - scast inc < p + 64"
    using header_short [OF p(1-3) False] header_low [OF p(1-3) False] run by (auto simp: ret_def)
  then have s1: "s1 = s\<lparr>pbs := (pbs s)(p \<mapsto> header_pb inc b)\<rparr>" using header_moves [OF p(1-3) False] run by (simp add: ret_def)
  have b1: "pbs s1 p = Some (header_pb inc b)" "p_type (header_pb inc b) = PBUF_RAM \<or> p_type (header_pb inc b) = PBUF_POOL"
    using p(3) by (simp_all add: s1 header_pb_def)
  have undo: "header_pb (- inc) (header_pb inc b) = b" by (simp add: header_pb_def sint_neg(2) [OF inc(1)])
  have fits: "\<not> (sint (- inc) < 0 \<and> p_len (header_pb inc b) < - (- inc))"
  proof
    assume a: "sint (- inc) < 0 \<and> p_len (header_pb inc b) < - (- inc)"
    then have "sint inc > 0" using sint_neg(1) [OF inc(1)] by simp
    then have "unat (p_len b + inc) = unat (p_len b) + unat inc" using inc(2) by (subst unat_plus) simp_all
    then show False using a by (simp add: header_pb_def word_less_nat_alt)
  qed
  have "\<not> p_payload (header_pb inc b) - scast (- inc) < p + 64" using p(4) by (simp add: header_pb_def sint_neg(2) [OF inc(1)] not_less)
  then have "pbuf_header p (- inc) s1 = ret 0 (s1\<lparr>pbs := (pbs s1)(p \<mapsto> header_pb (- inc) (header_pb inc b))\<rparr>)"
    using header_moves [OF p(1) b1 _ fits] False by simp
  moreover have "(pbs s)(p \<mapsto> b) = pbs s" using p(2) by (simp add: fun_upd_idem)
  ultimately show ?thesis by (simp add: s1 undo)
qed

section \<open>Shortening\<close>

text \<open>Where the new end lies: the buffers before it, the last buffer, and its length.\<close>

lemma realloc_loop_runs:
  "chain s p qs \<Longrightarrow> tots s qs \<Longrightarrow> unat m \<le> total_len s qs \<Longrightarrow> qs \<noteq> [] \<Longrightarrow>
    \<exists>ks q rs n. qs = ks @ q # rs \<and> total_len s ks + unat n = unat m \<and> unat n \<le> plen s q
      \<and> realloc_loop g p m s = ret (q, n) (s\<lparr>pbs := over (grow (ucast g)) (set ks) (pbs s)\<rparr>)"
proof (induction qs arbitrary: s p m)
  case (Cons q qs)
  obtain b n where b: "p = q" "q \<noteq> 0" "pbs s q = Some b" "links (npools s) q = Some n" "chain s n qs"
    using Cons.prems(1) by auto
  have d: "q \<notin> set qs" using chain_distinct [OF Cons.prems(1)] by simp
  show ?case
  proof (cases "p_len b < m")
    case False
    then have "realloc_loop g p m s = ret (q, m) s" using b by (subst realloc_loop.simps) (simp add: np_runs)
    then show ?thesis using b(3) False
      by (intro exI [of _ "[]"] exI [of _ q] exI [of _ qs] exI [of _ m]) (simp add: plen_def word_less_nat_alt)
  next
    case True
    let ?s = "s\<lparr>pbs := (pbs s)(q \<mapsto> grow (ucast g) b)\<rparr>"
    have pl: "plen s q = unat (p_len b)" using b(3) by (simp add: plen_def)
    have m: "unat (m - p_len b) = unat m - unat (p_len b)" "unat (p_len b) < unat m"
      using True by (simp_all add: word_less_nat_alt unat_sub word_le_nat_alt)
    have ne: "qs \<noteq> []" using Cons.prems(3) m(2) pl by auto
    have "plen ?s a = plen s a \<and> p_tot_len (the_pb ?s a) = p_tot_len (the_pb s a)" if "a \<in> set qs" for a
      using that d by (auto simp: plen_def)
    then have same: "total_len ?s ks = total_len s ks \<and> tots ?s ks = tots s ks" if "set ks \<subseteq> set qs" for ks
      using that by (intro tots_same) blast
    have ch: "chain ?s n qs" using b(3,5) by (subst chain_cong [where s = s]) auto
    have tq: "tots ?s qs" using same [of qs] Cons.prems(2) by simp
    have le: "unat (m - p_len b) \<le> total_len ?s qs" using same [of qs] Cons.prems(3) m pl by simp
    from Cons.IH [OF ch tq le ne] obtain ks q' rs k where
      ks: "qs = ks @ q' # rs" "total_len ?s ks + unat k = unat (m - p_len b)" "unat k \<le> plen ?s q'"
        "realloc_loop g n (m - p_len b) ?s = ret (q', k) (?s\<lparr>pbs := over (grow (ucast g)) (set ks) (pbs ?s)\<rparr>)"
      by blast
    have run: "realloc_loop g p m s = realloc_loop g n (m - p_len b) ?s"
      using b True by (subst realloc_loop.simps) (simp add: np_runs grow_def [symmetric] bnd_assoc)
    have "over (grow (ucast g)) (set ks) (pbs ?s) = over (grow (ucast g)) (set (q # ks)) (pbs s)"
      using over_insert [of q "set ks" "pbs s" b "grow (ucast g)"] b(3) d ks(1) by simp
    moreover have "total_len ?s ks = total_len s ks" "plen ?s q' = plen s q'" using same [of ks] ks(1) d by (auto simp: plen_def)
    ultimately show ?thesis using ks run m pl
      by (intro exI [of _ rs] exI [of _ q'] exI [of _ "q # ks"] exI [of _ k]) simp
  qed
qed simp

lemma tots_cut:
  assumes "\<And>a. a \<in> set ks \<Longrightarrow> plen s' a = plen s a \<and> p_tot_len (the_pb s' a) = p_tot_len (the_pb s a) - d"
    and "plen s' q = n" "unat (p_tot_len (the_pb s' q)) = n" and d: "total_len s (q # rs) = n + unat d"
  shows "tots s (ks @ q # rs) \<Longrightarrow> tots s' (ks @ [q]) \<and> total_len s' (ks @ [q]) = total_len s ks + n"
  using assms(1)
proof (induction ks)
  case Nil
  then show ?case using assms by simp
next
  case (Cons a ks)
  have a: "plen s' a = plen s a" "p_tot_len (the_pb s' a) = p_tot_len (the_pb s a) - d" using Cons.prems(2) [of a] by simp_all
  have ih: "tots s' (ks @ [q])" "total_len s' (ks @ [q]) = total_len s ks + n" using Cons by simp_all
  have "unat (p_tot_len (the_pb s a)) = plen s a + total_len s ks + n + unat d" using Cons.prems(1) d by simp
  then have "unat (p_tot_len (the_pb s a) - d) = plen s a + total_len s ks + n" by (subst unat_sub) (simp_all add: word_le_nat_alt)
  then show ?case using ih a by simp
qed

lemma chain_cut:
  assumes "chain s p (ks @ q # rs)"
  obtains n where "chain (relink s q 0) p (ks @ [q])" "links (npools s) q = Some n" "chain s n rs"
proof -
  have "distinct (ks @ [q])" using chain_distinct [OF assms] by simp
  from chain_append [OF this, of s p rs] assms show ?thesis using that by auto
qed

lemma narrow_diff: "(ucast (ucast m - ucast t :: u32) :: u16) = m - t"
proof -
  have "(ucast (a - b :: u32) :: u16) = ucast a - ucast b" for a b
  proof transfer
    fix a b :: int
    have "take_bit 16 (take_bit 32 a - take_bit 32 b) = take_bit 16 (take_bit 16 (take_bit 32 a) - take_bit 16 (take_bit 32 b))"
      by (simp only: take_bit_diff)
    then show "take_bit LENGTH(16) (take_bit LENGTH(32) (a - b)) = take_bit LENGTH(16) (take_bit LENGTH(32) a - take_bit LENGTH(32) b)"
      by (simp add: take_bit_diff)
  qed
  moreover have "ucast (ucast (v :: u16) :: u32) = v" for v by transfer simp
  ultimately show ?thesis by simp
qed

definition ram_placed :: "(u32 \<rightharpoonup> nat) \<Rightarrow> net \<Rightarrow> u32 \<Rightarrow> bool" where
  "ram_placed live s q \<longleftrightarrow> (p_type (the_pb s q) = PBUF_RAM \<longrightarrow>
     placed q (the (live q)) (the_pb s q) \<and> unat (p_payload (the_pb s q)) < unat q + 65536)"

text \<open>
  The heap block of the buffer at the end is trimmed, in place: it keeps everything up to the end of the shortened
  payload, wherever in the block the payload starts.
\<close>

definition trimmed :: "pbuf_s \<Rightarrow> u32 \<Rightarrow> nat \<Rightarrow> (u32 \<rightharpoonup> nat) \<Rightarrow> (u32 \<rightharpoonup> nat)" where
  "trimmed b q n live = (if p_type b = PBUF_RAM \<and> n \<noteq> unat (p_len b)
     then live(q \<mapsto> unat (p_payload b) - unat q + n) else live)"

lemma realloc_trim:
  assumes inv: "net_inv lay r s live" and q: "q \<in> dom live" "housed lay r q b" and pl: "p_type b = PBUF_RAM \<longrightarrow> placed q (the (live q)) b \<and> unat (p_payload b) < unat q + 65536"
    and n: "unat n \<le> unat (p_len b)"
  shows "\<exists>s'. (if p_type b = PBUF_RAM \<and> n \<noteq> p_len b
      then on_heap (mem_trim q (ucast (ucast (p_payload b - q) :: u16) + ucast n)) else ret q) s = ret q s'
    \<and> net_inv lay r s' (trimmed b q (unat n) live) \<and> octs s' = octs s \<and> pbs s' = pbs s \<and> npools s' = npools s"
proof (cases "p_type b = PBUF_RAM \<and> n \<noteq> p_len b")
  case False
  then have "trimmed b q (unat n) live = live" by (auto simp: trimmed_def)
  then show ?thesis using inv False by auto
next
  case True
  obtain k where k: "live q = Some k" using q(1) by auto
  have h: "q \<in> heap_area r" using q(2) True by (auto simp: housed_def)
  have "unat (p_payload b - q) = unat (p_payload b) - unat q" using pl True by (subst unat_sub) (simp_all add: placed_def word_le_nat_alt)
  moreover have "unat (p_payload b) - unat q < 2 ^ 16" using pl True by auto
  ultimately have "unat (ucast (p_payload b - q) :: u16) = unat (p_payload b) - unat q"
    by (simp add: unsigned_ucast_eq take_bit_nat_eq_self)
  then have "unat (ucast (ucast (p_payload b - q) :: u16) :: u32) = unat (p_payload b) - unat q" by (simp only: unat_ucast_u16)
  then have u: "unat (ucast (ucast (p_payload b - q) :: u16) :: u32) + unat (ucast n :: u32) = unat (p_payload b) - unat q + unat n"
    by (simp only: unat_ucast_u16)
  have f: "unat (p_payload b) + unat (p_len b) \<le> unat q + k" "unat q + 64 \<le> unat (p_payload b)" "unat (p_payload b) < unat q + 65536"
    using pl True k by (simp_all add: placed_def)
  then have "unat (p_payload b) - unat q + unat n < 2 ^ LENGTH(32)" using unat_u16_lt [of n] by (simp del: unat_u16_lt)
  then have sz: "unat (ucast (ucast (p_payload b - q) :: u16) + ucast n :: u32) = unat (p_payload b) - unat q + unat n"
    using u unat_plus [of "ucast (ucast (p_payload b - q) :: u16) :: u32" "ucast n"] by (simp only:)
  moreover have "trimmed b q (unat n) live = live(q \<mapsto> unat (p_payload b) - unat q + unat n)"
    using True by (auto simp: trimmed_def word_unat_eq_iff)
  ultimately have t: "trimmed b q (unat n) live = live(q \<mapsto> unat (ucast (ucast (p_payload b - q) :: u16) + ucast n :: u32))"
    by (simp only:)
  have "unat (ucast (ucast (p_payload b - q) :: u16) + ucast n :: u32) \<le> k" using sz f n by linarith
  from heap_trim [OF inv h k this] obtain s' where
    "on_heap (mem_trim q (ucast (ucast (p_payload b - q) :: u16) + ucast n)) s = ret q s'"
    "net_inv lay r s' (trimmed b q (unat n) live)"
    "octs s' = octs s" "pbs s' = pbs s" "npools s' = npools s" unfolding t by blast
  then show ?thesis using True by (simp only: simp_thms if_True) blast
qed

lemma pbuf_realloc_runs:
  assumes inv: "net_inv lay r s live" and ch: "chain s p qs" and own: "owned lay r s live qs" and tt: "tots s qs"
    and one: "\<forall>q\<in>set qs. refs s q = 1 \<and> ram_placed live s q" and m: "unat m < total_len s qs"
  shows "\<exists>ks q rs s' live'. qs = ks @ q # rs \<and> pbuf_realloc cf p m s = ret () s' \<and> net_inv lay r s' live'
    \<and> live' = trimmed (the_pb s q) q (plen s' q) live |` (- set rs)
    \<and> chain s' p (ks @ [q]) \<and> owned lay r s' live' (ks @ [q]) \<and> tots s' (ks @ [q])
    \<and> total_len s' (ks @ [q]) = unat m \<and> (\<forall>a\<in>set ks. plen s' a = plen s a) \<and> plen s' q \<le> plen s q \<and> octs s' = octs s
    \<and> (\<forall>a\<in>set (ks @ [q]). p_payload (the_pb s' a) = p_payload (the_pb s a) \<and> ram_placed live' s' a)"
proof -
  have ne: "qs \<noteq> []" using m by auto
  then obtain h hs where hs: "qs = h # hs" by (cases qs) auto
  then obtain bh where bh: "p = h" "p \<noteq> 0" "pbs s p = Some bh" using ch by auto
  have T: "unat (p_tot_len bh) = total_len s qs" using tt hs bh by simp
  have less: "\<not> m \<ge> p_tot_len bh" using m T by (simp add: word_le_nat_alt)
  let ?g = "ucast m - ucast (p_tot_len bh) :: s32"
  obtain ks q rs n where ks: "qs = ks @ q # rs" "total_len s ks + unat n = unat m" "unat n \<le> plen s q"
      "realloc_loop ?g p m s = ret (q, n) (s\<lparr>pbs := over (grow (ucast ?g)) (set ks) (pbs s)\<rparr>)"
    using realloc_loop_runs [OF ch tt _ ne, of m ?g] m by auto
  define d where "d = p_tot_len bh - m"
  have g: "ucast ?g = - d" by (simp only: narrow_diff d_def minus_diff_eq)
  let ?s1 = "s\<lparr>pbs := over (grow (- d)) (set ks) (pbs s)\<rparr>"
  obtain nx where nx: "chain (relink s q 0) p (ks @ [q])" "links (npools s) q = Some nx" "chain s nx rs" using chain_cut ch ks(1) by blast
  have dist: "distinct (ks @ q # rs)" using own ks(1) by (simp add: owned_def)
  obtain b where b: "q \<noteq> 0" "pbs s q = Some b" "housed lay r q b" "q \<in> dom live"
    using own chain_mem [OF ch, of q] ks(1) by (auto simp: owned_def)
  have b1: "pbs ?s1 q = Some b" using b(2) dist by (simp add: over_def)
  have inv1: "net_inv lay r ?s1 live" using inv by (rule net_inv_over) simp
  have pl: "p_type b = PBUF_RAM \<longrightarrow> placed q (the (live q)) b \<and> unat (p_payload b) < unat q + 65536"
    using one ks(1) b(2) by (auto simp: ram_placed_def)
  have nb: "unat n \<le> unat (p_len b)" using ks(3) b(2) by (simp add: plen_def)
  define live2 where "live2 = trimmed b q (unat n) live"
  have dom2: "dom live2 = dom live" using b(4) by (auto simp: live2_def trimmed_def)
  obtain s2 where s2: "(if p_type b = PBUF_RAM \<and> n \<noteq> p_len b
      then on_heap (mem_trim q (ucast (ucast (p_payload b - q) :: u16) + ucast n)) else ret q) ?s1 = ret q s2"
      "net_inv lay r s2 live2" "octs s2 = octs ?s1" "pbs s2 = pbs ?s1" "npools s2 = npools ?s1"
    using realloc_trim [OF inv1 b(4,3) pl nb] unfolding live2_def by blast
  let ?b = "b\<lparr>p_len := n, p_tot_len := n\<rparr>"
  let ?s3 = "s2\<lparr>pbs := (pbs s2)(q \<mapsto> ?b)\<rparr>"
  have inv3: "net_inv lay r ?s3 live2" using s2(2) b(3) by (intro net_inv_put) (simp_all add: housed_def plain_def)
  have s3: "pbs ?s3 a = (if a = q then Some ?b else if a \<in> set ks then map_option (grow (- d)) (pbs s a) else pbs s a)"
      "links (npools ?s3) a = links (npools s) a" for a using s2(4,5) by (simp_all add: over_def)
  have "owned lay r ?s1 live qs" by (rule owned_over [OF own]) simp_all
  then have own3: "owned lay r ?s3 live2 qs" using dom2 s2(4) b(3) by (auto simp: owned_def housed_def plain_def)
  have rs: "a \<noteq> q" "a \<notin> set ks" if "a \<in> set rs" for a using that dist by auto
  obtain s4 where s4: "(if nx \<noteq> 0 then bnd (pbuf_free cf nx) (\<lambda>_. ret ()) else ret ()) ?s3 = ret () s4"
      "net_inv lay r s4 (live2 |` (- set rs))" "octs s4 = octs ?s3"
      "\<And>a. a \<notin> set rs \<Longrightarrow> links (npools s4) a = links (npools ?s3) a \<and> pbs s4 a = pbs ?s3 a"
  proof (cases "nx = 0")
    case True
    then have "rs = []" using nx(3) by (cases rs) auto
    then have "live2 |` (- set rs) = live2" by (simp add: restrict_map_def)
    then show ?thesis using that [of ?s3] True inv3 by simp
  next
    case False
    have "links (npools ?s3) a = links (npools s) a \<and> (pbs ?s3 a = None \<longleftrightarrow> pbs s a = None)" if "a \<in> set rs" for a
      using s3 [of a] rs [OF that] by simp
    then have ch3: "chain ?s3 nx rs" using nx(3) chain_cong by blast
    have "owned lay r ?s3 live2 rs" using own3 ks(1) by (auto simp: owned_def)
    moreover have "refs ?s3 a = 1" if "a \<in> set rs" for a using one ks(1) s3(1) [of a] rs [OF that] that by (simp add: refs_def)
    then have "takeWhile (\<lambda>q. refs ?s3 q = 1) rs = rs" by (simp add: takeWhile_eq_all_conv)
    then have "length rs = length (takeWhile (\<lambda>q. refs ?s3 q = 1) rs)" by metis
    ultimately obtain s4 where "pbuf_free cf nx ?s3 = ret (of_nat (length rs)) s4" "net_inv lay r s4 (live2 |` (- set (take (length rs) rs)))"
        "octs s4 = octs ?s3" "\<And>a. a \<notin> set (take (length rs) rs) \<Longrightarrow> links (npools s4) a = links (npools ?s3) a
           \<and> pbs s4 a = (if length rs < length rs \<and> a = rs ! length rs then map_option unref (pbs ?s3 a) else pbs ?s3 a)"
      using pbuf_free_runs [OF inv3 ch3, of "length rs" cf] by blast
    then show ?thesis using that [of s4] False by (simp add: bnd_run)
  qed
  let ?s = "relink s4 q 0"
  have run: "pbuf_realloc cf p m s = ret () ?s"
    using bh less ks(4) g b(1) b1 s2(1,4,5) s4(1) nx(2)
    by (simp add: pbuf_realloc_def np_runs np_ends bnd_run bnd_assoc)
  let ?live = "live2 |` (- set rs)"
  have keep: "a \<notin> set rs" if "a \<in> set (ks @ [q])" for a using that dist by auto
  have dom: "dom ?live = dom live - set rs" using dom2 by auto
  have q_in: "q \<in> dom ?live" using b(4) keep [of q] dom by simp
  have inv': "net_inv lay r ?s ?live" using net_inv_link [OF s4(2) q_in] .
  have own': "owned lay r ?s ?live (ks @ [q])" using own3 ks(1) s4(4) keep dom dom2 by (auto simp: owned_def)
  have ch': "chain ?s p (ks @ [q])"
  proof -
    have "chain ?s p (ks @ [q]) = chain (relink s q 0) p (ks @ [q])"
    proof (rule chain_cong)
      fix a assume a: "a \<in> set (ks @ [q])"
      show "links (npools ?s) a = links (npools (relink s q 0)) a \<and> (pbs ?s a = None \<longleftrightarrow> pbs (relink s q 0) a = None)"
        using s4(4) [OF keep [OF a]] s3 [of a] b(2) by simp
    qed
    then show ?thesis using nx(1) by simp
  qed
  have at: "pbs ?s a = pbs ?s3 a" if "a \<in> set (ks @ [q])" for a using s4(4) [OF keep [OF that]] by simp
  have ksf: "plen ?s a = plen s a \<and> p_tot_len (the_pb ?s a) = p_tot_len (the_pb s a) - d" if a: "a \<in> set ks" for a
  proof -
    obtain ba where "pbs s a = Some ba" using own ks(1) a by (auto simp: owned_def)
    then show ?thesis using at [of a] s3(1) [of a] a dist by (auto simp: plen_def)
  qed
  have qf: "plen ?s q = unat n" "unat (p_tot_len (the_pb ?s q)) = unat n" using at [of q] s3(1) [of q] by (simp_all add: plen_def)
  have "unat d = total_len s qs - unat m" using T m by (simp add: d_def unat_sub word_le_nat_alt)
  then have "total_len s (q # rs) = unat n + unat d" using ks(1,2) m by simp
  from tots_cut [OF ksf qf this] tt ks(1) have "tots ?s (ks @ [q]) \<and> total_len ?s (ks @ [q]) = total_len s ks + unat n" by blast
  moreover have "?live = trimmed (the_pb s q) q (plen ?s q) live |` (- set rs)" using b(2) qf(1) by (simp add: live2_def)
  moreover have "p_payload (the_pb ?s a) = p_payload (the_pb s a) \<and> ram_placed ?live ?s a" if a: "a \<in> set (ks @ [q])" for a
  proof -
    obtain ba where ba: "pbs s a = Some ba" using own ks(1) a by (auto simp: owned_def)
    then have same: "p_payload (the_pb ?s a) = p_payload ba" "p_type (the_pb ?s a) = p_type ba"
      using at [OF a] s3(1) [of a] a b(2) by auto
    have "a \<in> set qs" using a ks(1) by auto
    then have "ram_placed live s a" using one by blast
    then have old: "p_type ba = PBUF_RAM \<Longrightarrow> placed a (the (live a)) ba \<and> unat (p_payload ba) < unat a + 65536"
      using ba by (simp add: ram_placed_def)
    have "ram_placed ?live ?s a"
    proof (cases "a = q")
      case True
      then show ?thesis using old ba b(2) qf(1) nb same keep [OF a]
        by (auto simp: ram_placed_def placed_def live2_def trimmed_def plen_def)
    next
      case False
      then have "?live a = live a" "unat (p_len (the_pb ?s a)) = unat (p_len ba)"
        using keep [OF a] ksf [of a] a ba by (auto simp: live2_def trimmed_def plen_def)
      then show ?thesis using old same by (auto simp: ram_placed_def placed_def)
    qed
    then show ?thesis using same ba by simp
  qed
  ultimately show ?thesis using ks run inv' ch' own' ksf qf s4(3) s2(3)
    by (intro exI [of _ rs] exI [of _ q] exI [of _ ks] exI [of _ ?s] exI [of _ ?live]) simp
qed

end
