(* ===== verification/Pbuf_Data.thy ===== *)
theory Pbuf_Data
  imports Pbuf_Chain
begin

text \<open>
  The contents of packet buffers: copying into, out of and between chains, reading single octets, comparing
  and searching (\<open>core/pbuf.c\<close>, second half). The data of a chain is one list of octets, and every routine
  is described by what it does to that list.
\<close>

section \<open>Reading\<close>

text \<open>To the buffer an offset lies in.\<close>

partial_function (option) seek :: "u32 \<Rightarrow> u16 \<Rightarrow> (u32 \<times> u16) np" where
  "seek q copy_from s =
     (if q = 0 then ret (q, copy_from)
      else bnd (get_pb q) (\<lambda>b. if p_len b \<le> copy_from then bnd (get_next q) (\<lambda>n. seek n (copy_from - p_len b)) else ret (q, copy_from))) s"

definition pbuf_get_at :: "u32 \<Rightarrow> u16 \<Rightarrow> u8 np" where
  "pbuf_get_at p offset = bnd (seek p offset) (\<lambda>(q, copy_from).
     if q \<noteq> 0 then bnd (get_pb q) (\<lambda>b. if p_len b > copy_from then get_oct (p_payload b + ucast copy_from) else ret 0) else ret 0)"

partial_function (option) cmp_loop :: "u32 \<Rightarrow> u16 \<Rightarrow> u32 \<Rightarrow> u16 \<Rightarrow> u16 \<Rightarrow> u16 np" where
  "cmp_loop q start s2 n i s =
     (if i < n
      then bnd (pbuf_get_at q (start + i)) (\<lambda>a. bnd (get_oct (s2 + ucast i)) (\<lambda>b.
        if a \<noteq> b then ret (i + 1) else cmp_loop q start s2 n (i + 1)))
      else ret 0) s"

definition pbuf_memcmp :: "u32 \<Rightarrow> u16 \<Rightarrow> u32 \<Rightarrow> u16 \<Rightarrow> u16 np" where
  "pbuf_memcmp p offset s2 n = bnd (seek p offset) (\<lambda>(q, start).
     if q \<noteq> 0 then bnd (get_pb q) (\<lambda>b. if p_len b > start then cmp_loop q start s2 n 0 else ret 0xffff) else ret 0xffff)"

partial_function (option) find_loop :: "u32 \<Rightarrow> u32 \<Rightarrow> u16 \<Rightarrow> u16 \<Rightarrow> u16 \<Rightarrow> u16 np" where
  "find_loop p mem mem_len max_i i s =
     (if i \<le> max_i
      then bnd (pbuf_memcmp p i mem mem_len) (\<lambda>plus. if plus = 0 then ret i else find_loop p mem mem_len max_i (i + plus))
      else ret 0xFFFF) s"

definition pbuf_memfind :: "u32 \<Rightarrow> u32 \<Rightarrow> u16 \<Rightarrow> u16 \<Rightarrow> u16 np" where
  "pbuf_memfind p mem mem_len start_offset = bnd (get_pb p) (\<lambda>b.
     if unat (p_tot_len b) \<ge> unat mem_len + unat start_offset
     then find_loop p mem mem_len (p_tot_len b - mem_len) start_offset
     else ret 0xFFFF)"

partial_function (option) strlen :: "u32 \<Rightarrow> u32 \<Rightarrow> u32 np" where
  "strlen a n s = bnd (get_oct (a + n)) (\<lambda>c. if c = 0 then ret n else strlen a (n + 1)) s"

definition pbuf_strstr :: "u32 \<Rightarrow> u32 \<Rightarrow> u16 np" where
  "pbuf_strstr p substr =
     (if substr = 0 then ret 0xFFFF
      else bnd (get_oct substr) (\<lambda>c. if c = 0 then ret 0xFFFF
      else bnd (get_pb p) (\<lambda>b. if p_tot_len b = 0xFFFF then ret 0xFFFF
      else bnd (strlen substr 0) (\<lambda>substr_len. if substr_len \<ge> 0xFFFF then ret 0xFFFF
      else pbuf_memfind p substr (ucast substr_len) 0))))"

section \<open>Copying\<close>

text \<open>\<open>(left, copied_total)\<close> are the same number in the code.\<close>

partial_function (option) partial_loop :: "u32 \<Rightarrow> u32 \<Rightarrow> u16 \<Rightarrow> u16 \<Rightarrow> u16 \<Rightarrow> u16 \<Rightarrow> u16 np" where
  "partial_loop p dataptr len offset left copied_total s =
     (if len \<noteq> 0 \<and> p \<noteq> 0
      then bnd (get_pb p) (\<lambda>b.
        if offset \<noteq> 0 \<and> offset \<ge> p_len b
        then bnd (get_next p) (\<lambda>n. partial_loop n dataptr len (offset - p_len b) left copied_total)
        else let n = (if p_len b - offset > len then len else p_len b - offset) in
          bnd (MEMCPY (dataptr + ucast left) (p_payload b + ucast offset) (ucast n)) (\<lambda>_.
          bnd (get_next p) (\<lambda>q. partial_loop q dataptr (len - n) 0 (left + n) (copied_total + n))))
      else ret copied_total) s"

definition pbuf_copy_partial :: "u32 \<Rightarrow> u32 \<Rightarrow> u16 \<Rightarrow> u16 \<Rightarrow> u16 np" where
  "pbuf_copy_partial buf dataptr len offset =
     (if buf = 0 \<or> dataptr = 0 then ret 0 else partial_loop buf dataptr len offset 0 0)"

partial_function (option) take_loop :: "u32 \<Rightarrow> u32 \<Rightarrow> u16 \<Rightarrow> u16 \<Rightarrow> unit np" where
  "take_loop p dataptr total_copy_len copied_total s =
     (if total_copy_len \<noteq> 0
      then bnd (get_pb p) (\<lambda>b.
        let n = (if total_copy_len > p_len b then p_len b else total_copy_len) in
          bnd (MEMCPY (p_payload b) (dataptr + ucast copied_total) (ucast n)) (\<lambda>_.
          bnd (get_next p) (\<lambda>q. take_loop q dataptr (total_copy_len - n) (copied_total + n))))
      else ret ()) s"

definition pbuf_take :: "u32 \<Rightarrow> u32 \<Rightarrow> u16 \<Rightarrow> err_t np" where
  "pbuf_take buf dataptr len =
     (if buf = 0 \<or> dataptr = 0 then ret ERR_OK
      else bnd (get_pb buf) (\<lambda>b. if p_tot_len b < len then ret ERR_ARG
        else bnd (take_loop buf dataptr len 0) (\<lambda>_. ret ERR_OK)))"

text \<open>On to the next buffer when the offset has reached the end of this one.\<close>

definition step_to :: "bool \<Rightarrow> u32 \<Rightarrow> u16 \<Rightarrow> (u32 \<times> u16) np" where
  "step_to at_end p offset = (if at_end then bnd (get_next p) (\<lambda>n. ret (n, 0)) else ret (p, offset))"

text \<open>A buffer that ends its packet, with another one behind it.\<close>

definition queued :: "u32 \<Rightarrow> bool np" where
  "queued p = (if p = 0 then ret False
     else bnd (get_pb p) (\<lambda>b. if p_len b = p_tot_len b then bnd (get_next p) (\<lambda>n. ret (n \<noteq> 0)) else ret False))"

partial_function (option) copy_loop :: "u32 \<Rightarrow> u16 \<Rightarrow> u32 \<Rightarrow> u16 \<Rightarrow> err_t np" where
  "copy_loop p_to offset_to p_from offset_from s =
     bnd (get_pb p_to) (\<lambda>t. bnd (get_pb p_from) (\<lambda>f.
       let n = (if int (unat (p_len t)) - int (unat offset_to) \<ge> int (unat (p_len f)) - int (unat offset_from)
                then p_len f - offset_from else p_len t - offset_to) in
       bnd (MEMCPY (p_payload t + ucast offset_to) (p_payload f + ucast offset_from) (ucast n)) (\<lambda>_.
       bnd (step_to (offset_to + n = p_len t) p_to (offset_to + n)) (\<lambda>(p_to, offset_to).
       bnd (step_to (offset_from + n \<ge> p_len f) p_from (offset_from + n)) (\<lambda>(p_from, offset_from).
       bnd (queued p_from) (\<lambda>bad. if bad then ret ERR_VAL else
       bnd (queued p_to) (\<lambda>bad. if bad then ret ERR_VAL else
       if p_from \<noteq> 0 then copy_loop p_to offset_to p_from offset_from else ret ERR_OK))))))) s"

definition pbuf_copy :: "u32 \<Rightarrow> u32 \<Rightarrow> err_t np" where
  "pbuf_copy p_to p_from =
     (if p_to = 0 \<or> p_from = 0 then ret ERR_ARG
      else bnd (get_pb p_to) (\<lambda>t. bnd (get_pb p_from) (\<lambda>f.
        if p_tot_len t < p_tot_len f then ret ERR_ARG else copy_loop p_to 0 p_from 0)))"

definition pbuf_coalesce :: "(u32 \<Rightarrow> unit np) \<Rightarrow> u32 \<Rightarrow> u8 \<Rightarrow> u32 np" where
  "pbuf_coalesce cf p layer = bnd (get_next p) (\<lambda>n.
     if n = 0 then ret p
     else bnd (get_pb p) (\<lambda>b. bnd (pbuf_alloc cf layer (p_tot_len b) PBUF_RAM) (\<lambda>q.
       if q = 0 then ret p
       else bnd (pbuf_copy q p) (\<lambda>_. bnd (pbuf_free cf p) (\<lambda>_. ret q)))))"

section \<open>The data of a chain\<close>

definition content :: "net \<Rightarrow> u32 \<Rightarrow> u8 list" where
  "content s q = octets_at (octs s) (p_payload (the_pb s q)) (plen s q)"

abbreviation contents :: "net \<Rightarrow> u32 list \<Rightarrow> u8 list" where
  "contents s qs \<equiv> concat (map (content s) qs)"

lemma length_octets_at [simp]: "length (octets_at mm p n) = n"
  by (simp add: octets_at_def)

lemma length_content [simp]: "length (content s q) = plen s q"
  by (simp add: content_def)

lemma length_contents [simp]: "length (contents s qs) = total_len s qs"
  by (induction qs) simp_all

lemma nth_octets_at: "i < n \<Longrightarrow> octets_at mm p n ! i = mm (p + of_nat i)"
  by (simp add: octets_at_def)

section \<open>Single octets\<close>

lemma seek_runs:
  "chain s p qs \<Longrightarrow> unat off < total_len s qs \<Longrightarrow>
    \<exists>ks q rs off'. qs = ks @ q # rs \<and> chain s q (q # rs) \<and> seek p off s = ret (q, off') s
      \<and> total_len s ks + unat off' = unat off \<and> unat off' < plen s q"
proof (induction qs arbitrary: p off)
  case (Cons q qs)
  obtain b n where b: "p = q" "q \<noteq> 0" "pbs s q = Some b" "links (npools s) q = Some n" "chain s n qs"
    using Cons.prems(1) by auto
  have pl: "plen s q = unat (p_len b)" using b(3) by (simp add: plen_def)
  show ?case
  proof (cases "p_len b \<le> off")
    case False
    then have "seek p off s = ret (q, off) s" using b by (subst seek.simps) (simp add: np_runs)
    then show ?thesis using Cons.prems(1) b(1) False pl
      by (intro exI [of _ qs] exI [of _ q] exI [of _ "[]"] exI [of _ off]) (simp add: word_le_nat_alt)
  next
    case True
    have m: "unat (off - p_len b) = unat off - unat (p_len b)" "unat (p_len b) \<le> unat off"
      using True by (simp_all add: unat_sub word_le_nat_alt)
    have "unat (off - p_len b) < total_len s qs" using m Cons.prems(2) pl by simp
    from Cons.IH [OF b(5) this] obtain ks q' rs off' where ks: "qs = ks @ q' # rs" "chain s q' (q' # rs)"
      "seek n (off - p_len b) s = ret (q', off') s" "total_len s ks + unat off' = unat (off - p_len b)" "unat off' < plen s q'" by blast
    have "seek p off s = seek n (off - p_len b) s" using b True by (subst seek.simps) (simp add: np_runs)
    then show ?thesis using ks m pl
      by (intro exI [of _ rs] exI [of _ q'] exI [of _ "q # ks"] exI [of _ off']) simp
  qed
qed simp

lemma seek_past: "chain s p qs \<Longrightarrow> total_len s qs \<le> unat off \<Longrightarrow> \<exists>off'. seek p off s = ret (0, off') s"
proof (induction qs arbitrary: p off)
  case Nil
  then show ?case by (subst seek.simps) (auto intro: exI [of _ off])
next
  case (Cons q qs)
  obtain b n where b: "p = q" "q \<noteq> 0" "pbs s q = Some b" "links (npools s) q = Some n" "chain s n qs"
    using Cons.prems(1) by auto
  have pl: "plen s q = unat (p_len b)" using b(3) by (simp add: plen_def)
  have le: "p_len b \<le> off" using Cons.prems(2) pl by (simp add: word_le_nat_alt)
  then have "total_len s qs \<le> unat (off - p_len b)" using Cons.prems(2) pl by (simp add: unat_sub word_le_nat_alt)
  moreover have "seek p off s = seek n (off - p_len b) s" using b le by (subst seek.simps) (simp add: np_runs)
  ultimately show ?case using Cons.IH [OF b(5)] by simp
qed

lemma content_at: "unat (off :: u16) < plen s q \<Longrightarrow> pbs s q = Some b \<Longrightarrow> octs s (p_payload b + ucast off) = content s q ! unat off"
  by (simp add: content_def nth_octets_at)

lemma contents_at: "i < plen s q \<Longrightarrow> contents s (ks @ q # rs) ! (total_len s ks + i) = content s q ! i"
  by (simp add: nth_append)

text \<open>The octet at an offset, and zero past the end.\<close>

lemma pbuf_get_at_runs:
  assumes ch: "chain s p qs"
  shows "pbuf_get_at p off s = ret (if unat off < total_len s qs then contents s qs ! unat off else 0) s"
proof (cases "unat off < total_len s qs")
  case True
  obtain ks q rs off' where ks: "qs = ks @ q # rs" "chain s q (q # rs)" "seek p off s = ret (q, off') s"
    "total_len s ks + unat off' = unat off" "unat off' < plen s q" using seek_runs [OF ch True] by blast
  obtain b where b: "q \<noteq> 0" "pbs s q = Some b" using ks(2) by auto
  have "contents s qs ! unat off = octs s (p_payload b + ucast off')"
    using contents_at [OF ks(5), of ks rs] content_at [OF ks(5) b(2)] ks(1,4) by simp
  moreover have "p_len b > off'" using ks(5) b(2) by (simp add: plen_def word_less_nat_alt)
  ultimately show ?thesis using True ks(3) b by (simp add: pbuf_get_at_def bnd_run np_runs get_oct_def)
next
  case False
  then obtain off' where "seek p off s = ret (0, off') s" using seek_past [OF ch] by fastforce
  then show ?thesis using False by (simp add: pbuf_get_at_def bnd_run)
qed

section \<open>Comparing\<close>

text \<open>What a comparison of equally long lists returns: zero, or one more than the first place they differ in.\<close>

definition compared :: "u8 list \<Rightarrow> u8 list \<Rightarrow> u16 \<Rightarrow> bool" where
  "compared xs ys r \<longleftrightarrow> (if xs = ys then r = 0
     else \<exists>j<length xs. unat r = Suc j \<and> take j xs = take j ys \<and> xs ! j \<noteq> ys ! j)"

lemma comparedI:
  assumes "length ys = length xs" "j < length xs" "unat r = Suc j" "\<And>k. k < j \<Longrightarrow> xs ! k = ys ! k" "xs ! j \<noteq> ys ! j"
  shows "compared xs ys r"
proof -
  have "take j xs = take j ys" using assms by (intro nth_equalityI) simp_all
  then show ?thesis using assms unfolding compared_def by auto
qed

lemma compared_unique: "compared xs ys r \<Longrightarrow> compared xs ys r' \<Longrightarrow> r = r'"
proof (cases "xs = ys")
  case False
  assume c: "compared xs ys r" "compared xs ys r'"
  obtain j where j: "j < length xs" "unat r = Suc j" "take j xs = take j ys" "xs ! j \<noteq> ys ! j" using c(1) False by (auto simp: compared_def)
  obtain k where k: "k < length xs" "unat r' = Suc k" "take k xs = take k ys" "xs ! k \<noteq> ys ! k" using c(2) False by (auto simp: compared_def)
  have "\<not> j < k" using j(4) k(3) by (metis nth_take)
  moreover have "\<not> k < j" using k(4) j(3) by (metis nth_take)
  ultimately show "r = r'" using j(2) k(2) by (simp add: word_unat_eq_iff)
qed (simp add: compared_def)

lemma cmp_loop_runs:
  assumes ch: "chain s q qs" and small: "total_len s qs < 65536" and fits: "unat start + unat n \<le> total_len s qs"
    and xs: "xs = take (unat n) (drop (unat start) (contents s qs))" and ys: "ys = octets_at (octs s) s2 (unat n)"
  shows "unat i \<le> unat n \<Longrightarrow> (\<And>k. k < unat i \<Longrightarrow> xs ! k = ys ! k) \<Longrightarrow>
    \<exists>r. cmp_loop q start s2 n i s = ret r s \<and> compared xs ys r"
proof (induction "unat n - unat i" arbitrary: i rule: less_induct)
  case less
  have len: "length xs = unat n" "length ys = unat n" using fits by (simp_all add: xs ys)
  show ?case
  proof (cases "i < n")
    case False
    then have i: "unat i = unat n" using less.prems(1) by (simp add: word_less_nat_alt)
    then have "xs = ys" using less.prems(2) len by (intro nth_equalityI) simp_all
    then show ?thesis using False by (subst cmp_loop.simps) (simp add: compared_def exI [of _ 0])
  next
    case True
    have lt: "unat i < unat n" using True by (simp add: word_less_nat_alt)
    have u: "unat (start + i) = unat start + unat i" using lt fits small by (subst unat_plus) simp_all
    have a: "pbuf_get_at q (start + i) s = ret (xs ! unat i) s"
      using pbuf_get_at_runs [OF ch, of "start + i"] u lt fits by (simp add: xs)
    have b: "octs s (s2 + ucast i) = ys ! unat i" using lt by (simp add: ys nth_octets_at)
    have i1: "unat (i + 1) = Suc (unat i)" using lt unat_u16_lt [of n] by (subst unat_plus) (simp_all del: unat_u16_lt)
    have run: "cmp_loop q start s2 n i s = (if xs ! unat i \<noteq> ys ! unat i then ret (i + 1) s else cmp_loop q start s2 n (i + 1) s)"
      using a b True by (subst cmp_loop.simps) (simp add: bnd_run get_oct_def)
    show ?thesis
    proof (cases "xs ! unat i = ys ! unat i")
      case False
      then have "compared xs ys (i + 1)" using len lt less.prems(2) i1 by (intro comparedI [of ys xs "unat i"]) simp_all
      then show ?thesis using run False by auto
    next
      case eq: True
      have "xs ! k = ys ! k" if "k < unat (i + 1)" for k using that i1 less.prems(2) eq by (cases "k = unat i") simp_all
      then show ?thesis using less.hyps [of "i + 1"] run eq i1 lt by simp
    qed
  qed
qed

text \<open>The comparison of \<open>n\<close> octets at an offset, within the data.\<close>

lemma pbuf_memcmp_runs:
  assumes ch: "chain s p qs" and small: "total_len s qs < 65536" and fits: "unat off + unat n \<le> total_len s qs" "unat off < total_len s qs"
  shows "\<exists>r. pbuf_memcmp p off s2 n s = ret r s
    \<and> compared (take (unat n) (drop (unat off) (contents s qs))) (octets_at (octs s) s2 (unat n)) r"
proof -
  obtain ks q rs start where ks: "qs = ks @ q # rs" "chain s q (q # rs)" "seek p off s = ret (q, start) s"
    "total_len s ks + unat start = unat off" "unat start < plen s q" using seek_runs [OF ch fits(2)] by blast
  obtain b where b: "q \<noteq> 0" "pbs s q = Some b" using ks(2) by auto
  have "p_len b > start" using ks(5) b(2) by (simp add: plen_def word_less_nat_alt)
  then have run: "pbuf_memcmp p off s2 n s = cmp_loop q start s2 n 0 s" using ks(3) b by (simp add: pbuf_memcmp_def bnd_run np_runs)
  have "drop (unat off) (contents s qs) = drop (unat start) (contents s (q # rs))"
    using ks(1) by (simp flip: ks(4))
  moreover have "unat start + unat n \<le> total_len s (q # rs)" using fits(1) ks(1) by (simp flip: ks(4))
  moreover have "total_len s (q # rs) < 65536" using small ks(1) by simp
  ultimately show ?thesis using cmp_loop_runs [OF ks(2), of start n _ _ s2 0] run by simp
qed

section \<open>Searching\<close>

text \<open>\<open>xs\<close> lies at offset \<open>i\<close> of \<open>ys\<close>.\<close>

definition occurs_at :: "u8 list \<Rightarrow> nat \<Rightarrow> u8 list \<Rightarrow> bool" where
  "occurs_at xs i ys \<longleftrightarrow> i + length xs \<le> length ys \<and> take (length xs) (drop i ys) = xs"

text \<open>What a search finds is there; it ends in all cases.\<close>

lemma find_loop_runs:
  assumes ch: "chain s p qs" and small: "total_len s qs < 65536" and n: "0 < unat n" and mx: "unat mx + unat n = total_len s qs"
  shows "\<exists>r. find_loop p mem n mx i s = ret r s
    \<and> (r = 0xFFFF \<or> unat i \<le> unat r \<and> occurs_at (octets_at (octs s) mem (unat n)) (unat r) (contents s qs))"
proof (induction "unat mx + 1 - unat i" arbitrary: i rule: less_induct)
  case less
  show ?case
  proof (cases "i \<le> mx")
    case False
    then show ?thesis by (subst find_loop.simps) (auto intro!: exI [of _ "0xFFFF"])
  next
    case True
    have i: "unat i \<le> unat mx" using True by (simp add: word_le_nat_alt)
    have fits: "unat i + unat n \<le> total_len s qs" "unat i < total_len s qs" using i mx n by simp_all
    obtain plus where plus: "pbuf_memcmp p i mem n s = ret plus s"
      "compared (take (unat n) (drop (unat i) (contents s qs))) (octets_at (octs s) mem (unat n)) plus"
      using pbuf_memcmp_runs [OF ch small fits] by blast
    have run: "find_loop p mem n mx i s = (if plus = 0 then ret i s else find_loop p mem n mx (i + plus) s)"
      using True plus(1) by (subst find_loop.simps) (simp add: bnd_run)
    show ?thesis
    proof (cases "plus = 0")
      case True
      then have "occurs_at (octets_at (octs s) mem (unat n)) (unat i) (contents s qs)"
        using plus(2) fits(1) by (auto simp: compared_def occurs_at_def split: if_splits)
      then show ?thesis using run True by auto
    next
      case False
      then obtain j where j: "j < unat n" "unat plus = Suc j" using plus(2) fits by (auto simp: compared_def split: if_splits)
      have "unat (i + plus) = unat i + Suc j" using j i mx small by (subst unat_plus) simp_all
      then have "unat mx + 1 - unat (i + plus) < unat mx + 1 - unat i" "unat i \<le> unat (i + plus)" using i by simp_all
      then show ?thesis using less.hyps [of "i + plus"] run False by fastforce
    qed
  qed
qed

lemma pbuf_memfind_runs:
  assumes ch: "chain s p (p # qs)" and tt: "tots s (p # qs)" and n: "0 < unat n"
  shows "\<exists>r. pbuf_memfind p mem n off s = ret r s
    \<and> (r = 0xFFFF \<or> unat off \<le> unat r \<and> occurs_at (octets_at (octs s) mem (unat n)) (unat r) (contents s (p # qs)))"
proof -
  obtain b where b: "p \<noteq> 0" "pbs s p = Some b" using ch by auto
  have T: "total_len s (p # qs) = unat (p_tot_len b)" "total_len s (p # qs) < 65536" using total_len_tot [OF tt] b(2) by simp_all
  show ?thesis
  proof (cases "unat n + unat off \<le> unat (p_tot_len b)")
    case False
    then show ?thesis using b by (auto simp: pbuf_memfind_def np_runs intro!: exI [of _ "0xFFFF"])
  next
    case True
    then have "unat (p_tot_len b - n) + unat n = total_len s (p # qs)" using T(1) by (subst unat_sub) (simp_all add: word_le_nat_alt)
    from find_loop_runs [OF ch T(2) n this, of mem off] show ?thesis using True b by (simp add: pbuf_memfind_def np_runs)
  qed
qed

text \<open>But not everything that is there is found.\<close>

lemma memfind_skips:
  assumes ch: "chain s p (p # qs)" and tt: "tots s (p # qs)" and c: "contents s (p # qs) = [x, x, y]"
    and pat: "octets_at (octs s) mem 2 = [x, y]" and ne: "x \<noteq> y"
  shows "pbuf_memfind p mem 2 0 s = ret 0xFFFF s"
proof -
  obtain b where b: "p \<noteq> 0" "pbs s p = Some b" using ch by auto
  have len: "total_len s (p # qs) = 3" using arg_cong [OF c, of length] by simp
  then have "unat (p_tot_len b) = 3" using total_len_tot [OF tt] b(2) by simp
  then have tot: "p_tot_len b = 3" by (simp add: word_unat_eq_iff)
  have "\<exists>r. pbuf_memcmp p 0 mem 2 s = ret r s
      \<and> compared (take (unat (2 :: u16)) (drop (unat (0 :: u16)) (contents s (p # qs)))) (octets_at (octs s) mem (unat (2 :: u16))) r"
    by (rule pbuf_memcmp_runs [OF ch]) (use len in simp_all)
  then obtain r where r: "pbuf_memcmp p 0 mem 2 s = ret r s" "compared [x, x] [x, y] r" unfolding c using pat by auto
  moreover have "compared [x, x] [x, y] 2" using ne by (auto simp: compared_def intro!: exI [of _ 1])
  ultimately have cmp: "pbuf_memcmp p 0 mem 2 s = ret 2 s" using compared_unique by blast
  have "find_loop p mem 2 1 2 s = ret 0xFFFF s" by (subst find_loop.simps) (simp add: word_le_nat_alt)
  then have "find_loop p mem 2 1 0 s = ret 0xFFFF s" by (subst find_loop.simps) (simp add: cmp bnd_run)
  then show ?thesis using b tot by (simp add: pbuf_memfind_def np_runs)
qed

section \<open>Memory that is copied\<close>

definition stretch :: "u32 \<Rightarrow> nat \<Rightarrow> u32 set" where
  "stretch p n = {p + of_nat i | i. i < n}"

definition copied :: "(u32 \<Rightarrow> u8) \<Rightarrow> u32 \<Rightarrow> u32 \<Rightarrow> u32 \<Rightarrow> (u32 \<Rightarrow> u8)" where
  "copied f dst src n = (\<lambda>a. if a - dst < n then f (src + (a - dst)) else f a)"

lemma MEMCPY_runs: "bnd (MEMCPY dst src n) f s = f () (s\<lparr>octs := copied (octs s) dst src n\<rparr>)"
  by (simp add: MEMCPY_def bnd_def ret_def copied_def)

lemma stretch_Suc: "stretch p (Suc n) = insert p (stretch (p + 1) n)"
proof -
  have "p + of_nat i \<in> insert p (stretch (p + 1) n)" if "i < Suc n" for i using that by (cases i) (auto simp: stretch_def add_ac)
  moreover have "p + 1 + of_nat i = p + of_nat (Suc i)" for i by simp
  ultimately show ?thesis by (fastforce simp: stretch_def simp del: of_nat_Suc)
qed

lemma stretch_split: "m \<le> n \<Longrightarrow> stretch p n = stretch p m \<union> stretch (p + of_nat m) (n - m)"
proof (induction m arbitrary: n p)
  case (Suc m)
  then obtain k where "n = Suc k" "m \<le> k" by (cases n) auto
  then show ?case using Suc.IH [of k "p + 1"] by (simp add: stretch_Suc add_ac)
qed (simp add: stretch_def)

lemma stretch_iff: "a \<in> stretch p (unat n) \<longleftrightarrow> a - p < n"
proof
  assume "a \<in> stretch p (unat n)"
  then obtain i where "a = p + of_nat i" "i < unat n" by (auto simp: stretch_def)
  moreover have "unat (of_nat i :: u32) = i" using \<open>i < unat n\<close> unat_u32_lt [of n] by (intro unat_of_nat32) (simp del: unat_u32_lt)
  ultimately show "a - p < n" by (simp add: word_less_nat_alt)
next
  assume "a - p < n"
  then have "a = p + of_nat (unat (a - p))" "unat (a - p) < unat n" by (simp_all add: word_less_nat_alt)
  then show "a \<in> stretch p (unat n)" unfolding stretch_def by blast
qed

lemma octets_at_cong:
  assumes "\<And>a. a \<in> stretch p n \<Longrightarrow> f a = g a"
  shows "octets_at f p n = octets_at g p n"
proof -
  have "f (p + of_nat i) = g (p + of_nat i)" if "i < n" for i using assms that unfolding stretch_def by blast
  then show ?thesis by (simp add: octets_at_def)
qed

lemma copied_there: "octets_at (copied f dst src n) dst (unat n) = octets_at f src (unat n)"
proof -
  have "copied f dst src n (dst + of_nat i) = f (src + of_nat i)" if "i < unat n" for i
  proof -
    have "dst + of_nat i \<in> stretch dst (unat n)" using that by (auto simp: stretch_def)
    then show ?thesis by (simp add: copied_def stretch_iff)
  qed
  then show ?thesis by (simp add: octets_at_def)
qed

lemma copied_front:
  assumes "unat k \<le> n" "n < 2 ^ 32"
  shows "octets_at (copied f p src k) p n = octets_at f src (unat k) @ drop (unat k) (octets_at f p n)"
proof (rule nth_equalityI)
  fix i assume "i < length (octets_at (copied f p src k) p n)"
  then have i: "i < n" by simp
  then have "unat (of_nat i :: u32) = i" using assms(2) by (intro unat_of_nat32) simp
  then have "(of_nat i :: u32) < k \<longleftrightarrow> i < unat k" by (simp add: word_less_nat_alt)
  then show "octets_at (copied f p src k) p n ! i = (octets_at f src (unat k) @ drop (unat k) (octets_at f p n)) ! i"
    using i assms(1) by (simp add: nth_octets_at copied_def nth_append)
qed (use assms in simp)

lemma octets_at_part: "a + n \<le> m \<Longrightarrow> octets_at f (p + of_nat a) n = take n (drop a (octets_at f p m))"
  by (rule nth_equalityI) (simp_all add: nth_octets_at add.assoc)

lemma stretch_apart: "m \<le> n \<Longrightarrow> n < 2 ^ 32 \<Longrightarrow> stretch p m \<inter> stretch (p + of_nat m) (n - m) = {}"
proof -
  assume n: "m \<le> n" "n < 2 ^ 32"
  have "p + of_nat i \<noteq> p + of_nat m + of_nat j" if "i < m" "j < n - m" for i j
  proof -
    have "(of_nat i :: u32) \<noteq> of_nat (m + j)" using that n by (simp del: of_nat_add)
    then show ?thesis by (simp add: add.assoc)
  qed
  then show ?thesis by (fastforce simp: stretch_def)
qed

lemma copied_elsewhere: "a \<notin> stretch dst (unat n) \<Longrightarrow> copied f dst src n a = f a"
  by (simp add: copied_def stretch_iff)

text \<open>The room of a chain, and buffers whose payloads do not overlap.\<close>

abbreviation pb_stretch :: "net \<Rightarrow> u32 \<Rightarrow> u32 set" where
  "pb_stretch s q \<equiv> stretch (p_payload (the_pb s q)) (plen s q)"

definition space :: "net \<Rightarrow> u32 list \<Rightarrow> u32 set" where
  "space s qs = (\<Union>q\<in>set qs. pb_stretch s q)"

primrec spread :: "net \<Rightarrow> u32 list \<Rightarrow> bool" where
  "spread s [] \<longleftrightarrow> True"
| "spread s (q # qs) \<longleftrightarrow> pb_stretch s q \<inter> space s qs = {} \<and> spread s qs"

lemma space_simps [simp]: "space s [] = {}" "space s (q # qs) = pb_stretch s q \<union> space s qs"
  by (simp_all add: space_def)

text \<open>Writing octets changes no packet buffer.\<close>

lemma octs_only [simp]:
  "plen (s\<lparr>octs := f\<rparr>) = plen s" "space (s\<lparr>octs := f\<rparr>) qs = space s qs" "chain (s\<lparr>octs := f\<rparr>) p qs = chain s p qs"
  "spread (s\<lparr>octs := f\<rparr>) qs = spread s qs" "tots (s\<lparr>octs := f\<rparr>) qs = tots s qs"
proof -
  show pl: "plen (s\<lparr>octs := f\<rparr>) = plen s" by (simp add: plen_def fun_eq_iff)
  show sp: "space (s\<lparr>octs := f\<rparr>) qs = space s qs" for qs by (simp add: space_def pl)
  show "chain (s\<lparr>octs := f\<rparr>) p qs = chain s p qs" by (rule chain_cong) simp
  show "spread (s\<lparr>octs := f\<rparr>) qs = spread s qs" by (induction qs) (simp_all add: pl sp)
  show "tots (s\<lparr>octs := f\<rparr>) qs = tots s qs" by (induction qs) (simp_all add: pl)
qed

lemma contents_cong: "(\<And>a. a \<in> space s qs \<Longrightarrow> f a = octs s a) \<Longrightarrow> contents (s\<lparr>octs := f\<rparr>) qs = contents s qs"
proof (induction qs)
  case (Cons q qs)
  have "octets_at f (p_payload (the_pb s q)) (plen s q) = octets_at (octs s) (p_payload (the_pb s q)) (plen s q)"
    using Cons.prems by (intro octets_at_cong) simp
  then show ?case using Cons by (simp add: content_def)
qed simp

section \<open>Into a chain\<close>

lemma plen_small: "plen s q < 4294967296"
  using unat_u16_lt [of "p_len (the_pb s q)"] by (simp add: plen_def del: unat_u16_lt)

lemma ucast_nat: "ucast (v :: u16) = (of_nat (unat v) :: u32)"
  by simp

lemma octets_at_append:
  "m \<le> n \<Longrightarrow> octets_at f p n = octets_at f p m @ octets_at f (p + of_nat m) (n - m)"
  by (rule octets_at_split)

lemma take_loop_runs:
  "chain s p qs \<Longrightarrow> spread s qs \<Longrightarrow> unat m \<le> total_len s qs \<Longrightarrow> unat c + unat m < 65536 \<Longrightarrow>
   space s qs \<inter> stretch (d + ucast c) (unat m) = {} \<Longrightarrow>
   \<exists>f. take_loop p d m c s = ret () (s\<lparr>octs := f\<rparr>) \<and> (\<forall>a. a \<notin> space s qs \<longrightarrow> f a = octs s a)
     \<and> contents (s\<lparr>octs := f\<rparr>) qs = octets_at (octs s) (d + ucast c) (unat m) @ drop (unat m) (contents s qs)"
proof (induction qs arbitrary: s p m c)
  case Nil
  then have "m = 0" by (simp add: word_unat_eq_iff)
  then show ?case by (subst take_loop.simps) (auto intro!: exI [of _ "octs s"])
next
  case (Cons q qs)
  show ?case
  proof (cases "m = 0")
    case True
    then show ?thesis by (subst take_loop.simps) (auto intro!: exI [of _ "octs s"])
  next
    case False
    obtain b n where b: "p = q" "q \<noteq> 0" "pbs s q = Some b" "links (npools s) q = Some n" "chain s n qs"
      using Cons.prems(1) by auto
    have pl: "plen s q = unat (p_len b)" "p_payload (the_pb s q) = p_payload b" using b(3) by (simp_all add: plen_def)
    define k where "k = (if m > p_len b then p_len b else m)"
    have k: "unat k = min (unat m) (unat (p_len b))" by (simp add: k_def word_less_nat_alt)
    have km: "unat (m - k) = unat m - unat k" "unat (c + k) = unat c + unat k"
      using k Cons.prems(4) by (simp_all add: unat_sub word_le_nat_alt unat_plus)
    let ?f = "copied (octs s) (p_payload b) (d + ucast c) (ucast k)"
    let ?s = "s\<lparr>octs := ?f\<rparr>"
    have run: "take_loop p d m c s = take_loop n d (m - k) (c + k) ?s"
      using b False by (subst take_loop.simps) (simp add: np_runs MEMCPY_runs Let_def flip: k_def)
    have sk: "stretch (p_payload b) (unat k) \<subseteq> pb_stretch s q" using stretch_split [of "unat k" "plen s q" "p_payload b"] pl k by auto
    have fq: "?f a = octs s a" if "a \<notin> pb_stretch s q" for a using copied_elsewhere [of a "p_payload b" "ucast k"] that sk by auto
    have src: "d + ucast (c + k) = d + ucast c + of_nat (unat k)" using km(2) by (simp add: ucast_nat add.assoc del: of_nat_unat)
    have sub: "stretch (d + ucast (c + k)) (unat (m - k)) \<subseteq> stretch (d + ucast c) (unat m)"
      using stretch_split [of "unat k" "unat m" "d + ucast c"] k km(1) unfolding src by auto
    have "space ?s qs \<inter> stretch (d + ucast (c + k)) (unat (m - k)) = {}" using Cons.prems(5) sub by auto
    note sp = this
    have ch: "chain ?s n qs" and sprd: "spread ?s qs" using b(5) Cons.prems(2) by simp_all
    have le: "unat (m - k) \<le> total_len ?s qs" using k km(1) pl(1) Cons.prems(3) by simp
    have sum: "unat (c + k) + unat (m - k) < 65536" using k km Cons.prems(4) by simp
    from Cons.IH [OF ch sprd le sum sp] obtain f where
      f: "take_loop n d (m - k) (c + k) ?s = ret () (s\<lparr>octs := f\<rparr>)" "\<And>a. a \<notin> space s qs \<Longrightarrow> f a = ?f a"
        "contents (s\<lparr>octs := f\<rparr>) qs = octets_at ?f (d + ucast (c + k)) (unat (m - k)) @ drop (unat (m - k)) (contents ?s qs)"
      by auto
    have out: "f a = octs s a" if "a \<notin> space s (q # qs)" for a using that f(2) fq by simp
    have dj: "pb_stretch s q \<inter> space s qs = {}" using Cons.prems(2) by simp
    have src_same: "octets_at ?f (d + ucast (c + k)) (unat (m - k)) = octets_at (octs s) (d + ucast (c + k)) (unat (m - k))"
      using sub Cons.prems(5) by (intro octets_at_cong fq) auto
    have "contents ?s qs = contents s qs" using dj fq by (intro contents_cong) auto
    then have tail: "contents (s\<lparr>octs := f\<rparr>) qs = octets_at (octs s) (d + ucast (c + k)) (unat (m - k)) @ drop (unat (m - k)) (contents s qs)"
      using f(3) src_same by simp
    have "octets_at f (p_payload b) (plen s q) = octets_at ?f (p_payload b) (plen s q)"
      using f(2) dj pl(2) by (intro octets_at_cong) auto
    then have "content (s\<lparr>octs := f\<rparr>) q = content ?s q" using pl(2) by (simp add: content_def)
    also have "\<dots> = octets_at (octs s) (d + ucast c) (unat k) @ drop (unat k) (content s q)"
      using copied_front [of "ucast k" "plen s q" "octs s" "p_payload b" "d + ucast c"] plen_small [of s q] k pl by (simp add: content_def)
    finally have hd: "content (s\<lparr>octs := f\<rparr>) q = octets_at (octs s) (d + ucast c) (unat k) @ drop (unat k) (content s q)" .
    have "contents (s\<lparr>octs := f\<rparr>) (q # qs) = octets_at (octs s) (d + ucast c) (unat m) @ drop (unat m) (contents s (q # qs))"
    proof (cases "unat m \<le> plen s q")
      case True
      then have "unat k = unat m" "unat (m - k) = 0" using k km(1) pl(1) by simp_all
      then show ?thesis using hd tail True by simp
    next
      case False
      then have "unat k = plen s q" "unat (m - k) = unat m - plen s q" using k km(1) pl(1) by simp_all
      then show ?thesis using hd tail False src octets_at_append [of "plen s q" "unat m" "octs s" "d + ucast c"] by simp
    qed
    then show ?thesis using run f(1) out by auto
  qed
qed

text \<open>\<open>pbuf_take\<close> writes exactly the first \<open>len\<close> octets of the chain, and nothing else.\<close>

lemma pbuf_take_runs:
  assumes ch: "chain s p (p # qs)" and tt: "tots s (p # qs)" and sp: "spread s (p # qs)"
    and len: "unat m \<le> total_len s (p # qs)" and d: "d \<noteq> 0" "space s (p # qs) \<inter> stretch d (unat m) = {}"
  shows "\<exists>f. pbuf_take p d m s = ret ERR_OK (s\<lparr>octs := f\<rparr>) \<and> (\<forall>a. a \<notin> space s (p # qs) \<longrightarrow> f a = octs s a)
    \<and> contents (s\<lparr>octs := f\<rparr>) (p # qs) = octets_at (octs s) d (unat m) @ drop (unat m) (contents s (p # qs))"
proof -
  obtain b where b: "p \<noteq> 0" "pbs s p = Some b" using ch by auto
  have "\<not> p_tot_len b < m" using total_len_tot [OF tt] b(2) len by (simp add: word_less_nat_alt)
  moreover have "unat (0 :: u16) + unat m < 65536" using unat_u16_lt [of m] by (simp del: unat_u16_lt)
  moreover have "space s (p # qs) \<inter> stretch (d + ucast (0 :: u16)) (unat m) = {}" using d(2) by simp
  ultimately show ?thesis using take_loop_runs [OF ch sp len, of 0 d] b d(1) by (auto simp: pbuf_take_def np_runs bnd_run)
qed

section \<open>Out of a chain\<close>

lemma partial_loop_runs:
  "chain s p qs \<Longrightarrow> unat l + unat m < 65536 \<Longrightarrow> space s qs \<inter> stretch (d + ucast l) (unat m) = {} \<Longrightarrow>
   k = min (unat m) (total_len s qs - unat off) \<Longrightarrow>
   \<exists>f. partial_loop p d m off l l s = ret (l + of_nat k) (s\<lparr>octs := f\<rparr>) \<and> (\<forall>a. a \<notin> stretch (d + ucast l) k \<longrightarrow> f a = octs s a)
     \<and> octets_at f (d + ucast l) k = take k (drop (unat off) (contents s qs))"
proof (induction qs arbitrary: s p m off l k)
  case Nil
  then have "p = 0" "k = 0" by simp_all
  then show ?case by (subst partial_loop.simps) (auto intro!: exI [of _ "octs s"])
next
  case (Cons q qs)
  obtain b n where b: "p = q" "q \<noteq> 0" "pbs s q = Some b" "links (npools s) q = Some n" "chain s n qs"
    using Cons.prems(1) by auto
  have pl: "plen s q = unat (p_len b)" "p_payload (the_pb s q) = p_payload b" using b(3) by (simp_all add: plen_def)
  consider (none) "m = 0" | (skip) "m \<noteq> 0" "off \<noteq> 0" "off \<ge> p_len b" | (copy) "m \<noteq> 0" "off = 0 \<or> off < p_len b" by fastforce
  then show ?case
  proof cases
    case none
    then have "k = 0" using Cons.prems(4) by simp
    then show ?thesis using none by (subst partial_loop.simps) (auto intro!: exI [of _ "octs s"])
  next
    case skip
    have u: "unat (off - p_len b) = unat off - plen s q" "plen s q \<le> unat off" using skip pl by (simp_all add: unat_sub word_le_nat_alt)
    have run: "partial_loop p d m off l l s = partial_loop n d m (off - p_len b) l l s"
      using b skip by (subst partial_loop.simps) (simp add: np_runs)
    have "space s qs \<inter> stretch (d + ucast l) (unat m) = {}" using Cons.prems(3) by auto
    moreover have "k = min (unat m) (total_len s qs - unat (off - p_len b))" using Cons.prems(4) u by simp
    moreover have "drop (unat off) (contents s (q # qs)) = drop (unat (off - p_len b)) (contents s qs)" using u by simp
    ultimately show ?thesis unfolding run using Cons.IH [OF b(5) Cons.prems(2)] by simp
  next
    case copy
    define j where "j = (if p_len b - off > m then m else p_len b - off)"
    have off: "unat off \<le> plen s q" using copy pl by (auto simp: word_less_nat_alt)
    have j: "unat j = min (unat m) (plen s q - unat off)"
      using off pl by (auto simp: j_def word_less_nat_alt unat_sub word_le_nat_alt)
    have jm: "unat (m - j) = unat m - unat j" "unat (l + j) = unat l + unat j"
      using j Cons.prems(2) by (simp_all add: unat_sub word_le_nat_alt unat_plus)
    let ?f = "copied (octs s) (d + ucast l) (p_payload b + ucast off) (ucast j)"
    let ?s = "s\<lparr>octs := ?f\<rparr>"
    have run: "partial_loop p d m off l l s = partial_loop n d (m - j) 0 (l + j) (l + j) ?s"
      using b copy by (subst partial_loop.simps) (auto simp: np_runs MEMCPY_runs Let_def simp flip: j_def)
    have dst: "d + ucast (l + j) = d + ucast l + of_nat (unat j)" using jm(2) by (simp add: ucast_nat add.assoc del: of_nat_unat)
    have sub: "stretch (d + ucast (l + j)) (unat (m - j)) \<subseteq> stretch (d + ucast l) (unat m)" "stretch (d + ucast l) (unat j) \<subseteq> stretch (d + ucast l) (unat m)"
      using stretch_split [of "unat j" "unat m" "d + ucast l"] j jm(1) unfolding dst by auto
    define k' where "k' = min (unat (m - j)) (total_len s qs)"
    have k: "k = unat j + k'" "k' \<le> unat (m - j)" using Cons.prems(4) j jm(1) off by (auto simp: k'_def min_def)
    have ch: "chain ?s n qs" using b(5) by simp
    have sum: "unat (l + j) + unat (m - j) < 65536" using j jm Cons.prems(2) by simp
    have sp: "space ?s qs \<inter> stretch (d + ucast (l + j)) (unat (m - j)) = {}" using Cons.prems(3) sub(1) by auto
    have k'': "k' = min (unat (m - j)) (total_len ?s qs - unat (0 :: u16))" by (simp add: k'_def)
    from Cons.IH [OF ch sum sp k''] obtain f where
      f: "partial_loop n d (m - j) 0 (l + j) (l + j) ?s = ret (l + j + of_nat k') (s\<lparr>octs := f\<rparr>)"
        "\<And>a. a \<notin> stretch (d + ucast (l + j)) k' \<Longrightarrow> f a = ?f a" "octets_at f (d + ucast (l + j)) k' = take k' (contents ?s qs)"
      by auto
    have fs: "?f a = octs s a" if "a \<notin> stretch (d + ucast l) (unat j)" for a using copied_elsewhere that by simp
    have "contents ?s qs = contents s qs" using Cons.prems(3) sub(2) by (intro contents_cong fs) auto
    then have tail: "octets_at f (d + ucast (l + j)) k' = take k' (contents s qs)" using f(3) by simp
    have "unat j + k' \<le> unat m" using k(2) jm(1) j by linarith
    then have small: "unat j + k' < 2 ^ 32" using unat_u16_lt [of m] by (simp del: unat_u16_lt)
    have "octets_at f (d + ucast l) (unat j) = octets_at ?f (d + ucast l) (unat j)"
      using stretch_apart [of "unat j" "unat j + k'" "d + ucast l"] small unfolding dst [symmetric]
      by (intro octets_at_cong f(2)) auto
    also have "\<dots> = octets_at (octs s) (p_payload b + ucast off) (unat j)" using copied_there [of "octs s" "d + ucast l" _ "ucast j"] by simp
    also have "\<dots> = take (unat j) (drop (unat off) (content s q))"
      using octets_at_part [of "unat off" "unat j" "plen s q" "octs s" "p_payload b"] j off pl(2) by (simp add: content_def)
    finally have "octets_at f (d + ucast l) k = take (unat j) (drop (unat off) (content s q)) @ take k' (contents s qs)"
      using octets_at_append [of "unat j" k f "d + ucast l"] k(1) tail dst by simp
    also have "\<dots> = take k (drop (unat off) (contents s (q # qs)))"
    proof (cases "unat m \<le> plen s q - unat off")
      case True
      then have "k' = 0" "unat j = unat m" using j jm(1) by (simp_all add: k'_def)
      then show ?thesis using True k(1) off by simp
    next
      case False
      then have "unat j = plen s q - unat off" using j by simp
      then show ?thesis using k(1) off by simp
    qed
    finally have "octets_at f (d + ucast l) k = take k (drop (unat off) (contents s (q # qs)))" .
    moreover have "f a = octs s a" if "a \<notin> stretch (d + ucast l) k" for a
      using that f(2) [of a] fs [of a] stretch_split [of "unat j" k "d + ucast l"] k(1) dst by auto
    moreover have "partial_loop p d m off l l s = ret (l + of_nat k) (s\<lparr>octs := f\<rparr>)"
      using run f(1) k(1) by (simp add: add.assoc)
    ultimately show ?thesis by blast
  qed
qed

text \<open>\<open>pbuf_copy_partial\<close> returns how many octets it copied, and writes these and nothing else.\<close>

lemma pbuf_copy_partial_runs:
  assumes ch: "chain s p (p # qs)" and d: "d \<noteq> 0" "space s (p # qs) \<inter> stretch d (unat m) = {}"
    and k: "k = min (unat m) (total_len s (p # qs) - unat off)"
  shows "\<exists>f. pbuf_copy_partial p d m off s = ret (of_nat k) (s\<lparr>octs := f\<rparr>) \<and> (\<forall>a. a \<notin> stretch d k \<longrightarrow> f a = octs s a)
    \<and> octets_at f d k = take k (drop (unat off) (contents s (p # qs)))"
proof -
  have "unat (0 :: u16) + unat m < 65536" using unat_u16_lt [of m] by (simp del: unat_u16_lt)
  moreover have "space s (p # qs) \<inter> stretch (d + ucast (0 :: u16)) (unat m) = {}" using d(2) by simp
  moreover have "p \<noteq> 0" using ch by auto
  ultimately show ?thesis using partial_loop_runs [OF ch _ _ k, of 0 d] d(1) by (simp add: pbuf_copy_partial_def)
qed

text \<open>What was put in comes out.\<close>

lemma take_copy_back:
  assumes ch: "chain s p (p # qs)" and tt: "tots s (p # qs)" and sp: "spread s (p # qs)" and m: "unat m \<le> total_len s (p # qs)"
    and d: "d \<noteq> 0" "space s (p # qs) \<inter> stretch d (unat m) = {}" and e: "e \<noteq> 0" "space s (p # qs) \<inter> stretch e (unat m) = {}"
  shows "\<exists>s1 s'. pbuf_take p d m s = ret ERR_OK s1 \<and> pbuf_copy_partial p e m 0 s1 = ret m s'
    \<and> octets_at (octs s') e (unat m) = octets_at (octs s) d (unat m)"
proof -
  obtain f where f: "pbuf_take p d m s = ret ERR_OK (s\<lparr>octs := f\<rparr>)"
    "contents (s\<lparr>octs := f\<rparr>) (p # qs) = octets_at (octs s) d (unat m) @ drop (unat m) (contents s (p # qs))"
    using pbuf_take_runs [OF ch tt sp m d] by blast
  let ?s = "s\<lparr>octs := f\<rparr>"
  have "chain ?s p (p # qs)" using ch by (simp only: octs_only)
  moreover have "space ?s (p # qs) \<inter> stretch e (unat m) = {}" using e(2) by (simp only: octs_only)
  moreover have "unat m = min (unat m) (total_len ?s (p # qs) - unat (0 :: u16))" using m by (simp only: octs_only) simp
  ultimately obtain g where g: "pbuf_copy_partial p e m 0 ?s = ret (of_nat (unat m)) (?s\<lparr>octs := g\<rparr>)"
    "octets_at g e (unat m) = take (unat m) (drop (unat (0 :: u16)) (contents ?s (p # qs)))"
    using pbuf_copy_partial_runs [of ?s p qs e m "unat m" 0] e(1) by blast
  have "octets_at g e (unat m) = octets_at (octs s) d (unat m)" using g(2) unfolding f(2) by simp
  then show ?thesis using f(1) g(1) by (intro exI [of _ ?s] exI [of _ "?s\<lparr>octs := g\<rparr>"]) simp
qed

section \<open>Between chains\<close>

text \<open>
  The copy takes a buffer whose length is the total length left for the end of a packet. So it relies on the last buffer
  of each chain holding data (\<open>ends_full\<close>); the others may be empty.
\<close>

definition ends_full :: "net \<Rightarrow> u32 list \<Rightarrow> bool" where
  "ends_full s qs \<longleftrightarrow> (qs \<noteq> [] \<longrightarrow> 0 < plen s (last qs))"

lemma ends_full_simps [simp]:
  "ends_full s []" "ends_full s [q] \<longleftrightarrow> 0 < plen s q" "ends_full s (q # a # qs) \<longleftrightarrow> ends_full s (a # qs)"
  "ends_full (s\<lparr>octs := f\<rparr>) qs \<longleftrightarrow> ends_full s qs"
  by (simp_all add: ends_full_def)

lemma ends_full_tail: "ends_full s (q # qs) \<Longrightarrow> ends_full s qs"
  by (cases qs) simp_all

lemma ends_full_total: "ends_full s qs \<Longrightarrow> qs \<noteq> [] \<Longrightarrow> 0 < total_len s qs"
  by (induction qs) (auto simp: ends_full_def split: if_splits)

lemma queued_no:
  assumes "chain s p qs" "tots s qs" "ends_full s qs"
  shows "queued p s = ret False s"
proof (cases qs)
  case Nil
  then show ?thesis using assms(1) by (simp add: queued_def)
next
  case (Cons q rs)
  obtain b n where b: "p = q" "q \<noteq> 0" "pbs s q = Some b" "links (npools s) q = Some n" "chain s n rs"
    using assms(1) Cons by auto
  have "n = 0" if "p_len b = p_tot_len b"
  proof -
    have "total_len s rs = 0" using assms(2) Cons b(3) that by (simp add: plen_def)
    moreover have "ends_full s rs" using assms(3) Cons ends_full_tail by simp
    ultimately have "rs = []" using ends_full_total [of s rs] by linarith
    then show "n = 0" using b(5) by simp
  qed
  then show ?thesis using b by (simp add: queued_def np_runs)
qed

text \<open>One step of the copy: to the place after it in each chain.\<close>

definition after :: "net \<Rightarrow> nat \<Rightarrow> u32 \<Rightarrow> u32 list \<Rightarrow> u32 list \<times> nat" where
  "after s a q qs = (if a = plen s q then (qs, 0) else (q # qs, a))"

lemma step_to_runs:
  assumes "chain s q (q # qs)" "unat a \<le> plen s q" "e \<longleftrightarrow> unat a = plen s q"
  shows "\<exists>p' a'. step_to e q a s = ret (p', a') s \<and> chain s p' (fst (after s (unat a) q qs)) \<and> unat a' = snd (after s (unat a) q qs)"
proof (cases e)
  case True
  obtain n where "q \<noteq> 0" "links (npools s) q = Some n" "chain s n qs" using assms(1) by auto
  then show ?thesis using True assms(3) by (intro exI [of _ n] exI [of _ 0]) (simp add: step_to_def after_def np_runs)
next
  case False
  then show ?thesis using assms by (intro exI [of _ q] exI [of _ a]) (simp add: step_to_def after_def)
qed

lemma after_rest: "a \<le> plen s q \<Longrightarrow> after s a q qs = (rs, c) \<Longrightarrow> drop a (contents s (q # qs)) = drop c (contents s rs)
    \<and> total_len s rs - c = total_len s (q # qs) - a \<and> set rs \<subseteq> set (q # qs) \<and> (rs \<noteq> [] \<longrightarrow> c \<le> plen s (hd rs))
    \<and> (ends_full s (q # qs) \<longrightarrow> ends_full s rs \<and> (rs \<noteq> [] \<longrightarrow> c < total_len s rs))
    \<and> length rs + (if a = plen s q then 1 else 0) = length (q # qs)"
  by (auto simp: after_def ends_full_tail dest!: ends_full_tail split: if_splits intro: ends_full_total)

text \<open>Writing in the middle of a buffer.\<close>

lemma copied_middle:
  assumes "a + unat k \<le> n" "n < 2 ^ 32"
  shows "octets_at (copied f (p + of_nat a) src k) p n = take a (octets_at f p n) @ octets_at f src (unat k) @ drop (a + unat k) (octets_at f p n)"
proof -
  have "octets_at (copied f (p + of_nat a) src k) p n
      = octets_at (copied f (p + of_nat a) src k) p a @ octets_at (copied f (p + of_nat a) src k) (p + of_nat a) (n - a)"
    using assms(1) by (intro octets_at_split) simp
  also have "octets_at (copied f (p + of_nat a) src k) p a = octets_at f p a"
  proof (rule octets_at_cong, rule copied_elsewhere)
    fix x assume "x \<in> stretch p a"
    then show "x \<notin> stretch (p + of_nat a) (unat k)"
      using stretch_apart [of a "a + unat k" p] assms by auto
  qed
  also have "octets_at f p a = take a (octets_at f p n)" using octets_at_part [of 0 a n f p] assms(1) by simp
  also have "octets_at (copied f (p + of_nat a) src k) (p + of_nat a) (n - a) = octets_at f src (unat k) @ drop (unat k) (octets_at f (p + of_nat a) (n - a))"
    using assms by (intro copied_front) simp_all
  also have "octets_at f (p + of_nat a) (n - a) = drop a (octets_at f p n)" using octets_at_part [of a "n - a" n f p] assms(1) by simp
  finally show ?thesis by (simp add: add.commute)
qed

text \<open>The lists before and after a step: \<open>x\<close> was written at \<open>a\<close>, and the rest goes on behind it.\<close>

lemma drop_split: "drop i xs = take j (drop i xs) @ drop (i + j) xs"
  by (metis append_take_drop_id drop_drop add.commute)

lemma splice:
  assumes x: "a + length x \<le> length cs" and c1: "cs1 = take a cs @ x @ drop (a + length x) cs"
    and a1: "(ts1, a1) = (if a + length x = length cs then (ts, 0) else (cs1 @ ts, a + length x))"
    and new: "new = take a1 ts1 @ rest @ drop (a1 + length rest) ts1"
  shows "(if a + length x = length cs then cs1 @ new else new) = take a (cs @ ts) @ (x @ rest) @ drop (a + length (x @ rest)) (cs @ ts)"
proof (cases "a + length x = length cs")
  case True
  then have "a + length (x @ rest) - length cs = length rest" by simp
  then show ?thesis using assms True by simp
next
  case False
  then show ?thesis using assms by (simp add: add_ac)
qed

text \<open>One turn of the loop: what it copies and where it goes on.\<close>

lemma copy_step:
  assumes cht: "chain s p (t # ts)" and chg: "chain s p' (g # gs)" and tt: "tots s (t # ts) \<and> tots s (g # gs)"
    and pos: "ends_full s (t # ts)" "ends_full s (g # gs)" and ac: "unat a \<le> plen s t" "unat c \<le> plen s g"
  obtains n q1 a1 q2 c1 ts1 gs1 a1n c1n where "unat n = min (plen s t - unat a) (plen s g - unat c)"
    "unat (a + n) = unat a + unat n" "unat (c + n) = unat c + unat n"
    "after s (unat (a + n)) t ts = (ts1, a1n)" "after s (unat (c + n)) g gs = (gs1, c1n)" "unat a1 = a1n" "unat c1 = c1n"
    "chain s q1 ts1" "chain s q2 gs1" "length ts1 + length gs1 < length (t # ts) + length (g # gs)"
    "copy_loop p a p' c s = (if q2 \<noteq> 0 then copy_loop q1 a1 q2 c1 else ret ERR_OK)
       (s\<lparr>octs := copied (octs s) (p_payload (the_pb s t) + ucast a) (p_payload (the_pb s g) + ucast c) (ucast n)\<rparr>)"
proof -
  obtain bt where bt: "p = t" "t \<noteq> 0" "pbs s t = Some bt" using cht by auto
  obtain bg where bg: "p' = g" "g \<noteq> 0" "pbs s g = Some bg" using chg by auto
  have pt: "plen s t = unat (p_len bt)" "p_payload (the_pb s t) = p_payload bt" using bt(3) by (simp_all add: plen_def)
  have pg: "plen s g = unat (p_len bg)" "p_payload (the_pb s g) = p_payload bg" using bg(3) by (simp_all add: plen_def)
  define n where "n = (if int (unat (p_len bt)) - int (unat a) \<ge> int (unat (p_len bg)) - int (unat c) then p_len bg - c else p_len bt - a)"
  have n: "unat n = min (plen s t - unat a) (plen s g - unat c)"
  proof -
    have "int (unat (p_len bt)) - int (unat a) \<ge> int (unat (p_len bg)) - int (unat c) \<longleftrightarrow> plen s g - unat c \<le> plen s t - unat a"
      using ac unfolding pt pg by linarith
    then have "n = (if plen s g - unat c \<le> plen s t - unat a then p_len bg - c else p_len bt - a)" by (simp only: n_def)
    then show ?thesis using ac pt pg by (simp add: unat_sub word_le_nat_alt min_def)
  qed
  have u: "unat (a + n) = unat a + unat n" "unat (c + n) = unat c + unat n"
    using n ac pt pg unat_u16_lt [of "p_len bt"] unat_u16_lt [of "p_len bg"] by (auto simp: unat_plus simp del: unat_u16_lt)
  let ?f = "copied (octs s) (p_payload bt + ucast a) (p_payload bg + ucast c) (ucast n)"
  let ?s = "s\<lparr>octs := ?f\<rparr>"
  obtain ts1 a1n gs1 c1n where after: "after s (unat (a + n)) t ts = (ts1, a1n)" "after s (unat (c + n)) g gs = (gs1, c1n)"
    by (metis surj_pair)
  have le: "unat (a + n) \<le> plen s t" "unat (c + n) \<le> plen s g" using u n ac by (auto simp: min_def)
  have at: "after ?s = after s" by (simp add: after_def fun_eq_iff)
  have chs: "chain ?s t (t # ts)" "chain ?s g (g # gs)" using cht chg bt(1) bg(1) by (simp_all only: octs_only)
  obtain q1 a1 where q1: "step_to (a + n = p_len bt) t (a + n) ?s = ret (q1, a1) ?s" "chain ?s q1 ts1" "unat a1 = a1n"
    using step_to_runs [OF chs(1), of "a + n" "a + n = p_len bt"] le(1) pt(1) after(1) at by (auto simp: word_unat_eq_iff)
  have e2: "p_len bg \<le> c + n \<longleftrightarrow> unat (c + n) = plen ?s g" using le(2) pg(1) by (auto simp: word_le_nat_alt)
  obtain q2 c1 where q2: "step_to (p_len bg \<le> c + n) g (c + n) ?s = ret (q2, c1) ?s" "chain ?s q2 gs1" "unat c1 = c1n"
    using step_to_runs [OF chs(2) _ e2] le(2) after(2) at by auto
  note ar = after_rest [OF le(1) after(1)] and ag = after_rest [OF le(2) after(2)]
  have sub: "tots s ts1" "ends_full s ts1" using tt pos(1) ar after(1) by (auto simp: after_def split: if_splits)
  have subg: "tots s gs1" "ends_full s gs1" using tt pos(2) ag after(2) by (auto simp: after_def split: if_splits)
  have "unat (a + n) = plen s t \<or> unat (c + n) = plen s g" using u n ac by (auto simp: min_def)
  then have len: "length ts1 + length gs1 < length (t # ts) + length (g # gs)" using ar ag by auto
  have nq: "queued q1 ?s = ret False ?s" "queued q2 ?s = ret False ?s"
    using q1(2) q2(2) sub subg by (auto intro!: queued_no simp del: chain.simps)
  have nu: "(if uint (p_len bg) - uint c \<le> uint (p_len bt) - uint a then p_len bg - c else p_len bt - a) = n" by (simp add: n_def)
  have run: "copy_loop p a p' c s = (if q2 \<noteq> 0 then copy_loop q1 a1 q2 c1 else ret ERR_OK) ?s"
    using bt bg q1(1) q2(1) nq by (subst copy_loop.simps) (simp add: np_runs MEMCPY_runs bnd_run Let_def nu)
  have "chain s q1 ts1" "chain s q2 gs1" using q1(2) q2(2) by (simp_all only: octs_only)
  moreover have "p_payload bt = p_payload (the_pb s t)" "p_payload bg = p_payload (the_pb s g)" using pt(2) pg(2) by simp_all
  ultimately show thesis using that [OF n u after q1(3) q2(3) _ _ len] run by simp
qed

text \<open>Whatever overlaps, the copy of a packet into one that is as long ends well.\<close>

lemma copy_loop_ends:
  "chain s p (t # ts) \<Longrightarrow> chain s p' (g # gs) \<Longrightarrow> tots s (t # ts) \<and> tots s (g # gs) \<Longrightarrow>
   ends_full s (t # ts) \<Longrightarrow> ends_full s (g # gs) \<Longrightarrow> unat a \<le> plen s t \<Longrightarrow> unat c \<le> plen s g \<Longrightarrow>
   total_len s (g # gs) - unat c \<le> total_len s (t # ts) - unat a \<Longrightarrow>
   \<exists>f. copy_loop p a p' c s = ret ERR_OK (s\<lparr>octs := f\<rparr>)"
proof (induction "length (t # ts) + length (g # gs)" arbitrary: s p t ts p' g gs a c rule: less_induct)
  case less
  note tt = less.prems(3) and pos = less.prems(4,5) and ac = less.prems(6,7) and R = less.prems(8)
  obtain n q1 a1 q2 c1 ts1 gs1 a1n c1n where n: "unat n = min (plen s t - unat a) (plen s g - unat c)"
    and u: "unat (a + n) = unat a + unat n" "unat (c + n) = unat c + unat n"
    and after: "after s (unat (a + n)) t ts = (ts1, a1n)" "after s (unat (c + n)) g gs = (gs1, c1n)" "unat a1 = a1n" "unat c1 = c1n"
    and ch: "chain s q1 ts1" "chain s q2 gs1" and len: "length ts1 + length gs1 < length (t # ts) + length (g # gs)"
    and run: "copy_loop p a p' c s = (if q2 \<noteq> 0 then copy_loop q1 a1 q2 c1 else ret ERR_OK)
       (s\<lparr>octs := copied (octs s) (p_payload (the_pb s t) + ucast a) (p_payload (the_pb s g) + ucast c) (ucast n)\<rparr>)"
    using copy_step [OF less.prems(1-5) ac] by metis
  let ?s = "s\<lparr>octs := copied (octs s) (p_payload (the_pb s t) + ucast a) (p_payload (the_pb s g) + ucast c) (ucast n)\<rparr>"
  have le: "unat (a + n) \<le> plen s t" "unat (c + n) \<le> plen s g" using u n ac by (auto simp: min_def)
  note ar = after_rest [OF le(1) after(1)] and ag = after_rest [OF le(2) after(2)]
  have sub: "tots s ts1 \<and> tots s gs1" "ends_full s ts1" "ends_full s gs1"
    using tt pos ar ag after(1,2) by (auto simp: after_def split: if_splits)
  show ?case
  proof (cases gs1)
    case Nil
    then show ?thesis using run ch(2) by auto
  next
    case (Cons g' gs')
    have R1: "total_len s gs1 - c1n \<le> total_len s ts1 - a1n" using ar ag R u by simp
    have "c1n < total_len s gs1" using ag Cons pos by simp
    then have "ts1 \<noteq> []" using R1 by auto
    then obtain t' ts' where t': "ts1 = t' # ts'" by (cases ts1) auto
    have hs: "unat a1 \<le> plen s t'" "unat c1 \<le> plen s g'" using ar ag t' Cons after(3,4) by simp_all
    have "total_len s (g' # gs') - unat c1 \<le> total_len s (t' # ts') - unat a1" using R1 after(3,4) t' Cons by simp
    then obtain f where "copy_loop q1 a1 q2 c1 ?s = ret ERR_OK (?s\<lparr>octs := f\<rparr>)"
      using less.hyps [of t' ts' g' gs' ?s q1 q2 a1 c1] len ch sub hs unfolding octs_only ends_full_simps t' Cons by blast
    moreover have "q2 \<noteq> 0" using ch(2) Cons by simp
    ultimately have "copy_loop p a p' c s = ret ERR_OK (s\<lparr>octs := f\<rparr>)" using run by simp
    then show ?thesis by blast
  qed
qed

lemma copy_loop_runs:
  "chain s p (t # ts) \<Longrightarrow> chain s p' (g # gs) \<Longrightarrow> tots s (t # ts) \<and> tots s (g # gs) \<Longrightarrow> spread s (t # ts) \<Longrightarrow>
   space s (t # ts) \<inter> space s (g # gs) = {} \<Longrightarrow> ends_full s (t # ts) \<Longrightarrow> ends_full s (g # gs) \<Longrightarrow>
   unat a \<le> plen s t \<Longrightarrow> unat c \<le> plen s g \<Longrightarrow> R = total_len s (g # gs) - unat c \<Longrightarrow> R \<le> total_len s (t # ts) - unat a \<Longrightarrow>
   \<exists>f. copy_loop p a p' c s = ret ERR_OK (s\<lparr>octs := f\<rparr>) \<and> (\<forall>x. x \<notin> space s (t # ts) \<longrightarrow> f x = octs s x)
     \<and> contents (s\<lparr>octs := f\<rparr>) (t # ts)
       = take (unat a) (contents s (t # ts)) @ drop (unat c) (contents s (g # gs)) @ drop (unat a + R) (contents s (t # ts))"
proof (induction "length (t # ts) + length (g # gs)" arbitrary: R s p t ts p' g gs a c rule: less_induct)
  case less
  note cht = less.prems(1) and chg = less.prems(2) and tt = less.prems(3) and sp = less.prems(4) and dj = less.prems(5)
    and pos = less.prems(6,7) and ac = less.prems(8,9) and R = less.prems(10,11)
  obtain n q1 a1 q2 c1 ts1 gs1 a1n c1n where n: "unat n = min (plen s t - unat a) (plen s g - unat c)"
    and u: "unat (a + n) = unat a + unat n" "unat (c + n) = unat c + unat n"
    and after: "after s (unat (a + n)) t ts = (ts1, a1n)" "after s (unat (c + n)) g gs = (gs1, c1n)"
    and a1: "unat a1 = a1n" and c1: "unat c1 = c1n" and ch1: "chain s q1 ts1" "chain s q2 gs1"
    and len: "length ts1 + length gs1 < length (t # ts) + length (g # gs)"
    and run: "copy_loop p a p' c s = (if q2 \<noteq> 0 then copy_loop q1 a1 q2 c1 else ret ERR_OK)
       (s\<lparr>octs := copied (octs s) (p_payload (the_pb s t) + ucast a) (p_payload (the_pb s g) + ucast c) (ucast n)\<rparr>)"
    using copy_step [OF cht chg tt pos ac] by metis
  define pt where "pt = p_payload (the_pb s t)"
  define pg where "pg = p_payload (the_pb s g)"
  let ?f = "copied (octs s) (pt + ucast a) (pg + ucast c) (ucast n)"
  let ?s = "s\<lparr>octs := ?f\<rparr>"
  note run = run [folded pt_def pg_def]
  have le: "unat (a + n) \<le> plen s t" "unat (c + n) \<le> plen s g" using u n ac by (auto simp: min_def)
  note ar = after_rest [OF le(1) after(1)] and ag = after_rest [OF le(2) after(2)]
  have sub: "tots s ts1" "spread s ts1" "ends_full s ts1" "space s ts1 \<subseteq> space s (t # ts)"
    using tt sp pos(1) ar after(1) by (auto simp: after_def split: if_splits)
  have subg: "tots s gs1" "ends_full s gs1" "space s gs1 \<subseteq> space s (g # gs)"
    using tt pos(2) ag after(2) by (auto simp: after_def split: if_splits)
  define x where "x = take (unat n) (drop (unat c) (content s g))"
  have lx: "length x = unat n" using n ac by (simp add: x_def)
  have small: "plen s t < 2 ^ 32" using plen_small [of s t] by simp
  have "octets_at (octs s) (pg + ucast c) (unat n) = x"
    using octets_at_part [of "unat c" "unat n" "plen s g" "octs s" "pg"] le(2) u(2) pg_def by (simp add: x_def content_def)
  then have ct: "content ?s t = take (unat a) (content s t) @ x @ drop (unat a + length x) (content s t)"
    using copied_middle [of "unat a" "ucast n" "plen s t" "octs s" "pt"] le(1) u(1) pt_def small lx
    by (simp add: content_def)
  have wr: "stretch (pt + ucast a) (unat n) \<subseteq> pb_stretch s t"
  proof -
    have "stretch (pt) (plen s t) = stretch (pt) (unat a) \<union> stretch (pt + ucast a) (plen s t - unat a)"
      using stretch_split [of "unat a" "plen s t" "pt"] ac(1) by simp
    moreover have "stretch (pt + ucast a) (unat n) \<subseteq> stretch (pt + ucast a) (plen s t - unat a)"
      using stretch_split [of "unat n" "plen s t - unat a" "pt + ucast a"] n by auto
    ultimately show ?thesis using pt_def by auto
  qed
  have fs: "?f y = octs s y" if "y \<notin> pb_stretch s t" for y using that wr copied_elsewhere [of y _ "ucast n"] by auto
  have same: "contents ?s ts = contents s ts" "contents ?s gs1 = contents s gs1"
    using sp dj subg(3) by (intro contents_cong fs, auto)+
  define R1 where "R1 = total_len s gs1 - c1n"
  define rest where "rest = drop c1n (contents s gs1)"
  have lr: "length rest = R1" by (simp add: rest_def R1_def)
  have tc: "unat (c + n) \<le> total_len s (g # gs)" using le(2) by simp
  then have R1: "R1 + unat n = R" using ag R(1) u(2) by (simp add: R1_def)
  have all: "drop (unat c) (contents s (g # gs)) = x @ rest"
  proof -
    have "drop (unat c) (contents s (g # gs)) = take (unat n) (drop (unat c) (contents s (g # gs))) @ drop (unat (c + n)) (contents s (g # gs))"
      unfolding u(2) by (rule drop_split)
    moreover have "take (unat n) (drop (unat c) (contents s (g # gs))) = x" using n ac by (simp add: x_def)
    moreover have "drop (unat (c + n)) (contents s (g # gs)) = rest" unfolding rest_def using ag by (rule conjunct1)
    ultimately show ?thesis by metis
  qed
  obtain f where f: "copy_loop p a p' c s = ret ERR_OK (s\<lparr>octs := f\<rparr>)" "\<And>y. y \<notin> space s ts1 \<Longrightarrow> f y = ?f y"
    "contents (s\<lparr>octs := f\<rparr>) ts1 = take a1n (contents ?s ts1) @ rest @ drop (a1n + length rest) (contents ?s ts1)"
  proof (cases "gs1 = []")
    case True
    then have "q2 = 0" "rest = []" using ch1(2) by (simp_all add: rest_def)
    then show ?thesis using that [of ?f] run by simp
  next
    case False
    then obtain g' gs' where g': "gs1 = g' # gs'" by (cases gs1) auto
    have hg: "c1n \<le> plen s g'" using ag g' by simp
    have R1t: "R1 \<le> total_len s ts1 - a1n" using ar R1(1) R(2) u(1) by simp
    have "c1n < total_len s gs1" using ag g' pos(2) by blast
    then have "0 < R1" by (simp add: R1_def)
    then have "ts1 \<noteq> []" using R1t by auto
    then obtain t' ts' where t': "ts1 = t' # ts'" by (cases ts1) auto
    have ht: "a1n \<le> plen s t'" using ar t' by simp
    have "space s ts1 \<inter> space s gs1 = {}" using dj sub(4) subg(3) by auto
    moreover have "tots s ts1 \<and> tots s gs1" using sub(1) subg(1) by simp
    moreover have "R1 = total_len s gs1 - unat c1" "R1 \<le> total_len s ts1 - unat a1" using R1_def R1t a1 c1 by simp_all
    moreover have "unat a1 \<le> plen s t'" "unat c1 \<le> plen s g'" using ht hg a1 c1 by simp_all
    ultimately obtain f where "copy_loop q1 a1 q2 c1 ?s = ret ERR_OK (?s\<lparr>octs := f\<rparr>)" "\<forall>y. y \<notin> space s ts1 \<longrightarrow> f y = octs ?s y"
      "contents (?s\<lparr>octs := f\<rparr>) ts1 = take (unat a1) (contents ?s ts1) @ drop (unat c1) (contents ?s gs1) @ drop (unat a1 + R1) (contents ?s ts1)"
      using less.hyps [of t' ts' g' gs' ?s q1 q2 a1 c1 R1] len ch1(1) ch1(2) sub(2,3) subg(2)
      unfolding octs_only ends_full_simps t' g' by blast
    moreover have "q2 \<noteq> 0" using ch1(2) g' by simp
    ultimately show ?thesis using that [of f] run same(2) a1 c1 lr by (simp add: rest_def)
  qed
  have done_t: "content (s\<lparr>octs := f\<rparr>) t = content ?s t" if "ts1 = ts"
  proof -
    have "f y = ?f y" if "y \<in> pb_stretch s t" for y using f(2) [of y] that \<open>ts1 = ts\<close> sp by auto
    then have "octets_at f (pt) (plen s t) = octets_at ?f (pt) (plen s t)" using pt_def by (intro octets_at_cong) simp
    then show ?thesis using pt_def by (simp add: content_def)
  qed
  have at_end: "unat a + length x = length (content s t) \<longleftrightarrow> unat (a + n) = plen s t" using u(1) lx by simp
  have "(contents ?s ts1, a1n) = (if unat a + length x = length (content s t) then (contents s ts, 0)
      else (content ?s t @ contents s ts, unat a + length x))"
    using after(1) same(1) u(1) lx unfolding at_end by (auto simp: after_def split: if_splits)
  note sp1 = splice [OF _ ct this f(3)]
  have "contents (s\<lparr>octs := f\<rparr>) (t # ts) = (if unat a + length x = length (content s t)
      then content ?s t @ contents (s\<lparr>octs := f\<rparr>) ts1 else contents (s\<lparr>octs := f\<rparr>) ts1)"
    using after(1) done_t unfolding at_end by (auto simp: after_def split: if_splits)
  also have "\<dots> = take (unat a) (content s t @ contents s ts) @ (x @ rest) @ drop (unat a + length (x @ rest)) (content s t @ contents s ts)"
    using sp1 le(1) u(1) lx by simp
  finally have "contents (s\<lparr>octs := f\<rparr>) (t # ts)
    = take (unat a) (contents s (t # ts)) @ drop (unat c) (contents s (g # gs)) @ drop (unat a + R) (contents s (t # ts))"
    using R1(1) lx lr unfolding all by (simp add: add.commute)
  moreover have "f y = octs s y" if "y \<notin> space s (t # ts)" for y using f(2) [of y] fs [of y] that sub(4) by auto
  ultimately show ?case using f(1) by blast
qed

lemma pbuf_copy_runs:
  assumes cht: "chain s p (p # ts)" and chg: "chain s p' (p' # gs)" and tt: "tots s (p # ts)" "tots s (p' # gs)"
    and sp: "spread s (p # ts)" "space s (p # ts) \<inter> space s (p' # gs) = {}" and pos: "ends_full s (p # ts)" "ends_full s (p' # gs)"
    and fits: "total_len s (p' # gs) \<le> total_len s (p # ts)"
  shows "\<exists>f. pbuf_copy p p' s = ret ERR_OK (s\<lparr>octs := f\<rparr>) \<and> (\<forall>x. x \<notin> space s (p # ts) \<longrightarrow> f x = octs s x)
    \<and> contents (s\<lparr>octs := f\<rparr>) (p # ts) = contents s (p' # gs) @ drop (total_len s (p' # gs)) (contents s (p # ts))"
proof -
  obtain bt where bt: "p \<noteq> 0" "pbs s p = Some bt" using cht by auto
  obtain bg where bg: "p' \<noteq> 0" "pbs s p' = Some bg" using chg by auto
  have "\<not> p_tot_len bt < p_tot_len bg"
    using total_len_tot [OF tt(1)] total_len_tot [OF tt(2)] bt(2) bg(2) fits by (simp add: word_less_nat_alt)
  then have run: "pbuf_copy p p' s = copy_loop p 0 p' 0 s" using bt bg by (simp add: pbuf_copy_def np_runs)
  have "\<exists>f. copy_loop p 0 p' 0 s = ret ERR_OK (s\<lparr>octs := f\<rparr>) \<and> (\<forall>x. x \<notin> space s (p # ts) \<longrightarrow> f x = octs s x)
     \<and> contents (s\<lparr>octs := f\<rparr>) (p # ts)
       = take (unat (0 :: u16)) (contents s (p # ts)) @ drop (unat (0 :: u16)) (contents s (p' # gs)) @ drop (unat (0 :: u16) + total_len s (p' # gs)) (contents s (p # ts))"
    using assms by (intro copy_loop_runs [where g = p' and gs = gs]) simp_all
  then show ?thesis using run by simp
qed

lemma pbuf_copy_ends:
  assumes cht: "chain s p (p # ts)" and chg: "chain s p' (p' # gs)" and tt: "tots s (p # ts)" "tots s (p' # gs)"
    and pos: "ends_full s (p # ts)" "ends_full s (p' # gs)"
  shows "\<exists>f. pbuf_copy p p' s = ret (if total_len s (p' # gs) \<le> total_len s (p # ts) then ERR_OK else ERR_ARG) (s\<lparr>octs := f\<rparr>)"
proof -
  obtain bt where bt: "p \<noteq> 0" "pbs s p = Some bt" using cht by auto
  obtain bg where bg: "p' \<noteq> 0" "pbs s p' = Some bg" using chg by auto
  have c: "p_tot_len bt < p_tot_len bg \<longleftrightarrow> \<not> total_len s (p' # gs) \<le> total_len s (p # ts)"
    using total_len_tot [OF tt(1)] total_len_tot [OF tt(2)] bt(2) bg(2) by (simp add: word_less_nat_alt not_le)
  have run: "pbuf_copy p p' s = (if p_tot_len bt < p_tot_len bg then ret ERR_ARG s else copy_loop p 0 p' 0 s)"
    using bt bg by (simp add: pbuf_copy_def np_runs)
  show ?thesis
  proof (cases "total_len s (p' # gs) \<le> total_len s (p # ts)")
    case False
    then have "pbuf_copy p p' s = ret ERR_ARG (s\<lparr>octs := octs s\<rparr>)" using run c by simp
    then show ?thesis unfolding if_not_P [OF False] by blast
  next
    case True
    have "\<exists>f. copy_loop p 0 p' 0 s = ret ERR_OK (s\<lparr>octs := f\<rparr>)"
      using assms True by (intro copy_loop_ends [where t = p and ts = ts and g = p' and gs = gs]) simp_all
    moreover have "\<not> p_tot_len bt < p_tot_len bg" unfolding c using True by blast
    ultimately show ?thesis unfolding run if_P [OF True] by simp
  qed
qed

section \<open>Data in memory in use\<close>

text \<open>Buffers whose data lies in the memory they own.\<close>

definition laid :: "(u32 \<rightharpoonup> nat) \<Rightarrow> net \<Rightarrow> u32 list \<Rightarrow> bool" where
  "laid live s qs \<longleftrightarrow> (\<forall>q\<in>set qs. q \<in> dom live \<and> placed q (the (live q)) (the_pb s q))"

lemma stretch_range: "unat p + n \<le> 2 ^ 32 \<Longrightarrow> a \<in> stretch p n \<Longrightarrow> unat p \<le> unat a \<and> unat a < unat p + n"
proof -
  assume n: "unat p + n \<le> 2 ^ 32" and "a \<in> stretch p n"
  then obtain i where i: "a = p + of_nat i" "i < n" by (auto simp: stretch_def)
  then have "unat (of_nat i :: u32) = i" using n by (intro unat_of_nat32) simp
  then have "unat a = unat p + i" using i n by (simp add: unat_plus)
  then show ?thesis using i(2) by simp
qed

lemma laid_inside:
  assumes inv: "net_inv lay r s live" and l: "laid live s qs" "q \<in> set qs" and a: "a \<in> pb_stretch s q"
  shows "unat q \<le> unat a \<and> unat a < unat q + the (live q)"
proof -
  obtain n where n: "live q = Some n" "placed q n (the_pb s q)" using l by (auto simp: laid_def)
  have "unat q + n \<le> 2 ^ 32" using net_inv_inside [OF inv n(1)] .
  then have "unat (p_payload (the_pb s q)) + plen s q \<le> 2 ^ 32" using n(2) by (simp add: placed_def plen_def)
  from stretch_range [OF this a] show ?thesis using n by (auto simp: placed_def plen_def)
qed

lemma laid_apart:
  assumes inv: "net_inv lay r s live" and qs: "laid live s qs" and ts: "laid live s ts" and disj: "set qs \<inter> set ts = {}"
  shows "space s qs \<inter> space s ts = {}"
proof -
  have False if q: "q \<in> set qs" "a \<in> pb_stretch s q" and t: "t \<in> set ts" "a \<in> pb_stretch s t" for a q t
  proof -
    have "q \<in> dom live" "t \<in> dom live" using qs ts q(1) t(1) by (simp_all add: laid_def)
    then obtain n m where nm: "live q = Some n" "live t = Some m" by auto
    have "q \<noteq> t" using disj q(1) t(1) by auto
    from net_inv_apart [OF inv nm this] show False
      using laid_inside [OF inv qs q] laid_inside [OF inv ts t] nm by simp
  qed
  then show ?thesis by (auto simp: space_def)
qed

lemma laid_spread: "net_inv lay r s live \<Longrightarrow> distinct qs \<Longrightarrow> laid live s qs \<Longrightarrow> spread s qs"
proof (induction qs)
  case (Cons q qs)
  have "laid live s [q]" "laid live s qs" using Cons.prems(3) by (simp_all add: laid_def)
  then have "space s [q] \<inter> space s qs = {}" using Cons.prems(1,2) by (intro laid_apart) auto
  then show ?case using Cons \<open>laid live s qs\<close> by simp
qed simp

text \<open>A chain in which nothing changed.\<close>

lemma same_chain:
  assumes "\<forall>q\<in>set qs. pbs s' q = pbs s q \<and> links (npools s') q = links (npools s) q"
  shows "chain s' p qs = chain s p qs" "tots s' qs = tots s qs" "total_len s' qs = total_len s qs" "space s' qs = space s qs"
    "laid live s' qs = laid live s qs" "owned lay r s' live qs = owned lay r s live qs" "octs s' = octs s \<Longrightarrow> contents s' qs = contents s qs"
proof -
  show "chain s' p qs = chain s p qs" using assms by (intro chain_cong) simp
  show "tots s' qs = tots s qs" "total_len s' qs = total_len s qs" using tots_cong [of qs s' s] assms by simp_all
  show "space s' qs = space s qs" using assms by (auto simp: space_def plen_def)
  show "laid live s' qs = laid live s qs" "owned lay r s' live qs = owned lay r s live qs" using assms by (auto simp: laid_def owned_def)
  assume "octs s' = octs s"
  then have "content s' q = content s q" if "q \<in> set qs" for q using assms that by (simp add: content_def plen_def)
  then show "contents s' qs = contents s qs" by (metis map_eq_conv)
qed

lemma net_inv_octs [simp]: "net_inv lay r (s\<lparr>octs := f\<rparr>) live = net_inv lay r s live"
  by (simp add: net_inv_def)

text \<open>
  \<open>pbuf_coalesce\<close> gives back a single buffer with the data of the whole chain, which it releases: the buffers at its
  head that only the chain refers to are freed, the next one loses a reference. Or it gives back the chain itself,
  untouched, when there is no memory.
\<close>

lemma pbuf_coalesce_runs:
  assumes inv: "net_inv lay r s live" and qs: "qs = p # q # rs" and ch: "chain s p qs" and own: "owned lay r s live qs" and tt: "tots s qs"
    and full: "0 < plen s (last qs)" and ld: "laid live s qs" and layer: "header_offset layer = Some off"
    and k: "k = length (takeWhile (\<lambda>q. refs s q = 1) qs)"
  shows "\<exists>x s'. pbuf_coalesce cf p layer s = ret x s'
    \<and> (x = p \<and> net_inv lay r s' live \<and> chain s' p qs \<and> contents s' qs = contents s qs
       \<or> (\<exists>m. live x = None \<and> net_inv lay r s' ((live |` (- set (take k qs)))(x \<mapsto> m)) \<and> chain s' x [x] \<and> tots s' [x]
           \<and> contents s' [x] = contents s qs \<and> chain s' (if k < length qs then qs ! k else 0) (drop k qs)
           \<and> (\<forall>a\<in>set (drop k qs). pbs s' a = (if a = qs ! k then map_option unref (pbs s a) else pbs s a))))"
proof -
  obtain b where b: "p \<noteq> 0" "pbs s p = Some b" "links (npools s) p = Some q" "q \<noteq> 0" using ch qs by auto
  have T: "total_len s qs = unat (p_tot_len b)" "total_len s qs < 65536" using total_len_tot [of s p "q # rs"] tt qs b(2) by simp_all
  have ef: "ends_full s qs" using full by (simp add: ends_full_def)
  obtain x s1 where x: "pbuf_alloc cf layer (p_tot_len b) PBUF_RAM s = ret x s1" "heap_allocated lay r s live (unat (p_tot_len b)) x s1"
    using pbuf_alloc_heap [OF inv layer] by blast
  have kp: "kept s s1 live" using x(2) by (simp add: heap_allocated_def)
  have inl: "set qs \<subseteq> dom live" using own by (auto simp: owned_def)
  have sm: "pbs s1 a = pbs s a \<and> links (npools s1) a = links (npools s) a" if "a \<in> set qs" for a using kp inl that by auto
  then have smb: "\<forall>a\<in>set qs. pbs s1 a = pbs s a \<and> links (npools s1) a = links (npools s) a" by blast
  note same = same_chain [OF smb] and oc = conjunct1 [OF kp]
  show ?thesis
  proof (cases "x = 0")
    case True
    have "pbuf_coalesce cf p layer s = ret p s1" using b x(1) True by (simp add: pbuf_coalesce_def np_runs bnd_run)
    moreover have "net_inv lay r s1 live" using x(2) True by (auto simp: heap_allocated_def)
    ultimately show ?thesis using same(1) [of p] same(7) [OF oc] ch by auto
  next
    case False
    then obtain m where m: "chain s1 x [x]" "built lay r s live s1 (live(x \<mapsto> m)) [x] (unat (p_tot_len b))" "placed x m (the_pb s1 x)"
      using x(2) by (auto simp: heap_allocated_def)
    let ?live = "live(x \<mapsto> m)"
    have inv1: "net_inv lay r s1 ?live" and tx: "tots s1 [x]" "total_len s1 [x] = unat (p_tot_len b)" and new: "live x = None"
      using m(2) by (auto simp: built_def)
    have xq: "x \<notin> set qs" using new inl by auto
    have ldx: "laid ?live s1 [x]" using m(3) by (simp add: laid_def)
    have ldq: "laid ?live s1 qs"
    proof -
      have "a \<in> dom ?live \<and> placed a (the (?live a)) (the_pb s1 a)" if "a \<in> set qs" for a
        using that ld xq sm [OF that] by (cases "a = x") (auto simp: laid_def)
      then show ?thesis by (simp add: laid_def)
    qed
    have "set [x] \<inter> set qs = {}" using xq by simp
    then have dj: "space s1 [x] \<inter> space s1 (p # q # rs) = {}" using laid_apart [OF inv1 ldx ldq] unfolding qs by blast
    have ch1: "chain s1 p (p # q # rs)" "tots s1 (p # q # rs)" using same(1) [of p] same(2) ch tt qs by simp_all
    have "last qs \<in> set qs" using qs by simp
    then have "plen s1 (last qs) = plen s (last qs)" using sm by (simp add: plen_def)
    then have pos: "ends_full s1 [x]" "ends_full s1 (p # q # rs)"
      using tx(2) T(1) ends_full_total [OF ef] ef unfolding qs by (simp_all add: ends_full_def)
    have tot: "total_len s1 (p # q # rs) = total_len s1 [x]" using tx(2) T same(3) qs by simp
    have fits: "total_len s1 (p # q # rs) \<le> total_len s1 [x]" using tot by (rule eq_refl)
    have "spread s1 [x]" by simp
    from pbuf_copy_runs [OF m(1) ch1(1) tx(1) ch1(2) this dj pos fits] obtain f where
      f: "pbuf_copy x p s1 = ret ERR_OK (s1\<lparr>octs := f\<rparr>)"
        "contents (s1\<lparr>octs := f\<rparr>) [x] = contents s1 (p # q # rs) @ drop (total_len s1 (p # q # rs)) (contents s1 [x])"
      by blast
    let ?s2 = "s1\<lparr>octs := f\<rparr>"
    have c2: "contents ?s2 [x] = contents s qs" unfolding f(2) tot using same(7) [OF oc] qs by simp
    have "owned lay r s1 ?live qs"
    proof -
      have "owned lay r s1 live qs" using own same(6) by simp
      then show ?thesis by (auto simp: owned_def)
    qed
    then have own2: "owned lay r ?s2 ?live qs" by (simp add: owned_def)
    have ch2: "chain ?s2 p qs" using ch1(1) qs by (simp only: octs_only)
    have "takeWhile (\<lambda>q. refs ?s2 q = 1) qs = takeWhile (\<lambda>q. refs s q = 1) qs"
      using sm by (intro takeWhile_cong) (simp_all add: refs_def)
    then have len: "k = length (takeWhile (\<lambda>q. refs ?s2 q = 1) qs)" unfolding k by simp
    have inv2: "net_inv lay r ?s2 ?live" using inv1 by simp
    from pbuf_free_runs [OF inv2 ch2 own2 len, of cf] obtain s3 where
      s3: "pbuf_free cf p ?s2 = ret (of_nat k) s3" "net_inv lay r s3 (?live |` (- set (take k qs)))" "octs s3 = octs ?s2"
        "chain s3 (if k < length qs then qs ! k else 0) (drop k qs)"
        "\<And>a. a \<notin> set (take k qs) \<Longrightarrow> links (npools s3) a = links (npools ?s2) a
           \<and> pbs s3 a = (if k < length qs \<and> a = qs ! k then map_option unref (pbs ?s2 a) else pbs ?s2 a)"
      by blast
    have run: "pbuf_coalesce cf p layer s = ret x s3"
      using b x(1) False f(1) s3(1) by (simp add: pbuf_coalesce_def np_runs bnd_run)
    have xk: "x \<notin> set (take k qs)" using xq by (meson in_set_takeD)
    then have lv: "?live |` (- set (take k qs)) = (live |` (- set (take k qs)))(x \<mapsto> m)" by (auto simp: restrict_map_def fun_eq_iff)
    have "k < length qs \<Longrightarrow> x \<noteq> qs ! k" using xq by auto
    then have "\<forall>a\<in>set [x]. pbs s3 a = pbs ?s2 a \<and> links (npools s3) a = links (npools ?s2) a" using s3(5) [OF xk] by auto
    note same3 = same_chain [OF this]
    have "chain s3 x [x]" "tots s3 [x]" "contents s3 [x] = contents s qs"
      using same3(1,2) same3(7) [OF s3(3)] m(1) tx(1) c2 by (simp_all only: octs_only)
    moreover have "pbs s3 a = (if a = qs ! k then map_option unref (pbs s a) else pbs s a)" if a: "a \<in> set (drop k qs)" for a
    proof -
      have "distinct qs" using own by (simp add: owned_def)
      then have "a \<notin> set (take k qs)" using set_take_disj_set_drop_if_distinct [of qs k k] a by auto
      moreover have "k < length qs" using a by (cases "k < length qs") simp_all
      ultimately show ?thesis using s3(5) [of a] sm [of a] in_set_dropD [OF a] by auto
    qed
    ultimately show ?thesis using run lv s3(2,4) new by (intro exI [of _ x] exI [of _ s3] conjI disjI2 exI [of _ m]) simp_all
  qed
qed

text \<open>Cutting a chain keeps the front of its data.\<close>

lemma pbuf_realloc_data:
  assumes q: "qs = ks @ q # rs" and pl: "\<forall>a\<in>set ks. plen s' a = plen s a" "plen s' q \<le> plen s q" and oc: "octs s' = octs s"
    and py: "\<forall>a\<in>set (ks @ [q]). p_payload (the_pb s' a) = p_payload (the_pb s a)"
    and m: "total_len s' (ks @ [q]) = m"
  shows "contents s' (ks @ [q]) = take m (contents s qs)"
proof -
  have "content s' a = content s a" if "a \<in> set ks" for a using that pl(1) oc py by (simp add: content_def)
  then have k: "contents s' ks = contents s ks" by (metis map_eq_conv)
  moreover have "content s' q = take (plen s' q) (content s q)"
    using octets_at_part [of 0 "plen s' q" "plen s q" "octs s" "p_payload (the_pb s q)"] pl(2) oc py by (simp add: content_def)
  moreover have "total_len s' ks = total_len s ks" using pl(1) by (simp cong: map_cong)
  ultimately show ?thesis using m pl(2) unfolding q by auto
qed

text \<open>
  What an empty last buffer does to a copy into one buffer of the same length. The buffer in front of it has all of
  the total length that is left, so it is taken for the end of a packet with another one behind it, and its data is not
  copied. When that buffer is the first one, which is not looked at in this way, its data is copied, the target is used
  up while the source is not, and the loop reads the length of a null target.
\<close>

lemma queued_end: "chain s t [t] \<Longrightarrow> queued t s = ret False s"
  by (auto simp: queued_def np_runs)

lemma queued_before_data:
  assumes ch: "chain s g (g # gs)" and tt: "tots s (g # gs)" and pos: "0 < total_len s gs"
  shows "queued g s = ret False s"
proof -
  obtain b n where b: "g \<noteq> 0" "pbs s g = Some b" "links (npools s) g = Some n" using ch by auto
  have "unat (p_tot_len b) = unat (p_len b) + total_len s gs" using tt b(2) by (simp add: plen_def)
  then have "unat (p_tot_len b) \<noteq> unat (p_len b)" using pos by linarith
  then have "p_len b \<noteq> p_tot_len b" by metis
  then show ?thesis using b by (simp add: queued_def np_runs)
qed

lemma queued_before_empty:
  assumes ch: "chain s q [q, e]" and tt: "tots s [q, e]" and e: "plen s e = 0"
  shows "queued q s = ret True s"
proof -
  obtain b where b: "q \<noteq> 0" "pbs s q = Some b" "links (npools s) q = Some e" "e \<noteq> 0" using ch by auto
  have "p_len b = p_tot_len b" using tt e b(2) by (auto simp: plen_def word_unat_eq_iff)
  then show ?thesis using b by (simp add: queued_def np_runs)
qed

text \<open>One turn that copies a whole buffer into a target with more room.\<close>

lemma copy_whole:
  assumes t: "chain s t [t]" and ch: "chain s g (g # gs)" and room: "unat a + plen s g < plen s t"
  obtains n where "chain s n gs" "unat (a + p_len (the_pb s g)) = unat a + plen s g"
    "copy_loop t a g 0 s = bnd (queued n) (\<lambda>bad. if bad then ret ERR_VAL else bnd (queued t) (\<lambda>bad. if bad then ret ERR_VAL
       else if n \<noteq> 0 then copy_loop t (a + p_len (the_pb s g)) n 0 else ret ERR_OK))
       (s\<lparr>octs := copied (octs s) (p_payload (the_pb s t) + ucast a) (p_payload (the_pb s g)) (ucast (p_len (the_pb s g)))\<rparr>)"
proof -
  obtain bt where bt: "t \<noteq> 0" "pbs s t = Some bt" "links (npools s) t = Some 0" using t by auto
  obtain b n where b: "g \<noteq> 0" "pbs s g = Some b" "links (npools s) g = Some n" "chain s n gs" using ch by auto
  have pl: "plen s t = unat (p_len bt)" "plen s g = unat (p_len b)" using bt(2) b(2) by (simp_all add: plen_def)
  have "unat a + unat (p_len b) < 2 ^ 16" using room pl unat_u16_lt [of "p_len bt"] by (simp del: unat_u16_lt)
  then have u: "unat (a + p_len b) = unat a + unat (p_len b)" by (simp add: unat_plus)
  have fit: "int (unat (p_len b)) - int (unat (0 :: u16)) \<le> int (unat (p_len bt)) - int (unat a)" using room pl by linarith
  have ne: "a + p_len b \<noteq> p_len bt" using u room pl by (auto simp: word_unat_eq_iff)
  have "copy_loop t a g 0 s = bnd (queued n) (\<lambda>bad. if bad then ret ERR_VAL else bnd (queued t) (\<lambda>bad. if bad then ret ERR_VAL
       else if n \<noteq> 0 then copy_loop t (a + p_len b) n 0 else ret ERR_OK))
       (s\<lparr>octs := copied (octs s) (p_payload bt + ucast a) (p_payload b) (ucast (p_len b))\<rparr>)"
    using fit ne bt b(1-3) by (subst copy_loop.simps) (simp only: np_runs Let_def if_True, simp add: step_to_def np_runs MEMCPY_runs bnd_assoc)
  moreover have "p_len (the_pb s g) = p_len b" "p_payload (the_pb s g) = p_payload b" "p_payload (the_pb s t) = p_payload bt"
    using b(2) bt(2) by simp_all
  ultimately show thesis using that [OF b(4)] u pl(2) by (simp only:)
qed

lemma copy_queue_loop:
  "chain s t [t] \<Longrightarrow> chain s g (g # gs @ [q, e]) \<Longrightarrow> tots s (g # gs @ [q, e]) \<Longrightarrow> 0 < plen s q \<Longrightarrow> plen s e = 0 \<Longrightarrow>
   unat a + total_len s (g # gs @ [q]) \<le> plen s t \<Longrightarrow>
   \<exists>f. copy_loop t a g 0 s = ret ERR_VAL (s\<lparr>octs := f\<rparr>)
     \<and> (\<forall>x. x \<notin> stretch (p_payload (the_pb s t) + ucast a) (total_len s (g # gs)) \<longrightarrow> f x = octs s x)"
proof (induction gs arbitrary: s g a)
  case (Nil s g a)
  let ?P = "p_payload (the_pb s t) + ucast a"
  have lt: "unat a + plen s g < plen s t" using Nil.prems by simp
  have ch: "chain s g (g # [q, e])" using Nil.prems(2) by simp
  obtain n where n: "chain s n [q, e]" "copy_loop t a g 0 s = bnd (queued n) (\<lambda>bad. if bad then ret ERR_VAL else bnd (queued t) (\<lambda>bad. if bad then ret ERR_VAL
       else if n \<noteq> 0 then copy_loop t (a + p_len (the_pb s g)) n 0 else ret ERR_OK))
       (s\<lparr>octs := copied (octs s) ?P (p_payload (the_pb s g)) (ucast (p_len (the_pb s g)))\<rparr>)"
    using copy_whole [OF Nil.prems(1) ch lt] by metis
  let ?s = "s\<lparr>octs := copied (octs s) ?P (p_payload (the_pb s g)) (ucast (p_len (the_pb s g)))\<rparr>"
  have "n = q" using n(1) by simp
  moreover have "tots s [q, e]" using Nil.prems(3) by (simp del: tots.simps(1) add: tots.simps)
  moreover have "chain ?s n [q, e]" "tots ?s [q, e] = tots s [q, e]" "plen ?s e = 0" using n(1) Nil.prems(5) by (simp_all only: octs_only)
  ultimately have "queued n ?s = ret True ?s" using queued_before_empty [of ?s q e] by simp
  then have "copy_loop t a g 0 s = ret ERR_VAL ?s" using n(2) by (simp add: bnd_run)
  moreover have "copied (octs s) ?P (p_payload (the_pb s g)) (ucast (p_len (the_pb s g))) x = octs s x"
    if "x \<notin> stretch ?P (total_len s [g])" for x
    using that copied_elsewhere [of x ?P "ucast (p_len (the_pb s g))"] by (simp add: plen_def)
  ultimately show ?case by blast
next
  case (Cons g' gs s g a)
  let ?P = "p_payload (the_pb s t) + ucast a"
  let ?rest = "g' # gs @ [q, e]"
  have lt: "unat a + plen s g < plen s t" using Cons.prems by simp
  have ch: "chain s g (g # ?rest)" using Cons.prems(2) by simp
  obtain n where n: "chain s n ?rest" "unat (a + p_len (the_pb s g)) = unat a + plen s g"
      "copy_loop t a g 0 s = bnd (queued n) (\<lambda>bad. if bad then ret ERR_VAL else bnd (queued t) (\<lambda>bad. if bad then ret ERR_VAL
       else if n \<noteq> 0 then copy_loop t (a + p_len (the_pb s g)) n 0 else ret ERR_OK))
       (s\<lparr>octs := copied (octs s) ?P (p_payload (the_pb s g)) (ucast (p_len (the_pb s g)))\<rparr>)"
    using copy_whole [OF Cons.prems(1) ch lt] by metis
  let ?f = "copied (octs s) ?P (p_payload (the_pb s g)) (ucast (p_len (the_pb s g)))"
  let ?s = "s\<lparr>octs := ?f\<rparr>" and ?a = "a + p_len (the_pb s g)"
  have ng: "n = g'" "n \<noteq> 0" using n(1) by auto
  have tt: "tots s ?rest" using Cons.prems(3) by simp
  have pos: "0 < total_len s (gs @ [q, e])" using Cons.prems(4) by simp
  have "queued n ?s = ret False ?s"
    using queued_before_data [of ?s g' "gs @ [q, e]"] n(1) tt pos unfolding octs_only ng(1) by simp
  moreover have "queued t ?s = ret False ?s" using queued_end [of ?s t] Cons.prems(1) unfolding octs_only .
  ultimately have run: "copy_loop t a g 0 s = copy_loop t ?a g' 0 ?s" using n(3) ng by (simp add: bnd_run)
  have "unat ?a + total_len s (g' # gs @ [q]) \<le> plen s t" using n(2) Cons.prems(6) by simp
  then obtain f where f: "copy_loop t ?a g' 0 ?s = ret ERR_VAL (?s\<lparr>octs := f\<rparr>)"
      "\<And>x. x \<notin> stretch (p_payload (the_pb s t) + ucast ?a) (total_len s (g' # gs)) \<Longrightarrow> f x = ?f x"
    using Cons.IH [of ?s g' ?a] Cons.prems(1,4,5) n(1) tt unfolding octs_only ng(1) by fastforce
  have au: "(ucast ?a :: u32) = ucast a + of_nat (plen s g)"
    using n(2) by (simp add: word_unat_eq_iff unat_word_ariths)
  have "f x = octs s x" if x: "x \<notin> stretch ?P (total_len s (g # g' # gs))" for x
  proof -
    have "stretch ?P (total_len s (g # g' # gs)) = stretch ?P (plen s g) \<union> stretch (?P + of_nat (plen s g)) (total_len s (g' # gs))"
      using stretch_split [of "plen s g" "total_len s (g # g' # gs)" ?P] by simp
    then have "x \<notin> stretch ?P (plen s g)" "x \<notin> stretch (p_payload (the_pb s t) + ucast ?a) (total_len s (g' # gs))"
      using x by (auto simp: au add.assoc)
    then show ?thesis using f(2) [of x] copied_elsewhere [of x ?P "ucast (p_len (the_pb s g))"] by (simp add: plen_def)
  qed
  then show ?case using run f(1) by (intro exI [of _ f]) simp
qed

lemma copy_queue_end:
  assumes t: "chain s t [t]" "tots s [t]" and ch: "chain s p (p # ks @ [q, e])" and tt: "tots s (p # ks @ [q, e])"
    and tot: "plen s t = total_len s (p # ks @ [q, e])" and len: "0 < plen s q" "plen s e = 0"
  shows "\<exists>f. pbuf_copy t p s = ret ERR_VAL (s\<lparr>octs := f\<rparr>)
    \<and> (\<forall>x. x \<notin> stretch (p_payload (the_pb s t)) (total_len s (p # ks)) \<longrightarrow> f x = octs s x)"
proof -
  obtain bt where bt: "t \<noteq> 0" "pbs s t = Some bt" using t(1) by auto
  obtain b where b: "p \<noteq> 0" "pbs s p = Some b" using ch by auto
  have "unat (p_tot_len bt) = unat (p_tot_len b)" using t(2) tt tot bt(2) b(2) by simp
  then have "pbuf_copy t p s = copy_loop t 0 p 0 s" using bt b by (simp add: pbuf_copy_def np_runs word_less_nat_alt)
  moreover have "unat (0 :: u16) + total_len s (p # ks @ [q]) \<le> plen s t" using tot by simp
  ultimately show ?thesis using copy_queue_loop [OF t(1) ch tt len, of 0] by simp
qed

lemma copy_empty_second:
  assumes t: "chain s t [t]" "tots s [t]" and ch: "chain s p [p, e]" and tt: "tots s [p, e]" and len: "plen s t = plen s p" "plen s e = 0"
  shows "pbuf_copy t p s = Some (Inl NullDeref)"
proof -
  obtain bt where bt: "t \<noteq> 0" "pbs s t = Some bt" "links (npools s) t = Some 0" using t(1) by auto
  obtain b be where b: "p \<noteq> 0" "pbs s p = Some b" "links (npools s) p = Some e" "e \<noteq> 0" "pbs s e = Some be" "links (npools s) e = Some 0"
    using ch by auto
  have z: "p_len be = 0" "p_len b = p_len bt" using len b(2,5) bt(2) by (simp_all add: plen_def word_unat_eq_iff)
  have "unat (p_tot_len bt) = unat (p_tot_len b)" using t(2) tt len bt(2) b(2) by (simp add: plen_def)
  then have "pbuf_copy t p s = copy_loop t 0 p 0 s" using bt b by (simp add: pbuf_copy_def np_runs word_less_nat_alt)
  also have "\<dots> = copy_loop 0 0 e 0 (s\<lparr>octs := copied (octs s) (p_payload bt) (p_payload b) (ucast (p_len b))\<rparr>)"
    using bt b z by (subst copy_loop.simps) (simp add: np_runs MEMCPY_runs Let_def step_to_def queued_def bnd_assoc bnd_run)
  also have "\<dots> = Some (Inl NullDeref)" by (subst copy_loop.simps) (simp add: get_pb_def bnd_def fail_def)
  finally show ?thesis .
qed

end
