(* ===== verification/Pbuf_Refs.thy ===== *)
theory Pbuf_Refs
  imports Pbuf_Data
begin

text \<open>
  Reference counts. A packet buffer is referred to by clients and by the buffer in front of it in a chain;
  its counter is the number of both. Every history of calls keeps this invariant, so that no call faults,
  no buffer in use is freed, and when the clients have dropped all references all memory is back.
\<close>

section \<open>The invariant\<close>

text \<open>\<open>C\<close> counts the references of the clients, \<open>B\<close> are the packet buffers in use; the rest of the memory in
  use is not touched.\<close>

definition before :: "net \<Rightarrow> u32 set \<Rightarrow> u32 \<Rightarrow> u32 set" where
  "before s B q = {p \<in> B. links (npools s) p = Some q}"

definition counted :: "layout \<Rightarrow> u32 \<Rightarrow> net \<Rightarrow> (u32 \<rightharpoonup> nat) \<Rightarrow> u32 set \<Rightarrow> (u32 \<Rightarrow> nat) \<Rightarrow> bool" where
  "counted lay r s live B C \<longleftrightarrow> net_inv lay r s live \<and> finite B \<and> B \<subseteq> dom live \<and> (\<forall>q. q \<notin> B \<longrightarrow> C q = 0)
     \<and> (\<forall>q\<in>B. (\<exists>b. pbs s q = Some b \<and> housed lay r q b) \<and> (\<exists>qs. chain s q (q # qs) \<and> set qs \<subseteq> B)
          \<and> unat (refs s q) = C q + card (before s B q) \<and> 0 < unat (refs s q))"

lemma countedD:
  assumes "counted lay r s live B C" "q \<in> B"
  obtains b qs where "pbs s q = Some b" "housed lay r q b" "chain s q (q # qs)" "set qs \<subseteq> B"
    "unat (refs s q) = C q + card (before s B q)" "0 < unat (refs s q)" "q \<noteq> 0"
proof -
  have "(\<exists>b. pbs s q = Some b \<and> housed lay r q b) \<and> (\<exists>qs. chain s q (q # qs) \<and> set qs \<subseteq> B)
      \<and> unat (refs s q) = C q + card (before s B q) \<and> 0 < unat (refs s q)"
    using assms unfolding counted_def by blast
  then obtain b qs where "pbs s q = Some b" "housed lay r q b" "chain s q (q # qs)" "set qs \<subseteq> B"
    "unat (refs s q) = C q + card (before s B q)" "0 < unat (refs s q)" by blast
  moreover have "q \<noteq> 0" using \<open>chain s q (q # qs)\<close> by simp
  ultimately show ?thesis using that by blast
qed

lemma held: "counted lay r s live B C \<Longrightarrow> 0 < C p \<Longrightarrow> p \<in> B"
  by (auto simp: counted_def)

lemma counted_live: "counted lay r s live B C \<Longrightarrow> B \<subseteq> dom live"
  by (simp add: counted_def)

lemma counted_owned:
  assumes "counted lay r s live B C" "chain s p qs" "set qs \<subseteq> B"
  shows "owned lay r s live qs"
  using assms(1,3) chain_distinct [OF assms(2)] unfolding owned_def counted_def by blast

lemma finite_before: "counted lay r s live B C \<Longrightarrow> finite (before s B q)"
  by (simp add: counted_def before_def)

section \<open>No reference, no memory\<close>

text \<open>Without references of clients every buffer would need one in front of it.\<close>

lemma nothing_left:
  assumes c: "counted lay r s live B C" and none: "\<And>q. C q = 0"
  shows "B = {}"
proof (rule ccontr)
  assume ne: "B \<noteq> {}"
  have fin: "finite B" using c by (simp add: counted_def)
  define len where "len q = length (THE qs. chain s q qs)" for q
  have len: "len q = length qs" if "chain s q qs" for q qs
    unfolding len_def using that chain_unique by (metis the_equality)
  have "Max (len ` B) \<in> len ` B" using fin ne by (intro Max_in) simp_all
  then obtain q where q: "q \<in> B" "len q = Max (len ` B)" by (metis imageE)
  obtain qs where qs: "chain s q (q # qs)" "unat (refs s q) = C q + card (before s B q)" "0 < unat (refs s q)"
    using countedD [OF c q(1)] by metis
  then have "before s B q \<noteq> {}" using none [of q] by auto
  then obtain p where p: "p \<in> B" "links (npools s) p = Some q" by (auto simp: before_def)
  obtain b ps where ps: "chain s p (p # ps)" using countedD [OF c p(1)] by metis
  then have "chain s q ps" using p(2) by auto
  then have "ps = q # qs" using chain_unique qs(1) by blast
  then have "len p = Suc (len q)" using len [OF ps] len [OF qs(1)] by simp
  moreover have "len p \<le> len q" using q(2) p(1) fin by simp
  ultimately show False by simp
qed

section \<open>Dropping a reference\<close>

lemma take_while_hd: "k = length (takeWhile P xs) \<Longrightarrow> i < k \<Longrightarrow> P (xs ! i)"
  by (metis nth_mem set_takeWhileD takeWhile_nth)

lemma chain_next: "chain s p qs \<Longrightarrow> Suc i < length qs \<Longrightarrow> links (npools s) (qs ! i) = Some (qs ! Suc i)"
proof (induction qs arbitrary: p i)
  case (Cons q qs)
  then obtain n where n: "links (npools s) q = Some n" "chain s n qs" by auto
  show ?case
  proof (cases i)
    case 0
    then show ?thesis using n Cons.prems(2) by (cases qs) auto
  next
    case (Suc j)
    then show ?thesis using Cons.IH [OF n(2), of j] Cons.prems(2) by simp
  qed
qed simp

lemma counted_free:
  assumes c: "counted lay r s live B C" and p: "0 < C p"
  shows "\<exists>k s' F. pbuf_free cf p s = ret k s' \<and> counted lay r s' (live |` (- F)) (B - F) (C(p := C p - 1)) \<and> F \<subseteq> B
    \<and> octs s' = octs s \<and> (\<forall>a. a \<notin> F \<longrightarrow> links (npools s') a = links (npools s) a
         \<and> (pbs s' a = pbs s a \<or> a \<in> B \<and> pbs s' a = map_option unref (pbs s a)))"
proof -
  have inl: "p \<in> B" using held [OF c p] .
  obtain ps where ps: "chain s p (p # ps)" "set ps \<subseteq> B" using countedD [OF c inl] by metis
  let ?qs = "p # ps"
  have sub: "set ?qs \<subseteq> B" using ps(2) inl by simp
  define k where "k = length (takeWhile (\<lambda>q. refs s q = 1) ?qs)"
  define F where "F = set (take k ?qs)"
  have own: "owned lay r s live ?qs" using counted_owned [OF c ps(1) sub] .
  have dist: "distinct ?qs" using own by (simp add: owned_def)
  have inv: "net_inv lay r s live" using c by (simp add: counted_def)
  obtain s' where s': "pbuf_free cf p s = ret (of_nat k) s'" "net_inv lay r s' (live |` (- F))" "octs s' = octs s"
      "\<And>q. q \<notin> F \<Longrightarrow> links (npools s') q = links (npools s) q
         \<and> pbs s' q = (if k < length ?qs \<and> q = ?qs ! k then map_option unref (pbs s q) else pbs s q)"
    using pbuf_free_runs [OF inv ps(1) own k_def, of cf] unfolding F_def by blast
  have kl: "k \<le> length ?qs" by (simp add: k_def length_takeWhile_le)
  have fk: "q \<in> F \<longleftrightarrow> (\<exists>i<k. q = ?qs ! i)" for q using kl by (auto simp: F_def in_set_conv_nth)
  have nk: "?qs ! k \<notin> F" if "k < length ?qs"
  proof
    assume "?qs ! k \<in> F"
    then obtain i where "i < k" "?qs ! k = ?qs ! i" using fk by blast
    then show False using nth_eq_iff_index_eq [OF dist, of k i] that by simp
  qed
  let ?live = "live |` (- F)"
  have Bl: "B \<subseteq> dom live" using c by (simp add: counted_def)
  have Fl: "F \<subseteq> B" using sub set_take_subset [of k ?qs] unfolding F_def by blast
  have bq: "before s' (B - F) q = before s B q - F" for q using s'(4) by (auto simp: before_def)
  have one: "refs s q = 1" if "q \<in> F" for q using that fk take_while_hd [OF k_def] by auto
  have cnt: "unat (refs s q) = C q + card (before s B q)" "0 < unat (refs s q)" if "q \<in> B" for q
    using countedD [OF c that] by metis+
  have inq: "?qs ! j \<in> B" if "j < length ?qs" for j using nth_mem [OF that] sub by blast
  text \<open>A freed buffer was referred to by the client, if it is the first, or else by its predecessor.\<close>
  have only: "i < k \<Longrightarrow> C (?qs ! i) = (if i = 0 then 1 else 0) \<and> before s B (?qs ! i) = (if i = 0 then {} else {?qs ! (i - 1)})" for i
  proof -
    assume i: "i < k"
    have inF: "?qs ! i \<in> F" using i fk by blast
    note cn = cnt [OF subsetD [OF Fl inF]]
    have fin: "finite (before s B (?qs ! i))" using finite_before [OF c] .
    show ?thesis
    proof (cases i)
      case 0
      then have "1 = C p + card (before s B p)" using cn one [OF inF] by simp
      then have "C p = 1 \<and> card (before s B p) = 0" using p by linarith
      then show ?thesis using 0 fin by simp
    next
      case (Suc j)
      have "?qs ! j \<in> before s B (?qs ! i)" using chain_next [OF ps(1), of j] i Suc kl inq [of j] by (simp add: before_def)
      moreover have "card (before s B (?qs ! i)) = 1 \<and> C (?qs ! i) = 0"
        using cn one [OF inF] calculation fin card_gt_0_iff [of "before s B (?qs ! i)"] by auto
      ultimately show ?thesis using Suc by (auto simp: card_1_singleton_iff)
    qed
  qed
  have CF: "(C(p := C p - 1)) q = 0" if q: "q \<in> F" for q
  proof -
    obtain i where i: "i < k" "q = ?qs ! i" using q fk by blast
    then show ?thesis using only [OF i(1)] by (cases i) auto
  qed
  have closed: "m \<notin> F" if "a \<in> B" "a \<notin> F" "links (npools s) a = Some m" for a m
  proof
    assume "m \<in> F"
    then obtain i where i: "i < k" "m = ?qs ! i" using fk by blast
    have "a \<in> before s B m" using that by (simp add: before_def)
    then have "i \<noteq> 0" "a = ?qs ! (i - 1)" using only [OF i(1)] i(2) by (auto split: if_splits)
    then have "a \<in> F" using fk i(1) by (metis less_imp_diff_less)
    then show False using that(2) by simp
  qed
  have out: "set qs \<inter> F = {}" if "chain s q qs" "set qs \<subseteq> B" "q \<notin> F" for q qs
    using that
  proof (induction qs arbitrary: q)
    case (Cons a as)
    obtain m where m: "links (npools s) a = Some m" "chain s m as" "a = q" using Cons.prems(1) unfolding chain.simps by blast
    have a: "a \<in> B" "a \<notin> F" "set as \<subseteq> B" using Cons.prems(2,3) m(3) by auto
    have "set as \<inter> F = {}" using Cons.IH [OF m(2) a(3) closed [OF a(1,2) m(1)]] .
    then show ?case using a(2) by simp
  qed simp
  text \<open>The buffer behind the freed ones loses one reference, the others none.\<close>
  have lost: "unat (refs s' q) = (C(p := C p - 1)) q + card (before s' (B - F) q) \<and> 0 < unat (refs s' q)" if q: "q \<in> B - F" for q
  proof -
    have q': "q \<in> B" "q \<notin> F" using q by auto
    obtain b where b: "pbs s q = Some b" "q \<noteq> 0" using countedD [OF c q'(1)] by metis
    note cn = cnt [OF q'(1)]
    have link: "?qs ! (k - 1) = a \<and> 0 < k \<and> k < length ?qs \<and> q = ?qs ! k" if a: "a \<in> F" "a \<in> before s B q" for a
    proof -
      obtain i where i: "i < k" "a = ?qs ! i" using a(1) fk by blast
      have l: "links (npools s) a = Some q" using a(2) by (simp add: before_def)
      have "Suc i \<noteq> length ?qs"
      proof
        assume "Suc i = length ?qs"
        then have "a = last ?qs" using i(2) by (simp add: last_conv_nth)
        then show False using chain_last [OF ps(1)] l b(2) by simp
      qed
      then have "Suc i < length ?qs" using i(1) kl by simp
      then have "q = ?qs ! Suc i" using chain_next [OF ps(1), of i] l i(2) by simp
      moreover have "\<not> Suc i < k" using q'(2) fk calculation by blast
      then have "Suc i = k" using i(1) by simp
      ultimately show ?thesis using i \<open>Suc i < length ?qs\<close> by auto
    qed
    show ?thesis
    proof (cases "k < length ?qs \<and> q = ?qs ! k")
      case False
      then have "before s B q \<inter> F = {}" using link by blast
      then have "before s' (B - F) q = before s B q" using bq [of q] by blast
      moreover have "refs s' q = refs s q" using s'(4) [OF q'(2)] False by (auto simp: refs_def)
      moreover have "q \<noteq> p" using False fk q'(2) by (cases k) force+
      ultimately show ?thesis using cn by simp
    next
      case True
      have "refs s q \<noteq> 1" using nth_length_takeWhile [of "\<lambda>q. refs s q = 1" ?qs, folded k_def] True by blast
      then have "unat (refs s q) \<noteq> 1" by (simp add: word_unat_eq_iff)
      moreover have "refs s' q = refs s q - 1" using s'(4) [OF q'(2)] True b(1) by (simp add: refs_def unref_def)
      then have "unat (refs s' q) = unat (refs s q) - 1" using cn(2) by (simp add: unat_sub word_le_nat_alt)
      moreover have "(C(p := C p - 1)) q + card (before s' (B - F) q) = C q + card (before s B q) - 1"
      proof (cases k)
        case 0
        then have "q = p" "F = {}" using True by (simp_all add: F_def)
        then show ?thesis using bq [of q] p by simp
      next
        case (Suc j)
        have j: "?qs ! j \<in> before s B q" "?qs ! j \<in> F"
          using chain_next [OF ps(1), of j] Suc True inq [of j] fk by (auto simp: before_def simp del: nth_Cons_Suc)
        have "a = ?qs ! j" if "a \<in> before s B q" "a \<in> F" for a
        proof -
          have "?qs ! (k - 1) = a" using link [OF that(2,1)] by blast
          then show ?thesis unfolding Suc diff_Suc_1 by (rule sym)
        qed
        then have "before s B q \<inter> F = {?qs ! j}" using j by blast
        then have "before s' (B - F) q = before s B q - {?qs ! j}" using bq [of q] by blast
        then have "card (before s' (B - F) q) = card (before s B q) - 1" using j(1) finite_before [OF c, of q] by simp
        moreover have "0 < card (before s B q)" using j(1) finite_before [OF c, of q] card_gt_0_iff by blast
        moreover have "p \<in> F" using Suc fk [of p] by force
        then have "q \<noteq> p" using q'(2) by auto
        ultimately show ?thesis by simp
      qed
      ultimately show ?thesis using cn by linarith
    qed
  qed
  have "counted lay r s' ?live (B - F) (C(p := C p - 1))"
    unfolding counted_def
  proof (intro conjI allI impI ballI)
    show "net_inv lay r s' ?live" using s'(2) .
    show "finite (B - F)" using c by (simp add: counted_def)
    show "B - F \<subseteq> dom ?live" using Bl by auto
    fix q assume "q \<notin> B - F"
    then have "q \<in> F \<or> q \<notin> B" by blast
    then show "(C(p := C p - 1)) q = 0"
    proof
      assume "q \<notin> B"
      then have "C q = 0" using c unfolding counted_def by blast
      then show ?thesis using p by auto
    qed (rule CF)
  next
    fix q assume q: "q \<in> B - F"
    then have q': "q \<in> B" "q \<notin> F" using q by auto
    obtain b qs where b: "pbs s q = Some b" "housed lay r q b" "chain s q (q # qs)" "set qs \<subseteq> B" using countedD [OF c q'(1)] by metis
    have "housed lay r q (unref b)" using b(2) by (simp add: housed_def plain_def unref_def)
    then show "\<exists>b. pbs s' q = Some b \<and> housed lay r q b" using s'(4) [OF q'(2)] b(1,2) by auto
    have sq: "set (q # qs) \<inter> F = {}" using out [OF b(3)] b(4) q' by simp
    have "chain s' q (q # qs) = chain s q (q # qs)"
    proof (rule chain_cong)
      fix a assume "a \<in> set (q # qs)"
      then have "a \<notin> F" using sq by blast
      then show "links (npools s') a = links (npools s) a \<and> (pbs s' a = None \<longleftrightarrow> pbs s a = None)" using s'(4) by auto
    qed
    moreover have "set qs \<subseteq> B - F" using sq b(4) by auto
    ultimately show "\<exists>qs. chain s' q (q # qs) \<and> set qs \<subseteq> B - F" using b(3) by blast
    show "unat (refs s' q) = (C(p := C p - 1)) q + card (before s' (B - F) q)" "0 < unat (refs s' q)" using lost [OF q] by auto
  qed
  moreover have "links (npools s') a = links (npools s) a \<and> (pbs s' a = pbs s a \<or> a \<in> B \<and> pbs s' a = map_option unref (pbs s a))"
    if "a \<notin> F" for a
    using s'(4) [OF that] inq [of k] by (cases "k < length ?qs \<and> a = ?qs ! k") auto
  ultimately show ?thesis using s'(1,3) Fl by blast
qed

section \<open>New references\<close>

text \<open>The buffer behind a buffer in use is in use.\<close>

lemma counted_link:
  assumes c: "counted lay r s live B C" and a: "a \<in> B" "links (npools s) a = Some n"
  shows "n = 0 \<or> n \<in> B"
proof -
  obtain as where "chain s a (a # as)" "set as \<subseteq> B" using countedD [OF c a(1)] by metis
  then have "chain s n as" "set as \<subseteq> B" using a(2) by auto
  then show ?thesis by (cases as) auto
qed

lemma chain_link_cases:
  "chain s p qs \<Longrightarrow> a \<in> set qs \<Longrightarrow> links (npools s) a = Some n \<Longrightarrow>
     n = 0 \<or> (\<exists>i. Suc i < length qs \<and> a = qs ! i \<and> n = qs ! Suc i)"
proof (induction qs arbitrary: p)
  case (Cons q qs)
  obtain m where m: "links (npools s) q = Some m" "chain s m qs" using Cons.prems(1) by auto
  show ?case
  proof (cases "a = q")
    case True
    then have "chain s n qs" using m Cons.prems(3) by simp
    then show ?thesis using True by (cases qs) force+
  next
    case False
    then have "n = 0 \<or> (\<exists>i. Suc i < length qs \<and> a = qs ! i \<and> n = qs ! Suc i)"
      using Cons.IH [OF m(2)] Cons.prems by simp
    then show ?thesis by force
  qed
qed simp

lemma chain_same:
  assumes same: "\<And>a. a \<in> A \<Longrightarrow> pbs s' a = pbs s a \<and> links (npools s') a = links (npools s) a" and qs: "set qs \<subseteq> A"
  shows "chain s' p qs = chain s p qs"
proof (rule chain_cong)
  fix a assume "a \<in> set qs"
  then have "a \<in> A" using qs by blast
  from same [OF this] show "links (npools s') a = links (npools s) a \<and> (pbs s' a = None \<longleftrightarrow> pbs s a = None)" by simp
qed

lemma before_same:
  "(\<And>a. a \<in> B \<Longrightarrow> links (npools s') a = links (npools s) a) \<Longrightarrow> before s' B q = before s B q"
  unfolding before_def by (simp cong: conj_cong)

text \<open>Calls that leave the buffers in use alone.\<close>

lemma counted_move:
  assumes c: "counted lay r s live B C" and inv: "net_inv lay r s' live'" and dom: "B \<subseteq> dom live'"
    and same: "\<And>a. a \<in> B \<Longrightarrow> pbs s' a = pbs s a \<and> links (npools s') a = links (npools s) a"
  shows "counted lay r s' live' B C"
proof -
  have "before s' B q = before s B q" for q by (rule before_same) (simp add: same)
  moreover have "refs s' q = refs s q" if "q \<in> B" for q using same [OF that] by (simp add: refs_def)
  moreover have "chain s' q (q # qs) = chain s q (q # qs)" if "q \<in> B" "set qs \<subseteq> B" for q qs
    by (rule chain_same [of "B" s' s, OF same]) (use that in auto)
  ultimately show ?thesis using c inv dom same unfolding counted_def by (smt (verit, best))
qed

lemma counted_same:
  assumes "counted lay r s live B C" "net_inv lay r s' live"
    and "\<And>a. a \<in> B \<Longrightarrow> pbs s' a = pbs s a \<and> links (npools s') a = links (npools s) a"
  shows "counted lay r s' live B C"
  using counted_move [OF assms(1,2) counted_live [OF assms(1)] assms(3)] .

lemma counted_alloc:
  assumes c: "counted lay r s live B C" and al: "allocated lay r s live m p s'"
  shows "\<exists>live' B'. counted lay r s' live' B' (if p = 0 then C else C(p := 1)) \<and> dom live' - B' = dom live - B
    \<and> (\<forall>a\<in>dom live. live' a = live a)"
proof -
  have Bl: "B \<subseteq> dom live" using c by (simp add: counted_def)
  have kp: "pbs s' a = pbs s a \<and> links (npools s') a = links (npools s) a" if "a \<in> B" for a
    using al that Bl by (auto simp: allocated_def)
  have old: "refs s' q = refs s q" if "q \<in> B" for q using kp [OF that] by (simp add: refs_def)
  show ?thesis
  proof (cases "p = 0")
    case True
    then have "\<not> chain s' p (q # qs)" for q qs by auto
    then have "net_inv lay r s' live" using al unfolding allocated_def by (metis list.exhaust)
    then show ?thesis using counted_same [OF c _ kp] True by auto
  next
    case False
    then obtain qs live' where qs: "qs \<noteq> []" "chain s' p qs" "built lay r s live s' live' qs m" using al by (auto simp: allocated_def)
    have b: "net_inv lay r s' live'" "owned lay r s' live' qs" "set qs \<inter> dom live = {}" "dom live' = dom live \<union> set qs"
      "\<And>a. a \<in> set qs \<Longrightarrow> refs s' a = 1" "\<And>a. a \<in> dom live \<Longrightarrow> live' a = live a" using qs(3) by (simp_all add: built_def)
    have new: "set qs \<inter> B = {}" using b(3) Bl by blast
    let ?B = "B \<union> set qs"
    obtain ps where ps: "qs = p # ps" using qs(1,2) by (cases qs) auto
    have dist: "distinct qs" using b(2) by (simp add: owned_def)
    have pn: "p \<notin> B" using new ps by auto
    have pl: "C q = 0" if "q \<notin> B" for q using c that by (simp add: counted_def)
    text \<open>Old links stay among the old buffers, new ones are those of the chain.\<close>
    have oldb: "before s' ?B q = before s B q" if q: "q \<in> B" for q
    proof -
      have "q \<noteq> 0" using countedD [OF c q] by metis
      then have "links (npools s') a \<noteq> Some q" if "a \<in> set qs" for a
        using chain_link_cases [OF qs(2) that] new q nth_mem by (metis IntI empty_iff)
      then have "before s' ?B q = before s' B q" unfolding before_def by blast
      also have "\<dots> = before s B q" by (rule before_same) (simp add: kp)
      finally show ?thesis .
    qed
    have newb: "before s' ?B (qs ! i) = (if i = 0 then {} else {qs ! (i - 1)})" if i: "i < length qs" for i
    proof -
      have el: "qs ! i \<in> set qs" "qs ! i \<noteq> 0" using i chain_mem [OF qs(2), of "qs ! i"] by auto
      have "links (npools s') a \<noteq> Some (qs ! i)" if "a \<in> B" for a
        using counted_link [OF c that] kp [OF that] el new by (metis IntI empty_iff)
      moreover have "links (npools s') (qs ! j) = Some (qs ! i) \<longleftrightarrow> Suc j = i" if "j < length qs" for j
      proof
        assume "links (npools s') (qs ! j) = Some (qs ! i)"
        from chain_link_cases [OF qs(2) nth_mem [OF that] this] el(2)
        obtain k where k: "Suc k < length qs" "qs ! j = qs ! k" "qs ! i = qs ! Suc k" by blast
        then show "Suc j = i" using dist i that by (metis Suc_lessD nth_eq_iff_index_eq)
      qed (use chain_next [OF qs(2), of j] i in auto)
      ultimately have st: "a \<in> before s' ?B (qs ! i) \<longleftrightarrow> a \<in> set qs \<and> links (npools s') a = Some (qs ! i)"
        "j < length qs \<Longrightarrow> links (npools s') (qs ! j) = Some (qs ! i) \<longleftrightarrow> Suc j = i" for a j
        unfolding before_def mem_Collect_eq by blast+
      have eq: "a \<in> before s' ?B (qs ! i) \<longleftrightarrow> (\<exists>j<length qs. a = qs ! j \<and> Suc j = i)" for a
        unfolding st(1) in_set_conv_nth using st(2) by blast
      show ?thesis
      proof (cases i)
        case (Suc j)
        then show ?thesis using eq i by auto
      qed (use eq in auto)
    qed
    have "counted lay r s' live' ?B (C(p := 1))"
      unfolding counted_def
    proof (intro conjI allI impI ballI)
      show "net_inv lay r s' live'" using b(1) .
      show "finite ?B" using c by (simp add: counted_def)
      show "?B \<subseteq> dom live'" using Bl b(4) by blast
      fix q assume "q \<notin> ?B"
      then show "(C(p := 1)) q = 0" using pl [of q] ps by auto
    next
      fix q assume q: "q \<in> ?B"
      have "(\<exists>b. pbs s' q = Some b \<and> housed lay r q b) \<and> (\<exists>as. chain s' q (q # as) \<and> set as \<subseteq> ?B)
        \<and> unat (refs s' q) = (C(p := 1)) q + card (before s' ?B q) \<and> 0 < unat (refs s' q)"
      proof (cases "q \<in> B")
        case True
        obtain d as where d: "pbs s q = Some d" "housed lay r q d" "chain s q (q # as)" "set as \<subseteq> B"
          "unat (refs s q) = C q + card (before s B q)" "0 < unat (refs s q)" using countedD [OF c True] by metis
        have "chain s' q (q # as) = chain s q (q # as)"
          by (rule chain_same [of "B" s' s, OF kp]) (use d(4) True in auto)
        then have "chain s' q (q # as) \<and> set as \<subseteq> ?B" using d(3,4) by auto
        moreover have "q \<noteq> p" using pn True by blast
        ultimately show ?thesis using d kp [OF True] old [OF True] oldb [OF True] by auto
      next
        case False
        then have "q \<in> set qs" using q by blast
        then obtain i where i: "i < length qs" "q = qs ! i" by (auto simp: in_set_conv_nth)
        have "chain s' q (drop i qs)" using chain_drop [OF qs(2), of i] i by simp
        moreover have "drop i qs = q # drop (Suc i) qs" using i by (simp add: Cons_nth_drop_Suc)
        moreover have "set (drop (Suc i) qs) \<subseteq> ?B" using set_drop_subset by fastforce
        moreover have "C q = 0" using pl False by blast
        moreover have "q = p \<longleftrightarrow> i = 0" using dist i ps by (metis nth_Cons_0 nth_eq_iff_index_eq length_pos_if_in_set nth_mem)
        ultimately show ?thesis using newb [OF i(1)] b(2,5) i(2) \<open>q \<in> set qs\<close> by (auto simp: owned_def)
      qed
      then show "\<exists>b. pbs s' q = Some b \<and> housed lay r q b" "\<exists>as. chain s' q (q # as) \<and> set as \<subseteq> ?B"
        "unat (refs s' q) = (C(p := 1)) q + card (before s' ?B q)" "0 < unat (refs s' q)" by blast+
    qed
    moreover have "dom live' - ?B = dom live - B" using b(3,4) by blast
    ultimately show ?thesis using False b(6) by (intro exI [of _ live'] exI [of _ ?B]) simp
  qed
qed

section \<open>Changes of fields and links\<close>

lemma over_one: "pbs s p = Some b \<Longrightarrow> (pbs s)(p \<mapsto> f b) = over f {p} (pbs s)"
  by (auto simp: over_def fun_eq_iff)

lemma counted_over:
  assumes c: "counted lay r s live B C" and f: "\<And>b. p_flags (f b) = p_flags b \<and> p_type (f b) = p_type b \<and> p_ref (f b) = p_ref b"
  shows "counted lay r (s\<lparr>pbs := over f A (pbs s)\<rparr>) live B C" (is "counted lay r ?s live B C")
  unfolding counted_def
proof (intro conjI ballI allI impI)
  show "net_inv lay r ?s live" using c f by (intro net_inv_over) (simp_all add: counted_def)
  show "finite B" using c by (simp add: counted_def)
  show "B \<subseteq> dom live" using counted_live [OF c] .
  show "C q = 0" if "q \<notin> B" for q using c that by (simp add: counted_def)
  fix q assume q: "q \<in> B"
  obtain b qs where b: "pbs s q = Some b" "housed lay r q b" "chain s q (q # qs)" "set qs \<subseteq> B"
    "unat (refs s q) = C q + card (before s B q)" "0 < unat (refs s q)" using countedD [OF c q] by metis
  show "\<exists>b. pbs ?s q = Some b \<and> housed lay r q b" using b(1,2) f by (simp add: over_def housed_def plain_def)
  have "chain ?s q (q # qs) = chain s q (q # qs)" by (rule chain_cong) (simp add: over_def)
  then show "\<exists>qs. chain ?s q (q # qs) \<and> set qs \<subseteq> B" using b(3,4) by blast
  have "refs ?s q = refs s q" using b(1) f by (simp add: refs_def over_def)
  moreover have "before ?s B q = before s B q" by (rule before_same) simp
  ultimately show "unat (refs ?s q) = C q + card (before ?s B q)" "0 < unat (refs ?s q)" using b(5,6) by simp_all
qed

lemma counted_ref:
  assumes c: "counted lay r s live B C" and p: "p \<in> B" "refs s p < 65535"
  shows "\<exists>s'. pbuf_ref p s = ret () s' \<and> counted lay r s' live B (C(p := C p + 1))"
proof -
  note inl = p(1)
  obtain d where d: "pbs s p = Some d" "p \<noteq> 0" using countedD [OF c inl] by metis
  let ?s = "s\<lparr>pbs := (pbs s)(p \<mapsto> d\<lparr>p_ref := p_ref d + 1\<rparr>)\<rparr>"
  have run: "pbuf_ref p s = ret () ?s" using d by (simp add: pbuf_ref_def np_ends)
  have "unat (refs s p) < 65535" using p(2) by (simp add: word_less_nat_alt)
  then have up: "unat (refs ?s p) = Suc (unat (refs s p))" using d(1) by (simp add: refs_def unat_word_ariths)
  have "counted lay r ?s live B (C(p := C p + 1))"
    unfolding counted_def
  proof (intro conjI ballI allI impI)
    have "housed lay r p d" using countedD [OF c inl] d(1) by (metis option.inject)
    then show "net_inv lay r ?s live" using c by (intro net_inv_put) (simp_all add: counted_def housed_def plain_def)
    show "finite B" using c by (simp add: counted_def)
  show "B \<subseteq> dom live" using counted_live [OF c] .
    show "(C(p := C p + 1)) q = 0" if "q \<notin> B" for q using c that inl by (auto simp: counted_def)
    fix q assume q: "q \<in> B"
    obtain b qs where b: "pbs s q = Some b" "housed lay r q b" "chain s q (q # qs)" "set qs \<subseteq> B"
      "unat (refs s q) = C q + card (before s B q)" "0 < unat (refs s q)" using countedD [OF c q] by metis
    show "\<exists>b. pbs ?s q = Some b \<and> housed lay r q b" using b(1,2) d(1) by (auto simp: housed_def plain_def)
    have "chain ?s q (q # qs) = chain s q (q # qs)" by (rule chain_cong) (simp add: d(1))
    then show "\<exists>qs. chain ?s q (q # qs) \<and> set qs \<subseteq> B" using b(3,4) by blast
    have "before ?s B q = before s B q" by (rule before_same) simp
    moreover have "refs ?s q = refs s q" if "q \<noteq> p" using that by (simp add: refs_def)
    ultimately show "unat (refs ?s q) = (C(p := C p + 1)) q + card (before ?s B q)" "0 < unat (refs ?s q)"
      using b(5,6) up by (cases "q = p", simp_all)+
  qed
  then show ?thesis using run by blast
qed

text \<open>A buffer inside a chain: what is behind it is a chain with the same end.\<close>

lemma chain_from_mem:
  assumes "chain s p qs" "a \<in> set qs"
  obtains xs ys where "qs = xs @ a # ys" "chain s a (a # ys)" "last (a # ys) = last qs"
proof -
  obtain xs ys where q: "qs = xs @ a # ys" using assms(2) by (meson split_list)
  have "chain s a (a # ys)" using chain_drop [OF assms(1), of "length xs"] q by simp
  then show thesis using that q by simp
qed

lemma chain_off: "l \<notin> set qs \<Longrightarrow> chain (relink s l n) p qs = chain s p qs"
  by (rule chain_cong) auto

lemma counted_relink:
  assumes c: "counted lay r s live B C" and l: "l \<in> B" "links (npools s) l = Some 0"
    and t: "0 < C t" "chain s t ts" "l \<notin> set ts"
  shows "counted lay r (relink s l t) live B (C(t := C t - 1))" (is "counted lay r ?s live B ?C")
proof -
  have tl: "t \<in> B" using held [OF c t(1)] .
  obtain us where us: "ts = t # us" "set us \<subseteq> B"
    using countedD [OF c tl] chain_unique [OF t(2)] by metis
  have t0: "t \<noteq> 0" using t(2) us(1) by simp
  have ch: "\<exists>as. chain ?s q (q # as) \<and> set as \<subseteq> B" if q: "chain s q (q # qs)" "set qs \<subseteq> B" for q qs
  proof (cases "l \<in> set (q # qs)")
    case True
    obtain xs ys where x: "q # qs = xs @ l # ys" "chain s l (l # ys)" "last (l # ys) = last (q # qs)"
      using chain_from_mem [OF q(1) True] by metis
    have "ys = []" using x(2) l(2) by (cases ys) auto
    then have last: "last (q # qs) = l" using x(3) by simp
    have "set (q # qs) \<inter> set ts = {}"
    proof (rule ccontr)
      assume "set (q # qs) \<inter> set ts \<noteq> {}"
      then obtain a where a: "a \<in> set (q # qs)" "a \<in> set ts" by blast
      obtain y1 where y1: "chain s a (a # y1)" "last (a # y1) = l" using chain_from_mem [OF q(1) a(1)] last by metis
      obtain x2 y2 where y2: "ts = x2 @ a # y2" "chain s a (a # y2)" using chain_from_mem [OF t(2) a(2)] by metis
      have "a # y1 = a # y2" by (rule chain_unique [OF y1(1) y2(2)])
      then have "l \<in> set (a # y2)" using y1(2) last_in_set [of "a # y1"] by (metis list.distinct(1))
      then show False using t(3) y2(1) by simp
    qed
    from chain_link [OF q(1) _ t(2) this] have "chain ?s q (q # (qs @ ts))" using last by simp
    then show ?thesis using q(2) us tl by (intro exI [of _ "qs @ ts"]) auto
  next
    case False
    then show ?thesis using chain_off [OF False] q by blast
  qed
  have bq: "before ?s B q = (if q = t then insert l (before s B t) else before s B q)" if "q \<noteq> 0" for q
    using that l tl t0 unfolding before_def by auto
  have nl: "l \<notin> before s B t" using l(2) t0 by (simp add: before_def)
  show ?thesis unfolding counted_def
  proof (intro conjI ballI allI impI)
    show "net_inv lay r ?s live" by (rule net_inv_link) (use c l(1) counted_live [OF c] in \<open>auto simp: counted_def\<close>)
    show "finite B" using c by (simp add: counted_def)
  show "B \<subseteq> dom live" using counted_live [OF c] .
    show "?C q = 0" if "q \<notin> B" for q using c that tl by (auto simp: counted_def)
    fix q assume q: "q \<in> B"
    obtain b qs where b: "pbs s q = Some b" "housed lay r q b" "chain s q (q # qs)" "set qs \<subseteq> B"
      "unat (refs s q) = C q + card (before s B q)" "0 < unat (refs s q)" "q \<noteq> 0" using countedD [OF c q] by metis
    show "\<exists>b. pbs ?s q = Some b \<and> housed lay r q b" using b(1,2) by simp
    show "\<exists>qs. chain ?s q (q # qs) \<and> set qs \<subseteq> B" using ch [OF b(3,4)] .
    have rf: "refs ?s q = refs s q" by (simp add: refs_def)
    then show "0 < unat (refs ?s q)" using b(6) by simp
    have "card (before ?s B t) = Suc (card (before s B t))" using bq [OF t0] nl finite_before [OF c, of t] by simp
    then show "unat (refs ?s q) = ?C q + card (before ?s B q)"
      using rf b(5) bq [OF b(7)] t(1) by (cases "q = t") simp_all
  qed
qed

lemma counted_unlink:
  assumes c: "counted lay r s live B C" and l: "l \<in> B" "links (npools s) l = Some t" and t0: "t \<noteq> 0"
  shows "counted lay r (relink s l 0) live B (C(t := C t + 1))" (is "counted lay r ?s live B ?C")
proof -
  have tl: "t \<in> B" using counted_link [OF c l] t0 by simp
  have ch: "\<exists>as. chain ?s q (q # as) \<and> set as \<subseteq> B" if q: "chain s q (q # qs)" "set qs \<subseteq> B" and q0: "q \<in> B" for q qs
  proof (cases "l \<in> set (q # qs)")
    case True
    then obtain xs ys where x: "q # qs = xs @ l # ys" by (meson split_list)
    have "chain ?s q (xs @ [l])" using chain_cut q(1) unfolding x by blast
    moreover obtain as where as: "xs @ [l] = q # as" using x by (cases xs) auto
    moreover have "set as \<subseteq> set (xs @ [l])" unfolding as by auto
    moreover have "set (xs @ [l]) \<subseteq> set (q # qs)" unfolding x by auto
    ultimately show ?thesis using q(2) q0 unfolding as by (intro exI [of _ as]) auto
  next
    case False
    then show ?thesis using chain_off [OF False] q by blast
  qed
  have bq: "before ?s B q = (if q = t then before s B t - {l} else before s B q)" if "q \<noteq> 0" for q
    using that l unfolding before_def by auto
  have li: "l \<in> before s B t" using l by (auto simp: before_def)
  show ?thesis unfolding counted_def
  proof (intro conjI ballI allI impI)
    show "net_inv lay r ?s live" by (rule net_inv_link) (use c l(1) counted_live [OF c] in \<open>auto simp: counted_def\<close>)
    show "finite B" using c by (simp add: counted_def)
  show "B \<subseteq> dom live" using counted_live [OF c] .
    show "?C q = 0" if "q \<notin> B" for q using c that tl by (auto simp: counted_def)
    fix q assume q: "q \<in> B"
    obtain b qs where b: "pbs s q = Some b" "housed lay r q b" "chain s q (q # qs)" "set qs \<subseteq> B"
      "unat (refs s q) = C q + card (before s B q)" "0 < unat (refs s q)" "q \<noteq> 0" using countedD [OF c q] by metis
    show "\<exists>b. pbs ?s q = Some b \<and> housed lay r q b" using b(1,2) by simp
    show "\<exists>qs. chain ?s q (q # qs) \<and> set qs \<subseteq> B" using ch [OF b(3,4) q] .
    have rf: "refs ?s q = refs s q" by (simp add: refs_def)
    then show "0 < unat (refs ?s q)" using b(6) by simp
    have "Suc (card (before ?s B t)) = card (before s B t)"
      using bq [OF t0] li finite_before [OF c, of t] by (metis card_Suc_Diff1)
    then show "unat (refs ?s q) = ?C q + card (before ?s B q)"
      using rf b(5) bq [OF b(7)] by (cases "q = t") simp_all
  qed
qed

section \<open>Chains\<close>

lemma counted_chain_in:
  assumes c: "counted lay r s live B C" and p: "0 < C p" "chain s p qs"
  obtains ps where "qs = p # ps" "set qs \<subseteq> B" "p \<in> B"
proof -
  have inl: "p \<in> B" using held [OF c p(1)] .
  obtain ps where ps: "chain s p (p # ps)" "set ps \<subseteq> B" using countedD [OF c inl] by metis
  have "qs = p # ps" by (rule chain_unique [OF p(2) ps(1)])
  then show thesis using that ps(2) inl by simp
qed

lemma counted_cat:
  assumes c: "counted lay r s live B C" and h: "0 < C h" "chain s h hs" and t: "0 < C t" "chain s t ts" and disj: "set hs \<inter> set ts = {}"
  shows "\<exists>s'. pbuf_cat h t s = ret () s' \<and> counted lay r s' live B (C(t := C t - 1)) \<and> refs s' t = refs s t"
proof -
  obtain hr where hr: "hs = h # hr" "set hs \<subseteq> B" "h \<in> B" using counted_chain_in [OF c h] .
  obtain tr where tr: "ts = t # tr" "set ts \<subseteq> B" "t \<in> B" using counted_chain_in [OF c t] .
  obtain bt where bt: "pbs s t = Some bt" "t \<noteq> 0" using countedD [OF c tr(3)] by metis
  let ?s = "s\<lparr>pbs := over (grow (p_tot_len bt)) (set hs) (pbs s)\<rparr>"
  have last: "last hs \<in> set hs" using hr(1) by simp
  have c1: "counted lay r ?s live B C" by (rule counted_over [OF c]) (simp add: grow_def)
  have ts: "chain ?s t ts" using t(2) chain_cong [of ts ?s s t] by (simp add: over_def)
  have "links (npools ?s) (last hs) = Some 0" using chain_last [OF h(2)] hr(1) by simp
  moreover have "last hs \<notin> set ts" using last disj by blast
  moreover have "last hs \<in> B" using last hr(2) by blast
  ultimately have "counted lay r (relink ?s (last hs) t) live B (C(t := C t - 1))" using counted_relink [OF c1 _ _ t(1) ts] by blast
  moreover have "pbuf_cat h t s = ret () (relink ?s (last hs) t)"
    by (rule pbuf_cat_runs) (use h(2) hr(1) bt disj tr(1) in auto)
  moreover have "refs (relink ?s (last hs) t) t = refs s t" using bt by (simp add: refs_def over_def grow_def)
  ultimately show ?thesis by blast
qed

lemma counted_chain:
  assumes c: "counted lay r s live B C" and h: "0 < C h" "chain s h hs" and t: "0 < C t" "chain s t ts" and disj: "set hs \<inter> set ts = {}"
    and room: "refs s t < 65535"
  shows "\<exists>s'. pbuf_chain h t s = ret () s' \<and> counted lay r s' live B C"
proof -
  obtain s1 where s1: "pbuf_cat h t s = ret () s1" "counted lay r s1 live B (C(t := C t - 1))" "refs s1 t = refs s t"
    using counted_cat [OF c h t disj] by blast
  have "t \<in> B" using held [OF c t(1)] .
  then obtain s2 where s2: "pbuf_ref t s1 = ret () s2" "counted lay r s2 live B ((C(t := C t - 1))(t := (C(t := C t - 1)) t + 1))"
    using counted_ref [OF s1(2)] s1(3) room by metis
  have "(C(t := C t - 1))(t := (C(t := C t - 1)) t + 1) = C" using t(1) by (simp add: fun_eq_iff)
  moreover have "pbuf_chain h t s = ret () s2" using s1(1) s2(1) by (simp add: pbuf_chain_def bnd_run)
  ultimately show ?thesis using s2(2) by metis
qed

lemma counted_dechain:
  assumes c: "counted lay r s live B C" and p: "0 < C p"
  shows "\<exists>q s' F. pbuf_dechain cf p s = ret q s' \<and> counted lay r s' (live |` (- F)) (B - F) C \<and> F \<subseteq> B"
proof -
  have inl: "p \<in> B" using held [OF c p] .
  obtain b n where b: "pbs s p = Some b" "p \<noteq> 0" "links (npools s) p = Some n"
    using countedD [OF c inl] chain_mem by (metis list.set_intros(1))
  show ?thesis
  proof (cases "n = 0")
    case True
    then have "pbuf_dechain cf p s = ret 0 s" using b by (simp add: pbuf_dechain_def np_runs bnd_ret)
    moreover have "counted lay r s (live |` (- {})) (B - {}) C" using c by (simp add: restrict_map_def)
    ultimately show ?thesis by blast
  next
    case False
    then have nl: "n \<in> B" using counted_link [OF c inl b(3)] by simp
    obtain bn where bn: "pbs s n = Some bn" using countedD [OF c nl] by metis
    have pn: "p \<noteq> n"
    proof
      assume "p = n"
      moreover obtain ps where "chain s p (p # ps)" using countedD [OF c inl] by metis
      ultimately show False using chain_distinct [of s p "p # ps"] b(3) False by (cases ps) auto
    qed
    let ?s1 = "s\<lparr>pbs := (pbs s)(n \<mapsto> bn\<lparr>p_tot_len := p_tot_len b - p_len b\<rparr>)\<rparr>"
    let ?s2 = "relink ?s1 p 0"
    let ?s3 = "?s2\<lparr>pbs := (pbs ?s2)(p \<mapsto> b\<lparr>p_tot_len := p_len b\<rparr>)\<rparr>"
    have "counted lay r ?s1 live B C"
      using counted_over [OF c, of "\<lambda>d. d\<lparr>p_tot_len := p_tot_len b - p_len b\<rparr>" "{n}"] over_one [OF bn, of "\<lambda>d. d\<lparr>p_tot_len := p_tot_len b - p_len b\<rparr>"] by simp
    from counted_unlink [OF this inl _ False] have c2: "counted lay r ?s2 live B (C(n := C n + 1))" using b(3) by simp
    have "pbs ?s2 p = Some b" using b(1) pn by simp
    from over_one [OF this, of "\<lambda>d. d\<lparr>p_tot_len := p_len b\<rparr>"] counted_over [OF c2, of "\<lambda>d. d\<lparr>p_tot_len := p_len b\<rparr>" "{p}"]
    have c3: "counted lay r ?s3 live B (C(n := C n + 1))" by simp
    from counted_free [OF this, of n cf] obtain k s' F where f: "pbuf_free cf n ?s3 = ret k s'"
      "counted lay r s' (live |` (- F)) (B - F) ((C(n := C n + 1))(n := (C(n := C n + 1)) n - 1))" "F \<subseteq> B" by auto
    have eq: "(C(n := C n + 1))(n := (C(n := C n + 1)) n - 1) = C" by (simp add: fun_eq_iff)
    have "pbuf_dechain cf p s = ret (if k > 0 then 0 else n) s'"
      using b bn pn False f(1) by (simp add: pbuf_dechain_def np_runs np_ends bnd_assoc bnd_run)
    then show ?thesis using f(2,3) unfolding eq by blast
  qed
qed

lemma header_cases:
  assumes b: "pbs s p = Some b" "p \<noteq> 0"
  shows "pbuf_header p inc s = ret 0 s \<or> pbuf_header p inc s = ret 1 s
    \<or> pbuf_header p inc s = ret 0 (s\<lparr>pbs := (pbs s)(p \<mapsto> header_pb inc b)\<rparr>)"
proof (cases "inc = 0 \<or> sint inc < 0 \<and> \<not> - inc \<le> p_len b")
  case True
  then show ?thesis using b by (auto simp: pbuf_header_def np_runs bnd_ret)
next
  case False
  then have run: "pbuf_header p inc s =
    bnd (if p_type b = PBUF_RAM \<or> p_type b = PBUF_POOL
         then if p_payload b - scast inc < p + SIZEOF_STRUCT_PBUF then ret 1
           else bnd (upd_pb p (\<lambda>b'. b'\<lparr>p_payload := p_payload b - scast inc\<rparr>)) (\<lambda>_. ret 0)
         else if p_type b = PBUF_REF \<or> p_type b = PBUF_ROM
         then if sint inc < 0 \<and> - inc \<le> p_len b
           then bnd (upd_pb p (\<lambda>b'. b'\<lparr>p_payload := p_payload b - scast inc\<rparr>)) (\<lambda>_. ret 0) else ret 1
         else ret 1) (\<lambda>failed :: u8.
    if failed \<noteq> 0 then ret (1 :: u8)
    else bnd (upd_pb p (\<lambda>b. b\<lparr>p_len := p_len b + inc, p_tot_len := p_tot_len b + inc\<rparr>)) (\<lambda>_. ret 0)) s"
    using b by (auto simp: pbuf_header_def np_runs Let_def cong: if_cong)
  have "bnd (upd_pb p (\<lambda>b'. b'\<lparr>p_payload := p_payload b - scast inc\<rparr>))
      (\<lambda>_. bnd (upd_pb p (\<lambda>b. b\<lparr>p_len := p_len b + inc, p_tot_len := p_tot_len b + inc\<rparr>)) (\<lambda>_. ret 0)) s
      = ret (0 :: u8) (s\<lparr>pbs := (pbs s)(p \<mapsto> header_pb inc b)\<rparr>)"
    using b by (simp add: np_runs header_pb_def)
  then show ?thesis unfolding run by (simp add: bnd_assoc)
qed

lemma counted_header:
  assumes c: "counted lay r s live B C" and p: "0 < C p"
  shows "\<exists>k s'. pbuf_header p inc s = ret k s' \<and> counted lay r s' live B C"
proof -
  have inl: "p \<in> B" using held [OF c p] .
  obtain b where b: "pbs s p = Some b" "p \<noteq> 0" using countedD [OF c inl] by metis
  have "counted lay r (s\<lparr>pbs := (pbs s)(p \<mapsto> header_pb inc b)\<rparr>) live B C"
    unfolding over_one [OF b(1), of "header_pb inc"] by (rule counted_over [OF c]) (simp add: header_pb_def)
  then show ?thesis using header_cases [OF b, of inc] c by metis
qed

lemma counted_octs [simp]: "counted lay r (s\<lparr>octs := f\<rparr>) live B C = counted lay r s live B C"
proof -
  have "chain (s\<lparr>octs := f\<rparr>) p qs = chain s p qs" for p qs by (rule chain_cong) simp
  moreover have "before (s\<lparr>octs := f\<rparr>) B q = before s B q" for q by (rule before_same) simp
  moreover have "refs (s\<lparr>octs := f\<rparr>) q = refs s q" for q by (simp add: refs_def)
  ultimately show ?thesis unfolding counted_def by simp
qed

section \<open>Histories\<close>

text \<open>What the clients of the packet buffers may do: use the buffers they hold a reference to. \<open>C\<close> counts
  the references they hold.\<close>

inductive net_run :: "layout \<Rightarrow> u32 \<Rightarrow> (u32 \<Rightarrow> unit np) \<Rightarrow> net \<Rightarrow> (u32 \<Rightarrow> nat) \<Rightarrow> bool" for lay r cf where
  boot: "net_inv lay r s Map.empty \<Longrightarrow> net_run lay r cf s (\<lambda>_. 0)"
| alloc: "net_run lay r cf s C \<Longrightarrow> header_offset layer = Some off \<Longrightarrow> type \<in> {PBUF_RAM, PBUF_ROM, PBUF_REF, PBUF_POOL} \<Longrightarrow>
    pbuf_alloc cf layer len type s = ret p s' \<Longrightarrow> net_run lay r cf s' (if p = 0 then C else C(p := 1))"
| free: "net_run lay r cf s C \<Longrightarrow> 0 < C p \<Longrightarrow> pbuf_free cf p s = ret k s' \<Longrightarrow> net_run lay r cf s' (C(p := C p - 1))"
| ref: "net_run lay r cf s C \<Longrightarrow> 0 < C p \<Longrightarrow> refs s p < 65535 \<Longrightarrow> pbuf_ref p s = ret () s' \<Longrightarrow>
    net_run lay r cf s' (C(p := C p + 1))"
| cat: "net_run lay r cf s C \<Longrightarrow> 0 < C h \<Longrightarrow> 0 < C t \<Longrightarrow> chain s h hs \<Longrightarrow> chain s t ts \<Longrightarrow> set hs \<inter> set ts = {} \<Longrightarrow>
    pbuf_cat h t s = ret () s' \<Longrightarrow> net_run lay r cf s' (C(t := C t - 1))"
| join: "net_run lay r cf s C \<Longrightarrow> 0 < C h \<Longrightarrow> 0 < C t \<Longrightarrow> chain s h hs \<Longrightarrow> chain s t ts \<Longrightarrow> set hs \<inter> set ts = {} \<Longrightarrow>
    refs s t < 65535 \<Longrightarrow> pbuf_chain h t s = ret () s' \<Longrightarrow> net_run lay r cf s' C"
| dechain: "net_run lay r cf s C \<Longrightarrow> 0 < C p \<Longrightarrow> pbuf_dechain cf p s = ret q s' \<Longrightarrow> net_run lay r cf s' C"
| header: "net_run lay r cf s C \<Longrightarrow> 0 < C p \<Longrightarrow> pbuf_header p inc s = ret k s' \<Longrightarrow> net_run lay r cf s' C"
| payload: "net_run lay r cf s C \<Longrightarrow> net_run lay r cf (s\<lparr>octs := f\<rparr>) C"

lemma counted_boot: "net_inv lay r s Map.empty \<Longrightarrow> counted lay r s Map.empty {} (\<lambda>_. 0)"
  by (simp add: counted_def)

lemma net_run_counted: "net_run lay r cf s C \<Longrightarrow> \<exists>live. counted lay r s live (dom live) C"
proof (induction rule: net_run.induct)
  case (boot s)
  then show ?case using counted_boot by (intro exI [of _ Map.empty]) simp
next
  case (alloc s C layer off type len p s')
  then obtain live where c: "counted lay r s live (dom live) C" by blast
  then have "net_inv lay r s live" by (simp add: counted_def)
  from pbuf_alloc_runs [OF this alloc.hyps(2,3), of cf len] have "allocated lay r s live (unat len) p s'"
    using alloc.hyps(4) by (auto simp: ret_def)
  from counted_alloc [OF c this] obtain live' B' where l: "counted lay r s' live' B' (if p = 0 then C else C(p := 1))"
    "dom live' - B' = dom live - dom live" by blast
  then have "B' = dom live'" using counted_live [OF l(1)] by blast
  then show ?case using l(1) by blast
next
  case (free s C p k s')
  then obtain live where c: "counted lay r s live (dom live) C" by blast
  obtain k1 s1 F where f: "pbuf_free cf p s = ret k1 s1" "counted lay r s1 (live |` (- F)) (dom live - F) (C(p := C p - 1))"
    using counted_free [OF c free.hyps(2), of cf] by blast
  then have "s1 = s'" using free.hyps(3) by (simp add: ret_def)
  moreover have "dom (live |` (- F)) = dom live - F" by auto
  ultimately show ?case using f(2) by metis
next
  case (ref s C p s')
  then obtain live where c: "counted lay r s live (dom live) C" by blast
  from counted_ref [OF c held [OF c ref.hyps(2)] ref.hyps(3)] obtain s1
    where f: "pbuf_ref p s = ret () s1" "counted lay r s1 live (dom live) (C(p := C p + 1))" by blast
  then have "s1 = s'" using ref.hyps(4) by (simp add: ret_def)
  then show ?case using f(2) by blast
next
  case (cat s C h t hs ts s')
  then obtain live where c: "counted lay r s live (dom live) C" by blast
  from counted_cat [OF c cat.hyps(2,4,3,5,6)] obtain s1
    where f: "pbuf_cat h t s = ret () s1" "counted lay r s1 live (dom live) (C(t := C t - 1))" by blast
  then have "s1 = s'" using cat.hyps(7) by (simp add: ret_def)
  then show ?case using f(2) by blast
next
  case (join s C h t hs ts s')
  then obtain live where c: "counted lay r s live (dom live) C" by blast
  from counted_chain [OF c join.hyps(2,4,3,5,6,7)] join.hyps(8) show ?case by (auto simp: ret_def)
next
  case (dechain s C p q s')
  then obtain live where c: "counted lay r s live (dom live) C" by blast
  from counted_dechain [OF c dechain.hyps(2), of cf] obtain q1 s1 F
    where f: "pbuf_dechain cf p s = ret q1 s1" "counted lay r s1 (live |` (- F)) (dom live - F) C" by blast
  then have "s1 = s'" using dechain.hyps(3) by (simp add: ret_def)
  moreover have "dom (live |` (- F)) = dom live - F" by auto
  ultimately show ?case using f(2) by metis
next
  case (header s C p inc k s')
  then obtain live where c: "counted lay r s live (dom live) C" by blast
  from counted_header [OF c header.hyps(2), of inc] header.hyps(3) show ?case by (auto simp: ret_def)
next
  case (payload s C f)
  then show ?case by simp
qed

lemma counted_refs:
  "counted lay r s live B C \<Longrightarrow> q \<in> B \<Longrightarrow>
     unat (refs s q) = C q + card {p \<in> B. links (npools s) p = Some q} \<and> 0 < unat (refs s q)"
  unfolding counted_def before_def by blast

text \<open>Calls on what is held return.\<close>

lemma counted_ref_returns:
  assumes "counted lay r s live B C" "p \<in> B"
  shows "\<exists>s'. pbuf_ref p s = ret () s'"
proof -
  obtain b where "pbs s p = Some b" "p \<noteq> 0" using countedD [OF assms] by metis
  then show ?thesis by (auto simp: pbuf_ref_def np_ends ret_def)
qed

lemma run_alloc_returns:
  assumes "net_run lay r cf s C"
  shows "\<exists>x s'. pbuf_alloc cf layer len type s = ret x s'"
proof -
  obtain live where "counted lay r s live (dom live) C" using net_run_counted [OF assms] by blast
  then have inv: "net_inv lay r s live" by (simp add: counted_def)
  show ?thesis
  proof (cases "header_offset layer")
    case None
    then show ?thesis by (auto simp: pbuf_alloc_def ret_def)
  next
    case (Some off)
    show ?thesis
    proof (cases "type \<in> {PBUF_RAM, PBUF_ROM, PBUF_REF, PBUF_POOL}")
      case True
      then show ?thesis using pbuf_alloc_runs [OF inv Some True] by blast
    next
      case False
      then show ?thesis using Some by (auto simp: pbuf_alloc_def bnd_def ret_def)
    qed
  qed
qed

lemma run_free_returns: "net_run lay r cf s C \<Longrightarrow> 0 < C p \<Longrightarrow> \<exists>k s'. pbuf_free cf p s = ret k s'"
  using net_run_counted counted_free by blast

lemma run_ref_returns: "net_run lay r cf s C \<Longrightarrow> 0 < C p \<Longrightarrow> \<exists>s'. pbuf_ref p s = ret () s'"
  using net_run_counted [of lay r cf s C] counted_ref_returns [of lay r s _ _ C p] held [of lay r s _ _ C p] by blast

lemma run_dechain_returns: "net_run lay r cf s C \<Longrightarrow> 0 < C p \<Longrightarrow> \<exists>q s'. pbuf_dechain cf p s = ret q s'"
  using net_run_counted counted_dechain by blast

lemma run_header_returns: "net_run lay r cf s C \<Longrightarrow> 0 < C p \<Longrightarrow> \<exists>k s'. pbuf_header p inc s = ret k s'"
  using net_run_counted counted_header by blast

lemma run_clen_returns:
  assumes "net_run lay r cf s C" "0 < C p"
  shows "\<exists>n. pbuf_clen p s = ret n s"
proof -
  obtain live where c: "counted lay r s live (dom live) C" using net_run_counted [OF assms(1)] by blast
  obtain qs where "chain s p (p # qs)" using countedD [OF c held [OF c assms(2)]] by metis
  from pbuf_clen_runs [OF this] show ?thesis by blast
qed

lemma run_join_returns:
  assumes run: "net_run lay r cf s C" and h: "0 < C h" and t: "0 < C t \<and> chain s h hs \<and> chain s t ts \<and> set hs \<inter> set ts = {}"
  shows "(\<exists>s'. pbuf_cat h t s = ret () s') \<and> (\<exists>s'. pbuf_chain h t s = ret () s')"
proof -
  obtain live where c: "counted lay r s live (dom live) C" using net_run_counted [OF run] by blast
  obtain s1 where s1: "pbuf_cat h t s = ret () s1" "counted lay r s1 live (dom live) (C(t := C t - 1))"
    using counted_cat [OF c h] t by metis
  have "t \<in> dom live" using held [OF c] t by blast
  then obtain s2 where "pbuf_ref t s1 = ret () s2" using counted_ref_returns [OF s1(2)] by blast
  then have "pbuf_chain h t s = ret () s2" using s1(1) by (simp add: pbuf_chain_def bnd_run)
  then show ?thesis using s1(1) by blast
qed

end
