(* ===== verification/Pbuf_Start.thy ===== *)
theory Pbuf_Start
  imports Pbuf_Refs
begin

text \<open>
  The start of the memory of the stack, and two concrete states: the memory after the start, and one in
  which every pool is exhausted and three buffers hold data.
\<close>

section \<open>Start-up\<close>

text \<open>The calls of \<open>lwip_init\<close> for the memory; \<open>pbuf_init\<close> expands to nothing.\<close>

definition memory_init :: "u32 \<Rightarrow> layout \<Rightarrow> unit np" where
  "memory_init heap_pointer lay = block [on_heap (mem_init heap_pointer), on_pools (memp_init lay)]"

lemma heap_starts:
  assumes "unat hp + 131263 < 2 ^ 32" "st_used (mem_stats h) = 0"
  shows "\<exists>h'. mem_init hp h = ret () h' \<and> heap_uses (LWIP_MEM_ALIGN hp) h' Map.empty"
proof -
  obtain h' where h: "mem_init hp h = ret () h'" "ram h' = LWIP_MEM_ALIGN hp" using mem_init_implements [OF assms] by blast
  have "heap_run h' Map.empty" by (rule run_init [OF assms h(1)])
  then obtain bs where "heap_inv h' Map.empty bs" using run_inv by blast
  then have "heap_uses (LWIP_MEM_ALIGN hp) h' Map.empty" using h(2) by (auto simp: heap_uses_def intro!: exI [of _ Map.empty])
  then show ?thesis using h(1) by blast
qed

lemma memory_starts:
  assumes lay: "stack_ok lay (LWIP_MEM_ALIGN hp)" and hp: "unat hp + 131263 < 2 ^ 32"
    and zero: "st_used (mem_stats (nheap s)) = 0" "length (memp_tab (npools s)) = 10" "length (memp_stats (npools s)) = 10" "pbs s = Map.empty"
  shows "\<exists>s'. memory_init hp lay s = ret () s' \<and> net_inv lay (LWIP_MEM_ALIGN hp) s' Map.empty \<and> pbs s' = Map.empty \<and> octs s' = octs s"
proof -
  have ok: "layout_ok lay" using lay by (simp add: stack_ok_def)
  obtain h where h: "mem_init hp (nheap s) = ret () h" "heap_uses (LWIP_MEM_ALIGN hp) h Map.empty" using heap_starts [OF hp zero(1)] by blast
  obtain q where q: "memp_init lay (npools s) = ret () q" "\<forall>i<10. pool_live lay i q Map.empty" using memp_init_live [OF ok zero(2,3)] by blast
  let ?s = "s\<lparr>nheap := h, npools := q\<rparr>"
  have "memory_init hp lay s = ret () ?s" using h(1) q(1) by (simp add: memory_init_def on_heap_def on_pools_def bnd_def ret_def)
  moreover have "net_inv lay (LWIP_MEM_ALIGN hp) ?s Map.empty" using lay h(2) q(2) zero(4) by (simp add: net_inv_def restrict_map_def)
  ultimately show ?thesis using zero(4) by (intro exI [of _ ?s]) simp
qed

section \<open>A memory map\<close>

definition lay0 :: layout where
  "lay0 = \<lparr>struct_sizes = [64, 64, 192, 64, 64, 64, 64, 64],
     memp_bases = [0xC1000000, 0xC1010000, 0xC1020000, 0xC1030000, 0xC1040000, 0xC1050000, 0xC1060000, 0xC1070000, 0xC1080000, 0xC1090000]\<rparr>"

lemma all_pools: "(\<forall>i<10::nat. P i) \<longleftrightarrow> P 0 \<and> P 1 \<and> P 2 \<and> P 3 \<and> P 4 \<and> P 5 \<and> P 6 \<and> P 7 \<and> P 8 \<and> P 9"
  by (auto simp: numeral_eq_Suc All_less_Suc)

lemma sizes0: "memp_sizes lay0 = [64, 64, 192, 64, 64, 64, 64, 64, 64, 1792]"
  by (simp add: memp_sizes_def lay0_def LWIP_MEM_ALIGN_SIZE_def MEM_ALIGNMENT_def)

lemma bases0: "memp_bases lay0 = [0xC1000000, 0xC1010000, 0xC1020000, 0xC1030000, 0xC1040000, 0xC1050000, 0xC1060000, 0xC1070000, 0xC1080000, 0xC1090000]"
  by (simp add: lay0_def)

lemma layout_ok_lay0: "layout_ok lay0"
  unfolding layout_ok_def all_pools
  by (simp add: pool_end_def elem_size_def sizes0 bases0 memp_num_def) (simp add: lay0_def)

lemma stack_ok_lay0: "stack_ok lay0 0xC0000000"
  unfolding stack_ok_def all_pools
  by (simp add: layout_ok_lay0 pool_end_def elem_size_def sizes0 bases0 memp_num_def)

text \<open>Static memory before the program runs.\<close>

definition no_stats :: stats_mem where
  "no_stats = \<lparr>st_avail = 0, st_used = 0, st_max = 0, st_err = 0, st_illegal = 0\<rparr>"

definition no_heap :: heap where
  "no_heap = \<lparr>ram = 0, ram_end = 0, lfree = 0, structs = Map.empty, mem_stats = no_stats\<rparr>"

definition static0 :: net where
  "static0 = \<lparr>nheap = no_heap, npools = \<lparr>memp_tab = replicate 10 0, links = Map.empty, memp_stats = replicate 10 no_stats\<rparr>,
     pbs = Map.empty, octs = (\<lambda>_. 0)\<rparr>"

lemma align0: "LWIP_MEM_ALIGN 0xC0000000 = 0xC0000000"
  by (simp add: LWIP_MEM_ALIGN_def MEM_ALIGNMENT_def)

lemma starts0: "\<exists>s. memory_init 0xC0000000 lay0 static0 = ret () s \<and> net_inv lay0 0xC0000000 s Map.empty"
  using memory_starts [of lay0 "0xC0000000" static0] stack_ok_lay0
  by (auto simp: align0 static0_def no_heap_def no_stats_def)

section \<open>Everything in use\<close>

definition entries :: "layout \<Rightarrow> (u32 \<times> nat) list" where
  "entries lay = concat (map (\<lambda>i. map (\<lambda>p. (p, elem_size lay i)) (pool_elems lay i)) [0..<10])"

definition taken :: "layout \<Rightarrow> u32 \<rightharpoonup> nat" where
  "taken lay = map_of (entries lay)"

lemma entries: "(p, n) \<in> set (entries lay) \<longleftrightarrow> (\<exists>i<10. p \<in> set (pool_elems lay i) \<and> n = elem_size lay i)"
  unfolding entries_def set_concat set_map set_upt by auto

lemma taken:
  assumes lay: "layout_ok lay" and i: "i < 10" and p: "p \<in> set (pool_elems lay i)"
  shows "taken lay p = Some (elem_size lay i)"
proof -
  have "(p, elem_size lay i) \<in> set (entries lay)" using i p entries by blast
  from weak_map_of_SomeI [OF this] obtain n where n: "map_of (entries lay) p = Some n" by blast
  from map_of_SomeD [OF this] obtain j where j: "j < 10" "p \<in> set (pool_elems lay j)" "n = elem_size lay j" using entries by blast
  then have "j = i" using pools_disjoint [OF lay i, of j] p by auto
  then show ?thesis using n j(3) by (simp add: taken_def)
qed

lemma dom_taken: "dom (taken lay) = (\<Union>i<10. set (pool_elems lay i))"
  unfolding taken_def dom_map_of_conv_image_fst entries_def set_concat set_map set_upt by force

definition full_pools :: "(u32 \<rightharpoonup> u32) \<Rightarrow> pools" where
  "full_pools l = \<lparr>memp_tab = replicate 10 0, links = l, memp_stats = map (\<lambda>n. no_stats\<lparr>st_used := ucast n\<rparr>) memp_num\<rparr>"

lemma full_pools_live:
  assumes lay: "layout_ok lay" and i: "i < 10"
  shows "pool_live lay i (full_pools l) (taken lay |` set (pool_elems lay i))"
proof -
  have dom: "dom (taken lay |` set (pool_elems lay i)) = set (pool_elems lay i)" using dom_taken [of lay] i by auto
  have len: "length memp_num = 10" by (simp add: memp_num_def)
  have "card (set (pool_elems lay i)) = unat (memp_num ! i)" using distinct_card [OF distinct_elems [OF lay i]] by (simp add: pool_elems_def)
  moreover have "ran (taken lay |` set (pool_elems lay i)) \<subseteq> {elem_size lay i}"
    using taken [OF lay i] by (auto simp: ran_def restrict_map_def split: if_splits)
  moreover have "\<exists>free. free_list l 0 free \<and> distinct free \<and> set free \<union> set (pool_elems lay i) = set (pool_elems lay i)
      \<and> set free \<inter> set (pool_elems lay i) = {}" by (rule exI [of _ "[]"]) simp
  moreover have "ucast (memp_num ! i) = (of_nat (unat (memp_num ! i)) :: u32)" by simp
  ultimately show ?thesis unfolding pool_live_def dom using lay i len by (simp add: full_pools_def)
qed

text \<open>Two buffers with the octets \<open>aa\<close> and \<open>b\<close> in a chain, one with \<open>wxyz\<close> beside it, and the
  text \<open>ab\<close> elsewhere in memory.\<close>

definition octets0 :: "u32 \<Rightarrow> u8" where
  "octets0 = (\<lambda>_. 0)(0xC1090040 := 97, 0xC1090041 := 97, 0xC1090740 := 98,
     0xC1090E40 := 119, 0xC1090E41 := 120, 0xC1090E42 := 121, 0xC1090E43 := 122, 0xC2000000 := 97, 0xC2000001 := 98)"

definition pool_pb :: "u32 \<Rightarrow> u16 \<Rightarrow> u16 \<Rightarrow> pbuf_s" where
  "pool_pb q tot n = \<lparr>p_payload = q + 64, p_tot_len = tot, p_len = n, p_type = PBUF_POOL, p_flags = 0, p_ref = 1\<rparr>"

definition net0 :: net where
  "net0 = \<lparr>nheap = (case mem_init 0xC0000000 no_heap of Some (Inr (_, h)) \<Rightarrow> h | _ \<Rightarrow> no_heap),
     npools = full_pools [0xC1090000 \<mapsto> 0xC1090700, 0xC1090700 \<mapsto> 0, 0xC1090E00 \<mapsto> 0],
     pbs = [0xC1090000 \<mapsto> pool_pb 0xC1090000 3 2, 0xC1090700 \<mapsto> pool_pb 0xC1090700 1 1, 0xC1090E00 \<mapsto> pool_pb 0xC1090E00 4 4],
     octs = octets0\<rparr>"

lemma net0_inv: "net_inv lay0 0xC0000000 net0 (taken lay0)"
proof -
  obtain h where h: "mem_init 0xC0000000 no_heap = ret () h" "heap_uses 0xC0000000 h Map.empty"
    using heap_starts [of "0xC0000000" no_heap] by (auto simp: no_heap_def no_stats_def align0)
  have "taken lay0 |` heap_area 0xC0000000 = Map.empty"
  proof
    fix p show "(taken lay0 |` heap_area 0xC0000000) p = None"
    proof (cases "p \<in> heap_area 0xC0000000")
      case True
      then have "p \<notin> dom (taken lay0)" using heap_pools_disjoint [OF stack_ok_lay0] unfolding dom_taken by blast
      then show ?thesis using True by (simp add: domIff)
    qed simp
  qed
  moreover have "nheap net0 = h" using h(1) by (simp add: net0_def ret_def)
  moreover have "\<forall>i<10. pool_live lay0 i (npools net0) (taken lay0 |` set (pool_elems lay0 i))"
    using full_pools_live [OF layout_ok_lay0] by (simp add: net0_def)
  moreover have "plain b" if "pbs net0 p = Some b" for p b
    using that by (auto simp: net0_def pool_pb_def plain_def split: if_splits)
  ultimately show ?thesis using stack_ok_lay0 h(2) dom_taken [of lay0] by (auto simp: net_inv_def)
qed

lemma net0_chains:
  "chain net0 0xC1090000 [0xC1090000, 0xC1090700]" "chain net0 0xC1090E00 [0xC1090E00]"
  "tots net0 [0xC1090000, 0xC1090700]" "tots net0 [0xC1090E00]"
  by (simp_all add: net0_def full_pools_def pool_pb_def plen_def)

lemma net0_elems: "{0xC1090000, 0xC1090700, 0xC1090E00} \<subseteq> set (pool_elems lay0 9)"
proof -
  have "0xC1090000 + of_nat j * 1792 \<in> set (pool_elems lay0 9)" if "j < 256" for j
    using that by (auto simp: pool_elems_def elem_size_def sizes0 bases0 memp_num_def)
  from this [of 0] this [of 1] this [of 2] show ?thesis by simp
qed

lemma net0_owned: "owned lay0 0xC0000000 net0 (taken lay0) [0xC1090000, 0xC1090700]" "owned lay0 0xC0000000 net0 (taken lay0) [0xC1090E00]"
  using net0_elems taken [OF layout_ok_lay0, of 9]
  by (auto simp: owned_def net0_def pool_pb_def housed_def plain_def)

lemma net0_refs: "refs net0 0xC1090000 = 1" "refs net0 0xC1090700 = 1" "refs net0 0xC1090E00 = 1"
  by (simp_all add: refs_def net0_def pool_pb_def)

lemma net0_plen: "plen net0 0xC1090000 = 2" "plen net0 0xC1090700 = 1" "plen net0 0xC1090E00 = 4"
  by (simp_all add: plen_def net0_def pool_pb_def)

lemma net0_lens: "total_len net0 [0xC1090000, 0xC1090700] = 3" "total_len net0 [0xC1090E00] = 4"
  using net0_plen by simp_all

lemma net0_laid: "laid (taken lay0) net0 [0xC1090000, 0xC1090700]"
  using net0_elems taken [OF layout_ok_lay0, of 9]
  by (auto simp: laid_def placed_def net0_def pool_pb_def elem_size_def sizes0)

lemma net0_content: "contents net0 [0xC1090000, 0xC1090700] = [97, 97, 98]"
  by (simp add: content_def octets_at_def plen_def net0_def pool_pb_def octets0_def upt_rec)

lemma net0_text: "octets_at octets0 0xC2000000 2 = [97, 98]"
  by (simp add: octets_at_def octets0_def upt_rec)

lemma net0_space: "a \<in> space net0 [0xC1090000, 0xC1090700] \<Longrightarrow> unat a < 0xC2000000"
  using stretch_range [of "0xC1090040" 2 a] stretch_range [of "0xC1090740" 1 a]
  by (auto simp: net0_def pool_pb_def plen_def)

lemma net0_free:
  assumes "0xC2000000 \<le> unat d" "unat d + n < 2 ^ 32"
  shows "space net0 [0xC1090000, 0xC1090700] \<inter> stretch d n = {}"
proof -
  have False if "a \<in> space net0 [0xC1090000, 0xC1090700]" "a \<in> stretch d n" for a
    using net0_space [OF that(1)] stretch_range [OF _ that(2)] assms by simp
  then show ?thesis by blast
qed

section \<open>The first allocation\<close>

lemma first_alloc:
  assumes inv: "net_inv lay r s Map.empty" and layer: "header_offset layer = Some off"
  shows "\<exists>p s'. pbuf_alloc cf layer len PBUF_REF s = ret p s' \<and> p \<noteq> 0"
proof -
  obtain p s1 where p: "on_pools (memp_malloc 8) s = ret p s1" "p = 0 \<Longrightarrow> set (pool_elems lay 8) \<subseteq> {}"
    using pool_get [OF inv, of 8] by force
  have "length (pool_elems lay 8) = 16" by (simp add: pool_elems_def memp_num_def)
  then have p0: "p \<noteq> 0" using p(2) by auto
  have "\<exists>s'. alloc_ref PBUF_REF len s = ret p s' \<and> (\<exists>b. pbs s' p = Some b)"
    using p(1) p0 by (auto simp: alloc_ref_def MEMP_PBUF_def bnd_run np_runs np_ends bnd_assoc ret_def)
  then obtain s2 b where s2: "alloc_ref PBUF_REF len s = ret p s2" "pbs s2 p = Some b" by blast
  then show ?thesis using layer p0 by (auto simp: pbuf_alloc_def bnd_run np_runs ret_def)
qed

text \<open>The first buffer after the start is held once.\<close>

lemma first_run0:
  "\<exists>s p s1. memory_init 0xC0000000 lay0 static0 = ret () s \<and> pbuf_alloc cf PBUF_RAW 100 PBUF_REF s = ret p s1 \<and> p \<noteq> 0
     \<and> net_run lay0 0xC0000000 cf s1 ((\<lambda>_. 0)(p := 1))"
proof -
  obtain s where s: "memory_init 0xC0000000 lay0 static0 = ret () s" "net_inv lay0 0xC0000000 s Map.empty" using starts0 by blast
  have off: "header_offset PBUF_RAW = Some 0"
    by (simp add: header_offset_def PBUF_RAW_def PBUF_TRANSPORT_def PBUF_IP_def PBUF_LINK_def)
  obtain p s1 where p: "pbuf_alloc cf PBUF_RAW 100 PBUF_REF s = ret p s1" "p \<noteq> 0" using first_alloc [OF s(2) off] by blast
  from net_run.alloc [OF net_run.boot [OF s(2)] off _ p(1)] p(2)
  have "net_run lay0 0xC0000000 cf s1 ((\<lambda>_. 0)(p := 1))" by simp
  then show ?thesis using s(1) p by blast
qed

end
