(* ===== verification/Uartlite.thy ===== *)
theory Uartlite
  imports Bus
begin

text \<open>
  The driver of the debug UART (\<open>uartlite_v2_00_a\<close>: \<open>xuartlite.c\<close>, \<open>xuartlite_intr.c\<close>, \<open>xuartlite_l.c\<close>,
  \<open>xuartlite_stats.c\<close>, \<open>xuartlite_selftest.c\<close>, \<open>xuartlite_sinit.c\<close>) for its one instance, over the bus of
  theory \<open>Bus\<close>. The memory holds the buffers of the application. A failed assertion waits for ever, as
  \<open>Xil_Assert\<close> does while \<open>Xil_AssertWait\<close> keeps its initial value.
\<close>

section \<open>The instance\<close>

record XUartLite_Stats =
  TransmitInterrupts :: u32
  ReceiveInterrupts :: u32
  CharactersTransmitted :: u32
  CharactersReceived :: u32
  ReceiveOverrunErrors :: u32
  ReceiveParityErrors :: u32
  ReceiveFramingErrors :: u32

record XUartLite_Buffer =
  NextBytePtr :: u32
  RequestedBytes :: u32
  RemainingBytes :: u32

record XUartLite_Config =
  DeviceId :: u16
  RegBaseAddr :: u32
  BaudRate :: u32
  UseParity :: u8
  ParityOdd :: u8
  DataBits :: u8

text \<open>A callback is the stub of the driver or a function of the application, known by its address.\<close>

datatype handler = StubHandler | AppHandler u32

record XUartLite =
  Stats :: XUartLite_Stats
  RegBaseAddress :: u32
  IsReady :: u32
  SendBuffer :: XUartLite_Buffer
  ReceiveBuffer :: XUartLite_Buffer
  RecvHandler :: handler
  RecvCallBackRef :: u32
  SendHandler :: handler
  SendCallBackRef :: u32

record uart_mem =
  inst :: XUartLite
  memory :: "u32 \<Rightarrow> u8"

type_synonym 'a ul = "(uart_mem, 'a) fw"

definition XIL_COMPONENT_IS_READY :: u32 where "XIL_COMPONENT_IS_READY = 0x11111111"

datatype xstatus = XST_SUCCESS | XST_FAILURE | XST_DEVICE_NOT_FOUND

definition xil_assert :: "(uart_mem \<Rightarrow> bool) \<Rightarrow> 'a ul \<Rightarrow> 'a ul" where
  "xil_assert b m s = (if b (fst s) then m s else None)"

abbreviation is_ready :: "uart_mem \<Rightarrow> bool" where
  "is_ready g \<equiv> IsReady (inst g) = XIL_COMPONENT_IS_READY"

definition upd_inst :: "(XUartLite \<Rightarrow> XUartLite) \<Rightarrow> unit ul" where
  "upd_inst f = modg (\<lambda>g. g\<lparr>inst := f (inst g)\<rparr>)"

section \<open>Registers\<close>

definition XUL_RX_FIFO_OFFSET :: u32 where "XUL_RX_FIFO_OFFSET = 0"
definition XUL_TX_FIFO_OFFSET :: u32 where "XUL_TX_FIFO_OFFSET = 4"
definition XUL_STATUS_REG_OFFSET :: u32 where "XUL_STATUS_REG_OFFSET = 8"
definition XUL_CONTROL_REG_OFFSET :: u32 where "XUL_CONTROL_REG_OFFSET = 12"

definition XUartLite_WriteReg :: "u32 \<Rightarrow> u32 \<Rightarrow> u32 \<Rightarrow> unit ul" where
  "XUartLite_WriteReg base off v = mmio_write W32 (base + off) v"

definition XUartLite_ReadReg :: "world \<Rightarrow> u32 \<Rightarrow> u32 \<Rightarrow> u32 ul" where
  "XUartLite_ReadReg wd base off = mmio_read wd W32 (base + off)"

text \<open>The registers of the instance.\<close>

definition write_reg :: "u32 \<Rightarrow> u32 \<Rightarrow> unit ul" where
  "write_reg off v = bnd (getg (\<lambda>g. RegBaseAddress (inst g))) (\<lambda>b. XUartLite_WriteReg b off v)"

definition read_reg :: "world \<Rightarrow> u32 \<Rightarrow> u32 ul" where
  "read_reg wd off = bnd (getg (\<lambda>g. RegBaseAddress (inst g))) (\<lambda>b. XUartLite_ReadReg wd b off)"

section \<open>Operations\<close>

definition XUartLite_ClearStats :: "unit ul" where
  "XUartLite_ClearStats = xil_assert is_ready (upd_inst (\<lambda>i. i\<lparr>Stats :=
     \<lparr>TransmitInterrupts = 0, ReceiveInterrupts = 0, CharactersTransmitted = 0, CharactersReceived = 0,
      ReceiveOverrunErrors = 0, ReceiveParityErrors = 0, ReceiveFramingErrors = 0\<rparr>\<rparr>))"

definition XUartLite_GetStats :: "XUartLite_Stats ul" where
  "XUartLite_GetStats = xil_assert is_ready (getg (\<lambda>g. Stats (inst g)))"

definition XUartLite_CfgInitialize :: "u32 \<Rightarrow> xstatus ul" where
  "XUartLite_CfgInitialize EffectiveAddr = bnd (block [
     upd_inst (\<lambda>i. i\<lparr>SendBuffer := \<lparr>NextBytePtr = 0, RequestedBytes = 0, RemainingBytes = 0\<rparr>,
       ReceiveBuffer := \<lparr>NextBytePtr = 0, RequestedBytes = 0, RemainingBytes = 0\<rparr>,
       IsReady := XIL_COMPONENT_IS_READY, RegBaseAddress := EffectiveAddr,
       RecvHandler := StubHandler, SendHandler := StubHandler\<rparr>),
     write_reg XUL_CONTROL_REG_OFFSET 0,
     XUartLite_ClearStats]) (\<lambda>_. ret XST_SUCCESS)"

primrec XUartLite_LookupConfig :: "XUartLite_Config list \<Rightarrow> u16 \<Rightarrow> XUartLite_Config option" where
  "XUartLite_LookupConfig [] d = None"
| "XUartLite_LookupConfig (c # cs) d = (if DeviceId c = d then Some c else XUartLite_LookupConfig cs d)"

definition XUartLite_Initialize :: "XUartLite_Config list \<Rightarrow> u16 \<Rightarrow> xstatus ul" where
  "XUartLite_Initialize table d = (case XUartLite_LookupConfig table d of
     None \<Rightarrow> ret XST_DEVICE_NOT_FOUND | Some c \<Rightarrow> XUartLite_CfgInitialize (RegBaseAddr c))"

text \<open>The loop that fills the FIFO; \<open>k\<close> octets of the buffer are left.\<close>

primrec send_loop :: "world \<Rightarrow> nat \<Rightarrow> u32 \<Rightarrow> u8 \<Rightarrow> u32 ul" where
  "send_loop wd 0 SentCount st = ret SentCount"
| "send_loop wd (Suc k) SentCount st =
     (if st AND 0x08 = 0
      then bnd (getg (\<lambda>g. memory g (NextBytePtr (SendBuffer (inst g)) + SentCount))) (\<lambda>b.
        bnd (write_reg XUL_TX_FIFO_OFFSET (ucast b)) (\<lambda>_.
        bnd (read_reg wd XUL_STATUS_REG_OFFSET) (\<lambda>st. send_loop wd k (SentCount + 1) (ucast st))))
      else ret SentCount)"

definition upd_send :: "(XUartLite_Buffer \<Rightarrow> XUartLite_Buffer) \<Rightarrow> unit ul" where
  "upd_send f = upd_inst (\<lambda>i. i\<lparr>SendBuffer := f (SendBuffer i)\<rparr>)"

definition upd_recv :: "(XUartLite_Buffer \<Rightarrow> XUartLite_Buffer) \<Rightarrow> unit ul" where
  "upd_recv f = upd_inst (\<lambda>i. i\<lparr>ReceiveBuffer := f (ReceiveBuffer i)\<rparr>)"

definition upd_stats :: "(XUartLite_Stats \<Rightarrow> XUartLite_Stats) \<Rightarrow> unit ul" where
  "upd_stats f = upd_inst (\<lambda>i. i\<lparr>Stats := f (Stats i)\<rparr>)"

definition XUartLite_SendBuffer :: "world \<Rightarrow> u32 ul" where
  "XUartLite_SendBuffer wd = bnd (read_reg wd XUL_STATUS_REG_OFFSET) (\<lambda>_.
     bnd (read_reg wd XUL_STATUS_REG_OFFSET) (\<lambda>st. let StatusRegister = ucast st :: u8 in
     bnd (write_reg XUL_CONTROL_REG_OFFSET 0) (\<lambda>_.
     bnd (getg (\<lambda>g. RemainingBytes (SendBuffer (inst g)))) (\<lambda>n.
     bnd (send_loop wd (unat n) 0 StatusRegister) (\<lambda>SentCount.
     bnd (block [
       upd_send (\<lambda>b. b\<lparr>NextBytePtr := NextBytePtr b + SentCount, RemainingBytes := RemainingBytes b - SentCount\<rparr>),
       upd_stats (\<lambda>s. s\<lparr>CharactersTransmitted := CharactersTransmitted s + SentCount\<rparr>),
       write_reg XUL_CONTROL_REG_OFFSET (ucast (StatusRegister AND 0x10))]) (\<lambda>_. ret SentCount))))))"

definition XUartLite_UpdateStats :: "u8 \<Rightarrow> XUartLite_Stats \<Rightarrow> XUartLite_Stats" where
  "XUartLite_UpdateStats st s =
     s\<lparr>ReceiveOverrunErrors := ReceiveOverrunErrors s + (if st AND 0x20 \<noteq> 0 then 1 else 0),
       ReceiveParityErrors := ReceiveParityErrors s + (if st AND 0x80 \<noteq> 0 then 1 else 0),
       ReceiveFramingErrors := ReceiveFramingErrors s + (if st AND 0x40 \<noteq> 0 then 1 else 0)\<rparr>"

primrec recv_loop :: "world \<Rightarrow> nat \<Rightarrow> u32 \<Rightarrow> u32 ul" where
  "recv_loop wd 0 ReceivedCount = ret ReceivedCount"
| "recv_loop wd (Suc k) ReceivedCount = bnd (read_reg wd XUL_STATUS_REG_OFFSET) (\<lambda>st.
     if (ucast st :: u8) AND 0x01 \<noteq> 0
     then bnd (read_reg wd XUL_RX_FIFO_OFFSET) (\<lambda>d. bnd (block [
        modg (\<lambda>g. g\<lparr>memory := (memory g)(NextBytePtr (ReceiveBuffer (inst g)) + ReceivedCount := ucast d)\<rparr>),
        upd_stats (XUartLite_UpdateStats (ucast st))]) (\<lambda>_. recv_loop wd k (ReceivedCount + 1)))
     else ret ReceivedCount)"

definition XUartLite_ReceiveBuffer :: "world \<Rightarrow> u32 ul" where
  "XUartLite_ReceiveBuffer wd = bnd (getg (\<lambda>g. RemainingBytes (ReceiveBuffer (inst g)))) (\<lambda>n.
     bnd (recv_loop wd (unat n) 0) (\<lambda>ReceivedCount.
     bnd (read_reg wd XUL_STATUS_REG_OFFSET) (\<lambda>st.
     bnd (block [
       write_reg XUL_CONTROL_REG_OFFSET 0,
       upd_recv (\<lambda>b. b\<lparr>NextBytePtr := NextBytePtr b + ReceivedCount, RemainingBytes := RemainingBytes b - ReceivedCount\<rparr>),
       upd_stats (\<lambda>s. s\<lparr>CharactersReceived := CharactersReceived s + ReceivedCount\<rparr>),
       write_reg XUL_CONTROL_REG_OFFSET (ucast ((ucast st :: u8) AND 0x10))]) (\<lambda>_. ret ReceivedCount))))"

definition XUartLite_Send :: "world \<Rightarrow> u32 \<Rightarrow> u32 \<Rightarrow> u32 ul" where
  "XUartLite_Send wd DataBufferPtr NumBytes =
     xil_assert (\<lambda>g. DataBufferPtr \<noteq> 0 \<and> is_ready g \<and> sint NumBytes \<ge> 0)
       (bnd (read_reg wd XUL_STATUS_REG_OFFSET) (\<lambda>st. bnd (block [
          write_reg XUL_CONTROL_REG_OFFSET 0,
          upd_send (\<lambda>b. \<lparr>NextBytePtr = DataBufferPtr, RequestedBytes = NumBytes, RemainingBytes = NumBytes\<rparr>),
          write_reg XUL_CONTROL_REG_OFFSET (st AND 0x10)]) (\<lambda>_. XUartLite_SendBuffer wd)))"

definition XUartLite_Recv :: "world \<Rightarrow> u32 \<Rightarrow> u32 \<Rightarrow> u32 ul" where
  "XUartLite_Recv wd DataBufferPtr NumBytes =
     xil_assert (\<lambda>g. DataBufferPtr \<noteq> 0 \<and> is_ready g \<and> sint NumBytes \<ge> 0)
       (bnd (read_reg wd XUL_STATUS_REG_OFFSET) (\<lambda>st. bnd (block [
          write_reg XUL_CONTROL_REG_OFFSET 0,
          upd_recv (\<lambda>b. \<lparr>NextBytePtr = DataBufferPtr, RequestedBytes = NumBytes, RemainingBytes = NumBytes\<rparr>),
          write_reg XUL_CONTROL_REG_OFFSET (st AND 0x10)]) (\<lambda>_. XUartLite_ReceiveBuffer wd)))"

definition XUartLite_ResetFifos :: "world \<Rightarrow> unit ul" where
  "XUartLite_ResetFifos wd = xil_assert is_ready (bnd (read_reg wd XUL_STATUS_REG_OFFSET) (\<lambda>Register.
     write_reg XUL_CONTROL_REG_OFFSET ((Register AND 0x10) OR 0x01 OR 0x02)))"

definition XUartLite_IsSending :: "world \<Rightarrow> bool ul" where
  "XUartLite_IsSending wd = bnd (read_reg wd XUL_STATUS_REG_OFFSET) (\<lambda>st. ret (st AND 0x04 = 0))"

definition XUartLite_SelfTest :: "world \<Rightarrow> xstatus ul" where
  "XUartLite_SelfTest wd = xil_assert is_ready (bnd (read_reg wd XUL_STATUS_REG_OFFSET) (\<lambda>st.
     ret (if st \<noteq> 0x04 then XST_FAILURE else XST_SUCCESS)))"

definition XUartLite_EnableInterrupt :: "unit ul" where
  "XUartLite_EnableInterrupt = xil_assert is_ready (write_reg XUL_CONTROL_REG_OFFSET 0x10)"

definition XUartLite_DisableInterrupt :: "unit ul" where
  "XUartLite_DisableInterrupt = xil_assert is_ready (write_reg XUL_CONTROL_REG_OFFSET 0)"

definition XUartLite_SetRecvHandler :: "u32 \<Rightarrow> u32 \<Rightarrow> unit ul" where
  "XUartLite_SetRecvHandler FuncPtr CallBackRef = xil_assert (\<lambda>g. FuncPtr \<noteq> 0 \<and> is_ready g)
     (upd_inst (\<lambda>i. i\<lparr>RecvHandler := AppHandler FuncPtr, RecvCallBackRef := CallBackRef\<rparr>))"

definition XUartLite_SetSendHandler :: "u32 \<Rightarrow> u32 \<Rightarrow> unit ul" where
  "XUartLite_SetSendHandler FuncPtr CallBackRef = xil_assert (\<lambda>g. FuncPtr \<noteq> 0 \<and> is_ready g)
     (upd_inst (\<lambda>i. i\<lparr>SendHandler := AppHandler FuncPtr, SendCallBackRef := CallBackRef\<rparr>))"

text \<open>
  The interrupt handler. What the application's callbacks do is the parameter \<open>app\<close>: the function at an
  address, called with its reference and a count. The stub is a failed assertion.
\<close>

type_synonym app = "u32 \<Rightarrow> u32 \<Rightarrow> u32 \<Rightarrow> unit ul"

definition call_handler :: "app \<Rightarrow> handler \<Rightarrow> u32 \<Rightarrow> u32 \<Rightarrow> unit ul" where
  "call_handler app f cref n = (case f of StubHandler \<Rightarrow> (\<lambda>_. None) | AppHandler a \<Rightarrow> app a cref n)"

definition ReceiveDataHandler :: "world \<Rightarrow> app \<Rightarrow> unit ul" where
  "ReceiveDataHandler wd app = block [
     bnd (getg (\<lambda>g. RemainingBytes (ReceiveBuffer (inst g)))) (\<lambda>n.
       if n \<noteq> 0 then bnd (XUartLite_ReceiveBuffer wd) (\<lambda>_. ret ()) else ret ()),
     bnd (getg inst) (\<lambda>i.
       if RemainingBytes (ReceiveBuffer i) = 0
       then call_handler app (RecvHandler i) (RecvCallBackRef i)
         (RequestedBytes (ReceiveBuffer i) - RemainingBytes (ReceiveBuffer i))
       else ret ()),
     upd_stats (\<lambda>s. s\<lparr>ReceiveInterrupts := ReceiveInterrupts s + 1\<rparr>)]"

definition SendDataHandler :: "world \<Rightarrow> app \<Rightarrow> unit ul" where
  "SendDataHandler wd app = block [
     bnd (getg inst) (\<lambda>i.
       if RemainingBytes (SendBuffer i) = 0
       then block [upd_send (\<lambda>b. b\<lparr>RequestedBytes := 0\<rparr>),
         call_handler app (SendHandler i) (SendCallBackRef i) (RequestedBytes (SendBuffer i))]
       else bnd (XUartLite_SendBuffer wd) (\<lambda>_. ret ())),
     upd_stats (\<lambda>s. s\<lparr>TransmitInterrupts := TransmitInterrupts s + 1\<rparr>)]"

definition XUartLite_InterruptHandler :: "world \<Rightarrow> app \<Rightarrow> unit ul" where
  "XUartLite_InterruptHandler wd app = bnd (read_reg wd XUL_STATUS_REG_OFFSET) (\<lambda>IsrStatus. block [
     if IsrStatus AND (0x02 OR 0x01) \<noteq> 0 then ReceiveDataHandler wd app else ret (),
     bnd (getg (\<lambda>g. RequestedBytes (SendBuffer (inst g)))) (\<lambda>n.
       if IsrStatus AND 0x04 \<noteq> 0 \<and> n > 0 then SendDataHandler wd app else ret ())])"

text \<open>The functions on a bare device: they wait.\<close>

definition XUartLite_SendByte :: "world \<Rightarrow> u32 \<Rightarrow> u8 \<Rightarrow> unit ul" where
  "XUartLite_SendByte wd base Data = block [
     while_loop (bnd (XUartLite_ReadReg wd base XUL_STATUS_REG_OFFSET) (\<lambda>st. ret (st AND 0x08 = 0x08))) (ret ()),
     XUartLite_WriteReg base XUL_TX_FIFO_OFFSET (ucast Data)]"

definition XUartLite_RecvByte :: "world \<Rightarrow> u32 \<Rightarrow> u8 ul" where
  "XUartLite_RecvByte wd base =
     bnd (while_loop (bnd (XUartLite_ReadReg wd base XUL_STATUS_REG_OFFSET) (\<lambda>st. ret (st AND 0x01 \<noteq> 0x01))) (ret ()))
       (\<lambda>_. bnd (XUartLite_ReadReg wd base XUL_RX_FIFO_OFFSET) (\<lambda>d. ret (ucast d)))"


section \<open>What passes through the FIFOs\<close>

text \<open>
  The transmit FIFO takes an octet when the last status read since the write before it showed it not full
  (\<open>tx_room\<close>), and the receive FIFO yields one when the last status read since it was last emptied showed it not empty
  (\<open>rx_avail\<close>). \<open>fifo_out\<close> and \<open>fifo_in\<close> list the transfers in order; \<open>None\<close> is one that the status did not announce,
  an octet that may be lost on the way out, or none at all on the way in.
\<close>

fun tx_room :: "u32 \<Rightarrow> event list \<Rightarrow> bool" where
  "tx_room b [] = False"
| "tx_room b (Wr w a v # h) = (a \<noteq> b + XUL_TX_FIFO_OFFSET \<and> tx_room b h)"
| "tx_room b (Rd w a v # h) = (if a = b + XUL_STATUS_REG_OFFSET then v AND 0x08 = 0 else tx_room b h)"

fun rx_avail :: "u32 \<Rightarrow> event list \<Rightarrow> bool" where
  "rx_avail b [] = False"
| "rx_avail b (Wr w a v # h) = rx_avail b h"
| "rx_avail b (Rd w a v # h) =
     (if a = b + XUL_STATUS_REG_OFFSET then v AND 0x01 \<noteq> 0 else a \<noteq> b + XUL_RX_FIFO_OFFSET \<and> rx_avail b h)"

fun fifo_out :: "u32 \<Rightarrow> event list \<Rightarrow> u8 option list" where
  "fifo_out b [] = []"
| "fifo_out b (Rd w a v # h) = fifo_out b h"
| "fifo_out b (Wr w a v # h) = fifo_out b h @
     (if a = b + XUL_TX_FIFO_OFFSET then [if tx_room b h then Some (ucast v) else None] else [])"

fun fifo_in :: "u32 \<Rightarrow> event list \<Rightarrow> u8 option list" where
  "fifo_in b [] = []"
| "fifo_in b (Wr w a v # h) = fifo_in b h"
| "fifo_in b (Rd w a v # h) = fifo_in b h @
     (if a = b + XUL_RX_FIFO_OFFSET then [if rx_avail b h then Some (ucast v) else None] else [])"

text \<open>Between \<open>h\<close> and \<open>h'\<close> a status read showed the receive FIFO empty.\<close>

definition seen_empty :: "u32 \<Rightarrow> event list \<Rightarrow> event list \<Rightarrow> bool" where
  "seen_empty b h h' \<longleftrightarrow> (\<exists>es v. h' = es @ h \<and> Rd W32 (b + XUL_STATUS_REG_OFFSET) v \<in> set es \<and> v AND 0x01 = 0)"

lemma seen_empty_more: "seen_empty b (es @ h) h' \<Longrightarrow> seen_empty b h (es' @ h')"
  unfolding seen_empty_def by (metis UnI1 UnI2 append_assoc set_append)

lemma offsets_distinct [simp]:
  "XUL_CONTROL_REG_OFFSET \<noteq> XUL_TX_FIFO_OFFSET" "XUL_STATUS_REG_OFFSET \<noteq> XUL_RX_FIFO_OFFSET"
  "XUL_RX_FIFO_OFFSET \<noteq> XUL_STATUS_REG_OFFSET"
  by (simp_all add: XUL_CONTROL_REG_OFFSET_def XUL_TX_FIFO_OFFSET_def XUL_STATUS_REG_OFFSET_def XUL_RX_FIFO_OFFSET_def)

lemma status_octet [simp]:
  "(ucast v :: u8) AND 8 = 0 \<longleftrightarrow> v AND 8 = 0" "(ucast v :: u8) AND 1 = 0 \<longleftrightarrow> v AND 1 = 0" for v :: u32
  using and_exp_eq_0_iff_not_bit [of v 3] and_exp_eq_0_iff_not_bit [of "ucast v :: u8" 3]
    and_exp_eq_0_iff_not_bit [of v 0] and_exp_eq_0_iff_not_bit [of "ucast v :: u8" 0]
  by (simp_all add: bit_ucast_iff)

abbreviation base_of :: "uart_mem \<Rightarrow> u32" where "base_of g \<equiv> RegBaseAddress (inst g)"

lemma reg_runs:
  "bnd (write_reg off v) f (g, h) = f () (g, Wr W32 (base_of g + off) v # h)"
  "bnd (read_reg wd off) f' (g, h) = f' (bus_in wd h (base_of g + off)) (g, Rd W32 (base_of g + off) (bus_in wd h (base_of g + off)) # h)"
  "bnd (getg k) f'' (g, h) = f'' (k g) (g, h)"
  "bnd (modg k') f (g, h) = f () (k' g, h)"
  "bnd (upd_inst j) f (g, h) = f () (g\<lparr>inst := j (inst g)\<rparr>, h)"
  by (simp_all add: write_reg_def read_reg_def getg_def modg_def upd_inst_def bnd_def XUartLite_WriteReg_def
      XUartLite_ReadReg_def mmio_write_def mmio_read_def Let_def)

lemmas upd_runs = upd_send_def upd_recv_def upd_stats_def

lemma send_loop_runs:
  "(st AND 0x08 = 0 \<longrightarrow> tx_room (base_of g) h) \<Longrightarrow>
   \<exists>n h'. send_loop wd k c st (g, h) = Some (Inr (c + of_nat n, (g, h'))) \<and> n \<le> k
     \<and> fifo_out (base_of g) h' = fifo_out (base_of g) h @ map Some (octets_at (memory g) (NextBytePtr (SendBuffer (inst g)) + c) n)
     \<and> fifo_in (base_of g) h' = fifo_in (base_of g) h
     \<and> (n < k \<longrightarrow> (if n = 0 then st AND 0x08 \<noteq> 0 \<and> h' = h else \<not> tx_room (base_of g) h'))"
proof (induction k arbitrary: c st h)
  case 0
  show ?case by (intro exI [of _ 0] exI [of _ h]) (simp add: ret_def)
next
  case (Suc k)
  let ?b = "base_of g" and ?p = "NextBytePtr (SendBuffer (inst g))"
  show ?case
  proof (cases "st AND 0x08 = 0")
    case False
    then show ?thesis by (intro exI [of _ 0] exI [of _ h]) (simp add: ret_def)
  next
    case True
    then have room: "tx_room ?b h" using Suc.prems by simp
    let ?h = "Wr W32 (?b + XUL_TX_FIFO_OFFSET) (ucast (memory g (?p + c))) # h"
    let ?st = "bus_in wd ?h (?b + XUL_STATUS_REG_OFFSET)"
    let ?h' = "Rd W32 (?b + XUL_STATUS_REG_OFFSET) ?st # ?h"
    have "(ucast ?st :: u8) AND 0x08 = 0 \<longrightarrow> tx_room ?b ?h'" by simp
    from Suc.IH [OF this, of "c + 1"]
    obtain n h' where IH: "send_loop wd k (c + 1) (ucast ?st) (g, ?h') = Some (Inr (c + 1 + of_nat n, (g, h')))" "n \<le> k"
        "fifo_out ?b h' = fifo_out ?b ?h' @ map Some (octets_at (memory g) (?p + (c + 1)) n)" "fifo_in ?b h' = fifo_in ?b ?h'"
        "n < k \<longrightarrow> (if n = 0 then (ucast ?st :: u8) AND 0x08 \<noteq> 0 \<and> h' = ?h' else \<not> tx_room ?b h')"
      by blast
    have oct: "ucast (ucast w :: u32) = w" for w :: u8 by (rule bit_word_eqI) (auto simp: bit_simps)
    have "n < k \<longrightarrow> \<not> tx_room ?b h'" using IH(5) by (auto split: if_splits)
    then show ?thesis using IH(1-4) True room
      by (intro exI [of _ "Suc n"] exI [of _ h']) (simp add: reg_runs octets_at_Suc oct add.assoc)
  qed
qed

text \<open>What was sent, followed by what is still to be sent, does not change.\<close>

definition pending :: "uart_mem \<Rightarrow> u8 list" where
  "pending g = octets_at (memory g) (NextBytePtr (SendBuffer (inst g))) (unat (RemainingBytes (SendBuffer (inst g))))"

lemma send_buffer_runs:
  "\<exists>n g' h'. XUartLite_SendBuffer wd (g, h) = Some (Inr (n, (g', h')))
     \<and> fifo_out (base_of g) h' @ map Some (pending g') = fifo_out (base_of g) h @ map Some (pending g)
     \<and> (pending g' \<noteq> [] \<longrightarrow> \<not> tx_room (base_of g) h')
     \<and> unat (RemainingBytes (SendBuffer (inst g))) = unat n + unat (RemainingBytes (SendBuffer (inst g')))
     \<and> memory g' = memory g \<and> base_of g' = base_of g \<and> fifo_in (base_of g) h' = fifo_in (base_of g) h
     \<and> RequestedBytes (SendBuffer (inst g')) = RequestedBytes (SendBuffer (inst g))
     \<and> CharactersTransmitted (Stats (inst g')) = CharactersTransmitted (Stats (inst g)) + n
     \<and> ReceiveBuffer (inst g') = ReceiveBuffer (inst g)"
proof -
  let ?b = "base_of g" and ?s = "SendBuffer (inst g)"
  let ?N = "unat (RemainingBytes ?s)"
  define h1 where "h1 = Rd W32 (?b + XUL_STATUS_REG_OFFSET) (bus_in wd h (?b + XUL_STATUS_REG_OFFSET)) # h"
  define st where "st = bus_in wd h1 (?b + XUL_STATUS_REG_OFFSET)"
  define h2 where "h2 = Wr W32 (?b + XUL_CONTROL_REG_OFFSET) 0 # Rd W32 (?b + XUL_STATUS_REG_OFFSET) st # h1"
  obtain n h3 where run: "send_loop wd ?N 0 (ucast st) (g, h2) = Some (Inr (of_nat n, (g, h3)))" "n \<le> ?N"
      "fifo_out ?b h3 = fifo_out ?b h2 @ map Some (octets_at (memory g) (NextBytePtr ?s) n)" "fifo_in ?b h3 = fifo_in ?b h2"
      "n < ?N \<longrightarrow> \<not> tx_room ?b h3"
  proof -
    have "(ucast st :: u8) AND 0x08 = 0 \<longrightarrow> tx_room ?b h2" by (simp add: h2_def)
    from send_loop_runs [where wd = wd and c = 0, OF this, of ?N] show ?thesis
      by (elim exE conjE, intro that) (auto simp: h2_def split: if_splits)
  qed
  let ?g = "g\<lparr>inst := inst g\<lparr>SendBuffer := ?s\<lparr>NextBytePtr := NextBytePtr ?s + of_nat n, RemainingBytes := RemainingBytes ?s - of_nat n\<rparr>,
      Stats := Stats (inst g)\<lparr>CharactersTransmitted := CharactersTransmitted (Stats (inst g)) + of_nat n\<rparr>\<rparr>\<rparr>"
  have n: "unat (of_nat n :: u32) = n" using le_less_trans [OF run(2) unat_u32_lt] by (intro unat_of_nat32) simp
  then have rest: "unat (RemainingBytes ?s - of_nat n) = ?N - n" using run(2) by (simp add: unat_sub word_le_nat_alt)
  have "XUartLite_SendBuffer wd (g, h) = Some (Inr (of_nat n, (?g,
      Wr W32 (?b + XUL_CONTROL_REG_OFFSET) (ucast ((ucast st :: u8) AND 0x10)) # h3)))"
    using run(1) by (simp add: XUartLite_SendBuffer_def reg_runs upd_runs bnd_assoc Let_def h1_def [symmetric] st_def [symmetric]
        h2_def [symmetric] bnd_Some ret_def)
  moreover have "octets_at (memory g) (NextBytePtr ?s) ?N = octets_at (memory g) (NextBytePtr ?s) n
      @ octets_at (memory g) (NextBytePtr ?s + of_nat n) (?N - n)" by (rule octets_at_split) (rule run(2))
  ultimately show ?thesis using run n rest
    by (intro exI [of _ "of_nat n"] exI [of _ ?g]) (auto simp: pending_def h2_def h1_def octets_at_def)
qed


text \<open>What is received lies in the buffer in the order it was read from the FIFO.\<close>

primrec store_octets :: "(u32 \<Rightarrow> u8) \<Rightarrow> u32 \<Rightarrow> u8 list \<Rightarrow> u32 \<Rightarrow> u8" where
  "store_octets mm p [] = mm"
| "store_octets mm p (d # ds) = store_octets (mm(p := d)) (p + 1) ds"

lemma recv_loop_runs:
  "\<exists>ds g' h'. recv_loop wd k c (g, h) = Some (Inr (c + of_nat (length ds), (g', h'))) \<and> length ds \<le> k
     \<and> (length ds < k \<longrightarrow> seen_empty (base_of g) h h') \<and> fifo_in (base_of g) h' = fifo_in (base_of g) h @ map Some ds \<and> fifo_out (base_of g) h' = fifo_out (base_of g) h
     \<and> memory g' = store_octets (memory g) (NextBytePtr (ReceiveBuffer (inst g)) + c) ds
     \<and> (\<exists>st. inst g' = inst g\<lparr>Stats := st\<rparr> \<and> CharactersReceived st = CharactersReceived (Stats (inst g)))"
proof (induction k arbitrary: c g h)
  case 0
  show ?case by (intro exI [of _ "[]"] exI [of _ g] exI [of _ h]) (auto simp: ret_def intro!: exI [of _ "Stats (inst g)"])
next
  case (Suc k)
  let ?b = "base_of g" and ?p = "NextBytePtr (ReceiveBuffer (inst g))"
  let ?st = "bus_in wd h (?b + XUL_STATUS_REG_OFFSET)"
  let ?h = "Rd W32 (?b + XUL_STATUS_REG_OFFSET) ?st # h"
  show ?case
  proof (cases "(ucast ?st :: u8) AND 0x01 = 0")
    case True
    then have "seen_empty ?b h ?h" unfolding seen_empty_def by (intro exI [of _ "[Rd W32 (?b + XUL_STATUS_REG_OFFSET) ?st]"]) auto
    then show ?thesis using True
      by (intro exI [of _ "[]"] exI [of _ g] exI [of _ ?h]) (auto simp: reg_runs ret_def intro!: exI [of _ "Stats (inst g)"])
  next
    case False
    let ?d = "bus_in wd ?h (?b + XUL_RX_FIFO_OFFSET)"
    let ?h' = "Rd W32 (?b + XUL_RX_FIFO_OFFSET) ?d # ?h"
    let ?g = "g\<lparr>memory := (memory g)(?p + c := ucast ?d), inst := inst g\<lparr>Stats := XUartLite_UpdateStats (ucast ?st) (Stats (inst g))\<rparr>\<rparr>"
    obtain ds g' h' st where IH: "recv_loop wd k (c + 1) (?g, ?h') = Some (Inr (c + 1 + of_nat (length ds), (g', h')))" "length ds \<le> k"
        "fifo_in (base_of ?g) h' = fifo_in (base_of ?g) ?h' @ map Some ds" "fifo_out (base_of ?g) h' = fifo_out (base_of ?g) ?h'"
        "memory g' = store_octets (memory ?g) (NextBytePtr (ReceiveBuffer (inst ?g)) + (c + 1)) ds" "inst g' = inst ?g\<lparr>Stats := st\<rparr>"
        "CharactersReceived st = CharactersReceived (Stats (inst ?g))" "length ds < k \<longrightarrow> seen_empty (base_of ?g) ?h' h'"
      using Suc.IH [of "c + 1" ?g ?h'] by blast
    have "length ds < k \<longrightarrow> seen_empty ?b h h'"
      using IH(8) seen_empty_more [of ?b "[Rd W32 (?b + XUL_RX_FIFO_OFFSET) ?d, Rd W32 (?b + XUL_STATUS_REG_OFFSET) ?st]" h h' "[]"] by simp
    moreover have "CharactersReceived st = CharactersReceived (Stats (inst g))" using IH(7) by (simp add: XUartLite_UpdateStats_def)
    ultimately show ?thesis using IH(1-6) False
      by (intro exI [of _ "ucast ?d # ds"] exI [of _ g'] exI [of _ h'])
        (auto simp: reg_runs upd_runs bnd_assoc add.assoc intro!: exI [of _ st])
  qed
qed

lemma receive_buffer_runs:
  "\<exists>ds g' h'. XUartLite_ReceiveBuffer wd (g, h) = Some (Inr (of_nat (length ds), (g', h')))
     \<and> fifo_in (base_of g) h' = fifo_in (base_of g) h @ map Some ds \<and> fifo_out (base_of g) h' = fifo_out (base_of g) h
     \<and> (RemainingBytes (ReceiveBuffer (inst g')) \<noteq> 0 \<longrightarrow> seen_empty (base_of g) h h')
     \<and> memory g' = store_octets (memory g) (NextBytePtr (ReceiveBuffer (inst g))) ds
     \<and> NextBytePtr (ReceiveBuffer (inst g')) = NextBytePtr (ReceiveBuffer (inst g)) + of_nat (length ds)
     \<and> unat (RemainingBytes (ReceiveBuffer (inst g))) = length ds + unat (RemainingBytes (ReceiveBuffer (inst g')))
     \<and> CharactersReceived (Stats (inst g')) = CharactersReceived (Stats (inst g)) + of_nat (length ds)
     \<and> SendBuffer (inst g') = SendBuffer (inst g) \<and> base_of g' = base_of g"
proof -
  let ?b = "base_of g" and ?s = "ReceiveBuffer (inst g)"
  let ?N = "unat (RemainingBytes ?s)"
  obtain ds g1 h1 st where run: "recv_loop wd ?N 0 (g, h) = Some (Inr (of_nat (length ds), (g1, h1)))" "length ds \<le> ?N"
      "fifo_in ?b h1 = fifo_in ?b h @ map Some ds" "fifo_out ?b h1 = fifo_out ?b h" "memory g1 = store_octets (memory g) (NextBytePtr ?s) ds"
      "inst g1 = inst g\<lparr>Stats := st\<rparr>" "CharactersReceived st = CharactersReceived (Stats (inst g))"
      "length ds < ?N \<longrightarrow> seen_empty ?b h h1"
    using recv_loop_runs [of wd ?N 0 g h] by auto
  define sr where "sr = bus_in wd h1 (?b + XUL_STATUS_REG_OFFSET)"
  let ?g = "g1\<lparr>inst := inst g1\<lparr>ReceiveBuffer := ?s\<lparr>NextBytePtr := NextBytePtr ?s + of_nat (length ds),
      RemainingBytes := RemainingBytes ?s - of_nat (length ds)\<rparr>,
      Stats := st\<lparr>CharactersReceived := CharactersReceived st + of_nat (length ds)\<rparr>\<rparr>\<rparr>"
  have "unat (of_nat (length ds) :: u32) = length ds" using le_less_trans [OF run(2) unat_u32_lt] by (intro unat_of_nat32) simp
  then have rest: "unat (RemainingBytes ?s - of_nat (length ds)) = ?N - length ds" using run(2) by (simp add: unat_sub word_le_nat_alt)
  have "XUartLite_ReceiveBuffer wd (g, h) = Some (Inr (of_nat (length ds), (?g,
      Wr W32 (?b + XUL_CONTROL_REG_OFFSET) (ucast ((ucast sr :: u8) AND 0x10)) # Wr W32 (?b + XUL_CONTROL_REG_OFFSET) 0
        # Rd W32 (?b + XUL_STATUS_REG_OFFSET) sr # h1)))"
    using run(1,6) by (simp add: XUartLite_ReceiveBuffer_def reg_runs upd_runs bnd_assoc sr_def [symmetric] bnd_Some ret_def)
  moreover have "seen_empty ?b h h1 \<Longrightarrow> seen_empty ?b h (e1 # e2 # e3 # h1)" for e1 e2 e3
    using seen_empty_more [of ?b "[]" h h1 "[e1, e2, e3]"] by simp
  ultimately show ?thesis using run rest by (intro exI [of _ ds] exI [of _ ?g]) auto
qed

section \<open>Messages\<close>

text \<open>The transmit interrupts for a message, at most \<open>k\<close> of them, while some of it is still to be sent.\<close>

primrec refill :: "world \<Rightarrow> app \<Rightarrow> nat \<Rightarrow> unit ul" where
  "refill wd app 0 = ret ()"
| "refill wd app (Suc k) = bnd (getg (\<lambda>g. RemainingBytes (SendBuffer (inst g)))) (\<lambda>n.
     if n = 0 then ret () else bnd (SendDataHandler wd app) (\<lambda>_. refill wd app k))"

text \<open>What has gone out, followed by what is still to go out.\<close>

abbreviation outgoing :: "uart_mem \<Rightarrow> event list \<Rightarrow> u8 option list" where
  "outgoing g h \<equiv> fifo_out (base_of g) h @ map Some (pending g)"

text \<open>The driver only stops before the end of a message when the FIFO is full.\<close>

abbreviation stopped_full :: "uart_mem \<Rightarrow> event list \<Rightarrow> bool" where
  "stopped_full g h \<equiv> pending g \<noteq> [] \<longrightarrow> \<not> tx_room (base_of g) h"

lemma send_handler_runs:
  assumes "RemainingBytes (SendBuffer (inst g)) \<noteq> 0"
  shows "\<exists>g' h'. SendDataHandler wd app (g, h) = Some (Inr ((), (g', h'))) \<and> base_of g' = base_of g
     \<and> outgoing g' h' = outgoing g h \<and> stopped_full g' h'"
proof -
  obtain n g1 h1 where 1: "XUartLite_SendBuffer wd (g, h) = Some (Inr (n, (g1, h1)))" "base_of g1 = base_of g"
      "outgoing g1 h1 = outgoing g h" "stopped_full g1 h1"
    using send_buffer_runs [of wd g h] by force
  let ?g = "g1\<lparr>inst := inst g1\<lparr>Stats := Stats (inst g1)\<lparr>TransmitInterrupts := TransmitInterrupts (Stats (inst g1)) + 1\<rparr>\<rparr>\<rparr>"
  have "SendDataHandler wd app (g, h) = Some (Inr ((), (?g, h1)))"
    using assms 1(1) by (simp add: SendDataHandler_def reg_runs upd_runs bnd_assoc bnd_Some ret_def upd_inst_def modg_def)
  moreover have "pending ?g = pending g1" by (simp add: pending_def)
  ultimately show ?thesis using 1(2-4) by (intro exI [of _ ?g] exI [of _ h1]) simp
qed

lemma refill_runs:
  "stopped_full g h \<Longrightarrow> \<exists>g' h'. refill wd app k (g, h) = Some (Inr ((), (g', h'))) \<and> base_of g' = base_of g
     \<and> outgoing g' h' = outgoing g h \<and> stopped_full g' h'"
proof (induction k arbitrary: g h)
  case (Suc k)
  show ?case
  proof (cases "RemainingBytes (SendBuffer (inst g)) = 0")
    case False
    obtain g1 h1 where 1: "SendDataHandler wd app (g, h) = Some (Inr ((), (g1, h1)))" "base_of g1 = base_of g"
        "outgoing g1 h1 = outgoing g h" "stopped_full g1 h1"
      using send_handler_runs [OF False, of wd app h] by blast
    obtain g2 h2 where 2: "refill wd app k (g1, h1) = Some (Inr ((), (g2, h2)))" "base_of g2 = base_of g1"
        "outgoing g2 h2 = outgoing g1 h1" "stopped_full g2 h2"
      using Suc.IH [OF 1(4)] by blast
    have "refill wd app (Suc k) (g, h) = Some (Inr ((), (g2, h2)))" using 1(1) 2(1) False by (simp add: reg_runs bnd_Some)
    then show ?thesis using 1(2,3) 2(2-4) by (intro exI [of _ g2] exI [of _ h2]) simp
  next
    case True
    then have "refill wd app (Suc k) (g, h) = Some (Inr ((), (g, h)))" by (simp add: reg_runs ret_def)
    then show ?thesis using Suc.prems by blast
  qed
qed (auto simp: ret_def)

lemma send_runs:
  assumes "is_ready g" "p \<noteq> 0" "sint n \<ge> 0"
  shows "\<exists>m g' h'. XUartLite_Send wd p n (g, h) = Some (Inr (m, (g', h'))) \<and> base_of g' = base_of g
    \<and> outgoing g' h' = fifo_out (base_of g) h @ map Some (octets_at (memory g) p (unat n)) \<and> stopped_full g' h'
    \<and> unat n = unat m + length (pending g')"
proof -
  define st where "st = bus_in wd h (base_of g + XUL_STATUS_REG_OFFSET)"
  let ?g = "g\<lparr>inst := inst g\<lparr>SendBuffer := \<lparr>NextBytePtr = p, RequestedBytes = n, RemainingBytes = n\<rparr>\<rparr>\<rparr>"
  let ?h = "Wr W32 (base_of g + XUL_CONTROL_REG_OFFSET) (st AND 0x10) # Wr W32 (base_of g + XUL_CONTROL_REG_OFFSET) 0
    # Rd W32 (base_of g + XUL_STATUS_REG_OFFSET) st # h"
  obtain m g' h' where s: "XUartLite_SendBuffer wd (?g, ?h) = Some (Inr (m, (g', h')))" "base_of g' = base_of ?g"
      "outgoing g' h' = outgoing ?g ?h" "stopped_full g' h'"
      "unat (RemainingBytes (SendBuffer (inst ?g))) = unat m + unat (RemainingBytes (SendBuffer (inst g')))"
    using send_buffer_runs [of wd ?g ?h] by force
  have run: "XUartLite_Send wd p n (g, h) = Some (Inr (m, (g', h')))"
    using s(1) assms by (simp add: XUartLite_Send_def xil_assert_def reg_runs upd_runs bnd_assoc st_def [symmetric])
  have "outgoing ?g ?h = fifo_out (base_of g) h @ map Some (octets_at (memory g) p (unat n))" by (simp add: pending_def)
  moreover have "unat n = unat m + length (pending g')" using s(5) by (simp add: pending_def octets_at_def)
  ultimately show ?thesis using run s(2-4) by (intro exI [of _ m] exI [of _ g'] exI [of _ h']) simp
qed

end
