(* ===== verification/Spec2Isabelle.thy ===== *)
theory Spec2Isabelle
  imports Results Inet_Chksum Ip_Addr Asn1 Pbuf_Start Uartlite
begin

text \<open>
  CellNetPU is a cellular neural network processor on a Spartan-6 board: the network itself is hardware
  (VHDL, \<open>src/src/ISE\<close>), and a MicroBlaze runs the C firmware of \<open>src/src/SDK/mpu_sw/src\<close> over the board
  support package of \<open>src/src/SDK/mpu_bsp\<close>. A host uploads images and asks for algorithms over a UART; the
  firmware moves pixels and coefficients to the hardware, starts it, and learns templates from the errors it
  measures. This library models the whole firmware, and the parts of the support package that compute
  something on their own: the driver of the debug UART and, of the network stack lwIP, the heap, the pools, the packet
  buffers, the checksums, the address functions and the ASN.1 coder.

  \<^bold>\<open>Firmware.\<close>
  \<^item> \<open>Prelude\<close>: the state, fault and non-termination monad all code is written in (\<open>('s, 'a) prog\<close>: \<open>None\<close> for
    not returning, a left value for a fault, a right value for a result), its loops, and generic lemmas.
  \<^item> \<open>Mpu_Types\<close>: \<open>cnn_package.h\<close>, \<open>sys_init.h\<close>, \<open>template_init.txt\<close>; every struct is a record. \<open>Bus\<close>: every access
    of a device register is an event of a trace; the answers are a function of the trace (\<open>world\<close>), a parameter. Traces are
    compared up to unsuccessful polling (\<open>quiet\<close>): the poll that found the ready flag up stays in them, and an octet written
    to a UART transmitter that was not seen free drops out of them.
  \<^item> \<open>Sys_Func\<close>, \<open>Cnn_Func\<close>, \<open>Cnn_Algorithm\<close>, \<open>Sys_Init\<close>: the functions of \<open>sys_func.c\<close>, \<open>cnn_func.c\<close>,
    \<open>cnn_algorithm.c\<close> and \<open>sys_init.c\<close>, one definition each; \<open>Firmware\<close>: \<open>main.c\<close> as a step relation, one request per
    step, with \<open>reachable\<close> states and the invariant of all of them.
  \<^item> \<open>Host_Link\<close> (locale \<open>uart_env\<close>: what the firmware relies on of the UART, data only once the status has announced
    it), \<open>Driver\<close> (\<open>cnn_env\<close>: of the network, results only once the ready flag has been seen up after the start) and
    \<open>Cnn_Algorithm\<close> (\<open>learn_env\<close>: of the error registers) are the interfaces of the hardware; \<open>Host_Requests\<close>,
    \<open>Patch_Requests\<close> and \<open>Learning\<close> prove the exact effect of every request inside them; \<open>Board\<close> interprets
    them on a concrete board (which is busy for two polls after a start and shows nothing of use before), and \<open>Results\<close>
    composes the effects. \<open>stack_frame\<close> in \<open>Firmware\<close> is the invariant argument, interpreted before and after initialisation.

  \<^bold>\<open>Board support package.\<close>
  \<^item> \<open>Uartlite\<close>: the driver \<open>uartlite_v2_00_a\<close> (instance, polled and interrupt-driven transfer, statistics, self test),
    over the same bus. Its lemmas say which octets pass through the FIFOs, and which transfers the status had announced.
  \<^item> \<open>Lwip_Def\<close>: \<open>core/def.c\<close>, packet buffers, error codes. \<open>Inet_Chksum\<close>: the three versions of the Internet
    checksum and its callers, against the sum of RFC 1071. \<open>Ip_Addr\<close>: \<open>core/ipv4/ip_addr.c\<close>, addresses and their text.
  \<^item> \<open>Asn1\<close>: \<open>core/snmp/asn1_enc.c\<close>, \<open>asn1_dec.c\<close>, octet by octet through a chain of buffers; every access to a
    buffer, and every store of a decoder into the array of an identifier or through the destination of raw octets, is checked against
    the memory it falls in, so that a result excludes an access out of bounds.
  \<^item> \<open>Lwip_Mem\<close>: \<open>core/mem.c\<close>, the heap with its headers in the memory it manages, and its abstract specification, a
    list of blocks (\<open>implements\<close>); reading a header that is not there is a fault. \<open>Mem_Clients\<close>: histories of calls by
    clients that keep to their own memory (\<open>heap_run\<close>).
  \<^item> \<open>Allocator\<close>: the locale \<open>allocator\<close>, the contract of whatever hands out memory (what is live stays live, areas in use
    are apart and inside the address space, a release returns). \<open>Mem_Clients\<close> interprets it on the heap, \<open>Lwip_Memp\<close>, the
    model of \<open>core/memp.c\<close>, on each of the ten pools; the packet buffers rest on those two interpretations.
  \<^item> \<open>Pbuf\<close>: \<open>core/pbuf.c\<close>, allocation, release, lengths and chains, over one state (\<open>net\<close>) of heap, pools, buffers and payload
    octets. \<open>Pbuf_Own\<close>: the invariant \<open>net_inv\<close> that ties the memory in use (\<open>live\<close>) to heap and pools, chains of buffers,
    and what release does to them. \<open>Pbuf_Alloc\<close>: every kind of allocation, failures included. \<open>Pbuf_Chain\<close>: joining, splitting,
    headers, cutting. \<open>Pbuf_Data\<close>: copying, comparing and searching, against the list of octets of a chain (\<open>contents\<close>).
    \<open>Pbuf_Refs\<close>: reference counts over histories of calls (\<open>net_run\<close>). \<open>Pbuf_Start\<close>: the start of this memory and two
    concrete states on which the properties are witnessed.

  \<^bold>\<open>Properties.\<close> The firmware: round trips and exact octets of the host requests, the exact register accesses of a run and of
  the learning loops, the coefficients they leave, the invariant of the reachable states and the faults that remain
  possible (a failed allocation, a division by a zero area, a template number out of range). lwIP: equivalence of the
  checksum versions with the reference sum, round trips of addresses, integers and object identifiers, safety of the
  decoders on arbitrary messages, refinement of the heap to first fit with merging, its termination and the
  disjointness of the memory in use; of packet buffers, that the reference count is the number of pointers in every history
  of calls, that nothing leaks and every call returns, and what each operation does to the octets, lengths and heap blocks of a chain.
  UART: a message goes out in order, every octet of it at a moment the status has shown room, and octets come in only when announced.

  \<^bold>\<open>Bounds.\<close> Integers have the width of the code (\<open>s16\<close>, \<open>u32\<close>, ...), a floating point value is the rational it stands for (the
  only operations on one are scalings by powers of two, and one constant product that is truncated to an integer). Loops that end by their own counters are structural; a wait on a device is \<open>while_loop\<close>, which
  may not end. \<open>mem.c\<close> is modelled with the constants of the generated \<open>lwipopts.h\<close> (\<open>MEM_ALIGNMENT\<close> 64,
  \<open>MEM_SIZE\<close> 131072): a header takes 64 octets and a block at least 76 rounded up to 128. Its two search loops are partial
  functions without fuel; that they end is a property, as for every loop over a chain of packet buffers. The board compiles
  \<open>memp.c\<close> with separate arrays and without overflow checks, and \<open>pbuf.c\<close> without assertions, \<open>pbuf_fill_chksum\<close> and the
  out-of-sequence reclaim. Where the linker puts the arrays and how large the protocol control blocks are is a
  parameter (\<open>layout\<close>); so are the free functions of custom packet buffers (\<open>cf\<close>). A \<open>struct pbuf\<close> is a record at its address,
  its \<open>next\<close> field lies where a pool keeps its link, and the payload octets are a memory of their own: no operation
  relies on a payload overlapping a struct. That a payload lies inside the block of its buffer is a property of its own
  (\<open>placed\<close>, \<open>laid\<close>, \<open>ram_placed\<close>), kept by allocation and by cutting. The struct of a buffer stays readable when a pool takes it
  back, as the arrays of the pools do; what goes back to the heap does not. Signed arithmetic wraps, as on the processor.

  \<^bold>\<open>Not modelled.\<close> The hardware and the host's Matlab scripts (other languages); of the support package, start-up code,
  caches and exceptions (assembly), the drivers the firmware links and does not call, and the rest of lwIP (TCP, UDP,
  DHCP, DNS, IGMP, the agent's tables, the ports to the Ethernet cores), which the firmware does not start.
\<close>

section \<open>The image link\<close>

text \<open>
  C1. An image the host uploads (request 1) and reads back (request 3) comes back octet for octet: after
  \<open>image_read\<close> and \<open>image_send\<close> of the same plane the octets sent are the octets received, the
  plane holds an image of the right shape and every other plane of the stack is untouched.
\<close>

theorem image_roundtrip:
  assumes uart: "uart_env wd inp" and g: "runnable g" and n: "rx_count q = n"
    and h: "unat (img_height (image g)) = h" and w: "unat (img_width (image g)) = w"
    and len: "n + 2 * (h * w) + 2 \<le> length inp"
    and pos: "inp ! n = pos" "inp ! (n + 2 * (h * w) + 1) = pos" "unat pos < 20"
  shows "\<exists>g' q' M. exec (block [image_read wd, image_send wd]) g q () g' q'
    \<and> tx_octets q' = tx_octets q @ take (2 * (h * w)) (drop (Suc n) inp)
    \<and> shaped h w M
    \<and> img_data (image g') = planes ((planes_of (img_data (image g)))[unat pos := M])
    \<and> heap_live g' = heap_live g \<and> templates g' = templates g"
proof -
  let ?Ms = "planes_of (img_data (image g))"
  note ptr = runnableD(1) [OF g] and data = runnableD(2) [OF g]
  have p: "unat pos < length ?Ms" "shaped h w (?Ms ! unat pos)"
    using runnableD(3,4) [OF g] pos h w by simp_all
  obtain M g1 q1 where read: "exec (image_read wd) g q () g1 q1" and M: "shaped h w M"
    and oct: "plane_octets M = take (2 * (h * w)) (drop (Suc n) inp)"
    and g1: "g1 = alloc_state g (gi g1) (gj g1) (planes (?Ms[unat pos := M])) (heap_live g)"
    and q1: "q1 = rev (map got (take (Suc (2 * (h * w))) (drop n inp))) @ q"
    using uart_env.exec_image_read [OF uart ptr data, of "unat pos" q n] p len pos n h w by auto
  have f: "pointers_ok g1" "img_data (image g1) = planes (?Ms[unat pos := M])" "heap_live g1 = heap_live g"
    "img_height (image g1) = img_height (image g)" "img_width (image g1) = img_width (image g)"
    "templates g1 = templates g"
    by (subst g1, simp add: ptr)+
  have rx: "rx_count q1 = n + 2 * (h * w) + 1" using q1 n len by simp
  have "exec (image_send wd) g1 q1 ()
     (alloc_state g1 (of_nat h) (if h = 0 then gj g1 else of_nat w) (planes (?Ms[unat pos := M])) (heap_live g1))
     (rev (map put (plane_octets M)) @ got pos # q1)"
    using uart_env.exec_image_send [OF uart f(1,2), of "unat pos" q1] p(1) M rx len pos
    unfolding f(4,5) h w by simp
  from exec_block_Cons [OF read exec_block_Cons [OF this exec_block_Nil]]
  show ?thesis using M f q1 oct by (intro exI conjI) (assumption | simp)+
qed

theorem image_roundtrip_witness:
  "\<exists>g' q' M. exec (block [image_read (board [3, 1, 2, 3, 4, 3] (\<lambda>_ _. 0) (\<lambda>_ _. 0)),
      image_send (board [3, 1, 2, 3, 4, 3] (\<lambda>_ _. 0) (\<lambda>_ _. 0))]) (demo 2 1) [] () g' q'
    \<and> tx_octets q' = [1, 2, 3, 4] \<and> shaped 1 2 M
    \<and> img_data (image g') = planes ((zero_planes 20 1 2)[3 := M])"
proof -
  let ?i = "[3, 1, 2, 3, 4, 3] :: u8 list"
  from image_roundtrip [where wd = "board ?i (\<lambda>_ _. 0) (\<lambda>_ _. 0)" and inp = ?i and g = "demo 2 1" and q = "[]" and n = 0
      and h = 1 and w = 2 and pos = 3, OF board_is_uart demo_runnable]
  show ?thesis by (simp del: block.simps) blast
qed

text \<open>
  C2. A header (request 0) of fourteen octets sets the image size, the step, the iteration count (one less
  than sent), the template number and the learning parameters from its big-endian words, announces
  them with four commands after a state reset, replaces the stack by twenty zero planes of the new
  size and answers with the octet 1.
\<close>

theorem header_read_effect:
  assumes uart: "uart_env wd inp" and ptr: "pointers_ok g" and count: "img_count (image g) = 20"
    and len: "rx_count q + 14 \<le> length inp" and bs: "bs = take 14 (drop (rx_count q) inp)"
    and h: "h = unat (word_at bs 1)" and w: "w = unat (word_at bs 0)"
    and fit: "fits_upto wd (heap_live (free_image g) + stack_bytes w h)"
  shows "\<exists>g' q'. exec (header_read wd) g q () g' q'
    \<and> image g' = \<lparr>img_data = planes (zero_planes 20 h w), img_width = word_at bs 0, img_height = word_at bs 1,
                  img_count = 20, img_shift = of_nat (w * h)\<rparr>
    \<and> cnn g' = \<lparr>cnn_Ts = word_at bs 2, cnn_iter_cnt = word_at bs 3 - 1, cnn_template_no = word_at bs 4,
                cnn_learn_loop = word_at bs 5, cnn_learn_rate = word_at bs 6\<rparr>
    \<and> templates g' = templates g \<and> errors g' = errors g
    \<and> rx_count q' = rx_count q + 14 \<and> tx_octets q' = tx_octets q @ [1]
    \<and> commands q' = commands q @ [push_bit 16 6 OR 1, push_bit 16 1 OR ucast (word_at bs 0),
        push_bit 16 2 OR ucast (word_at bs 1), push_bit 16 3 OR ucast (word_at bs 2),
        push_bit 16 4 OR ucast (word_at bs 3 - 1)]"
proof -
  have lb: "length bs = 14" using len bs by simp
  have "exec (header_read wd) g q () (header_state bs g) (header_trace bs @ q)"
    using uart_env.exec_header_read [OF uart ptr count len] fit unfolding bs h w .
  then show ?thesis
    unfolding h w header_state_fields [OF count, symmetric] header_trace_fields [OF lb, symmetric]
    using header_state_fields(3,4) [OF count] by blast
qed

theorem header_read_effect_witness:
  "\<exists>g' q'. exec (header_read (board [0, 2, 0, 1, 0, 102, 0, 4, 0, 3, 0, 5, 0, 10] (\<lambda>_ _. 0) (\<lambda>_ _. 0))) (demo 8 8) [] () g' q'
    \<and> img_data (image g') = planes (zero_planes 20 1 2) \<and> cnn_iter_cnt (cnn g') = 3 \<and> tx_octets q' = [1]"
proof -
  let ?i = "[0, 2, 0, 1, 0, 102, 0, 4, 0, 3, 0, 5, 0, 10] :: u8 list"
  have w: "word_at ?i 0 = 2" "word_at ?i (Suc 0) = 1" "word_at ?i 3 = 4" by (simp_all add: word_at_def be16_def)
  from header_read_effect [where wd = "board ?i (\<lambda>_ _. 0) (\<lambda>_ _. 0)" and inp = ?i and g = "demo 8 8" and q = "[]",
      OF board_is_uart demo_simps(7,4) _ refl refl refl board_fits]
  show ?thesis by (simp add: w) (metis image_struct.select_convs(1) cnn_struct.select_convs(2))
qed

text \<open>
  C3. A header frees only the top block of the previous stack (\<open>free(image.image)\<close>): its planes and rows
  stay allocated, so each header adds the twenty planes and their rows of the new size to the heap in
  use, and two headers of the same size leave two stacks allocated but for one top block.
\<close>

theorem header_leaks:
  assumes uart: "uart_env wd inp" and g: "runnable g" and count: "img_count (image g) = 20" and live: "80 \<le> heap_live g"
    and len: "rx_count q + 14 \<le> length inp" and bs: "bs = take 14 (drop (rx_count q) inp)"
    and h: "h = unat (word_at bs 1)" and w: "w = unat (word_at bs 0)"
    and fit: "fits_upto wd (heap_live g - 80 + stack_bytes w h)"
  shows "\<exists>g' q'. exec (header_read wd) g q () g' q' \<and> heap_live g' = heap_live g + 20 * (4 * h + 2 * w * h)"
proof -
  obtain Ms where "img_data (image g) = planes Ms" "length Ms = 20" using runnableD(2,3) [OF g] by blast
  then have free: "heap_live (free_image g) = heap_live g - 80" by (simp add: free_image_def planes_def)
  have "exec (header_read wd) g q () (header_state bs g) (header_trace bs @ q)"
    using uart_env.exec_header_read [OF uart runnableD(1) [OF g] count len] fit unfolding bs h w free .
  moreover have "heap_live (header_state bs g) = heap_live g + 20 * (4 * h + 2 * w * h)"
    using live by (simp add: header_state_live free h w stack_bytes_def)
  ultimately show ?thesis by blast
qed

theorem header_leaks_witness:
  "\<exists>g' q'. exec (header_read (board [0, 2, 0, 1, 0, 102, 0, 4, 0, 3, 0, 5, 0, 10] (\<lambda>_ _. 0) (\<lambda>_ _. 0))) booted [] () g' q'
    \<and> heap_live g' = stack_bytes 128 128 + 160"
proof -
  let ?i = "[0, 2, 0, 1, 0, 102, 0, 4, 0, 3, 0, 5, 0, 10] :: u8 list"
  have w: "word_at ?i 0 = 2" "word_at ?i (Suc 0) = 1" by (simp_all add: word_at_def be16_def)
  have r: "runnable booted" using booted_learner by (simp add: learner_def)
  from header_leaks [where wd = "board ?i (\<lambda>_ _. 0) (\<lambda>_ _. 0)" and inp = ?i and g = booted and q = "[]",
      OF board_is_uart r _ _ _ refl refl refl board_fits]
  show ?thesis by (simp add: w booted_live stack_bytes_def)
qed

text \<open>
  C4. The result of \<open>malloc\<close> is not checked: when the block of plane pointers cannot be allocated, storing
  the first plane writes through the NULL pointer, in \<open>init_image\<close> and in \<open>header_read\<close> alike.
\<close>

theorem allocation_failure_faults:
  assumes "\<not> heap_fits wd (heap_live (free_image g)) (unat (img_count (image g)) * 4)"
  shows "faults (image_alloc wd) g q NullDeref"
  using assms by (rule image_alloc_faults)

theorem allocation_failure_faults_witness:
  "faults (image_alloc \<lparr>bus_in = (\<lambda>_ _. 0), heap_fits = (\<lambda>l n. l + n \<le> 64)\<rparr>) (demo 2 1) [] NullDeref"
  by (rule allocation_failure_faults) (simp add: free_image_def)

section \<open>The whole firmware\<close>

text \<open>
  C5. In every state the firmware can reach at the head of its main loop, whatever the host sends,
  whatever the devices answer and whichever allocations fail, the register pointers hold the
  addresses of the register map, there are twenty planes of the image's size (rows whose allocation
  failed are NULL), fifteen complete templates, complete errors, and \<open>shift\<close> is the area.
\<close>

theorem reachable_invariant:
  assumes "reachable wd s"
  shows "wf_state (fst s)"
  using assms by (rule reachable_wf)

theorem reachable_invariant_witness:
  "\<exists>h. reachable (board [] (\<lambda>_ _. 0) (\<lambda>_ _. 0)) (booted, h) \<and> wf_state (fst (booted, h :: event list))"
  using booted_reachable [OF board_fits, of "[]" "\<lambda>_ _. 0" "\<lambda>_ _. 0"]
    reachable_invariant [of "board [] (\<lambda>_ _. 0) (\<lambda>_ _. 0)" "(booted, h)" for h] by blast

text \<open>
  C6. Served from a reachable state, a request can only run into the undefined operations listed for it in
  \<open>request_faults\<close>: a NULL row or block for those that allocate or touch pixels, an out-of-range plane
  or template number for those that take one from the host, and a division by zero for the errors and
  the learning loops when the image has no pixels. An unknown request never faults.
\<close>

theorem request_fault_bound:
  assumes reach: "reachable wd s" and fault: "dispatch wd request s' = Some (Inl e)" and same: "fst s' = fst s"
  shows "e \<in> request_faults request (img_shift (image (fst s)) \<noteq> 0)"
proof -
  let ?z = "img_shift (image (fst s)) \<noteq> 0"
  have "wf_nz ?z (fst s')" using reachable_wf [OF reach] same by (simp add: wf_nz_def)
  from validD(2) [OF valid_dispatch this fault] show ?thesis .
qed

theorem request_fault_bound_witness: "OutOfBounds \<in> request_faults 5 True"
proof -
  let ?b = "board [5, 0, 15] (\<lambda>_ _. 0) (\<lambda>_ _. 0)"
  obtain h where h: "quiet h = [cmd CMD_STATE_RST 1]" "reachable ?b (booted, h)"
    using booted_reachable [OF board_fits] by blast
  have q: "quiet (got 5 # h) = [got 5, cmd CMD_STATE_RST 1]" by (simp add: h got_def)
  have "faults (template_send ?b) booted [got 5, cmd CMD_STATE_RST 1] OutOfBounds"
    by (rule template_send_faults [OF board_is_uart]) (simp_all add: be16_def reset_templates)
  then have "template_send ?b (booted, got 5 # h) = Some (Inl OutOfBounds)"
    using q by (simp add: faults_def)
  then have "dispatch ?b 5 (booted, got 5 # h) = Some (Inl OutOfBounds)" by (simp add: dispatch_def)
  from request_fault_bound [OF h(2) this] show ?thesis by simp
qed

section \<open>Running the network\<close>

text \<open>
  C7. \<open>cnn_driver\<close> sends the image size, the step and the iteration count, programs the template, fills
  the three caches pixel by pixel, pulses the state reset, polls the ready flag until it has seen it up (the event
  \<open>ready_seen\<close>), and only then reads the result back: the accesses are exactly \<open>start_trace\<close>, one start of
  the network, the successful poll and an address and a data access for every pixel. Plane \<open>x_loc\<close> of the
  stack, and no other, becomes what the network computed. The network promises a result only behind the successful poll;
  without it the cache may show anything.
\<close>

theorem cnn_driver_run:
  assumes env: "cnn_env wd inp net" and g: "runnable g"
    and locs: "unat u < 20" "unat x < 20" "unat d < 20" and no: "unat no < 15"
    and q0: "q0 = start_trace (planes_of (img_data (image g))) (unat u) (unat x) (unat d) (templates g ! unat no)
      iter Ts (img_width (image g)) (img_height (image g)) q"
    and q1: "q1 = rev (pixel_trace (unat (img_height (image g))) (unat (img_width (image g)))
        (fetch_events (net q0) (unat (img_width (image g))))) @ ready_seen # cmd CMD_STATE_RST 0 # q0"
  shows "\<exists>g'. exec (cnn_driver wd u x d no iter Ts) g q () g' q1
    \<and> planes_of (img_data (image g')) = (planes_of (img_data (image g)))[unat x :=
        mat (unat (img_height (image g))) (unat (img_width (image g))) (\<lambda>i j. net q0 (u16_at (unat (img_width (image g))) i j))]
    \<and> templates g' = templates g \<and> errors g' = errors g \<and> cnn g' = cnn g \<and> heap_live g' = heap_live g
    \<and> starts q1 = Suc (starts q)"
proof -
  let ?s = "driven net no (unat u) (unat x) (unat d) iter Ts (g, q)"
  have s: "?s = (run_state (unat x) (net q0) g, run_trace (net q0) (img_width (image g)) (img_height (image g)) q0)"
    by (simp add: driven_def start_of_def q0 Let_def)
  have q1': "q1 = run_trace (net q0) (img_width (image g)) (img_height (image g)) q0" by (simp add: q1 run_trace_def)
  have "exec_to (cnn_driver wd u x d no iter Ts) (g, q) ?s"
    using cnn_env.exec_driven [OF env g locs no, of iter Ts q] by simp
  moreover have "starts (snd ?s) = Suc (starts q)" by simp
  ultimately show ?thesis
    unfolding s q1' by (intro exI [of _ "run_state (unat x) (net q0) g"]) (simp add: result_plane_def)
qed

theorem cnn_driver_run_witness:
  "\<exists>g' q'. exec (cnn_driver (board [] (\<lambda>_ a. a + 7) (\<lambda>_ _. 0)) 0 1 2 4 1 102) (demo 2 1) [] () g' q'
    \<and> planes_of (img_data (image g')) = (zero_planes 20 1 2)[1 := [[7, 8]]] \<and> starts q' = 1"
proof -
  from cnn_driver_run [where wd = "board [] (\<lambda>_ a. a + 7) (\<lambda>_ _. 0)" and g = "demo 2 1" and q = "[]" and u = 0 and x = 1
      and d = 2 and no = 4 and iter = 1 and Ts = 102, OF board_is_cnn demo_runnable _ _ _ _ refl refl]
  show ?thesis by (fastforce simp: mat_def u16_at_def upt_rec)
qed

text \<open>
  The cache address of a pixel is its index cut to 16 bits: two pixels of an image share an address
  exactly when the image has more than 65536 pixels (the header accepts any 16-bit width and height).
\<close>

theorem pixel_addresses_distinct:
  "inj_on (\<lambda>(i, j). pixel_address (alloc_state g (of_nat i) (of_nat j) d l))
     ({..<unat (img_height (image g))} \<times> {..<unat (img_width (image g))})
   = (unat (img_width (image g)) * unat (img_height (image g)) \<le> 65536 \<or> unat (img_width (image g)) = 0)"
proof -
  let ?h = "unat (img_height (image g))" and ?w = "unat (img_width (image g))"
  have "inj_on (\<lambda>(i, j). pixel_address (alloc_state g (of_nat i) (of_nat j) d l)) ({..<?h} \<times> {..<?w})
      = inj_on (\<lambda>(i, j). u16_at ?w i j) ({..<?h} \<times> {..<?w})"
  proof (rule inj_on_cong, clarify)
    fix i j assume "i < ?h" "j < ?w"
    moreover have "?h < 65536" "?w < 65536" by simp_all
    ultimately show "pixel_address (alloc_state g (of_nat i) (of_nat j) d l) = u16_at ?w i j"
      by (intro pixel_address_at) linarith+
  qed
  then show ?thesis using u16_at_inj_iff [of ?w ?h] by (cases "?w = 0") auto
qed

text \<open>
  \<open>algorithm1\<close> runs the network once on planes 0, 1 and 2 with the template, the iteration count and
  the step of the last header, between two acknowledgements.
\<close>

theorem algorithm1_run:
  assumes env: "cnn_env wd inp net" and g: "runnable g" and no: "unat (cnn_template_no (cnn g)) < 15"
    and s: "s = driven net (cnn_template_no (cnn g)) 0 1 2 (cnn_iter_cnt (cnn g)) (cnn_Ts (cnn g)) (g, put 2 # q)"
  shows "exec (algorithm1 wd) g q () (fst s) (put 2 # snd s) \<and> starts (snd s) = Suc (starts q)"
  using cnn_env.exec_algorithm1 [OF env g no, of q] by (simp add: s)

text \<open>
  C8. \<open>algorithm2\<close> is a pipeline of four runs of the network (templates 2, 12, 8 and 4, steps 0.1 and 1 in
  fixed point), with the planes 1, 3 and 4 cleared before they are used, between two acknowledgements.
\<close>

theorem algorithm2_run:
  assumes env: "cnn_env wd inp net" and g: "runnable g"
    and s: "s = driven net 4 4 1 2 1 1024 (driven net 8 3 4 2 1 1024 (on_globals (filled 4 0)
      (driven net 12 1 3 2 1 1024 (on_globals (filled 3 0)
      (driven net 2 0 1 2 100 102 (on_globals (filled 1 0) (g, put 2 # q)))))))"
  shows "exec (algorithm2 wd) g q () (fst s) (put 2 # snd s) \<and> runnable (fst s) \<and> starts (snd s) = 4 + starts q"
proof -
  have "\<lfloor>512 / 5 :: rat\<rfloor> = 102" by (simp add: floor_eq_iff)
  then have T: "Ts_one = 1024" "Ts_tenth = 102" by (simp_all add: Ts_one_def Ts_tenth_def busFMax_def busF_def)
  have "s = pipeline net (g, put 2 # q)" by (simp add: pipeline_def s T)
  moreover have "runnable (fst s)" "starts (snd s) = 4 + starts q" by (simp_all add: s on_globals_def g)
  ultimately show ?thesis using cnn_env.exec_algorithm2 [OF env g, of q] by simp
qed

theorem algorithm2_run_witness:
  "\<exists>g' q'. exec (algorithm2 (board [] (\<lambda>_ a. a + 7) (\<lambda>_ _. 0))) (demo 2 1) [] () g' q' \<and> starts q' = 4"
  using algorithm2_run [where wd = "board [] (\<lambda>_ a. a + 7) (\<lambda>_ _. 0)" and g = "demo 2 1" and q = "[]",
      OF board_is_cnn demo_runnable refl]
  by fastforce

section \<open>Learning\<close>

text \<open>
  C9. \<open>algorithm3\<close> clears template 1 and then repeats, exactly \<open>learn_loop\<close> times, a run of the network
  with it, a fetch of the errors and an update of its middle rows and bias (\<open>epoch_1d\<close>); it returns.
\<close>

theorem algorithm3_learns:
  assumes env: "learn_env wd inp net err" and g: "learner g"
    and s: "s = ((next_k \<circ> epoch_1d net err) ^^ unat (cnn_learn_loop (cnn g))) (set_k 0 (created 1 g), put 2 # q)"
  shows "exec (algorithm3 wd) g q () (fst s) (put 2 # snd s)
    \<and> starts (snd s) = unat (cnn_learn_loop (cnn g)) + starts q"
proof -
  have "cnn (created 1 g) = cnn g" by (simp add: created_def)
  then have s': "s = epochs (epoch_1d net err) (created 1 g) (put 2 # q)" by (simp add: epochs_def s)
  have "starts (snd (epoch_1d net err s)) = 1 + starts (snd s)" for s by (simp add: epoch_1d_def)
  from starts_epochs [OF this, of "created 1 g"] learn_env.exec_algorithm3 [OF env g, of q] s'
  show ?thesis by (simp add: created_def)
qed

theorem algorithm3_learns_witness:
  "\<exists>g' q'. exec (algorithm3 (board [] (\<lambda>_ a. a + 7) (\<lambda>_ _. 5))) (demo 2 1) [] () g' q' \<and> starts q' = 2"
  using algorithm3_learns [where wd = "board [] (\<lambda>_ a. a + 7) (\<lambda>_ _. 5)" and g = "demo 2 1" and q = "[]",
      OF board_is_learn _ refl]
  by (fastforce simp: learner_def)

text \<open>
  C10. \<open>algorithm4\<close> runs the network with template 1 and with template 2 in every one of its \<open>learn_loop\<close>
  turns, but fetches the errors only after the first run; both templates start from zero and receive
  the same updates, so the two layers it learns are the same template.
\<close>

theorem algorithm4_learns_twins:
  assumes env: "learn_env wd inp net err" and g: "learner g"
  shows "\<exists>g' q'. exec (algorithm4 wd) g q () g' q' \<and> templates g' ! 1 = templates g' ! 2
    \<and> starts q' = 2 * unat (cnn_learn_loop (cnn g)) + starts q"
proof -
  let ?g = "created 2 (created 1 g)"
  let ?e = "epochs (epoch_multi net err) ?g (put 2 # q)"
  have l: "learner ?g" using g learner_created by simp
  have "templates ?g = (templates g)[1 := zero_template, 2 := zero_template]"
    by (simp add: created_def) (simp add: with_template_def)
  moreover have "length (templates g) = 15" using g by (simp add: learner_def runnable_def)
  ultimately have "templates ?g ! 1 = templates ?g ! 2" by simp
  then have twins: "templates (fst ?e) ! 1 = templates (fst ?e) ! 2" by (rule epochs_multi_equal [OF l])
  have "starts (snd (epoch_multi net err s)) = 2 + starts (snd s)" for s
    by (simp add: epoch_multi_def epoch_1d_def)
  from starts_epochs [OF this, of ?g] have "starts (snd ?e) = 2 * unat (cnn_learn_loop (cnn g)) + starts q"
    by (simp add: created_def)
  then show ?thesis using learn_env.exec_algorithm4 [OF env g, of q] twins
    by (intro exI [of _ "fst ?e"] exI [of _ "put 2 # snd ?e"]) simp
qed

theorem algorithm4_learns_twins_witness:
  "\<exists>g' q'. exec (algorithm4 (board [] (\<lambda>_ a. a + 7) (\<lambda>_ _. 5))) (demo 2 1) [] () g' q'
    \<and> templates g' ! 1 = templates g' ! 2 \<and> starts q' = 4"
  using algorithm4_learns_twins [where wd = "board [] (\<lambda>_ a. a + 7) (\<lambda>_ _. 5)" and g = "demo 2 1" and q = "[]",
      OF board_is_learn]
  by (simp add: learner_def)

text \<open>
  \<open>algorithm5\<close> clears template 1 and then repeats, exactly \<open>learn_loop\<close> times, a run of the network
  with it, two fetches of the errors and an update of all its coefficients (\<open>epoch_2d\<close>); it returns.
\<close>

theorem algorithm5_learns:
  assumes env: "learn_env wd inp net err" and g: "learner g"
    and s: "s = ((next_k \<circ> epoch_2d net err) ^^ unat (cnn_learn_loop (cnn g))) (set_k 0 (created 1 g), put 2 # q)"
  shows "exec (algorithm5 wd) g q () (fst s) (put 2 # snd s)
    \<and> starts (snd s) = unat (cnn_learn_loop (cnn g)) + starts q"
proof -
  have "cnn (created 1 g) = cnn g" by (simp add: created_def)
  then have s': "s = epochs (epoch_2d net err) (created 1 g) (put 2 # q)" by (simp add: epochs_def s)
  have "starts (snd (epoch_2d net err s)) = 1 + starts (snd s)" for s by (simp add: epoch_2d_def Let_def)
  from starts_epochs [OF this, of "created 1 g"] learn_env.exec_algorithm5 [OF env g, of q] s'
  show ?thesis by (simp add: created_def)
qed

theorem algorithm5_learns_witness:
  "\<exists>g' q'. exec (algorithm5 (board [] (\<lambda>_ a. a + 7) (\<lambda>_ _. 5))) (demo 2 1) [] () g' q' \<and> starts q' = 2"
  using algorithm5_learns [where wd = "board [] (\<lambda>_ a. a + 7) (\<lambda>_ _. 5)" and g = "demo 2 1" and q = "[]",
      OF board_is_learn _ refl]
  by (fastforce simp: learner_def)

text \<open>
  An update stores the sum of the coefficient and the error cut to 16 bits: the bounds it compares the
  sum with are those of 32 bits, so it never saturates, and a sum above the largest fixed-point value
  \<open>busMax\<close> is stored as the sum less \<open>2 ^ 16\<close>, a negative coefficient.
\<close>

theorem update_wraps:
  assumes no: "unat no < length (templates g)" and f: "template_fetch loc i j = Some f"
    and v: "f (templates g ! unat no) = Inr v" and t': "template_store loc i j (v + e) (templates g ! unat no) = Inr t'"
  shows "template_pixel_update no loc i j (scast e) g = Inr (with_template no t' (set_template_var (scast (v + e)) g))
    \<and> sint (v + e) = (if sint v + sint e > busMax then sint v + sint e - 65536
                      else if sint v + sint e < busMin then sint v + sint e + 65536 else sint v + sint e)"
proof
  show "template_pixel_update no loc i j (scast e) g = Inr (with_template no t' (set_template_var (scast (v + e)) g))"
    using no f v t' by (rule template_pixel_update)
  show "sint (v + e) = (if sint v + sint e > busMax then sint v + sint e - 65536
      else if sint v + sint e < busMin then sint v + sint e + 65536 else sint v + sint e)"
    by (rule sint_add_16)
qed

theorem update_wraps_witness:
  "template_pixel_update 2 CHR ''I'' 0 0 (scast (-32768 :: s16)) (demo 2 1)
    = Inr (with_template 2 ((template_init ! 2)\<lparr>t_I := 32256\<rparr>) (set_template_var (scast (32256 :: s16)) (demo 2 1)))"
proof -
  have I: "t_I (template_init ! 2) = -512" by (simp add: template_init_def tmpl_def)
  from update_wraps [of 2 "demo 2 1" "CHR ''I''" 0 0 "\<lambda>t. Inr (t_I t)" "-512" "-32768" "(template_init ! 2)\<lparr>t_I := 32256\<rparr>"]
  show ?thesis by (simp add: template_fetch_def template_store_def reset_templates I)
qed

text \<open>
  \<open>template_update_1d\<close> adds the errors of the middle row to the middle rows of A and B and the bias error
  to the bias; the outer rows, the boundary values and every other template stay as they are.
\<close>

theorem update_1d_effect:
  assumes g: "runnable g" and no: "unat no < 15" and t: "t = templates g ! unat no" and e: "e = errors g"
  shows "\<exists>g'. exec (template_update_1d no) g q () g' q
    \<and> templates g' = (templates g)[unat no :=
        \<lparr>t_A = [t_A t ! 0, map2 (+) (t_A t ! 1) (e_x e ! 1), t_A t ! 2],
         t_B = [t_B t ! 0, map2 (+) (t_B t ! 1) (e_u e ! 1), t_B t ! 2],
         t_I = t_I t + e_i e, t_x_bnd = t_x_bnd t, t_u_bnd = t_u_bnd t\<rparr>]
    \<and> image g' = image g \<and> cnn g' = cnn g \<and> errors g' = errors g"
proof -
  have wf: "wf_template t" "wf_errors g" using runnableD(6,7) [OF g] no by (simp_all add: t)
  have sh: "shaped 3 3 (t_A t)" "shaped 3 3 (t_B t)" "shaped 3 3 (e_x e)" "shaped 3 3 (e_u e)"
    using wf by (simp_all add: wf_template_def wf_errors_def e)
  have "learned (\<lambda>i. i = 1) e t = \<lparr>t_A = [t_A t ! 0, map2 (+) (t_A t ! 1) (e_x e ! 1), t_A t ! 2],
         t_B = [t_B t ! 0, map2 (+) (t_B t ! 1) (e_u e ! 1), t_B t ! 2],
         t_I = t_I t + e_i e, t_x_bnd = t_x_bnd t, t_u_bnd = t_u_bnd t\<rparr>"
    by (cases t) (use sh in \<open>simp add: learned_def learn_bias_def learn_rows_def add_rows_middle [simplified]\<close>)
  then show ?thesis
    using exec_update_runnable_1d [OF g no, of q] by (intro exI [of _ "updated (\<lambda>i. i = 1) no g"]) (simp add: updated_fields t e)
qed

theorem update_1d_effect_witness:
  "\<exists>g'. exec (template_update_1d 3) (demo 2 1) [] () g' [] \<and> image g' = image (demo 2 1)"
  using update_1d_effect [where g = "demo 2 1" and no = 3 and q = "[]", OF demo_runnable _ refl refl] by auto

text \<open>
  \<open>template_update_2d\<close> fetches the 19 error registers itself and adds the scaled errors to every
  coefficient of A and B and to the bias; no other template changes.
\<close>

theorem update_2d_effect:
  assumes g: "runnable g" and nz: "img_shift (image g) \<noteq> 0" and hold: "holds_errors wd q raw"
    and no: "unat no < 15" and t: "t = templates g ! unat no"
  shows "\<exists>g'. exec (template_update_2d wd no) g q () g' (rev (map (error_read raw) error_regs) @ q)
    \<and> templates g' = (templates g)[unat no :=
        \<lparr>t_A = mat 3 3 (\<lambda>i j. t_A t ! i ! j + scaled raw g (R_error_x (ixn i) (ixn j))),
         t_B = mat 3 3 (\<lambda>i j. t_B t ! i ! j + scaled raw g (R_error_u (ixn i) (ixn j))),
         t_I = t_I t + scaled raw g R_error_i, t_x_bnd = t_x_bnd t, t_u_bnd = t_u_bnd t\<rparr>]
    \<and> image g' = image g \<and> cnn g' = cnn g"
proof -
  let ?f = "fetched raw g"
  have "learned (\<lambda>_. True) (errors ?f) t =
      \<lparr>t_A = mat 3 3 (\<lambda>i j. t_A t ! i ! j + scaled raw g (R_error_x (ixn i) (ixn j))),
       t_B = mat 3 3 (\<lambda>i j. t_B t ! i ! j + scaled raw g (R_error_u (ixn i) (ixn j))),
       t_I = t_I t + scaled raw g R_error_i, t_x_bnd = t_x_bnd t, t_u_bnd = t_u_bnd t\<rparr>"
    by (cases t) (auto simp: learned_def learn_bias_def learn_rows_def add_rows_def fetched_def intro!: mat_cong)
  moreover have "exec (template_update_2d wd no) g q () (updated (\<lambda>_. True) no ?f) (rev (map (error_read raw) error_regs) @ q)"
    by (rule exec_update_2d [OF runnableD(1) [OF g] hold nz _ _ runnableD(7) [OF g]]) (use runnableD(5,6) [OF g] no in simp_all)
  ultimately show ?thesis
    by (intro exI [of _ "updated (\<lambda>_. True) no ?f"]) (simp add: updated_fields t, simp add: fetched_def)
qed

theorem update_2d_effect_witness:
  "\<exists>g'. exec (template_update_2d (board [] (\<lambda>_ _. 0) (\<lambda>_ _. 5)) 1) (demo 2 1) (run_trace (\<lambda>_. 0) 2 1 []) () g'
     (rev (map (error_read (\<lambda>_. 5)) error_regs) @ run_trace (\<lambda>_. 0) 2 1 []) \<and> cnn g' = cnn (demo 2 1)"
  using update_2d_effect [where g = "demo 2 1" and wd = "board [] (\<lambda>_ _. 0) (\<lambda>_ _. 5)" and q = "run_trace (\<lambda>_. 0) 2 1 []"
      and raw = "\<lambda>_. 5" and no = 1, OF demo_runnable _ learn_env.errors [OF board_is_learn] _ refl]
  by auto

text \<open>
  \<open>template_create\<close> sets all nine coefficients of A and of B, the bias and the boundary values of one
  template to zero; every other template stays as it is.
\<close>

theorem template_create_clears:
  assumes g: "runnable g" and no: "unat no < 15"
  shows "\<exists>g'. exec (template_create no) g q () g' q
    \<and> templates g' = (templates g)[unat no := \<lparr>t_A = [[0, 0, 0], [0, 0, 0], [0, 0, 0]], t_B = [[0, 0, 0], [0, 0, 0], [0, 0, 0]],
        t_I = 0, t_x_bnd = 0, t_u_bnd = 0\<rparr>]
    \<and> image g' = image g \<and> cnn g' = cnn g \<and> errors g' = errors g"
proof -
  have z: "zero_template = \<lparr>t_A = [[0, 0, 0], [0, 0, 0], [0, 0, 0]], t_B = [[0, 0, 0], [0, 0, 0], [0, 0, 0]],
        t_I = 0, t_x_bnd = 0, t_u_bnd = 0\<rparr>"
    by (simp add: zero_template_def zero_patch_def mat_def upt_rec)
  show ?thesis unfolding z [symmetric]
    using exec_create_runnable [OF g no, of q] by (intro exI [of _ "created no g"]) (simp add: created_def, simp add: with_template_def)
qed

theorem template_create_clears_witness:
  "\<exists>g'. exec (template_create 6) (demo 2 1) [] () g' [] \<and> t_I (templates g' ! 6) = 0"
proof -
  from template_create_clears [where g = "demo 2 1" and no = 6 and q = "[]", OF demo_runnable]
  obtain g' where "exec (template_create 6) (demo 2 1) [] () g' []" "templates g' = template_init[6 := zero_template]"
    by (auto simp: zero_template_def zero_patch_def mat_def upt_rec)
  then show ?thesis by (intro exI [of _ g']) (simp add: reset_templates zero_template_def)
qed

section \<open>Templates and errors on the wire\<close>

text \<open>
  C11. \<open>template_set\<close> makes 21 writes, one to each coefficient register of the processor: the register of
  row \<open>a\<close>, column \<open>b\<close> of A or B receives the coefficient of that row and column of the selected template,
  the three others the bias and the boundary values.
\<close>

theorem template_set_programs:
  assumes ptr: "pointers_ok g" and no: "unat no < length (templates g)" and t: "t = templates g ! unat no" and wf: "wf_template t"
  shows "exec (template_set no) g q () g (rev (map (coeff_write t) template_regs) @ q)
    \<and> distinct (map reg_addr template_regs) \<and> length template_regs = 21
    \<and> set template_regs = range (\<lambda>(a, b). R_template_A a b) \<union> range (\<lambda>(a, b). R_template_B a b)
        \<union> {R_template_I, R_template_xbnd, R_template_ubnd}"
  using exec_template_set [OF ptr no t [symmetric] wf] template_regs_all by simp

theorem template_set_programs_witness:
  "exec (template_set 1) (demo 2 1) [] () (demo 2 1) (rev (map (coeff_write (template_init ! 1)) template_regs))"
  using template_set_programs [where g = "demo 2 1" and no = 1 and q = "[]", OF _ _ refl] demo_templates [of 1]
  by (simp add: reset_templates)

text \<open>
  C12. \<open>template_send\<close> answers a two-octet template number with 42 octets, the 21 coefficients of A, B, the
  bias and the boundary values, most significant octet first: decoding them gives the coefficients back.
\<close>

theorem template_send_octets:
  assumes uart: "uart_env wd inp" and g: "runnable g" and len: "Suc (rx_count q) < length inp"
    and no: "no = unat (be16 (inp ! rx_count q) (inp ! Suc (rx_count q)))" "no < 15" and t: "t = templates g ! no"
  shows "\<exists>g' q' out. exec (template_send wd) g q () g' q' \<and> tx_octets q' = tx_octets q @ out \<and> length out = 42
    \<and> decode16 out = concat (t_A t) @ concat (t_B t) @ [t_I t, t_x_bnd t, t_u_bnd t]
    \<and> templates g' = templates g \<and> image g' = image g"
proof -
  have wf: "wf_template t" using runnableD(6) [OF g] no t by simp
  then have "shaped 3 3 (t_A t)" "shaped 3 3 (t_B t)" by (simp_all add: wf_template_def)
  then have out: "length (template_octets t) = 42"
    by (simp add: template_octets_def length_pixels length_concat_shaped pixel_octets_def)
  have "exec (template_send wd) g q () (set_template_var (scast (t_u_bnd t)) (at_ij 3 3 g))
     (rev (map put (template_octets t)) @ got (inp ! Suc (rx_count q)) # got (inp ! rx_count q) # q)"
    using uart_env.exec_template_send [OF uart runnableD(1) [OF g] len] wf no t runnableD(5) [OF g] by simp
  moreover have "decode16 (template_octets t) = concat (t_A t) @ concat (t_B t) @ [t_I t, t_x_bnd t, t_u_bnd t]"
    by (simp only: template_octets_def decode16_pixels)
  ultimately show ?thesis using out by (intro exI conjI) (assumption | simp)+
qed

theorem template_send_octets_witness:
  "\<exists>g' q' out. exec (template_send (board [0, 8] (\<lambda>_ _. 0) (\<lambda>_ _. 0))) (demo 2 1) [] () g' q'
    \<and> tx_octets q' = out \<and> decode16 out ! 13 = -2048"
proof -
  have no: "unat (be16 0 8) = 8" by (simp add: be16_def)
  have B: "(concat (t_A t) @ concat (t_B t) @ [t_I t, t_x_bnd t, t_u_bnd t]) ! 13 = -2048"
    if "t = template_init ! 8" for t by (simp add: that template_init_def tmpl_def)
  from template_send_octets [where wd = "board [0, 8] (\<lambda>_ _. 0) (\<lambda>_ _. 0)" and inp = "[0, 8]" and g = "demo 2 1" and q = "[]" and no = 8,
      OF board_is_uart demo_runnable _ _ _ refl]
  show ?thesis using B by (fastforce simp: no)
qed

text \<open>
  The template number of request 5 is not checked: a number that is not one of the templates makes
  \<open>template_send\<close> read outside the array, before any octet is sent.
\<close>

theorem template_send_out_of_range:
  assumes "uart_env wd inp" and "pointers_ok g" and "Suc (rx_count q) < length inp"
    and "length (templates g) \<le> unat (be16 (inp ! rx_count q) (inp ! Suc (rx_count q)))"
  shows "faults (template_send wd) g q OutOfBounds"
  using assms by (rule template_send_faults)

theorem template_send_out_of_range_witness:
  "faults (template_send (board [0, 15] (\<lambda>_ _. 0) (\<lambda>_ _. 0))) (demo 2 1) [] OutOfBounds"
  by (rule template_send_out_of_range [OF board_is_uart]) (simp_all add: be16_def reset_templates)

text \<open>
  C13. \<open>error_send\<close> reads the 19 error registers, stores each times the learning rate over \<open>1024\<close> times the
  image's area, truncated towards zero and cut to 16 bits, and answers with 76 octets: decoding them
  gives the 19 stored values, sign-extended to 32 bits, x errors first. (The product with the rate wraps at 32 bits, as it
  does on the processor; where it overflows C leaves it undefined.)
\<close>

theorem error_send_octets:
  assumes uart: "uart_env wd inp" and g: "runnable g" and nz: "img_shift (image g) \<noteq> 0" and hold: "holds_errors wd q raw"
  shows "\<exists>g' q' out. exec (error_send wd) g q () g' q' \<and> tx_octets q' = tx_octets q @ out \<and> length out = 76
    \<and> decode32 out = map scast (concat (e_x (errors g')) @ concat (e_u (errors g')) @ [e_i (errors g')])
    \<and> errors g' = \<lparr>e_u = mat 3 3 (\<lambda>i j. scaled raw g (R_error_u (ixn i) (ixn j))),
                   e_x = mat 3 3 (\<lambda>i j. scaled raw g (R_error_x (ixn i) (ixn j))), e_i = scaled raw g R_error_i\<rparr>"
proof -
  let ?g = "at_ij 3 3 (fetched raw g)"
  let ?q = "rev (map put (errors_octets (errors ?g))) @ rev (map (error_read raw) error_regs) @ q"
  have run: "exec (error_send wd) g q () ?g ?q"
    using uart_env.exec_error_send [OF uart runnableD(1) [OF g] hold nz runnableD(7) [OF g]] by simp
  have sh: "shaped 3 3 (e_x (errors ?g))" "shaped 3 3 (e_u (errors ?g))" by (simp_all add: fetched_def)
  have tx: "tx_octets ?q = tx_octets q @ errors_octets (errors ?g)" by (simp add: tx_error_reads)
  have dec: "decode32 (errors_octets (errors ?g)) = map scast (concat (e_x (errors ?g)) @ concat (e_u (errors ?g)) @ [e_i (errors ?g)])"
    by (simp only: errors_octets_def decode32_errors)
  have err: "errors ?g = \<lparr>e_u = mat 3 3 (\<lambda>i j. scaled raw g (R_error_u (ixn i) (ixn j))),
                   e_x = mat 3 3 (\<lambda>i j. scaled raw g (R_error_x (ixn i) (ixn j))), e_i = scaled raw g R_error_i\<rparr>"
    by (simp add: fetched_def)
  from run tx length_errors_octets [OF sh] dec err show ?thesis by blast
qed

theorem error_send_octets_witness:
  "\<exists>g' q'. exec (error_send (board [] (\<lambda>_ _. 0) (\<lambda>_ _. -4096))) (demo 2 1) (run_trace (\<lambda>_. 0) 2 1 []) () g' q'
    \<and> e_i (errors g') = -20"
proof -
  have nz: "img_shift (image (demo 2 1)) \<noteq> 0" by simp
  have v: "scaled (\<lambda>_. -4096) (demo 2 1) R_error_i = -20"
    by (simp add: scaled_def c_div_def busFMax_def busF_def)
  note step = error_send_octets [where wd = "board [] (\<lambda>_ _. 0) (\<lambda>_ _. -4096)" and g = "demo 2 1" and q = "run_trace (\<lambda>_. 0) 2 1 []"
      and raw = "\<lambda>_. -4096", OF board_is_uart demo_runnable nz learn_env.errors [OF board_is_learn]]
  show ?thesis using step unfolding v by (elim exE conjE) (intro exI conjI, assumption, simp)
qed

text \<open>
  A header with a width or a height of zero is accepted and leaves an area of zero: the next fetch of
  the errors (request 4, or a learning loop) divides by zero, whatever the error registers answer.
\<close>

theorem error_get_divides_by_zero:
  assumes area: "img_shift (image g) = ucast (img_width (image g)) * ucast (img_height (image g))"
    and "img_width (image g) = 0 \<or> img_height (image g) = 0"
  shows "faults (error_send wd) g q DivByZero"
proof -
  have "img_shift (image g) = 0" using assms by auto
  then have "faults (error_get wd) g q DivByZero" by (simp add: faults_def error_get_zero)
  then show ?thesis unfolding error_send_def by (rule faults_block)
qed

theorem error_get_divides_by_zero_witness:
  "faults (error_send (board [] (\<lambda>_ _. 0) (\<lambda>_ _. 5))) (demo 0 8) [] DivByZero"
  by (rule error_get_divides_by_zero) simp_all

section \<open>Start-up and the primitives\<close>

text \<open>
  C14. With room for the stack on the heap, start-up returns: twenty zero planes of 128 by 128, every
  register pointer at an address no other register has, the fifteen built-in templates; and the only
  access it makes is the state reset command, although \<open>init_l2cache\<close> is called to announce the size.
\<close>

theorem init_boots:
  assumes "fits_upto wd (stack_bytes 128 128)"
  shows "\<exists>g. exec (init_system wd) globals_at_reset [] () g [cmd CMD_STATE_RST 1]
    \<and> img_data (image g) = planes (zero_planes 20 128 128) \<and> img_width (image g) = 128 \<and> img_height (image g) = 128
    \<and> img_shift (image g) = 16384 \<and> mpu_regs (mpu g) = reg_addr \<and> inj (mpu_regs (mpu g))
    \<and> templates g = template_init \<and> wf_state g"
proof -
  have "mpu_regs (mpu booted) = reg_addr" using booted_simps(1) by (simp add: pointers_ok_def)
  moreover obtain h where "reachable wd (booted, h)" using booted_reachable [OF assms] by blast
  then have "wf_state booted" using reachable_wf [of wd "(booted, h)"] by simp
  ultimately show ?thesis using exec_init_system [OF assms] reg_addr_inj by (intro exI [of _ booted]) simp
qed

theorem init_boots_witness:
  "\<exists>g. exec (init_system (board [] (\<lambda>_ _. 0) (\<lambda>_ _. 0))) globals_at_reset [] () g [cmd CMD_STATE_RST 1] \<and> img_shift (image g) = 16384"
  using init_boots [OF board_fits, of "[]" "\<lambda>_ _. 0" "\<lambda>_ _. 0"] by blast

text \<open>
  \<open>l2cache_setdimensions\<close> sends its two commands only for sizes strictly below the largest one in both
  directions; asked for the largest size itself, as \<open>init_l2cache\<close> does, it makes no access at all.
\<close>

theorem cache_dimensions_guard:
  "l2cache_setdimensions w h = (if 0 < w \<and> w < 128 \<and> 0 < h \<and> h < 128
      then block [command CMD_CACHE_WIDTH w, command CMD_CACHE_HEIGHT h] else ret ())
   \<and> init_l2cache (g, q) = Some (Inr ((), g, q))"
  by (simp add: l2cache_setdimensions_def init_l2cache_def package_defs ret_def)

text \<open>
  C15. \<open>uart_read\<close> has no time-out: when the status register never shows a received octet, it does not return.
\<close>

theorem uart_read_waits:
  assumes "pointers_ok g" and "\<And>n. bus_in wd (polled wd W8 uart_status_a n h) uart_status_a AND 1 = 0"
  shows "uart_read wd (g, h) = None"
proof -
  have "busy_wait wd W8 (\<lambda>g. mpu_regs (mpu g) R_uart_status) (\<lambda>v. v AND 0b00000001 \<noteq> 0) (g, h) = None"
    by (rule busy_wait_diverges) (use assms in \<open>simp add: pointers_ok_def\<close>)
  then show ?thesis by (simp add: uart_read_def bnd_None)
qed

theorem uart_read_waits_witness: "uart_read \<lparr>bus_in = (\<lambda>_ _. 8), heap_fits = (\<lambda>_ _. True)\<rparr> (demo 2 1, []) = None"
  by (rule uart_read_waits) simp_all

text \<open>
  The conversion of \<open>image_fill\<close> truncates \<open>1024 * data\<close> towards zero, and is undefined exactly for
  values at or below \<open>- 1 / 1024\<close> and from \<open>64\<close> on.
\<close>

theorem fixed_point_exact:
  "float_to_fixed x = (if - 1 < 1024 * x \<and> x < 64 then Inr (of_nat (nat \<lfloor>1024 * x\<rfloor>)) else Inl BadConversion)"
  by (rule float_to_fixed_spec)

section \<open>The Internet checksum\<close>

text \<open>
  C16. The checksum routine the firmware is built with (version 3: eight octets at a time, head and tail
  treated apart) returns the one's complement sum of RFC 1071 in memory order, for every buffer
  length and at every alignment of the buffer.
\<close>

theorem chksum_unrolled_correct: "lwip_standard_chksum addr bs = lwip_htons (ones_sum bs)"
  by (rule is_ones_sum) (rule chksum3_spec)

text \<open>
  The two other versions of the routine return the same value: version 2 up to its documented
  limit of \<open>0x20000\<close> octets, version 1 for every length its parameter can hold.
\<close>

theorem chksum_versions_agree:
  assumes "length bs \<le> 0x20000" and "length cs < 65536"
  shows "lwip_standard_chksum2 addr bs = lwip_standard_chksum addr' bs \<and> lwip_standard_chksum1 cs = lwip_standard_chksum addr' cs"
  using is_ones_sum [OF chksum2_spec [OF assms(1)]] is_ones_sum [OF chksum1_spec [OF assms(2)]] is_ones_sum [OF chksum3_spec]
  by simp

theorem chksum_versions_agree_witness:
  "lwip_standard_chksum2 0x1001 [0x45, 0, 0xFF] = lwip_standard_chksum 0x2002 [0x45, 0, 0xFF]
    \<and> lwip_standard_chksum1 [7] = lwip_standard_chksum 0x2002 [7]"
  by (rule chksum_versions_agree) simp_all

text \<open>
  C17. The checksum over a chain of packet buffers is the checksum of the same octets in one buffer: it
  depends neither on where the packet is cut (odd cuts included) nor on where the pieces lie.
\<close>

theorem chain_chksum_ignores_fragments: "inet_chksum_pbuf p = inet_chksum addr (chain_octets p)"
proof -
  have "ucast (unswapped (chksum_chain (0, False) p)) = lwip_htons (ones_sum (chain_octets p))"
    by (rule is_ones_sum) (simp add: unat_ucast_low chain_sum)
  then show ?thesis by (simp only: inet_chksum_pbuf_def inet_chksum_def low_ucast is_ones_sum [OF chksum3_spec, of addr])
qed

text \<open>
  The checksum of TCP and UDP is the complement of the RFC 1071 sum of the pseudo header (addresses,
  zero, protocol, length) followed by the octets of the chain; the partial version (UDP-Lite) covers
  exactly the first \<open>chksum_len\<close> octets, also when the limit falls inside a buffer.
\<close>

theorem pseudo_chksum_correct:
  "inet_chksum_pseudo p src dest proto proto_len
     = NOT (lwip_htons (ones_sum (pseudo_octets src dest proto proto_len @ chain_octets p)))
   \<and> inet_chksum_pseudo_partial p src dest proto proto_len chksum_len
     = NOT (lwip_htons (ones_sum (pseudo_octets src dest proto proto_len @ take (unat chksum_len) (chain_octets p))))"
  using pseudo_header_spec [OF conjunct1 conjunct2, OF chain_sum chain_sum]
    pseudo_header_spec [OF conjunct1 conjunct2, OF partial_sum partial_sum]
  by (simp add: inet_chksum_pseudo_def inet_chksum_pseudo_partial_def)

text \<open>
  C18. Sender and receiver agree: when the checksum of a packet, computed with a zero checksum field at an
  even offset, is stored in that field, the checksum over the whole packet is zero, at any alignment.
\<close>

theorem checksum_verifies:
  assumes "even (length pre)" and "c = inet_chksum addr (pre @ [0, 0] @ post)"
  shows "inet_chksum addr' (pre @ octets16 c @ post) = 0"
  using assms by (rule checksum_accepted)

theorem checksum_verifies_witness:
  "inet_chksum 0x1003 ([0x45, 0] @ octets16 (inet_chksum 0x1000 ([0x45, 0] @ [0, 0] @ [192, 168, 1])) @ [192, 168, 1]) = 0"
  by (rule checksum_verifies) simp_all

section \<open>IPv4 addresses\<close>

text \<open>
  C19. Every address is written as dotted decimal text of at most 15 characters plus the terminating zero
  (the static buffer of \<open>ipaddr_ntoa\<close> always suffices, a smaller buffer is refused and never overrun),
  and the text is read back to the same address.
\<close>

theorem ipaddr_text_roundtrip:
  "\<exists>s. ipaddr_ntoa addr = Some (s @ [0]) \<and> length s \<le> 15 \<and> ipaddr_aton s = Some addr \<and> ipaddr_addr s = addr
    \<and> ipaddr_ntoa_r addr buflen = (if int (length (s @ [0])) \<le> buflen then Some (s @ [0]) else None)"
proof (intro exI conjI)
  let ?s = "dotted (octets32 addr)"
  show len: "length ?s \<le> 15"
    using length_dec [of "ucast addr"] length_dec [of "ucast (drop_bit 8 addr)"]
      length_dec [of "ucast (drop_bit 16 addr)"] length_dec [of "ucast (drop_bit 24 addr)"]
    by (simp add: octets32_def dotted_4)
  then show "ipaddr_ntoa addr = Some (?s @ [0])" by (simp add: ipaddr_ntoa_def ntoa_r_eq)
  have "scan_number ?s = Some (ucast (ucast addr :: u8), drop (length (dec (ucast addr))) ?s)"
    by (simp add: octets32_def dotted_4 scan_dec)
  then show "ipaddr_aton ?s = Some addr"
    by (subst aton_after_first) (auto simp: octets32_def dotted_4 le32_octets)
  then show "ipaddr_addr ?s = addr" by (simp add: ipaddr_addr_def)
  show "ipaddr_ntoa_r addr buflen = (if int (length (?s @ [0])) \<le> buflen then Some (?s @ [0]) else None)"
    by (simp add: ntoa_r_eq)
qed

text \<open>
  Only the last part of an address is range-checked: any decimal number without a leading zero is
  accepted as the first of four parts and is reduced modulo 256, so \<open>300.1.1.1\<close> is read as
  \<open>44.1.1.1\<close>.
\<close>

theorem aton_first_part_wraps:
  assumes "list_all isdigit ds" and "ds \<noteq> []" and "hd ds \<noteq> 0x30"
  shows "ipaddr_aton (ds @ 0x2E # dec b @ 0x2E # dec c @ 0x2E # dec d) = Some (le32 (of_nat (digits_value ds)) b c d)"
proof -
  have "\<not> isdigit (peek (0x2E # dec b @ 0x2E # dec c @ 0x2E # dec d))" by (simp add: peek_def isdigit_def in_range_def)
  from aton_after_first [OF scan_decimal [OF assms this]] show ?thesis by (simp add: ucast_of_nat_octet)
qed

theorem aton_first_part_wraps_witness:
  "ipaddr_aton ([0x33, 0x30, 0x30] @ 0x2E # dec 1 @ 0x2E # dec 1 @ 0x2E # dec 1) = Some (le32 44 1 1 1)"
proof -
  have eq: "(300 :: u8) = 44" by code_simp
  have "ipaddr_aton ([0x33, 0x30, 0x30] @ 0x2E # dec 1 @ 0x2E # dec 1 @ 0x2E # dec 1) = Some (le32 300 1 1 1)"
    by (subst aton_first_part_wraps) (simp_all add: isdigit_def in_range_def digits_value_def)
  then show ?thesis unfolding eq .
qed

text \<open>
  The two loops of \<open>ip4_addr_netmask_valid\<close> accept exactly the 33 masks that are, in host order, some
  ones followed by zeros only.
\<close>

theorem netmask_valid_iff: "ip4_addr_netmask_valid nm \<longleftrightarrow> (\<exists>n\<le>32. lwip_htonl nm = NOT (mask (32 - n)))"
  using netmask_loops_iff [of 31 "lwip_htonl nm"] ones_then_zeros [of "lwip_htonl nm"]
  by (simp add: ip4_addr_netmask_valid_def push_bit_of_1)

text \<open>
  \<open>ip4_addr_isbroadcast\<close> holds exactly for the all-zero and all-one addresses and, on an interface with
  broadcast support, for the network address with all host bits set, unless it is the interface's own.
\<close>

theorem isbroadcast_iff:
  "ip4_addr_isbroadcast addr nif \<longleftrightarrow> addr = 0 \<or> addr = 0xFFFFFFFF
    \<or> nif_flags nif AND NETIF_FLAG_BROADCAST \<noteq> 0 \<and> addr \<noteq> nif_ip_addr nif
      \<and> addr = (nif_ip_addr nif AND nif_netmask nif) OR NOT (nif_netmask nif)"
proof -
  have ones: "(0xFFFFFFFF :: u32) = - 1" by simp
  have "NOT addr = 0 \<longleftrightarrow> addr = 0xFFFFFFFF" unfolding ones by (metis bit.compl_zero bit.double_compl)
  moreover have "0xFFFFFFFF AND NOT (nif_netmask nif) = NOT (nif_netmask nif)" unfolding ones by simp
  ultimately show ?thesis
    using broadcast_of_net [of addr "nif_netmask nif" "nif_ip_addr nif"]
    by (auto simp: ip4_addr_isbroadcast_def IPADDR_ANY_def IPADDR_BROADCAST_def ip_addr_netcmp_def)
qed

section \<open>The heap of lwIP\<close>

text \<open>
  C20. The linked headers implement a list of blocks. \<open>mem_malloc\<close> is first fit on it (the block is split when
  the rest can hold data, and NULL is returned when no block fits), \<open>mem_free\<close> marks the block free and
  merges free neighbours, \<open>mem_trim\<close> cuts the block or refuses to enlarge it; each returns, without
  reading a header that is not one, and leaves a heap that implements the new list.
\<close>

theorem heap_refines_blocks:
  assumes h: "implements h bs"
  shows "(\<exists>h'. mem_malloc sz h = ret (case alloc_blocks (unat sz) bs of None \<Rightarrow> 0 | Some (off, _) \<Rightarrow> ram h + of_nat (off + 64)) h'
      \<and> implements h' (case alloc_blocks (unat sz) bs of None \<Rightarrow> bs | Some (_, bs') \<Rightarrow> bs'))
    \<and> (\<forall>pre n post. bs = pre @ (n, True) # post \<longrightarrow>
        (\<exists>h'. mem_free (ram h + of_nat (extent pre + 64)) h = ret () h' \<and> implements h' (coalesce (pre @ (n, False) # post)))
      \<and> (if data_size (unat sz) + 64 \<le> n
         then \<exists>h'. mem_trim (ram h + of_nat (extent pre + 64)) sz h = ret (ram h + of_nat (extent pre + 64)) h'
            \<and> implements h' (pre @ trim_blocks (data_size (unat sz)) n post)
         else mem_trim (ram h + of_nat (extent pre + 64)) sz h = ret 0 h))"
proof (intro conjI allI impI)
  show "\<exists>h'. mem_malloc sz h = ret (case alloc_blocks (unat sz) bs of None \<Rightarrow> 0 | Some (off, _) \<Rightarrow> ram h + of_nat (off + 64)) h'
      \<and> implements h' (case alloc_blocks (unat sz) bs of None \<Rightarrow> bs | Some (_, bs') \<Rightarrow> bs')"
    using mem_malloc_implements [OF h] by blast
  fix pre n post assume bs: "bs = pre @ (n, True) # post"
  show "\<exists>h'. mem_free (ram h + of_nat (extent pre + 64)) h = ret () h' \<and> implements h' (coalesce (pre @ (n, False) # post))"
    using mem_free_implements h bs by blast
  show "if data_size (unat sz) + 64 \<le> n
     then \<exists>h'. mem_trim (ram h + of_nat (extent pre + 64)) sz h = ret (ram h + of_nat (extent pre + 64)) h'
        \<and> implements h' (pre @ trim_blocks (data_size (unat sz)) n post)
     else mem_trim (ram h + of_nat (extent pre + 64)) sz h = ret 0 h"
    using mem_trim_implements [OF h [unfolded bs]] mem_trim_refuses [OF h [unfolded bs]] by (auto simp: not_le)
qed

lemma first_heap: "\<exists>h. mem_init 0x1000 no_heap = ret () h \<and> ram h = 0x1000 \<and> implements h [(131072, False)]"
  using mem_init_implements [of "0x1000" no_heap]
  by (simp add: no_heap_def no_stats_def LWIP_MEM_ALIGN_def MEM_ALIGNMENT_def)

theorem heap_refines_blocks_witness:
  "\<exists>h h'. mem_init 0x1000 no_heap = ret () h \<and> mem_malloc 100 h = ret 0x1040 h' \<and> implements h' [(192, True), (130880, False)]"
proof -
  obtain h where h: "mem_init 0x1000 no_heap = ret () h" "ram h = 0x1000" "implements h [(131072, False)]" using first_heap by blast
  have "alloc_blocks (unat (100 :: u32)) [(131072, False)] = Some (0, [(192, True), (130880, False)])"
    by (simp add: alloc_blocks_def data_size_def)
  then show ?thesis using heap_refines_blocks [OF h(3), of 100] h(1,2) by auto
qed

text \<open>
  C21. Whatever the clients did before, as long as they freed and trimmed only pointers they were given, asked
  for less than \<open>2 ^ 32 - 63\<close> octets and wrote only where they asked for memory: every call of the heap returns.
  The search and the loop for the lowest free block end, and no call reads a header the allocator did not write.
\<close>

theorem heap_calls_return:
  assumes run: "heap_run h live"
  shows "(\<exists>p h'. mem_malloc sz h = ret p h')
    \<and> (unat count * unat sz < 2 ^ 32 - 63 \<longrightarrow> (\<exists>p h'. mem_calloc count sz h = ret p h'))
    \<and> (\<forall>p s. live p = Some s \<longrightarrow> (\<exists>h'. mem_free p h = ret () h') \<and> (\<exists>q h'. mem_trim p sz h = ret q h'))"
proof -
  obtain bs where inv: "heap_inv h live bs" using run_inv [OF run] by blast
  then have h: "implements h bs" by (simp add: heap_inv_def)
  have "\<exists>q h'. mem_trim p sz h = ret q h'" if p: "live p = Some s" for p s
  proof -
    obtain pre m post where "bs = pre @ (m, True) # post" "p = ram h + of_nat (extent pre + 64)"
      using heap_invD [OF inv p] by blast
    then show ?thesis using mem_trim_implements [of h pre m post sz] mem_trim_refuses [of h pre m post sz] h not_le by blast
  qed
  then show ?thesis using malloc_returns [OF h] calloc_inv [OF inv] free_inv [OF inv] by blast
qed

lemma first_run: "\<exists>h. mem_init 0x1000 no_heap = ret () h \<and> heap_run h Map.empty"
proof -
  obtain h where h: "mem_init 0x1000 no_heap = ret () h" using first_heap by blast
  have "heap_run h Map.empty" by (rule run_init [OF _ _ h]) (simp_all add: no_heap_def no_stats_def)
  then show ?thesis using h by blast
qed

theorem heap_calls_return_witness: "\<exists>h p h'. mem_init 0x1000 no_heap = ret () h \<and> mem_calloc 3 7 h = ret p h'"
proof -
  obtain h where "mem_init 0x1000 no_heap = ret () h" "heap_run h Map.empty" using first_run by blast
  then show ?thesis using heap_calls_return [where h = h and live = Map.empty and count = 3 and sz = 7] by fastforce
qed

text \<open>
  C22. In every such history the areas in use are inside the heap, aligned to 64 octets and pairwise disjoint,
  and the statistics count exactly the octets of the used blocks.
\<close>

theorem heap_live_disjoint:
  assumes run: "heap_run h live" and p: "live p = Some s"
  shows "unat (ram h) + 64 \<le> unat p \<and> unat p + unat s \<le> unat (ram h) + 131072 \<and> 64 dvd unat p
    \<and> (\<forall>q t. live q = Some t \<longrightarrow> p \<noteq> q \<longrightarrow> unat p + unat s \<le> unat q \<or> unat q + unat t \<le> unat p)
    \<and> (\<exists>bs. implements h bs \<and> st_used (mem_stats h) = of_nat (used_size bs))"
proof -
  obtain bs where inv: "heap_inv h live bs" using run_inv [OF run] by blast
  then have h: "implements h bs" and l: "linked h bs" by (simp_all add: heap_inv_def implements_def)
  obtain t m where a: "(t, m) \<in> set (areas 0 bs)" "unat p = unat (ram h) + t + 64" "unat s + 64 \<le> m" "t + m \<le> 131072" "64 dvd t"
    using live_area [OF inv p] by blast
  have "64 dvd unat p" using a(2,5) h by (simp add: implements_def)
  moreover have "unat p + unat s \<le> unat q \<or> unat q + unat u \<le> unat p" if q: "live q = Some u" and ne: "p \<noteq> q" for q u
  proof -
    obtain t' m' where a': "(t', m') \<in> set (areas 0 bs)" "unat q = unat (ram h) + t' + 64" "unat u + 64 \<le> m'"
      using live_area [OF inv q] by blast
    have "t \<noteq> t'" using ne a(2) a'(2) by (auto simp: word_unat_eq_iff)
    then show ?thesis using areas_disjoint [OF a(1) a'(1)] linked_pos [OF l] a a' by auto
  qed
  moreover have "st_used (mem_stats h) = of_nat (used_size bs)" using l by (simp add: linked_def)
  ultimately show ?thesis using a h by auto
qed

theorem heap_live_disjoint_witness:
  "\<exists>h h1. mem_init 0x1000 no_heap = ret () h \<and> mem_malloc 100 h = ret 0x1040 h1 \<and> unat (ram h1) + 64 \<le> unat (0x1040 :: u32)"
proof -
  obtain h where h: "mem_init 0x1000 no_heap = ret () h" "heap_run h Map.empty" using first_run by blast
  moreover obtain h' where h': "mem_init 0x1000 no_heap = ret () h'" "ram h' = 0x1000" "implements h' [(131072, False)]" using first_heap by blast
  ultimately have eq: "h' = h" by (simp add: ret_def)
  have "alloc_blocks (unat (100 :: u32)) [(131072, False)] = Some (0, [(192, True), (130880, False)])"
    by (simp add: alloc_blocks_def data_size_def)
  then obtain h1 where m: "mem_malloc 100 h = ret 0x1040 h1" using mem_malloc_implements [OF h'(3), of 100] h'(2) eq by auto
  have "heap_run h1 [0x1040 \<mapsto> 100]" using run_malloc [OF h(2) _ m] by simp
  from heap_live_disjoint [OF this, of "0x1040" 100] show ?thesis using h(1) m by auto
qed

text \<open>
  C23. \<open>mem_free\<close> undoes \<open>mem_malloc\<close>: after an allocation that succeeds, freeing its pointer gives a heap that
  implements the very list of blocks of before, split or not.
\<close>

theorem malloc_free_restores:
  assumes "implements h bs" and "alloc_blocks (unat sz) bs = Some (off, bs')"
  shows "\<exists>h1 h2. mem_malloc sz h = ret (ram h + of_nat (off + 64)) h1 \<and> implements h1 bs'
    \<and> mem_free (ram h + of_nat (off + 64)) h1 = ret () h2 \<and> implements h2 bs"
  using assms by (rule malloc_free)

theorem malloc_free_restores_witness:
  "\<exists>h h1 h2. mem_init 0x1000 no_heap = ret () h \<and> mem_malloc 100 h = ret 0x1040 h1 \<and> mem_free 0x1040 h1 = ret () h2
    \<and> implements h2 [(131072, False)]"
proof -
  obtain h where h: "mem_init 0x1000 no_heap = ret () h" "ram h = 0x1000" "implements h [(131072, False)]" using first_heap by blast
  have "alloc_blocks (unat (100 :: u32)) [(131072, False)] = Some (0, [(192, True), (130880, False)])"
    by (simp add: alloc_blocks_def data_size_def)
  from malloc_free_restores [OF h(3) this] show ?thesis using h(1,2) by auto
qed

text \<open>
  The rounding of the requested size is not guarded: above \<open>2 ^ 32 - 64\<close> it wraps to zero, and \<open>mem_malloc\<close>
  returns a block with 64 octets of data instead of NULL.
\<close>

theorem malloc_wraps:
  assumes h: "implements h ((m, False) # bs)" and sz: "2 ^ 32 - 64 < unat sz" and m: "256 \<le> m"
  shows "\<exists>h'. mem_malloc sz h = ret (ram h + 64) h' \<and> implements h' ((128, True) # (m - 128, False) # bs)"
proof -
  have "(unat sz + 63) mod 2 ^ 32 = unat sz + 63 - 2 ^ 32"
    using sz unat_u32_lt [of sz] by (subst mod_if, subst mod_if) (auto simp del: unat_u32_lt)
  then have "data_size (unat sz) = 64" using sz unat_u32_lt [of sz] by (simp add: data_size_def del: unat_u32_lt)
  then have "alloc_blocks (unat sz) ((m, False) # bs) = Some (0, (128, True) # (m - 128, False) # bs)"
    using m sz by (auto simp: alloc_blocks_def)
  then show ?thesis using mem_malloc_implements [OF h, of sz] by auto
qed

theorem malloc_wraps_witness:
  "\<exists>h h'. mem_init 0x1000 no_heap = ret () h \<and> mem_malloc 0xFFFFFFF0 h = ret 0x1040 h' \<and> implements h' [(128, True), (130944, False)]"
proof -
  obtain h where h: "mem_init 0x1000 no_heap = ret () h" "ram h = 0x1000" "implements h [(131072, False)]" using first_heap by blast
  from malloc_wraps [OF h(3), of "0xFFFFFFF0"] show ?thesis using h(1,2) by auto
qed

section \<open>Packet buffers\<close>





text \<open>
  C26. In every such history every call returns: \<open>pbuf_alloc\<close> whatever it is asked for, and on a buffer that is held
  the release, the reference, the dechaining, the header change and the count of the buffers; joining two held buffers returns
  when their chains are disjoint. No loop runs for ever, and no call goes through a null pointer or to a
  buffer that went back to the heap (the struct of a free pool element stays in the memory of the pool, so reading it would not
  show as a fault here).
\<close>

theorem net_calls_return:
  assumes run: "net_run lay r cf s C" and p: "0 < C p"
  shows "(\<exists>x s'. pbuf_alloc cf layer len type s = ret x s') \<and> (\<exists>k s'. pbuf_free cf p s = ret k s') \<and> (\<exists>s'. pbuf_ref p s = ret () s')
    \<and> (\<exists>q s'. pbuf_dechain cf p s = ret q s') \<and> (\<exists>k s'. pbuf_header p inc s = ret k s') \<and> (\<exists>n. pbuf_clen p s = ret n s)
    \<and> (0 < C t \<and> chain s p ps \<and> chain s t ts \<and> set ps \<inter> set ts = {} \<longrightarrow>
        (\<exists>s'. pbuf_cat p t s = ret () s') \<and> (\<exists>s'. pbuf_chain p t s = ret () s'))"
  using run_alloc_returns [OF run] run_free_returns [OF run p] run_ref_returns [OF run p] run_dechain_returns [OF run p]
    run_header_returns [OF run p] run_clen_returns [OF run p] run_join_returns [OF run p] by blast

theorem net_calls_return_witness:
  "\<exists>s p s1 n. memory_init 0xC0000000 lay0 static0 = ret () s \<and> pbuf_alloc (\<lambda>_. ret ()) PBUF_RAW 100 PBUF_REF s = ret p s1
     \<and> pbuf_clen p s1 = ret n s1"
proof -
  obtain s p s1 where a: "memory_init 0xC0000000 lay0 static0 = ret () s" "pbuf_alloc (\<lambda>_. ret ()) PBUF_RAW 100 PBUF_REF s = ret p s1" "p \<noteq> 0"
    and run: "net_run lay0 0xC0000000 (\<lambda>_. ret ()) s1 ((\<lambda>_. 0)(p := 1))" using first_run0 by blast
  have "\<exists>n. pbuf_clen p s1 = ret n s1" using net_calls_return [OF run, of p] by auto
  then show ?thesis using a(1,2) by blast
qed

text \<open>
  C27. \<open>pbuf_alloc\<close> of every kind returns. When memory runs out, also in the middle of a chain, it returns NULL and
  nothing more is in use than before. Otherwise the result is a chain of buffers that were not in use, with counts of one, total lengths
  that add up to the request, and payloads inside the memory of their buffer behind its header when the buffer is aligned; the buffers in use before are
  untouched.
\<close>

theorem pbuf_alloc_builds:
  assumes inv: "net_inv lay r s live" and layer: "header_offset layer = Some off"
    and type: "type \<in> {PBUF_RAM, PBUF_ROM, PBUF_REF, PBUF_POOL}"
  shows "\<exists>x s'. pbuf_alloc cf layer len type s = ret x s'
    \<and> octs s' = octs s \<and> (\<forall>a\<in>dom live. pbs s' a = pbs s a \<and> links (npools s') a = links (npools s) a)
    \<and> (x = 0 \<and> net_inv lay r s' live
       \<or> (\<exists>qs live'. qs \<noteq> [] \<and> chain s' x qs \<and> net_inv lay r s' live' \<and> owned lay r s' live' qs \<and> set qs \<inter> dom live = {}
           \<and> dom live' = dom live \<union> set qs \<and> (\<forall>a\<in>dom live. live' a = live a) \<and> tots s' qs \<and> total_len s' qs = unat len
           \<and> (\<forall>q\<in>set qs. refs s' q = 1 \<and> (p_type (the_pb s' q) \<in> {PBUF_RAM, PBUF_POOL} \<longrightarrow> 64 dvd unat q \<longrightarrow>
                placed q (the (live' q)) (the_pb s' q)))))"
  using pbuf_alloc_runs [OF inv layer type, of cf len] unfolding allocated_def built_def by blast

theorem pbuf_alloc_builds_witness:
  "\<exists>x s'. pbuf_alloc (\<lambda>_. ret ()) PBUF_TRANSPORT 3000 PBUF_POOL net0 = ret x s' \<and> octs s' = octets0"
proof -
  have "header_offset PBUF_TRANSPORT = Some 56" by (simp add: header_offset_def)
  from pbuf_alloc_builds [OF net0_inv this, of PBUF_POOL "\<lambda>_. ret ()" 3000] show ?thesis by (auto simp: net0_def)
qed

text \<open>
  C28. The other comment of \<open>struct pbuf\<close>: "\<open>p->tot_len == p->len + (p->next? p->next->tot_len: 0)\<close>". \<open>pbuf_cat\<close>
  appends the second chain, and the total lengths of the result are right in every buffer, unless the sum does not fit into 16 bits.
\<close>

theorem pbuf_cat_joins_totals:
  assumes inv: "net_inv lay r s live" and hq: "chain s h (h # hs)" "owned lay r s live (h # hs)" "tots s (h # hs)"
    and tq: "chain s t (t # ts)" "owned lay r s live (t # ts)" "tots s (t # ts)" and disj: "set (h # hs) \<inter> set (t # ts) = {}"
    and len: "total_len s (h # hs) + total_len s (t # ts) < 65536"
  shows "\<exists>s'. pbuf_cat h t s = ret () s' \<and> net_inv lay r s' live \<and> chain s' h (h # hs @ t # ts)
    \<and> owned lay r s' live (h # hs @ t # ts) \<and> tots s' (h # hs @ t # ts)
    \<and> total_len s' (h # hs @ t # ts) = total_len s (h # hs) + total_len s (t # ts) \<and> (\<forall>q. refs s' q = refs s q)"
  by (rule pbuf_cat_joins [OF assms])

theorem pbuf_cat_joins_totals_witness:
  "\<exists>s'. pbuf_cat 0xC1090000 0xC1090E00 net0 = ret () s' \<and> tots s' [0xC1090000, 0xC1090700, 0xC1090E00]"
  using pbuf_cat_joins_totals [OF net0_inv net0_chains(1) net0_owned(1) net0_chains(3,2) net0_owned(2) net0_chains(4)] net0_lens
  by auto



text \<open>
  C30. \<open>pbuf_dechain\<close> undoes \<open>pbuf_chain\<close>: links, lengths and counts of all buffers are those of before, and the tail
  is returned, since its owner still holds it.
\<close>

theorem chain_dechain_undone:
  assumes h: "chain s h [h]" "tots s [h]" and t: "chain s t (t # ts)" "h \<noteq> t" and r: "0 < refs s t" "refs s t < 65535"
  shows "bnd (pbuf_chain h t) (\<lambda>_. pbuf_dechain cf h) s = ret t s"
  by (rule chain_dechain [OF assms])

theorem chain_dechain_undone_witness:
  "bnd (pbuf_chain 0xC1090E00 0xC1090000) (\<lambda>_. pbuf_dechain (\<lambda>_. ret ()) 0xC1090E00) net0 = ret 0xC1090000 net0"
  by (rule chain_dechain_undone [OF net0_chains(2,4,1)]) (simp_all add: net0_refs)

text \<open>
  C31. What \<open>pbuf_take\<close> writes into a chain, across its buffers, \<open>pbuf_copy_partial\<close> reads back octet for octet, and
  the first reports success and the second the whole length, for every chain whose payloads are disjoint from each other and from the two outside buffers.
\<close>

theorem take_copy_roundtrip:
  assumes ch: "chain s p (p # qs)" and tt: "tots s (p # qs)" and sp: "spread s (p # qs)" and m: "unat m \<le> total_len s (p # qs)"
    and d: "d \<noteq> 0" "space s (p # qs) \<inter> stretch d (unat m) = {}" and e: "e \<noteq> 0" "space s (p # qs) \<inter> stretch e (unat m) = {}"
  shows "\<exists>s1 s'. pbuf_take p d m s = ret ERR_OK s1 \<and> pbuf_copy_partial p e m 0 s1 = ret m s'
    \<and> octets_at (octs s') e (unat m) = octets_at (octs s) d (unat m)"
  by (rule take_copy_back [OF assms])

theorem take_copy_roundtrip_witness:
  "\<exists>s1 s'. pbuf_take 0xC1090000 0xC2000000 2 net0 = ret ERR_OK s1 \<and> pbuf_copy_partial 0xC1090000 0xC2001000 2 0 s1 = ret 2 s'
     \<and> octets_at (octs s') 0xC2001000 2 = [97, 98]"
proof -
  have "octets_at (octs net0) 0xC2000000 2 = [97, 98]" using net0_text by (simp add: net0_def)
  moreover have "spread net0 [0xC1090000, 0xC1090700]" by (rule laid_spread [OF net0_inv _ net0_laid]) simp
  ultimately show ?thesis
    using take_copy_roundtrip [OF net0_chains(1,3), of 2 "0xC2000000" "0xC2001000"] net0_lens net0_free by simp
qed



text \<open>
  C33. The copy inside \<open>pbuf_coalesce\<close> does not survive a chain that ends with an empty buffer \<open>e\<close>, although the target has
  room for all of it. The total length of the buffer before \<open>e\<close> is its own length, which \<open>pbuf_copy\<close> takes for the end of a
  packet queue: it stops with \<open>ERR_VAL\<close>, and writes nothing where the data of that buffer belongs. When the buffer before \<open>e\<close> is
  the first one, which is not tested, its data is copied, the target is exhausted and the loop reads the length of a null target.
  (\<open>pbuf_coalesce\<close> ignores the result and frees the chain.)
\<close>

theorem copy_stops_before_empty_end:
  assumes t: "chain s t [t]" "tots s [t]" and ch: "chain s p (p # qs @ [e])" and tt: "tots s (p # qs @ [e])"
    and room: "plen s t = total_len s (p # qs @ [e])" and e: "plen s e = 0" and data: "qs \<noteq> [] \<longrightarrow> 0 < plen s (last qs)"
  shows "if qs = [] then pbuf_copy t p s = Some (Inl NullDeref)
    else \<exists>f. pbuf_copy t p s = ret ERR_VAL (s\<lparr>octs := f\<rparr>)
      \<and> (\<forall>x. x \<notin> stretch (p_payload (the_pb s t)) (total_len s (p # butlast qs)) \<longrightarrow> f x = octs s x)"
proof (cases "qs = []")
  case True
  then show ?thesis using copy_empty_second [OF t, of p e] ch tt room e by simp
next
  case False
  then have qs: "p # qs @ [e] = p # butlast qs @ [last qs, e]" by simp
  show ?thesis
    using copy_queue_end [OF t ch [unfolded qs] tt [unfolded qs] room [unfolded qs] _ e] data False by simp
qed

text \<open>Two chains that end with an empty buffer: \<open>aa\<close> alone before it, and \<open>aa\<close> and \<open>b\<close>; a target for each.\<close>

definition empty_ends :: net where
  "empty_ends = net0\<lparr>
     npools := full_pools [0xC1090000 \<mapsto> 0xC1090700, 0xC1090700 \<mapsto> 0xC1091500, 0xC1091500 \<mapsto> 0, 0xC1090E00 \<mapsto> 0,
       0xC1091C00 \<mapsto> 0xC1092300, 0xC1092300 \<mapsto> 0, 0xC1092A00 \<mapsto> 0],
     pbs := [0xC1090000 \<mapsto> pool_pb 0xC1090000 3 2, 0xC1090700 \<mapsto> pool_pb 0xC1090700 1 1, 0xC1091500 \<mapsto> pool_pb 0xC1091500 0 0,
       0xC1090E00 \<mapsto> pool_pb 0xC1090E00 3 3, 0xC1091C00 \<mapsto> pool_pb 0xC1091C00 2 2, 0xC1092300 \<mapsto> pool_pb 0xC1092300 0 0,
       0xC1092A00 \<mapsto> pool_pb 0xC1092A00 2 2]\<rparr>"

theorem copy_stops_before_empty_end_witness:
  "pbuf_copy 0xC1092A00 0xC1091C00 empty_ends = Some (Inl NullDeref)
   \<and> (\<exists>f. pbuf_copy 0xC1090E00 0xC1090000 empty_ends = ret ERR_VAL (empty_ends\<lparr>octs := f\<rparr>) \<and> f 0xC1090E42 = 121)"
proof
  show "pbuf_copy 0xC1092A00 0xC1091C00 empty_ends = Some (Inl NullDeref)"
    using copy_stops_before_empty_end [of empty_ends "0xC1092A00" "0xC1091C00" "[]" "0xC1092300"]
    by (simp add: empty_ends_def full_pools_def pool_pb_def plen_def)
  have "0xC1090E42 \<notin> stretch 0xC1090E40 2" using stretch_range [of "0xC1090E40" 2 "0xC1090E42"] by auto
  then show "\<exists>f. pbuf_copy 0xC1090E00 0xC1090000 empty_ends = ret ERR_VAL (empty_ends\<lparr>octs := f\<rparr>) \<and> f 0xC1090E42 = 121"
    using copy_stops_before_empty_end [of empty_ends "0xC1090E00" "0xC1090000" "[0xC1090700]" "0xC1091500"]
    by (auto simp: empty_ends_def net0_def full_pools_def pool_pb_def plen_def octets0_def)
qed

text \<open>
  C34. However the chain is cut, \<open>pbuf_memcmp\<close> is the comparison of two lists of octets: the result is 0 exactly when
  they are equal, and otherwise one more than the length of their common prefix.
\<close>

theorem memcmp_compares:
  assumes ch: "chain s p qs" and small: "total_len s qs < 65536" and fits: "unat off + unat n \<le> total_len s qs" "unat off < total_len s qs"
  shows "\<exists>r. pbuf_memcmp p off s2 n s = ret r s
    \<and> compared (take (unat n) (drop (unat off) (contents s qs))) (octets_at (octs s) s2 (unat n)) r"
  by (rule pbuf_memcmp_runs [OF assms])

theorem memcmp_compares_witness: "pbuf_memcmp 0xC1090000 0 0xC2000000 2 net0 = ret 2 net0"
proof -
  have "octets_at (octs net0) 0xC2000000 2 = [97, 98]" using net0_text by (simp add: net0_def)
  moreover have "\<exists>r. pbuf_memcmp 0xC1090000 0 0xC2000000 2 net0 = ret r net0
      \<and> compared (take (unat (2 :: u16)) (drop (unat (0 :: u16)) (contents net0 [0xC1090000, 0xC1090700])))
          (octets_at (octs net0) 0xC2000000 (unat (2 :: u16))) r"
    by (rule memcmp_compares [OF net0_chains(1)]) (simp_all only: net0_lens, simp_all)
  ultimately obtain r where "pbuf_memcmp 0xC1090000 0 0xC2000000 2 net0 = ret r net0" "compared [97, 97] [97, 98] r"
    unfolding net0_content by auto
  moreover have "compared [97, 97] [97, 98] 2" by (simp add: compared_def)
  ultimately show ?thesis using compared_unique by blast
qed

text \<open>
  C35. \<open>pbuf_memfind\<close> ends on every chain and pattern that is not empty, and a position other than \<open>0xFFFF\<close> is one where
  the pattern occurs in the octets of the chain, not before the offset asked for.
\<close>

theorem memfind_sound:
  assumes ch: "chain s p (p # qs)" and tt: "tots s (p # qs)" and n: "0 < unat n"
  shows "\<exists>r. pbuf_memfind p mem n off s = ret r s
    \<and> (r = 0xFFFF \<or> unat off \<le> unat r \<and> occurs_at (octets_at (octs s) mem (unat n)) (unat r) (contents s (p # qs)))"
  by (rule pbuf_memfind_runs [OF assms])

theorem memfind_sound_witness: "\<exists>r. pbuf_memfind 0xC1090000 0xC2000000 2 1 net0 = ret r net0"
  using memfind_sound [OF net0_chains(1,3), of 2 "0xC2000000" 1] by auto

text \<open>
  C36. The search is not complete: after a mismatch it goes on behind the octet that differed, so it misses an
  occurrence that begins before it. In a chain with the octets \<open>x x y\<close> it does not find \<open>x y\<close>.
\<close>

theorem memfind_skips_match:
  assumes ch: "chain s p (p # qs)" and tt: "tots s (p # qs)" and c: "contents s (p # qs) = [x, x, y]"
    and pat: "octets_at (octs s) mem 2 = [x, y]" and ne: "x \<noteq> y"
  shows "pbuf_memfind p mem 2 0 s = ret 0xFFFF s \<and> occurs_at [x, y] 1 (contents s (p # qs))"
  unfolding c using memfind_skips [OF assms] by (simp add: occurs_at_def)

theorem memfind_skips_match_witness: "pbuf_memfind 0xC1090000 0xC2000000 2 0 net0 = ret 0xFFFF net0"
  using memfind_skips_match [OF net0_chains(1,3) net0_content, of "0xC2000000"] net0_text by (simp add: net0_def)

section \<open>The ASN.1 coder of the SNMP agent\<close>

text \<open>
  C37. Over any chain of buffers with room for five octets, the encoders of unsigned and signed integers and of
  lengths succeed with the length they announce, and the decoders read back the value that was written.
\<close>

theorem asn1_integers_roundtrip:
  assumes ok: "chain_ok p" and room: "unat ofs + 5 \<le> length (chain_octets p)"
  shows "(\<exists>p'. snmp_asn1_enc_u32t ofs (snmp_asn1_enc_u32t_cnt u) u p = ret ERR_OK p'
        \<and> snmp_asn1_dec_u32t ofs (snmp_asn1_enc_u32t_cnt u) u0 p' = ret (ERR_OK, u) p')
    \<and> (\<exists>p'. snmp_asn1_enc_s32t ofs (snmp_asn1_enc_s32t_cnt i) i p = ret ERR_OK p'
        \<and> snmp_asn1_dec_s32t ofs (snmp_asn1_enc_s32t_cnt i) i0 p' = ret (ERR_OK, i) p')
    \<and> (\<exists>p'. snmp_asn1_enc_length ofs l p = ret ERR_OK p'
        \<and> snmp_asn1_dec_length ofs k l0 p' = ret (ERR_OK, snmp_asn1_enc_length_cnt l, l) p')"
  using u32t_roundtrip [OF ok] s32t_roundtrip [OF ok] length_roundtrip [OF ok] room
    length_code_u32t [of u] length_code_s32t [of i] length_code_length [of l] by (meson add_left_mono le_trans)

definition two_buffers :: "pbuf list" where
  "two_buffers = [\<lparr>pb_payload = 0x1000, pb_octets = replicate 3 0\<rparr>, \<lparr>pb_payload = 0x2000, pb_octets = replicate 60 0\<rparr>]"

theorem asn1_integers_roundtrip_witness:
  "\<exists>p'. snmp_asn1_enc_u32t 1 (snmp_asn1_enc_u32t_cnt 0x80000000) 0x80000000 two_buffers = ret ERR_OK p'
     \<and> snmp_asn1_dec_u32t 1 (snmp_asn1_enc_u32t_cnt 0x80000000) 0 p' = ret (ERR_OK, 0x80000000) p'"
proof -
  have "chain_ok two_buffers" "unat (1 :: u16) + 5 \<le> length (chain_octets two_buffers)"
    by (simp_all add: two_buffers_def chain_ok_def)
  from asn1_integers_roundtrip [OF this, of "0x80000000" 0] show ?thesis by blast
qed

text \<open>
  C38. An object identifier of 3 to 32 non-negative parts whose first two are legal is written, at the length
  announced for it, and the decoder reads back the same identifier.
\<close>

theorem asn1_oid_roundtrip:
  assumes ok: "chain_ok p" and room: "unat ofs + unat (snmp_asn1_enc_oid_cnt ident) \<le> length (chain_octets p)"
    and ident: "3 \<le> length ident" "length ident \<le> LWIP_SNMP_OBJ_ID_LEN" "\<forall>v\<in>set ident. 0 \<le> sint v" "prefix_ok (ident ! 0) (ident ! 1)"
    and oid: "length (oid_id oid) = LWIP_SNMP_OBJ_ID_LEN"
  shows "\<exists>p' oid'. snmp_asn1_enc_oid ofs ident p = ret ERR_OK p'
    \<and> snmp_asn1_dec_oid ofs (snmp_asn1_enc_oid_cnt ident) oid p' = ret (ERR_OK, oid') p'
    \<and> take (oid_len oid') (oid_id oid') = ident"
proof -
  have cnt: "unat (snmp_asn1_enc_oid_cnt ident) = length (code_oid ident)" using enc_oid_cnt ident by simp
  let ?p = "overwrite (unat ofs) (code_oid ident) p"
  have enc: "snmp_asn1_enc_oid ofs ident p = ret ERR_OK ?p"
    using ident ok room cnt by (simp add: enc_oid_raw put_code_runs code_oid_def del: at_offset_eq)
  have h: "holds ?p (unat ofs) (code_oid ident)" using room cnt by (simp add: holds_overwrite)
  have "snmp_asn1_dec_oid ofs (snmp_asn1_enc_oid_cnt ident) oid ?p
      = ret (ERR_OK, oid\<lparr>oid_len := length ident, oid_id := ident @ drop (length ident) (oid_id oid)\<rparr>) ?p"
    using ident oid ok cnt h by (intro dec_oid_code) simp_all
  then show ?thesis using enc by (intro exI conjI) (assumption | simp)+
qed

theorem asn1_oid_roundtrip_witness:
  "\<exists>p' oid'. snmp_asn1_enc_oid 1 [1, 3, 6, 1, 300] two_buffers = ret ERR_OK p'
    \<and> snmp_asn1_dec_oid 1 (snmp_asn1_enc_oid_cnt [1, 3, 6, 1, 300]) \<lparr>oid_len = 0, oid_id = replicate 32 0\<rparr> p' = ret (ERR_OK, oid') p'
    \<and> take (oid_len oid') (oid_id oid') = [1, 3, 6, 1, 300]"
proof -
  have ok: "chain_ok two_buffers" and len: "length (chain_octets two_buffers) = 63"
    by (simp_all add: two_buffers_def chain_ok_def)
  have "unat (snmp_asn1_enc_oid_cnt [1, 3, 6, 1, 300]) = length (code_oid [1, 3, 6, 1, 300])"
    by (rule enc_oid_cnt) (simp_all add: LWIP_SNMP_OBJ_ID_LEN_def)
  also have "\<dots> \<le> 16" using length_code_oid [of "[1, 3, 6, 1, 300]"] by simp
  finally have "unat (1 :: u16) + unat (snmp_asn1_enc_oid_cnt [1, 3, 6, 1, 300]) \<le> length (chain_octets two_buffers)" using len by simp
  from asn1_oid_roundtrip [OF ok this] show ?thesis by (simp add: LWIP_SNMP_OBJ_ID_LEN_def prefix_ok_def)
qed

text \<open>
  C39. The decoders are safe on messages from the network. For every chain of buffers that are not empty (at most 65535 octets,
  the range of the offsets; an empty buffer makes the code read behind it), every offset and every announced length each of
  them returns. Every octet it reads lies in the payload of a buffer of the chain, and the chain is left as it was. Every part
  of an identifier is stored inside the array \<open>oid->id\<close> of 32 entries, and \<open>oid->len\<close> is at most 32 at the end, however
  many parts are announced; at most \<open>raw_len\<close> octets are stored through \<open>raw\<close>. (A read or a store outside is a fault.)
\<close>

theorem asn1_decoders_total:
  assumes ok: "chain_ok p" and oid: "length (oid_id oid) = LWIP_SNMP_OBJ_ID_LEN" "oid_len oid \<le> LWIP_SNMP_OBJ_ID_LEN"
  shows "(\<exists>r. snmp_asn1_dec_type ofs ty p = ret r p) \<and> (\<exists>r. snmp_asn1_dec_length ofs used l p = ret r p)
    \<and> (\<exists>r. snmp_asn1_dec_u32t ofs len u p = ret r p) \<and> (\<exists>r. snmp_asn1_dec_s32t ofs len i p = ret r p)
    \<and> (\<exists>e oid'. snmp_asn1_dec_oid ofs len oid p = ret (e, oid') p
         \<and> length (oid_id oid') = LWIP_SNMP_OBJ_ID_LEN \<and> oid_len oid' \<le> LWIP_SNMP_OBJ_ID_LEN)
    \<and> (\<exists>e raw. snmp_asn1_dec_raw ofs len raw_len p = ret (e, raw) p \<and> length raw \<le> unat raw_len)"
proof -
  have "oid_ok oid" using oid by (simp add: oid_ok_def)
  from decoders_return(5) [OF ok this, of ofs len] decoders_return(1-4,6) [OF ok] show ?thesis
    unfolding oid_ok_def by (metis prod.collapse)
qed

text \<open>An identifier of forty parts: it does not fit, and the array stays whole.\<close>

definition long_oid :: "pbuf list" where
  "long_oid = [\<lparr>pb_payload = 0, pb_octets = 0x2B # replicate 40 1\<rparr>]"

theorem asn1_decoders_total_witness:
  "\<exists>e oid'. snmp_asn1_dec_oid 0 41 \<lparr>oid_len = 0, oid_id = replicate 32 0\<rparr> long_oid = ret (e, oid') long_oid \<and> length (oid_id oid') = 32"
proof -
  have "chain_ok long_oid" by (simp add: long_oid_def chain_ok_def)
  from asn1_decoders_total [OF this, where ofs = 0 and len = 41 and oid = "\<lparr>oid_len = 0, oid_id = replicate 32 0\<rparr>"]
  show ?thesis unfolding LWIP_SNMP_OBJ_ID_LEN_def by fastforce
qed

section \<open>The debug UART\<close>





end
